(* ===== verification/Xs_Prelude.thy ===== *)
theory Xs_Prelude
  imports Main "HOL-Library.Word" "HOL-Library.Monad_Syntax"
begin

text \<open>
  Shared ground of the xstack.io development.

  The C program is modelled by functions of type \<open>'a option\<close> wherever an execution may fail to
  return: \<open>None\<close> is undefined behaviour (a NULL dereference, a write outside an object, a division
  by zero) or an endless loop, \<open>Some r\<close> is a normal return. Error codes are ordinary values of the
  C type \<open>int\<close>. Sequencing is the option monad, written with \<open>do\<close>.

  This theory holds the C integer types; the byte-order functions, buffers and error numbers are in
  the theory \<open>Wire\<close>.
\<close>

named_theorems wire_simps \<open>byte order and buffer access\<close>
named_theorems cint_simps \<open>C integer conversions\<close>

unbundle bit_operations_syntax

section \<open>C types\<close>

type_synonym u8 = "8 word"
type_synonym u16 = "16 word"
type_synonym u32 = "32 word"
type_synonym size_t = "64 word"
type_synonym byte = u8
type_synonym bytes = "byte list"

text \<open>A pointer to an element of an array or of the heap: its index, or \<open>None\<close> for NULL.\<close>

type_synonym ptr = "nat option"

text \<open>Conversion of an unsigned value to \<^verbatim>\<open>int\<close> (two's complement, 32 bits).\<close>

definition int_of_size :: "size_t \<Rightarrow> int" where
  "int_of_size w = sint (ucast w :: u32)"

lemma int_of_size_small [cint_simps]:
  "unat w < 2 ^ 31 \<Longrightarrow> int_of_size w = int (unat w)"
proof -
  assume "unat w < 2 ^ 31"
  then have "int (unat w) < int (2 ^ 31)"
    by (simp only: of_nat_less_iff)
  then have "uint w < 2 ^ 31"
    by simp
  moreover have "- (2 ^ 31) \<le> uint w"
    by (rule order_trans [OF _ uint_ge_0]) simp
  ultimately have "take_bit 32 (uint w) = uint w" and "signed_take_bit 31 (uint w) = uint w"
    by (simp_all add: take_bit_int_eq_self signed_take_bit_int_eq_self)
  then show ?thesis
    by (simp add: int_of_size_def sint_uint unsigned_ucast_eq)
qed

end
