(* ===== verification/Fifo_Spec.thy ===== *)
theory Fifo_Spec
  imports Main
begin

text \<open>
  The contract of the program's two ring buffers (the socket queues of \<^verbatim>\<open>util/queue_r.c\<close> and the
  deferred-packet ring of \<^verbatim>\<open>src/ip_defer.c\<close>): a bounded first-in first-out queue seen through its
  contents. \<open>bounded_fifo\<close> is a ring of the elements themselves, with \<open>put\<close> as one attempt to enqueue that gives
  \<open>None\<close> when it is refused; \<open>bounded_store\<close> is one that copies an element into a slot.
\<close>

fun put_all :: "('a \<Rightarrow> 'q \<Rightarrow> 'q option) \<Rightarrow> 'a list \<Rightarrow> 'q \<Rightarrow> 'q option" where
  "put_all put [] q = Some q"
| "put_all put (x # xs) q = (case put x q of None \<Rightarrow> None | Some q' \<Rightarrow> put_all put xs q')"

fun drain :: "('q \<Rightarrow> 'a option) \<Rightarrow> ('q \<Rightarrow> 'q) \<Rightarrow> nat \<Rightarrow> 'q \<Rightarrow> 'a list \<times> 'q" where
  "drain peek discard 0 q = ([], q)"
| "drain peek discard (Suc n) q =
     (case peek q of
        None \<Rightarrow> ([], q)
      | Some x \<Rightarrow> (let (xs, q') = drain peek discard n (discard q) in (x # xs, q')))"

text \<open>The reading end, which both rings share.\<close>

locale fifo_ring =
  fixes inv :: "'q \<Rightarrow> bool"
    and cap :: "'q \<Rightarrow> nat"
    and contents :: "'q \<Rightarrow> 'b list"
    and peek :: "'q \<Rightarrow> 'b option"
    and discard :: "'q \<Rightarrow> 'q"
  assumes peek_head: "inv q \<Longrightarrow> peek q = (case contents q of [] \<Rightarrow> None | x # _ \<Rightarrow> Some x)"
    and discard_tail: "inv q \<Longrightarrow> inv (discard q) \<and> contents (discard q) = tl (contents q) \<and>
      cap (discard q) = cap q"
    and within_cap: "inv q \<Longrightarrow> length (contents q) \<le> cap q"
begin

lemma drain_contents:
  "inv q \<Longrightarrow> inv (snd (drain peek discard n q)) \<and> fst (drain peek discard n q) = take n (contents q) \<and>
    contents (snd (drain peek discard n q)) = drop n (contents q)"
proof (induction n arbitrary: q)
  case (Suc n)
  note d = discard_tail [OF Suc.prems]
  show ?case
  proof (cases "contents q")
    case Nil
    then show ?thesis using Suc.prems peek_head [of q] by simp
  next
    case (Cons x xs)
    then show ?thesis
      using Suc.IH [of "discard q"] d peek_head [OF Suc.prems]
      by (auto simp: split_beta drop_Suc)
  qed
qed simp

end

locale bounded_fifo = fifo_ring inv cap contents peek discard
  for inv :: "'q \<Rightarrow> bool"
    and cap :: "'q \<Rightarrow> nat"
    and contents :: "'q \<Rightarrow> 'a list"
    and put :: "'a \<Rightarrow> 'q \<Rightarrow> 'q option"
    and peek :: "'q \<Rightarrow> 'a option"
    and discard :: "'q \<Rightarrow> 'q" +
  assumes put_room: "inv q \<Longrightarrow> length (contents q) < cap q \<Longrightarrow>
      \<exists>q'. put x q = Some q' \<and> inv q' \<and> contents q' = contents q @ [x] \<and> cap q' = cap q"
    and put_full: "inv q \<Longrightarrow> cap q \<le> length (contents q) \<Longrightarrow> put x q = None"
begin

lemma put_all_room:
  "inv q \<Longrightarrow> length (contents q) + length xs \<le> cap q \<Longrightarrow>
   \<exists>q'. put_all put xs q = Some q' \<and> inv q' \<and> contents q' = contents q @ xs \<and> cap q' = cap q"
proof (induction xs arbitrary: q)
  case (Cons x xs)
  then obtain q1 where q1: "put x q = Some q1" "inv q1" "contents q1 = contents q @ [x]"
    "cap q1 = cap q"
    using put_room [of q x] by auto
  with Cons.IH [of q1] Cons.prems show ?case by auto
qed simp

lemma put_all_overflow:
  "inv q \<Longrightarrow> cap q < length (contents q) + length xs \<Longrightarrow> put_all put xs q = None"
proof (induction xs arbitrary: q)
  case (Cons x xs)
  show ?case
  proof (cases "cap q \<le> length (contents q)")
    case False
    then obtain q1 where q1: "put x q = Some q1" "inv q1" "contents q1 = contents q @ [x]"
      "cap q1 = cap q"
      using put_room [of q x] Cons.prems(1) by auto
    with Cons.IH [of q1] Cons.prems show ?thesis by auto
  qed (use Cons.prems put_full in simp)
qed (use within_cap in \<open>auto simp: not_less [symmetric]\<close>)

text \<open>Whatever is put into an empty queue within its capacity comes out, once and in order.\<close>

lemma fifo_order:
  assumes "inv q" "contents q = []" "length xs \<le> cap q"
  shows "\<exists>q'. put_all put xs q = Some q' \<and> fst (drain peek discard (length xs) q') = xs \<and>
    contents (snd (drain peek discard (length xs) q')) = []"
proof -
  obtain q' where "put_all put xs q = Some q'" "inv q'" "contents q' = xs"
    using put_all_room [of q xs] assms by auto
  then show ?thesis using drain_contents [of q' "length xs"] by auto
qed

end

text \<open>A ring whose slots keep more or less than what is handed over: \<open>stored x y\<close> says that the slot \<open>y\<close> holds the
  element \<open>x\<close>. A push tells by its result whether it was refused, because the ring is full or because the
  element does not fit a slot, and then changes nothing.\<close>

fun push_each :: "('a \<Rightarrow> 'q \<Rightarrow> int \<times> 'q) \<Rightarrow> 'a list \<Rightarrow> 'q \<Rightarrow> int list \<times> 'q" where
  "push_each push [] q = ([], q)"
| "push_each push (x # xs) q = (let (r, q) = push x q; (rs, q) = push_each push xs q in (r # rs, q))"

text \<open>The results to expect with room for \<open>n\<close> more elements, and the elements that get in.\<close>

fun push_results :: "('a \<Rightarrow> bool) \<Rightarrow> int \<Rightarrow> int \<Rightarrow> nat \<Rightarrow> 'a list \<Rightarrow> int list" where
  "push_results fits full big n [] = []"
| "push_results fits full big n (x # xs) =
     (if n = 0 then full # push_results fits full big n xs
      else if fits x then 0 # push_results fits full big (n - 1) xs
      else big # push_results fits full big n xs)"

locale bounded_store = fifo_ring inv cap contents peek discard
  for inv :: "'q \<Rightarrow> bool"
    and cap :: "'q \<Rightarrow> nat"
    and contents :: "'q \<Rightarrow> 'b list"
    and push :: "'a \<Rightarrow> 'q \<Rightarrow> int \<times> 'q"
    and fits :: "'a \<Rightarrow> bool"
    and stored :: "'a \<Rightarrow> 'b \<Rightarrow> bool"
    and full :: int
    and big :: int
    and peek :: "'q \<Rightarrow> 'b option"
    and discard :: "'q \<Rightarrow> 'q" +
  assumes push_room: "inv q \<Longrightarrow> length (contents q) < cap q \<Longrightarrow> fits x \<Longrightarrow>
      \<exists>q' y. push x q = (0, q') \<and> inv q' \<and> contents q' = contents q @ [y] \<and> stored x y \<and> cap q' = cap q"
    and push_full: "inv q \<Longrightarrow> cap q \<le> length (contents q) \<Longrightarrow> push x q = (full, q)"
    and push_big: "inv q \<Longrightarrow> length (contents q) < cap q \<Longrightarrow> \<not> fits x \<Longrightarrow> push x q = (big, q)"
begin

lemma push_each_stores:
  assumes "inv q"
  shows "\<exists>q' ys. push_each push xs q = (push_results fits full big (cap q - length (contents q)) xs, q') \<and> inv q' \<and>
    contents q' = contents q @ ys \<and> list_all2 stored (take (cap q - length (contents q)) (filter fits xs)) ys"
  using assms
proof (induction xs arbitrary: q)
  case (Cons x xs)
  consider (full) "cap q \<le> length (contents q)" | (big) "length (contents q) < cap q" "\<not> fits x"
    | (room) "length (contents q) < cap q" "fits x" by linarith
  then show ?case
  proof cases
    case full
    then show ?thesis using Cons.IH [OF Cons.prems] push_full [OF Cons.prems full, of x] by auto
  next
    case big
    then show ?thesis using Cons.IH [OF Cons.prems] push_big [OF Cons.prems big] by auto
  next
    case room
    obtain q1 y where q1: "push x q = (0, q1)" "inv q1" "contents q1 = contents q @ [y]" "stored x y" "cap q1 = cap q"
      using push_room [OF Cons.prems room] by blast
    have n: "cap q - length (contents q) = Suc (cap q1 - length (contents q1))" using q1(3,5) room(1) by simp
    show ?thesis using Cons.IH [OF q1(2)] q1 room(2) unfolding n by auto
  qed
qed simp

text \<open>What is pushed into an empty ring is refused or comes out, once and in order.\<close>

lemma store_order:
  assumes "inv q" "contents q = []"
  shows "\<exists>q'. push_each push xs q = (push_results fits full big (cap q) xs, q') \<and>
    list_all2 stored (take (cap q) (filter fits xs)) (fst (drain peek discard (length xs) q'))"
proof -
  obtain q' where q': "push_each push xs q = (push_results fits full big (cap q) xs, q')" "inv q'"
    "list_all2 stored (take (cap q) (filter fits xs)) (contents q')"
    using push_each_stores [OF assms(1), of xs] assms(2) by auto
  have "length (contents q') = min (length (filter fits xs)) (cap q)" using list_all2_lengthD [OF q'(3)] by simp
  also have "\<dots> \<le> length (filter fits xs)" by (rule min.cobounded1)
  finally have "length (contents q') \<le> length xs" using length_filter_le by (rule order_trans)
  then show ?thesis using drain_contents [OF q'(2), of "length xs"] q'(1,3) by simp
qed

end

end
