(* ===== verification/Queue_R.thy ===== *)
theory Queue_R
  imports Xs_Prelude Fifo_Spec
begin

text \<open>
  The lock-free ring queue of \<^verbatim>\<open>include/queue_r.h\<close> and \<^verbatim>\<open>util/queue_r.c\<close>: a control block with
  a read and a write index over an array of equal blocks that lives elsewhere (in the shared memory of
  a socket). The producer calls \<open>queue_alloc\<close>, fills the block at the returned byte offset and calls
  \<open>queue_commit\<close>; the consumer calls \<open>queue_peek\<close>, reads the block and calls \<open>queue_discard\<close>.

  The theory proves that the ring, together with the array it indexes, is a bounded FIFO
  (interpretation of the locale \<open>bounded_fifo\<close>), and that with one producer and one consumer whose
  steps interleave arbitrarily no block is lost, reordered or overwritten while it may be read.
\<close>

section \<open>The control block and its operations\<close>

record queue_cb =
  b_size :: size_t
  a_len :: size_t
  m_write :: size_t
  m_read :: size_t

text \<open>\<open>array_size / block_size\<close> traps when \<open>block_size\<close> is zero, and so do the operations
  that take a remainder by \<open>a_len\<close> when it is zero.\<close>

definition queue_create :: "size_t \<Rightarrow> size_t \<Rightarrow> queue_cb option" where
  "queue_create block_size array_size =
     (if block_size = 0 then None
      else Some \<lparr>b_size = block_size, a_len = array_size div block_size, m_write = 0, m_read = 0\<rparr>)"

definition queue_alloc :: "queue_cb \<Rightarrow> int option" where
  "queue_alloc cb =
     (if a_len cb = 0 then None
      else let write = m_write cb;
               next_element = (write + 1) mod a_len cb
           in if next_element = m_read cb then Some (-1)
              else Some (int_of_size (write * b_size cb)))"

definition queue_commit :: "queue_cb \<Rightarrow> queue_cb option" where
  "queue_commit cb =
     (if a_len cb = 0 then None
      else let next_element = (m_write cb + 1) mod a_len cb
           in Some (cb\<lparr>m_write := next_element\<rparr>))"

text \<open>\<open>queue_peek\<close> returns 0 and leaves \<open>*index\<close> alone on an empty queue (here: no index), and
  returns 1 with the byte offset of the oldest element otherwise.\<close>

definition queue_peek :: "queue_cb \<Rightarrow> int \<times> int option" where
  "queue_peek cb =
     (let read = m_read cb
      in if read = m_write cb then (0, None)
         else (1, Some (int_of_size (read * b_size cb))))"

fun queue_discard_loop :: "nat \<Rightarrow> nat \<Rightarrow> queue_cb \<Rightarrow> (queue_cb \<times> nat) option" where
  "queue_discard_loop 0 count cb = Some (cb, count)"
| "queue_discard_loop (Suc k) count cb =
     (let read = m_read cb
      in if read = m_write cb then Some (cb, count)
         else if a_len cb = 0 then None
         else queue_discard_loop k (Suc count) (cb\<lparr>m_read := (read + 1) mod a_len cb\<rparr>))"

definition queue_discard :: "queue_cb \<Rightarrow> size_t \<Rightarrow> (queue_cb \<times> nat) option" where
  "queue_discard cb n = queue_discard_loop (unat n) 0 cb"

definition queue_clear_from_push_end :: "queue_cb \<Rightarrow> queue_cb" where
  "queue_clear_from_push_end cb = cb\<lparr>m_write := m_read cb\<rparr>"

definition queue_clear_from_pop_end :: "queue_cb \<Rightarrow> queue_cb" where
  "queue_clear_from_pop_end cb = cb\<lparr>m_read := m_write cb\<rparr>"

definition queue_isempty :: "queue_cb \<Rightarrow> bool" where
  "queue_isempty cb = (m_write cb = m_read cb)"

definition queue_isfull :: "queue_cb \<Rightarrow> bool option" where
  "queue_isfull cb =
     (if a_len cb = 0 then None else Some ((m_write cb + 1) mod a_len cb = m_read cb))"

section \<open>Well-formed control blocks and the slots they hold\<close>

text \<open>Every byte offset of the array must fit the \<^verbatim>\<open>int\<close> that \<open>queue_alloc\<close> returns.\<close>

definition queue_wf :: "queue_cb \<Rightarrow> bool" where
  "queue_wf cb \<longleftrightarrow> 0 < unat (b_size cb) \<and> 0 < unat (a_len cb) \<and>
     unat (a_len cb) * unat (b_size cb) < 2 ^ 31 \<and>
     unat (m_read cb) < unat (a_len cb) \<and> unat (m_write cb) < unat (a_len cb)"

definition queue_count :: "queue_cb \<Rightarrow> nat" where
  "queue_count cb =
     (unat (m_write cb) + unat (a_len cb) - unat (m_read cb)) mod unat (a_len cb)"

definition queue_slot :: "queue_cb \<Rightarrow> nat \<Rightarrow> nat" where
  "queue_slot cb i = (unat (m_read cb) + i) mod unat (a_len cb)"

text \<open>The byte offsets of the elements in the queue, oldest first.\<close>

definition queue_offsets :: "queue_cb \<Rightarrow> int list" where
  "queue_offsets cb = map (\<lambda>i. int (queue_slot cb i * unat (b_size cb))) [0..<queue_count cb]"

lemma mod_twice: "(a::nat) < 2 * n \<Longrightarrow> a mod n = (if a < n then a else a - n)"
  by (simp add: le_mod_geq)

lemma queue_wf_len: "queue_wf cb \<Longrightarrow> unat (a_len cb) < 2 ^ 31"
  unfolding queue_wf_def
  by (metis (no_types, lifting) One_nat_def Suc_leI le_trans linorder_not_le mult.right_neutral
      mult_le_mono2)

lemma queue_next [cint_simps]:
  assumes "queue_wf cb" and "unat w < unat (a_len cb)"
  shows "unat ((w + 1) mod a_len cb) = (unat w + 1) mod unat (a_len cb)"
proof -
  have "unat w + unat (1::size_t) < 2 ^ LENGTH(64)"
    using queue_wf_len [OF assms(1)] assms(2) by simp
  then have "unat (w + 1) = unat w + 1"
    using unat_add_lem [of w 1] by simp
  then show ?thesis by (simp add: unat_mod_distrib)
qed

lemma queue_offset [cint_simps]:
  assumes "queue_wf cb" and "unat w < unat (a_len cb)"
  shows "int_of_size (w * b_size cb) = int (unat w * unat (b_size cb))"
proof -
  have "unat w * unat (b_size cb) \<le> unat (a_len cb) * unat (b_size cb)"
    using assms(2) by simp
  also have "\<dots> < 2 ^ 31" using assms(1) by (simp add: queue_wf_def)
  finally have b: "unat w * unat (b_size cb) < 2 ^ 31" .
  then have "unat (w * b_size cb) = unat w * unat (b_size cb)"
    using unat_mult_lem [of w "b_size cb"] by simp
  with b show ?thesis by (simp add: int_of_size_small)
qed

lemma queue_count_cases:
  assumes "queue_wf cb"
  shows "queue_count cb =
    (if unat (m_read cb) \<le> unat (m_write cb) then unat (m_write cb) - unat (m_read cb)
     else unat (m_write cb) + unat (a_len cb) - unat (m_read cb))"
  using assms unfolding queue_count_def queue_wf_def by (auto simp: mod_twice)

lemma queue_count_less: "queue_wf cb \<Longrightarrow> queue_count cb < unat (a_len cb)"
  by (simp add: queue_count_def queue_wf_def)

lemma queue_empty_iff: "queue_wf cb \<Longrightarrow> m_read cb = m_write cb \<longleftrightarrow> queue_count cb = 0"
  by (auto simp: queue_count_cases queue_wf_def word_unat_eq_iff)

lemma queue_full_iff:
  assumes "queue_wf cb"
  shows "(m_write cb + 1) mod a_len cb = m_read cb \<longleftrightarrow> Suc (queue_count cb) = unat (a_len cb)"
proof -
  have w: "unat (m_write cb) < unat (a_len cb)" and r: "unat (m_read cb) < unat (a_len cb)"
    using assms by (auto simp: queue_wf_def)
  have "(m_write cb + 1) mod a_len cb = m_read cb \<longleftrightarrow>
        (unat (m_write cb) + 1) mod unat (a_len cb) = unat (m_read cb)"
    using queue_next [OF assms w] by (simp add: word_unat_eq_iff)
  also have "\<dots> \<longleftrightarrow> Suc (queue_count cb) = unat (a_len cb)"
    using w r by (auto simp: queue_count_cases [OF assms] mod_twice)
  finally show ?thesis .
qed

text \<open>The block the producer may fill is the one at the write index.\<close>

definition write_offset :: "queue_cb \<Rightarrow> int" where
  "write_offset cb = int (unat (m_write cb) * unat (b_size cb))"

lemma write_slot: "queue_wf cb \<Longrightarrow> queue_slot cb (queue_count cb) = unat (m_write cb)"
  unfolding queue_slot_def by (auto simp: queue_count_cases queue_wf_def mod_twice)

lemma queue_slot_inj:
  assumes "queue_wf cb" "i < unat (a_len cb)" "j < unat (a_len cb)" "queue_slot cb i = queue_slot cb j"
  shows "i = j"
  using assms unfolding queue_slot_def queue_wf_def
  by (auto simp: mod_twice split: if_splits)

lemma write_offset_fresh:
  assumes "queue_wf cb"
  shows "write_offset cb \<notin> set (queue_offsets cb)"
proof
  assume "write_offset cb \<in> set (queue_offsets cb)"
  then obtain i where i: "i < queue_count cb"
    and e: "int (unat (m_write cb) * unat (b_size cb)) = int (queue_slot cb i * unat (b_size cb))"
    unfolding write_offset_def queue_offsets_def by auto
  from e have "unat (m_write cb) * unat (b_size cb) = queue_slot cb i * unat (b_size cb)"
    by (simp only: of_nat_eq_iff)
  then have "queue_slot cb (queue_count cb) = queue_slot cb i"
    using assms by (simp add: write_slot [OF assms] queue_wf_def)
  then have "queue_count cb = i"
    using i queue_count_less [OF assms] queue_slot_inj [OF assms, of "queue_count cb" i] by simp
  with i show False by simp
qed

lemma queue_commit_wf:
  assumes "queue_wf cb" and "Suc (queue_count cb) < unat (a_len cb)"
  obtains cb' where "queue_commit cb = Some cb'" "queue_wf cb'"
    "a_len cb' = a_len cb" "b_size cb' = b_size cb" "m_read cb' = m_read cb"
    "queue_count cb' = Suc (queue_count cb)"
    "queue_offsets cb' = queue_offsets cb @ [write_offset cb]"
proof
  define cb' where "cb' = cb\<lparr>m_write := (m_write cb + 1) mod a_len cb\<rparr>"
  have a0: "a_len cb \<noteq> 0" using assms(1) by (auto simp: queue_wf_def)
  show "queue_commit cb = Some cb'"
    using a0 by (simp add: queue_commit_def cb'_def)
  have w: "unat (m_write cb) < unat (a_len cb)" using assms(1) by (simp add: queue_wf_def)
  have wu: "unat (m_write cb') = (unat (m_write cb) + 1) mod unat (a_len cb)"
    unfolding cb'_def using queue_next [OF assms(1) w] by simp
  show wf: "queue_wf cb'"
    using assms(1) wu unfolding queue_wf_def by (auto simp: cb'_def)
  show cnt: "queue_count cb' = Suc (queue_count cb)"
    using assms w wu unfolding queue_count_cases [OF wf] queue_count_cases [OF assms(1)]
    by (auto simp: cb'_def mod_twice queue_wf_def split: if_splits)
  show eqs: "a_len cb' = a_len cb" "b_size cb' = b_size cb" "m_read cb' = m_read cb"
    by (simp_all add: cb'_def)
  then have "queue_slot cb' = queue_slot cb" by (auto simp: queue_slot_def)
  then show "queue_offsets cb' = queue_offsets cb @ [write_offset cb]"
    unfolding queue_offsets_def cnt write_offset_def eqs by (simp add: write_slot [OF assms(1)])
qed

lemma queue_discard_one:
  assumes "queue_wf cb" and "queue_count cb \<noteq> 0"
  obtains cb' where "queue_discard cb 1 = Some (cb', 1)" "queue_wf cb'"
    "a_len cb' = a_len cb" "b_size cb' = b_size cb" "m_write cb' = m_write cb"
    "Suc (queue_count cb') = queue_count cb" "queue_offsets cb' = tl (queue_offsets cb)"
proof
  define cb' where "cb' = cb\<lparr>m_read := (m_read cb + 1) mod a_len cb\<rparr>"
  have a0: "a_len cb \<noteq> 0" using assms(1) by (auto simp: queue_wf_def)
  have ne: "m_read cb \<noteq> m_write cb" using assms(2) queue_empty_iff [OF assms(1)] by simp
  show "queue_discard cb 1 = Some (cb', 1)"
    using a0 ne unfolding queue_discard_def cb'_def unat_1 One_nat_def
    by (simp only: queue_discard_loop.simps Let_def if_False)
  have r: "unat (m_read cb) < unat (a_len cb)" using assms(1) by (simp add: queue_wf_def)
  have ru: "unat (m_read cb') = (unat (m_read cb) + 1) mod unat (a_len cb)"
    unfolding cb'_def using queue_next [OF assms(1) r] by simp
  show wf: "queue_wf cb'"
    using assms(1) ru unfolding queue_wf_def by (auto simp: cb'_def)
  show eqs: "a_len cb' = a_len cb" "b_size cb' = b_size cb" "m_write cb' = m_write cb"
    by (simp_all add: cb'_def)
  show cnt: "Suc (queue_count cb') = queue_count cb"
    using assms r ru eqs unfolding queue_count_cases [OF wf] queue_count_cases [OF assms(1)]
    by (auto simp: mod_twice queue_wf_def split: if_splits)
  have slot: "queue_slot cb' i = queue_slot cb (Suc i)" for i
    by (simp add: queue_slot_def ru eqs mod_add_left_eq)
  show "queue_offsets cb' = tl (queue_offsets cb)"
    unfolding queue_offsets_def cnt [symmetric] upt_conv_Cons [OF zero_less_Suc] slot eqs
    by (simp only: list.map list.sel map_Suc_upt [symmetric] list.map_comp comp_def)
qed

lemma queue_discard_empty:
  "queue_wf cb \<Longrightarrow> queue_count cb = 0 \<Longrightarrow> queue_discard cb 1 = Some (cb, 0)"
  using queue_empty_iff [of cb] by (simp add: queue_discard_def)

lemma queue_alloc_room:
  assumes "queue_wf cb"
  shows "queue_alloc cb =
    Some (if Suc (queue_count cb) < unat (a_len cb) then write_offset cb else - 1)"
proof -
  have "a_len cb \<noteq> 0" and w: "unat (m_write cb) < unat (a_len cb)"
    using assms by (auto simp: queue_wf_def)
  then show ?thesis
    using queue_full_iff [OF assms] queue_offset [OF assms w] queue_count_less [OF assms]
    by (auto simp: queue_alloc_def write_offset_def Let_def)
qed

lemma queue_peek_hd:
  assumes "queue_wf cb"
  shows "queue_peek cb =
    (if queue_count cb = 0 then (0, None) else (1, Some (hd (queue_offsets cb))))"
proof -
  have r: "unat (m_read cb) < unat (a_len cb)" using assms by (simp add: queue_wf_def)
  have "queue_count cb \<noteq> 0 \<Longrightarrow>
      hd (queue_offsets cb) = int (unat (m_read cb) * unat (b_size cb))"
    using r by (simp add: queue_offsets_def queue_slot_def hd_map)
  then show ?thesis
    using queue_empty_iff [OF assms] queue_offset [OF assms r]
    by (auto simp: queue_peek_def Let_def)
qed

lemma length_queue_offsets [simp]: "length (queue_offsets cb) = queue_count cb"
  by (simp add: queue_offsets_def)

section \<open>The ring with its array is a bounded FIFO\<close>

text \<open>The array is a map from byte offsets to blocks. One enqueue attempt of
  \<open>xstack_sock_dgram_input\<close> and \<open>xstack_sendto\<close>: allocate, fill the block, commit.\<close>

type_synonym 'a ring = "queue_cb \<times> (int \<Rightarrow> 'a)"

fun ring_put :: "'a \<Rightarrow> 'a ring \<Rightarrow> 'a ring option" where
  "ring_put x (cb, mem) = do {
     off \<leftarrow> queue_alloc cb;
     if off = -1 then None
     else do { cb' \<leftarrow> queue_commit cb; Some (cb', mem(off := x)) }
   }"

fun ring_peek :: "'a ring \<Rightarrow> 'a option" where
  "ring_peek (cb, mem) = map_option mem (snd (queue_peek cb))"

fun ring_discard :: "'a ring \<Rightarrow> 'a ring" where
  "ring_discard (cb, mem) = (case queue_discard cb 1 of None \<Rightarrow> (cb, mem) | Some (cb', n) \<Rightarrow> (cb', mem))"

fun ring_contents :: "'a ring \<Rightarrow> 'a list" where
  "ring_contents (cb, mem) = map mem (queue_offsets cb)"

fun ring_wf :: "'a ring \<Rightarrow> bool" where
  "ring_wf (cb, mem) = queue_wf cb"

fun ring_cap :: "'a ring \<Rightarrow> nat" where
  "ring_cap (cb, mem) = unat (a_len cb) - 1"

lemma ring_put_room:
  assumes "ring_wf q" "length (ring_contents q) < ring_cap q"
  shows "\<exists>q'. ring_put x q = Some q' \<and> ring_wf q' \<and> ring_contents q' = ring_contents q @ [x] \<and>
    ring_cap q' = ring_cap q"
proof (cases q)
  case (Pair cb mem)
  with assms have wf: "queue_wf cb" and room: "Suc (queue_count cb) < unat (a_len cb)" by auto
  obtain cb' where cb': "queue_commit cb = Some cb'" "queue_wf cb'" "a_len cb' = a_len cb"
    "queue_offsets cb' = queue_offsets cb @ [write_offset cb]"
    using queue_commit_wf [OF wf room] by metis
  have "0 \<le> write_offset cb" unfolding write_offset_def by (rule of_nat_0_le_iff)
  then have "write_offset cb \<noteq> - 1" by simp
  moreover have "map (mem(write_offset cb := x)) (queue_offsets cb) = map mem (queue_offsets cb)"
    using write_offset_fresh [OF wf] by auto
  ultimately show ?thesis
    using Pair cb' room by (simp add: queue_alloc_room [OF wf])
qed

interpretation ring: bounded_fifo ring_wf ring_cap ring_contents ring_put ring_peek ring_discard
proof (unfold_locales, goal_cases)
  case (1 q)
  then show ?case
    by (cases q; cases "queue_offsets (fst q)")
      (auto simp: queue_peek_hd simp flip: length_queue_offsets)
next
  case (2 q)
  then show ?case
  proof (cases q)
    case (Pair cb mem)
    with 2 have wf: "queue_wf cb" by simp
    show ?thesis
    proof (cases "queue_count cb = 0")
      case True
      then show ?thesis
        using Pair wf queue_discard_empty [OF wf] by (simp add: queue_offsets_def)
    next
      case False
      then obtain cb' where "queue_discard cb 1 = Some (cb', 1)" "queue_wf cb'"
        "a_len cb' = a_len cb" "queue_offsets cb' = tl (queue_offsets cb)"
        using queue_discard_one [OF wf] by metis
      then show ?thesis using Pair by (simp add: map_tl)
    qed
  qed
next
  case (3 q)
  then show ?case using queue_count_less by (cases q) (force simp: less_eq_Suc_le)
next
  case (4 q x)
  then show ?case by (rule ring_put_room)
next
  case (5 q x)
  then show ?case by (cases q) (auto simp: queue_alloc_room)
qed

section \<open>One producer, one consumer, any interleaving\<close>

text \<open>
  Each call is split into the accesses other threads can observe. The producer allocates, fills the
  block and commits; the consumer peeks, reads the block and discards it. Steps interleave in any
  order under sequential consistency. The ghost fields \<open>sent\<close> and \<open>received\<close> record what was
  committed and what was consumed.
\<close>

datatype 'a producer = P_idle | P_alloc int | P_filled int 'a
datatype 'a consumer = C_idle | C_peeked int | C_read 'a

record 'a spsc =
  q_cb :: queue_cb
  q_mem :: "int \<Rightarrow> 'a"
  prod_pc :: "'a producer"
  cons_pc :: "'a consumer"
  sent :: "'a list"
  received :: "'a list"

inductive spsc_step :: "'a spsc \<Rightarrow> 'a spsc \<Rightarrow> bool" where
  p_alloc: "prod_pc s = P_idle \<Longrightarrow> queue_alloc (q_cb s) = Some off \<Longrightarrow> off \<noteq> -1 \<Longrightarrow>
     spsc_step s (s\<lparr>prod_pc := P_alloc off\<rparr>)"
| p_fill: "prod_pc s = P_alloc off \<Longrightarrow>
     spsc_step s (s\<lparr>q_mem := (q_mem s)(off := x), prod_pc := P_filled off x\<rparr>)"
| p_commit: "prod_pc s = P_filled off x \<Longrightarrow> queue_commit (q_cb s) = Some c \<Longrightarrow>
     spsc_step s (s\<lparr>q_cb := c, prod_pc := P_idle, sent := sent s @ [x]\<rparr>)"
| c_peek: "cons_pc s = C_idle \<Longrightarrow> queue_peek (q_cb s) = (1, Some off) \<Longrightarrow>
     spsc_step s (s\<lparr>cons_pc := C_peeked off\<rparr>)"
| c_read: "cons_pc s = C_peeked off \<Longrightarrow> spsc_step s (s\<lparr>cons_pc := C_read (q_mem s off)\<rparr>)"
| c_discard: "cons_pc s = C_read x \<Longrightarrow> queue_discard (q_cb s) 1 = Some (c, n) \<Longrightarrow>
     spsc_step s (s\<lparr>q_cb := c, cons_pc := C_idle, received := received s @ [x]\<rparr>)"

definition spsc_init :: "queue_cb \<Rightarrow> (int \<Rightarrow> 'a) \<Rightarrow> 'a spsc" where
  "spsc_init c m = \<lparr>q_cb = c, q_mem = m, prod_pc = P_idle, cons_pc = C_idle, sent = [], received = []\<rparr>"

inductive spsc_reachable :: "queue_cb \<Rightarrow> (int \<Rightarrow> 'a) \<Rightarrow> 'a spsc \<Rightarrow> bool" for c m where
  init: "spsc_reachable c m (spsc_init c m)"
| step: "spsc_reachable c m s \<Longrightarrow> spsc_step s t \<Longrightarrow> spsc_reachable c m t"

text \<open>What each side knows between its steps.\<close>

definition producer_ok :: "'a spsc \<Rightarrow> bool" where
  "producer_ok s = (case prod_pc s of
      P_idle \<Rightarrow> True
    | P_alloc off \<Rightarrow> off = write_offset (q_cb s) \<and> Suc (queue_count (q_cb s)) < unat (a_len (q_cb s))
    | P_filled off x \<Rightarrow> off = write_offset (q_cb s) \<and> Suc (queue_count (q_cb s)) < unat (a_len (q_cb s)) \<and>
        q_mem s off = x)"

definition consumer_ok :: "'a spsc \<Rightarrow> bool" where
  "consumer_ok s = (case cons_pc s of
      C_idle \<Rightarrow> True
    | C_peeked off \<Rightarrow> queue_count (q_cb s) \<noteq> 0 \<and> off = hd (queue_offsets (q_cb s))
    | C_read x \<Rightarrow> queue_count (q_cb s) \<noteq> 0 \<and> x = q_mem s (hd (queue_offsets (q_cb s))))"

definition spsc_inv :: "'a spsc \<Rightarrow> bool" where
  "spsc_inv s \<longleftrightarrow> queue_wf (q_cb s) \<and> producer_ok s \<and> consumer_ok s \<and>
     sent s = received s @ ring_contents (q_cb s, q_mem s)"

lemmas spsc_inv_defs = spsc_inv_def producer_ok_def consumer_ok_def

lemma queue_offsets_Nil [simp]: "queue_offsets c = [] \<longleftrightarrow> queue_count c = 0"
  using length_0_conv [of "queue_offsets c"] by simp

lemma hd_queue_offsets: "queue_count c \<noteq> 0 \<Longrightarrow> hd (queue_offsets c) \<in> set (queue_offsets c)"
  by (rule hd_in_set) simp

lemma commit_grows:
  assumes wf: "queue_wf cb" and room: "Suc (queue_count cb) < unat (a_len cb)" and c: "queue_commit cb = Some c"
  shows "queue_wf c" "queue_count c = Suc (queue_count cb)" "queue_offsets c = queue_offsets cb @ [write_offset cb]"
    "queue_count cb \<noteq> 0 \<Longrightarrow> hd (queue_offsets c) = hd (queue_offsets cb)"
proof -
  obtain d where "queue_commit cb = Some d" "queue_wf d" "a_len d = a_len cb" "b_size d = b_size cb" "m_read d = m_read cb"
    "queue_count d = Suc (queue_count cb)" "queue_offsets d = queue_offsets cb @ [write_offset cb]"
    using queue_commit_wf [OF wf room] .
  then show "queue_wf c" "queue_count c = Suc (queue_count cb)" and o: "queue_offsets c = queue_offsets cb @ [write_offset cb]"
    using c by simp_all
  show "queue_count cb \<noteq> 0 \<Longrightarrow> hd (queue_offsets c) = hd (queue_offsets cb)" using o by (simp add: hd_append)
qed

lemma discard_shrinks:
  assumes wf: "queue_wf cb" and ne: "queue_count cb \<noteq> 0" and c: "queue_discard cb 1 = Some (c, n)"
  shows "queue_wf c" "a_len c = a_len cb" "Suc (queue_count c) = queue_count cb" "write_offset c = write_offset cb"
    "queue_offsets cb = hd (queue_offsets cb) # queue_offsets c"
proof -
  obtain d where "queue_discard cb 1 = Some (d, 1)" "queue_wf d" "a_len d = a_len cb" "b_size d = b_size cb" "m_write d = m_write cb"
    "Suc (queue_count d) = queue_count cb" "queue_offsets d = tl (queue_offsets cb)"
    using queue_discard_one [OF wf ne] .
  then show "queue_wf c" "a_len c = a_len cb" "Suc (queue_count c) = queue_count cb" "write_offset c = write_offset cb"
    "queue_offsets cb = hd (queue_offsets cb) # queue_offsets c"
    using c ne queue_offsets_Nil [of cb] by (auto simp: write_offset_def)
qed

lemma spsc_step_inv: "spsc_step s t \<Longrightarrow> spsc_inv s \<Longrightarrow> spsc_inv t"
proof (induction rule: spsc_step.induct)
  case (p_alloc s off)
  then show ?case
    by (auto simp: spsc_inv_defs queue_alloc_room split: if_splits consumer.splits)
next
  case (p_fill s off x)
  then have wf: "queue_wf (q_cb s)" and off: "off = write_offset (q_cb s)"
    by (auto simp: spsc_inv_defs)
  have fresh: "off \<notin> set (queue_offsets (q_cb s))" using write_offset_fresh [OF wf] off by simp
  have "queue_count (q_cb s) \<noteq> 0 \<Longrightarrow> hd (queue_offsets (q_cb s)) \<noteq> off"
    using fresh hd_queue_offsets [of "q_cb s"] by auto
  with fresh p_fill show ?case
    by (auto simp: spsc_inv_defs split: consumer.splits)
next
  case (p_commit s off x c)
  then have wf: "queue_wf (q_cb s)" and room: "Suc (queue_count (q_cb s)) < unat (a_len (q_cb s))"
    and x: "q_mem s (write_offset (q_cb s)) = x"
    by (auto simp: spsc_inv_defs)
  note c = commit_grows [OF wf room p_commit(2)]
  with c x p_commit show ?case
    by (auto simp: spsc_inv_defs split: consumer.splits)
next
  case (c_peek s off)
  then show ?case by (auto simp: spsc_inv_defs queue_peek_hd split: if_splits producer.splits)
next
  case (c_read s off)
  then show ?case by (auto simp: spsc_inv_defs split: producer.splits)
next
  case (c_discard s x c n)
  then have wf: "queue_wf (q_cb s)" and ne: "queue_count (q_cb s) \<noteq> 0"
    and x: "x = q_mem s (hd (queue_offsets (q_cb s)))"
    by (auto simp: spsc_inv_defs)
  note c = discard_shrinks [OF wf ne c_discard(2)]
  have "map (q_mem s) (queue_offsets (q_cb s)) = x # map (q_mem s) (queue_offsets c)"
    using c(5) x by (metis list.simps(9))
  with c c_discard show ?case
    by (auto simp: spsc_inv_defs split: producer.splits)
qed

lemma spsc_reachable_inv:
  assumes "queue_wf c" "queue_count c = 0"
  shows "spsc_reachable c m s \<Longrightarrow> spsc_inv s"
proof (induction rule: spsc_reachable.induct)
  case init
  then show ?case using assms by (simp add: spsc_inv_defs spsc_init_def queue_offsets_def)
next
  case (step s t)
  then show ?case using spsc_step_inv by blast
qed

section \<open>Properties\<close>

text \<open>A queue created for the datagram buffers of a socket (or for any array of whole blocks
  whose size fits an \<^verbatim>\<open>int\<close>) is well formed and empty, and it has one element less than the
  array has blocks.\<close>

lemma queue_create_wf:
  assumes "0 < block_size" "block_size \<le> array_size" "unat array_size < 2 ^ 31"
  shows "\<exists>cb. queue_create block_size array_size = Some cb \<and> queue_wf cb \<and> queue_isempty cb \<and>
    queue_count cb = 0 \<and> unat (a_len cb) = unat array_size div unat block_size"
proof -
  have b: "0 < unat block_size" "unat block_size \<le> unat array_size"
    using assms(1,2) by (simp_all add: word_less_nat_alt word_le_nat_alt)
  have "unat array_size div unat block_size * unat block_size \<le> unat array_size"
    by simp
  then have "unat array_size div unat block_size * unat block_size < 2 ^ 31"
    using assms(3) by (rule le_less_trans)
  then show ?thesis
    using b assms(1) by (auto simp: queue_create_def queue_wf_def queue_isempty_def queue_count_def
        unat_div_distrib div_greater_zero_iff)
qed

text \<open>The ring behaves as a bounded FIFO: blocks put into an empty ring of \<open>n\<close> slots come out
  in the same order and unchanged as long as there are at most \<open>n - 1\<close> of them, and one more is
  refused by \<open>queue_alloc\<close>.\<close>

theorem queue_fifo:
  assumes "queue_wf cb" "queue_count cb = 0"
  shows "(length xs < unat (a_len cb) \<longrightarrow>
      (\<exists>q. put_all ring_put xs (cb, mem) = Some q \<and>
        fst (drain ring_peek ring_discard (length xs) q) = xs \<and>
        ring_contents (snd (drain ring_peek ring_discard (length xs) q)) = [])) \<and>
    (unat (a_len cb) \<le> length xs \<longrightarrow> put_all ring_put xs (cb, mem) = None)"
proof -
  have c: "ring_contents (cb, mem) = []" and "0 < unat (a_len cb)"
    using assms by (simp_all add: queue_wf_def)
  then show ?thesis
    using ring.fifo_order [OF _ c, of xs] ring.put_all_overflow [of "(cb, mem)" xs] assms by auto
qed

text \<open>C8: With one producer and one consumer, in every interleaving of their steps, what was
  consumed followed by what is in the ring is exactly what was committed, in order; the ring never
  holds more than its capacity; and the block a producer has allocated or is filling is never a block
  that the consumer can be reading.\<close>

theorem spsc_fifo:
  assumes "queue_wf c" "queue_count c = 0" "spsc_reachable c m s"
  shows "sent s = received s @ ring_contents (q_cb s, q_mem s) \<and>
    queue_count (q_cb s) < unat (a_len (q_cb s)) \<and>
    (\<forall>off. (prod_pc s = P_alloc off \<or> (\<exists>x. prod_pc s = P_filled off x)) \<longrightarrow>
       off \<notin> set (queue_offsets (q_cb s)) \<and> cons_pc s \<noteq> C_peeked off)"
proof -
  have inv: "spsc_inv s" using spsc_reachable_inv [OF assms(1,2)] assms(3) .
  then have wf: "queue_wf (q_cb s)" by (simp add: spsc_inv_def)
  have "off \<notin> set (queue_offsets (q_cb s)) \<and> cons_pc s \<noteq> C_peeked off"
    if "prod_pc s = P_alloc off \<or> (\<exists>x. prod_pc s = P_filled off x)" for off
  proof -
    have "off = write_offset (q_cb s)" using that inv by (auto simp: spsc_inv_defs)
    then have "off \<notin> set (queue_offsets (q_cb s))" using write_offset_fresh [OF wf] by simp
    moreover have "cons_pc s = C_peeked off \<Longrightarrow> off \<in> set (queue_offsets (q_cb s))"
      using inv hd_queue_offsets [of "q_cb s"] by (auto simp: spsc_inv_defs)
    ultimately show ?thesis by blast
  qed
  then show ?thesis
    using inv queue_count_less [OF wf] by (auto simp: spsc_inv_def)
qed

definition queue_cb_example :: queue_cb where
  "queue_cb_example = \<lparr>b_size = 4096, a_len = 4, m_write = 0, m_read = 0\<rparr>"

lemma queue_cb_example_wf: "queue_wf queue_cb_example" "queue_count queue_cb_example = 0"
  by (simp_all add: queue_cb_example_def queue_wf_def queue_count_def)

theorem queue_fifo_witness:
  "\<exists>q. put_all ring_put [7, 8, 9 :: nat] (queue_cb_example, \<lambda>_. 0) = Some q \<and>
     fst (drain ring_peek ring_discard (length [7, 8, 9 :: nat]) q) = [7, 8, 9]"
  using queue_fifo [OF queue_cb_example_wf, of "[7, 8, 9 :: nat]" "\<lambda>_. 0"]
  by (auto simp: queue_cb_example_def)

definition spsc_example :: "nat spsc" where
  "spsc_example = (spsc_init queue_cb_example (\<lambda>_. 0))
     \<lparr>prod_pc := P_alloc 0\<rparr>"

lemma spsc_example_reachable: "spsc_reachable queue_cb_example (\<lambda>_. 0) spsc_example"
  unfolding spsc_example_def
  by (rule spsc_reachable.step [OF spsc_reachable.init], rule spsc_step.p_alloc)
    (simp_all add: spsc_init_def queue_cb_example_def queue_alloc_def int_of_size_def)

theorem spsc_fifo_witness:
  "sent spsc_example = received spsc_example @ ring_contents (q_cb spsc_example, q_mem spsc_example) \<and>
   prod_pc spsc_example = P_alloc 0 \<and> 0 \<notin> set (queue_offsets (q_cb spsc_example))"
  using spsc_fifo [OF queue_cb_example_wf spsc_example_reachable]
  by (simp add: spsc_example_def)

end
