(* ===== verification/Slots.thy ===== *)
theory Slots
  imports Xs_Prelude
begin

text \<open>
  Common ground of the four kinds of linked lists of \<^verbatim>\<open>src/queue.h\<close>. A list is made of pointers: the first
  pointer of a head and the next pointers of the elements. A \<open>slot\<close> is the address of such a pointer,
  which is what the back links and the tail links of the macros hold. Heads and elements are
  numbers; a value is a pointer as in \<open>ptr\<close>.

  The loops of the \<open>FOREACH\<close> macros are here too, and the contract all kinds share.
\<close>

datatype slot = First nat | Next nat

record cells =
  slots :: "slot \<Rightarrow> ptr"

section \<open>Loops\<close>

text \<open>\<open>FOREACH\<close> with a body, and \<open>FOREACH_SAFE\<close>, which reads the next pointer before the body runs. \<open>nxt\<close> is the access
  to the next pointer in the state the body works on.\<close>

partial_function (option) foreach :: "('s \<Rightarrow> nat \<Rightarrow> ptr) \<Rightarrow> (nat \<Rightarrow> 's \<Rightarrow> 's option) \<Rightarrow> ptr \<Rightarrow> 's \<Rightarrow> 's option" where
  "foreach nxt body var s =
     (case var of
        None \<Rightarrow> Some s
      | Some x \<Rightarrow> do { s \<leftarrow> body x s; foreach nxt body (nxt s x) s })"

partial_function (option) foreach_safe :: "('s \<Rightarrow> nat \<Rightarrow> ptr) \<Rightarrow> (nat \<Rightarrow> 's \<Rightarrow> 's option) \<Rightarrow> ptr \<Rightarrow> 's \<Rightarrow> 's option" where
  "foreach_safe nxt body var s =
     (case var of
        None \<Rightarrow> Some s
      | Some x \<Rightarrow> do { let tvar = nxt s x; s \<leftarrow> body x s; foreach_safe nxt body tvar s })"

fun fold_opt :: "('a \<Rightarrow> 's \<Rightarrow> 's option) \<Rightarrow> 'a list \<Rightarrow> 's \<Rightarrow> 's option" where
  "fold_opt f [] s = Some s"
| "fold_opt f (x # xs) s = do { s \<leftarrow> f x s; fold_opt f xs s }"

section \<open>Chains\<close>

text \<open>From the pointer \<open>v\<close> on the elements \<open>xs\<close> follow, and then NULL.\<close>

fun linked :: "(slot \<Rightarrow> ptr) \<Rightarrow> ptr \<Rightarrow> nat list \<Rightarrow> bool" where
  "linked c v [] \<longleftrightarrow> v = None"
| "linked c v (x # xs) \<longleftrightarrow> v = Some x \<and> linked c (c (Next x)) xs"

text \<open>The slot behind the elements \<open>xs\<close> that start in slot \<open>s\<close>.\<close>

definition end_slot :: "slot \<Rightarrow> nat list \<Rightarrow> slot" where
  "end_slot s xs = (if xs = [] then s else Next (last xs))"

lemma end_slot_simps [simp]:
  "end_slot s [] = s" "end_slot s (x # xs) = end_slot (Next x) xs" "end_slot s (xs @ [x]) = Next x"
  by (simp_all add: end_slot_def)

lemma end_slot_append: "end_slot s (xs @ ys) = end_slot (end_slot s xs) ys"
  by (simp add: end_slot_def)

lemma end_slot_in: "end_slot s xs \<in> insert s (Next ` set xs)"
  by (simp add: end_slot_def)

lemma end_slot_first: "end_slot (First h) xs = First g \<longleftrightarrow> xs = [] \<and> g = h"
  by (auto simp: end_slot_def)

lemma linked_frame: "u \<notin> Next ` set xs \<Longrightarrow> linked (c(u := w)) v xs = linked c v xs"
  by (induction xs arbitrary: v) auto

lemma linked_cong: "(\<And>x. x \<in> set xs \<Longrightarrow> c' (Next x) = c (Next x)) \<Longrightarrow> linked c' v xs = linked c v xs"
  by (induction xs arbitrary: v) auto

text \<open>Splitting a chain at a slot, and the two changes the macros make there.\<close>

lemma linked_append:
  "linked c (c s) (xs @ ys) \<longleftrightarrow> linked (c(end_slot s xs := None)) ((c(end_slot s xs := None)) s) xs \<and> linked c (c (end_slot s xs)) ys"
  if "distinct xs" "s \<notin> Next ` set xs"
  using that
proof (induction xs arbitrary: s)
  case (Cons x xs)
  have n: "end_slot (Next x) xs \<noteq> s" using Cons.prems end_slot_in [of "Next x" xs] by auto
  have "Next x \<notin> Next ` set xs" using Cons.prems by auto
  then show ?case using Cons.IH [of "Next x"] Cons.prems n by auto
qed simp

lemma linked_take: "linked c (c s) (xs @ ys) \<Longrightarrow> linked c (c (end_slot s xs)) ys"
  by (induction xs arbitrary: s) auto

lemma linked_insert:
  assumes "linked c (c s) (xs @ ys)" "distinct (xs @ ys)" "e \<notin> set (xs @ ys)" "s \<notin> Next ` set (e # xs @ ys)"
    "t = end_slot s xs" "c' = c(Next e := c t, t := Some e)"
  shows "linked c' (c' s) (xs @ e # ys)"
proof -
  have s: "s \<notin> Next ` set xs" using assms(4) by auto
  have t: "t \<noteq> Next e" "t \<notin> Next ` set ys" using end_slot_in [of s xs] assms(2-5) by auto
  have ys: "linked c (c t) ys" using linked_take [OF assms(1)] assms(5) by simp
  have "linked c' (c' (Next e)) ys" using ys t assms(3,6) by (simp add: linked_frame fun_upd_twist image_iff)
  moreover have "linked (c'(t := None)) ((c'(t := None)) s) xs"
  proof -
    have "linked (c(t := None)) ((c(t := None)) s) xs" using linked_append [of xs s c ys] s assms(1,2,5) by auto
    moreover have "(c'(t := None)) s = (c(t := None)) s" using assms(4,6) by auto
    moreover have "linked (c'(t := None)) v xs = linked (c(t := None)) v xs" for v
      by (rule linked_cong) (use assms(3,6) in auto)
    ultimately show ?thesis by simp
  qed
  ultimately show ?thesis using linked_append [of xs s c' "e # ys"] s assms(2,5,6) by auto
qed

lemma linked_remove:
  assumes "linked c (c s) (xs @ e # ys)" "distinct (xs @ e # ys)" "s \<notin> Next ` set (xs @ e # ys)"
    "t = end_slot s xs" "c' = c(t := c (Next e))"
  shows "linked c' (c' s) (xs @ ys)"
proof -
  have s: "s \<notin> Next ` set xs" using assms(3) by auto
  have t: "t \<notin> Next ` set ys" using end_slot_in [of s xs] assms(2-4) by auto
  have "linked c (c (Next e)) ys" using linked_take [OF assms(1)] by simp
  then have "linked c' (c' t) ys" using t assms(5) by (simp add: linked_frame)
  moreover have "linked (c'(t := None)) ((c'(t := None)) s) xs" using linked_append [of xs s c "e # ys"] s assms by auto
  ultimately show ?thesis using linked_append [of xs s c' ys] s assms(2,4) by auto
qed

lemma linked_concat:
  assumes "linked c (c s) xs" "linked c v ys" "distinct (xs @ ys)" "s \<notin> Next ` set (xs @ ys)" "t = end_slot s xs" "c' = c(t := v)"
  shows "linked c' (c' s) (xs @ ys)"
proof -
  have s: "s \<notin> Next ` set xs" using assms(4) by auto
  have t: "t \<notin> Next ` set ys" using end_slot_in [of s xs] assms(3-5) by auto
  have "c t = None" using linked_take [of c s xs "[]"] assms(1,5) by simp
  then have "c'(t := None) = c" using assms(6) by auto
  moreover have "linked c' (c' t) ys" using assms(2,6) t by (simp add: linked_frame)
  ultimately show ?thesis using linked_append [of xs s c' ys] s assms(1,3,5) by auto
qed

text \<open>Where an element is, and what follows it.\<close>

lemma linked_at: "linked c (c s) (xs @ x # ys) \<Longrightarrow> c (end_slot s xs) = Some x"
  by (drule linked_take) simp

lemma linked_next: "linked c (c s) (xs @ x # ys) \<Longrightarrow> c (Next x) = (case ys of [] \<Rightarrow> None | y # _ \<Rightarrow> Some y)"
  by (drule linked_take) (auto split: list.splits)

lemma linked_first: "linked c v xs \<Longrightarrow> v = (case xs of [] \<Rightarrow> None | x # _ \<Rightarrow> Some x)"
  by (cases xs) auto

section \<open>What the loops do\<close>

text \<open>A body that leaves the links as they are runs once for each element, in the order of the links.\<close>

fun follows :: "(nat \<Rightarrow> ptr) \<Rightarrow> ptr \<Rightarrow> nat list \<Rightarrow> bool" where
  "follows f v [] \<longleftrightarrow> v = None"
| "follows f v (x # xs) \<longleftrightarrow> v = Some x \<and> follows f (f x) xs"

lemma linked_follows: "linked c v xs \<longleftrightarrow> follows (\<lambda>x. c (Next x)) v xs"
  by (induction xs arbitrary: v) auto

lemma foreach_follows:
  assumes "follows (nxt s) v xs" "\<forall>x s s'. x \<in> set xs \<and> body x s = Some s' \<longrightarrow> nxt s' = nxt s"
  shows "foreach nxt body v s = fold_opt body xs s"
  using assms
proof (induction xs arbitrary: v s)
  case Nil
  then show ?case by (simp add: foreach.simps)
next
  case (Cons x xs)
  show ?case
  proof (cases "body x s")
    case (Some s')
    then have "nxt s' = nxt s" using Cons.prems(2) by auto
    then have "follows (nxt s') (nxt s' x) xs" using Cons.prems(1) by simp
    then show ?thesis using Cons.IH [of s' "nxt s' x"] Cons.prems Some by (auto simp: foreach.simps [of _ _ "Some x"])
  qed (use Cons.prems(1) in \<open>auto simp: foreach.simps [of _ _ "Some x"]\<close>)
qed

lemma foreach_linked:
  assumes "linked (c s) v xs" "\<forall>x s s'. x \<in> set xs \<and> body x s = Some s' \<longrightarrow> c s' = c s"
  shows "foreach (\<lambda>s x. c s (Next x)) body v s = fold_opt body xs s"
  by (rule foreach_follows) (use assms in \<open>auto simp: linked_follows\<close>)

text \<open>The safe loop does so even when the body changes the links of the element it is called with, for example removes it.\<close>

lemma foreach_safe_linked:
  assumes "linked (c s) v xs" "distinct xs" "\<forall>x s s' y. x \<in> set xs \<and> y \<in> set xs \<and> y \<noteq> x \<and> body x s = Some s' \<longrightarrow> c s' (Next y) = c s (Next y)"
  shows "foreach_safe (\<lambda>s x. c s (Next x)) body v s = fold_opt body xs s"
  using assms
proof (induction xs arbitrary: v s)
  case Nil
  then show ?case by (simp add: foreach_safe.simps)
next
  case (Cons x xs)
  show ?case
  proof (cases "body x s")
    case (Some s')
    have "linked (c s') (c s (Next x)) xs = linked (c s) (c s (Next x)) xs"
      by (rule linked_cong) (use Cons.prems(2,3) Some in auto)
    then have "linked (c s') (c s (Next x)) xs" using Cons.prems(1) by simp
    then show ?thesis using Cons.IH [of s' "c s (Next x)"] Cons.prems Some by (auto simp: foreach_safe.simps [of _ _ "Some x"])
  qed (use Cons.prems(1) in \<open>auto simp: foreach_safe.simps [of _ _ "Some x"]\<close>)
qed

section \<open>The contract\<close>

text \<open>What all four kinds offer, on lists: operations on the list of one head, of several.\<close>

datatype list_op = Insert_head nat nat | Insert_after nat nat nat | Remove nat nat

fun insert_behind :: "nat \<Rightarrow> nat \<Rightarrow> nat list \<Rightarrow> nat list" where
  "insert_behind x e [] = []"
| "insert_behind x e (y # ys) = (if y = x then y # e # ys else y # insert_behind x e ys)"

fun list_op_spec :: "list_op \<Rightarrow> (nat \<Rightarrow> nat list) \<Rightarrow> nat \<Rightarrow> nat list" where
  "list_op_spec (Insert_head h e) L = L(h := e # L h)"
| "list_op_spec (Insert_after h x e) L = L(h := insert_behind x e (L h))"
| "list_op_spec (Remove h e) L = L(h := remove1 e (L h))"

text \<open>What the macros expect of the caller: a new element is in no list, the other elements are in the list that is
  named. \<open>H\<close> are the heads in use.\<close>

fun list_op_ok :: "nat set \<Rightarrow> list_op \<Rightarrow> (nat \<Rightarrow> nat list) \<Rightarrow> bool" where
  "list_op_ok H (Insert_head h e) L \<longleftrightarrow> h \<in> H \<and> (\<forall>g \<in> H. e \<notin> set (L g))"
| "list_op_ok H (Insert_after h x e) L \<longleftrightarrow> h \<in> H \<and> x \<in> set (L h) \<and> (\<forall>g \<in> H. e \<notin> set (L g))"
| "list_op_ok H (Remove h e) L \<longleftrightarrow> h \<in> H \<and> e \<in> set (L h)"

fun list_ops_ok :: "nat set \<Rightarrow> list_op list \<Rightarrow> (nat \<Rightarrow> nat list) \<Rightarrow> bool" where
  "list_ops_ok H [] L \<longleftrightarrow> True"
| "list_ops_ok H (p # ps) L \<longleftrightarrow> list_op_ok H p L \<and> list_ops_ok H ps (list_op_spec p L)"

fun run_list_op :: "(nat \<Rightarrow> nat \<Rightarrow> 's \<Rightarrow> 's option) \<Rightarrow> (nat \<Rightarrow> nat \<Rightarrow> nat \<Rightarrow> 's \<Rightarrow> 's option) \<Rightarrow> (nat \<Rightarrow> nat \<Rightarrow> 's \<Rightarrow> 's option) \<Rightarrow>
    list_op \<Rightarrow> 's \<Rightarrow> 's option" where
  "run_list_op ins after rem (Insert_head h e) s = ins h e s"
| "run_list_op ins after rem (Insert_after h x e) s = after h x e s"
| "run_list_op ins after rem (Remove h e) s = rem h e s"

text \<open>The lists of the heads \<open>H\<close>, no element in two of them.\<close>

definition represents :: "('s \<Rightarrow> nat \<Rightarrow> nat list \<Rightarrow> bool) \<Rightarrow> nat set \<Rightarrow> (nat \<Rightarrow> nat list) \<Rightarrow> 's \<Rightarrow> bool" where
  "represents holds H L s \<longleftrightarrow> (\<forall>h \<in> H. holds s h (L h)) \<and> (\<forall>h \<in> H. \<forall>g \<in> H. h \<noteq> g \<longrightarrow> set (L h) \<inter> set (L g) = {})"

lemma represents_upd:
  assumes "represents holds H L s" "holds s' h zs" "\<And>g. g \<in> H \<Longrightarrow> g \<noteq> h \<Longrightarrow> holds s' g (L g) \<and> set zs \<inter> set (L g) = {}"
  shows "represents holds H (L(h := zs)) s'"
  using assms by (auto simp: represents_def Int_commute)

lemma insert_behind_split: "x \<notin> set xs \<Longrightarrow> insert_behind x e (xs @ x # ys) = xs @ x # e # ys"
  by (induction xs) auto

lemma set_insert_behind: "set (insert_behind x e xs) \<subseteq> insert e (set xs)"
  by (induction xs) auto

locale linked_list =
  fixes holds :: "'s \<Rightarrow> nat \<Rightarrow> nat list \<Rightarrow> bool"
    and insert_head :: "nat \<Rightarrow> nat \<Rightarrow> 's \<Rightarrow> 's option"
    and insert_after :: "nat \<Rightarrow> nat \<Rightarrow> nat \<Rightarrow> 's \<Rightarrow> 's option"
    and remove :: "nat \<Rightarrow> nat \<Rightarrow> 's \<Rightarrow> 's option"
  assumes distinct_holds: "holds s h xs \<Longrightarrow> distinct xs"
    and head_law: "holds s h xs \<Longrightarrow> e \<notin> set xs \<Longrightarrow> \<exists>s'. insert_head h e s = Some s' \<and> holds s' h (e # xs) \<and>
      (\<forall>g zs. g \<noteq> h \<and> holds s g zs \<and> e \<notin> set zs \<and> set zs \<inter> set xs = {} \<longrightarrow> holds s' g zs)"
    and after_law: "holds s h (xs @ x # ys) \<Longrightarrow> e \<notin> set (xs @ x # ys) \<Longrightarrow>
      \<exists>s'. insert_after h x e s = Some s' \<and> holds s' h (xs @ x # e # ys) \<and>
      (\<forall>g zs. g \<noteq> h \<and> holds s g zs \<and> e \<notin> set zs \<and> set zs \<inter> set (xs @ x # ys) = {} \<longrightarrow> holds s' g zs)"
    and remove_law: "holds s h (xs @ e # ys) \<Longrightarrow> \<exists>s'. remove h e s = Some s' \<and> holds s' h (xs @ ys) \<and>
      (\<forall>g zs. g \<noteq> h \<and> holds s g zs \<and> set zs \<inter> set (xs @ e # ys) = {} \<longrightarrow> holds s' g zs)"
begin

lemma op_step:
  assumes "represents holds H L s" "list_op_ok H p L"
  obtains s' where "run_list_op insert_head insert_after remove p s = Some s'" "represents holds H (list_op_spec p L) s'"
proof -
  have hold: "\<And>h. h \<in> H \<Longrightarrow> holds s h (L h)" and dis: "\<And>h g. h \<in> H \<Longrightarrow> g \<in> H \<Longrightarrow> h \<noteq> g \<Longrightarrow> set (L h) \<inter> set (L g) = {}"
    using assms(1) by (auto simp: represents_def)
  show thesis
  proof (cases p)
    case (Insert_head h e)
    then have h: "h \<in> H" "\<And>g. g \<in> H \<Longrightarrow> e \<notin> set (L g)" using assms(2) by auto
    from head_law [OF hold [OF h(1)] h(2) [OF h(1)]] obtain s' where s': "insert_head h e s = Some s'" "holds s' h (e # L h)"
      "\<And>g zs. g \<noteq> h \<Longrightarrow> holds s g zs \<Longrightarrow> e \<notin> set zs \<Longrightarrow> set zs \<inter> set (L h) = {} \<Longrightarrow> holds s' g zs" by blast
    have "holds s' g (L g)" if "g \<in> H" "g \<noteq> h" for g using s'(3) [OF that(2) hold h(2) dis] that h(1) by blast
    moreover have "set (e # L h) \<inter> set (L g) = {}" if "g \<in> H" "g \<noteq> h" for g using dis [OF h(1) that(1)] h(2) [OF that(1)] that(2) by simp
    ultimately have "represents holds H (list_op_spec p L) s'" using represents_upd [OF assms(1) s'(2)] Insert_head by simp
    then show ?thesis using that s'(1) Insert_head by simp
  next
    case (Insert_after h x e)
    then have h: "h \<in> H" "x \<in> set (L h)" "\<And>g. g \<in> H \<Longrightarrow> e \<notin> set (L g)" using assms(2) by auto
    obtain xs ys where L: "L h = xs @ x # ys" using split_list [OF h(2)] by blast
    have "x \<notin> set xs" using distinct_holds [OF hold [OF h(1)]] L by simp
    then have b: "insert_behind x e (L h) = xs @ x # e # ys" using L by (simp add: insert_behind_split)
    have "holds s h (xs @ x # ys)" "e \<notin> set (xs @ x # ys)" using hold [OF h(1)] h(3) [OF h(1)] L by simp_all
    from after_law [OF this] obtain s' where s': "insert_after h x e s = Some s'" "holds s' h (xs @ x # e # ys)"
      "\<And>g zs. g \<noteq> h \<Longrightarrow> holds s g zs \<Longrightarrow> e \<notin> set zs \<Longrightarrow> set zs \<inter> set (L h) = {} \<Longrightarrow> holds s' g zs" using L by metis
    have "holds s' g (L g)" if "g \<in> H" "g \<noteq> h" for g using s'(3) [OF that(2) hold h(3) dis] that h(1) by blast
    moreover have "set (insert_behind x e (L h)) \<inter> set (L g) = {}" if "g \<in> H" "g \<noteq> h" for g
      using dis [OF h(1) that(1)] h(3) [OF that(1)] that(2) set_insert_behind [of x e "L h"] by blast
    ultimately have "represents holds H (list_op_spec p L) s'"
      using represents_upd [OF assms(1) s'(2)] Insert_after b by simp
    then show ?thesis using that s'(1) Insert_after by simp
  next
    case (Remove h e)
    then have h: "h \<in> H" "e \<in> set (L h)" using assms(2) by auto
    obtain xs ys where L: "L h = xs @ e # ys" using split_list [OF h(2)] by blast
    have "e \<notin> set xs" using distinct_holds [OF hold [OF h(1)]] L by simp
    then have b: "remove1 e (L h) = xs @ ys" using L by (simp add: remove1_append)
    from remove_law [of s h xs e ys] obtain s' where s': "remove h e s = Some s'" "holds s' h (xs @ ys)"
      "\<And>g zs. g \<noteq> h \<Longrightarrow> holds s g zs \<Longrightarrow> set zs \<inter> set (L h) = {} \<Longrightarrow> holds s' g zs" using hold [OF h(1)] L by metis
    have "holds s' g (L g)" if "g \<in> H" "g \<noteq> h" for g using s'(3) [OF that(2) hold dis] that h(1) by blast
    moreover have "set (remove1 e (L h)) \<inter> set (L g) = {}" if "g \<in> H" "g \<noteq> h" for g
      using dis [OF h(1) that(1)] that(2) set_remove1_subset [of e "L h"] by blast
    ultimately have "represents holds H (list_op_spec p L) s'"
      using represents_upd [OF assms(1) s'(2)] Remove b by simp
    then show ?thesis using that s'(1) Remove by simp
  qed
qed

text \<open>Any sequence of operations.\<close>

lemma ops_refine:
  "represents holds H L s \<Longrightarrow> list_ops_ok H ps L \<Longrightarrow>
   \<exists>s'. fold_opt (run_list_op insert_head insert_after remove) ps s = Some s' \<and> represents holds H (fold list_op_spec ps L) s'"
proof (induction ps arbitrary: L s)
  case (Cons p ps)
  obtain s' where "run_list_op insert_head insert_after remove p s = Some s'" "represents holds H (list_op_spec p L) s'"
    using op_step Cons.prems by (metis list_ops_ok.simps(2))
  then show ?case using Cons.IH Cons.prems(2) by simp
qed simp

end

end
