(* ===== verification/Slist.thy ===== *)
theory Slist
  imports Slots
begin

text \<open>
  The singly-linked lists of \<^verbatim>\<open>src/queue.h\<close> (\<open>SLIST_\<close>), which keep the free entries of the routing table. The
  definitions take the head and the elements by number; an access through a NULL pointer is \<open>None\<close>.
\<close>

section \<open>The macros\<close>

definition SLIST_FIRST :: "nat \<Rightarrow> cells \<Rightarrow> ptr" where
  "SLIST_FIRST head st = slots st (First head)"

definition SLIST_EMPTY :: "nat \<Rightarrow> cells \<Rightarrow> bool" where
  "SLIST_EMPTY head st \<longleftrightarrow> SLIST_FIRST head st = None"

definition SLIST_NEXT :: "cells \<Rightarrow> nat \<Rightarrow> ptr" where
  "SLIST_NEXT st elm = slots st (Next elm)"

definition SLIST_INIT :: "nat \<Rightarrow> cells \<Rightarrow> cells" where
  "SLIST_INIT head st = st\<lparr>slots := (slots st)(First head := None)\<rparr>"

definition SLIST_INSERT_AFTER :: "nat \<Rightarrow> nat \<Rightarrow> cells \<Rightarrow> cells" where
  "SLIST_INSERT_AFTER slistelm elm st =
     (let st = st\<lparr>slots := (slots st)(Next elm := SLIST_NEXT st slistelm)\<rparr>
      in st\<lparr>slots := (slots st)(Next slistelm := Some elm)\<rparr>)"

definition SLIST_INSERT_HEAD :: "nat \<Rightarrow> nat \<Rightarrow> cells \<Rightarrow> cells" where
  "SLIST_INSERT_HEAD head elm st =
     (let st = st\<lparr>slots := (slots st)(Next elm := SLIST_FIRST head st)\<rparr>
      in st\<lparr>slots := (slots st)(First head := Some elm)\<rparr>)"

definition SLIST_REMOVE_AFTER :: "nat \<Rightarrow> cells \<Rightarrow> cells option" where
  "SLIST_REMOVE_AFTER elm st = do {
     next \<leftarrow> SLIST_NEXT st elm;
     Some (st\<lparr>slots := (slots st)(Next elm := SLIST_NEXT st next)\<rparr>)
   }"

definition SLIST_REMOVE_HEAD :: "nat \<Rightarrow> cells \<Rightarrow> cells option" where
  "SLIST_REMOVE_HEAD head st = do {
     first \<leftarrow> SLIST_FIRST head st;
     Some (st\<lparr>slots := (slots st)(First head := SLIST_NEXT st first)\<rparr>)
   }"

text \<open>The loop of \<^verbatim>\<open>SLIST_REMOVE\<close> and \<^verbatim>\<open>STAILQ_REMOVE\<close>: the element in front of \<open>elm\<close>.\<close>

partial_function (option) slist_prev :: "(slot \<Rightarrow> ptr) \<Rightarrow> nat \<Rightarrow> ptr \<Rightarrow> nat option" where
  "slist_prev c elm curelm = do {
     x \<leftarrow> curelm;
     if c (Next x) \<noteq> Some elm then slist_prev c elm (c (Next x)) else Some x
   }"

definition SLIST_REMOVE :: "nat \<Rightarrow> nat \<Rightarrow> cells \<Rightarrow> cells option" where
  "SLIST_REMOVE head elm st =
     (if SLIST_FIRST head st = Some elm then SLIST_REMOVE_HEAD head st
      else do {
        curelm \<leftarrow> slist_prev (slots st) elm (SLIST_FIRST head st);
        SLIST_REMOVE_AFTER curelm st
      })"

definition SLIST_SWAP :: "nat \<Rightarrow> nat \<Rightarrow> cells \<Rightarrow> cells" where
  "SLIST_SWAP head1 head2 st =
     (let swap_first = SLIST_FIRST head1 st;
          st = st\<lparr>slots := (slots st)(First head1 := SLIST_FIRST head2 st)\<rparr>
      in st\<lparr>slots := (slots st)(First head2 := swap_first)\<rparr>)"

text \<open>The loops. The body works on a state of which \<open>mem\<close> is the memory of the list.\<close>

definition SLIST_FOREACH :: "('s \<Rightarrow> cells) \<Rightarrow> nat \<Rightarrow> (nat \<Rightarrow> 's \<Rightarrow> 's option) \<Rightarrow> 's \<Rightarrow> 's option" where
  "SLIST_FOREACH mem head body s = foreach (\<lambda>s. SLIST_NEXT (mem s)) body (SLIST_FIRST head (mem s)) s"

definition SLIST_FOREACH_FROM :: "('s \<Rightarrow> cells) \<Rightarrow> ptr \<Rightarrow> nat \<Rightarrow> (nat \<Rightarrow> 's \<Rightarrow> 's option) \<Rightarrow> 's \<Rightarrow> 's option" where
  "SLIST_FOREACH_FROM mem var head body s =
     foreach (\<lambda>s. SLIST_NEXT (mem s)) body (if var \<noteq> None then var else SLIST_FIRST head (mem s)) s"

definition SLIST_FOREACH_SAFE :: "('s \<Rightarrow> cells) \<Rightarrow> nat \<Rightarrow> (nat \<Rightarrow> 's \<Rightarrow> 's option) \<Rightarrow> 's \<Rightarrow> 's option" where
  "SLIST_FOREACH_SAFE mem head body s = foreach_safe (\<lambda>s. SLIST_NEXT (mem s)) body (SLIST_FIRST head (mem s)) s"

definition SLIST_FOREACH_FROM_SAFE :: "('s \<Rightarrow> cells) \<Rightarrow> ptr \<Rightarrow> nat \<Rightarrow> (nat \<Rightarrow> 's \<Rightarrow> 's option) \<Rightarrow> 's \<Rightarrow> 's option" where
  "SLIST_FOREACH_FROM_SAFE mem var head body s =
     foreach_safe (\<lambda>s. SLIST_NEXT (mem s)) body (if var \<noteq> None then var else SLIST_FIRST head (mem s)) s"

text \<open>This loop has the address of the pointer to the current element as a second variable.\<close>

partial_function (option) prevptr_loop ::
    "('s \<Rightarrow> cells) \<Rightarrow> (nat \<Rightarrow> slot \<Rightarrow> 's \<Rightarrow> 's option) \<Rightarrow> slot \<Rightarrow> 's \<Rightarrow> 's option" where
  "prevptr_loop mem body varp s =
     (case slots (mem s) varp of
        None \<Rightarrow> Some s
      | Some var \<Rightarrow> do { s \<leftarrow> body var varp s; prevptr_loop mem body (Next var) s })"

definition SLIST_FOREACH_PREVPTR :: "('s \<Rightarrow> cells) \<Rightarrow> nat \<Rightarrow> (nat \<Rightarrow> slot \<Rightarrow> 's \<Rightarrow> 's option) \<Rightarrow> 's \<Rightarrow> 's option" where
  "SLIST_FOREACH_PREVPTR mem head body s = prevptr_loop mem body (First head) s"

section \<open>The list of a head\<close>

definition slist :: "cells \<Rightarrow> nat \<Rightarrow> nat list \<Rightarrow> bool" where
  "slist st head xs \<longleftrightarrow> distinct xs \<and> linked (slots st) (slots st (First head)) xs"

lemma slist_init [simp]: "slist (SLIST_INIT head st) head []"
  by (simp add: slist_def SLIST_INIT_def)

lemma slist_first: "slist st head xs \<Longrightarrow> SLIST_FIRST head st = (case xs of [] \<Rightarrow> None | x # _ \<Rightarrow> Some x)"
  unfolding slist_def SLIST_FIRST_def using linked_first by blast

lemma slist_frame:
  assumes "slist st g zs" "\<And>z. z \<in> insert (First g) (Next ` set zs) \<Longrightarrow> slots st' z = slots st z"
  shows "slist st' g zs"
  using assms(1) linked_cong [of zs "slots st'" "slots st"] assms(2) by (simp add: slist_def)

lemma slist_insert_head:
  assumes "slist st head xs" "e \<notin> set xs"
  shows "slist (SLIST_INSERT_HEAD head e st) head (e # xs)"
  using assms linked_insert [of "slots st" "First head" "[]" xs e] by (auto simp: slist_def SLIST_INSERT_HEAD_def SLIST_FIRST_def)

lemma slist_insert_after:
  assumes "slist st head (xs @ x # ys)" "e \<notin> set (xs @ x # ys)"
  shows "slist (SLIST_INSERT_AFTER x e st) head (xs @ x # e # ys)"
  using assms linked_insert [of "slots st" "First head" "xs @ [x]" ys e] by (auto simp: slist_def SLIST_INSERT_AFTER_def SLIST_NEXT_def)

lemma slist_remove_head:
  assumes "slist st head (x # xs)"
  obtains st' where "SLIST_REMOVE_HEAD head st = Some st'" "slist st' head xs" "\<forall>z. z \<noteq> First head \<longrightarrow> slots st' z = slots st z"
  using assms that [of "st\<lparr>slots := (slots st)(First head := slots st (Next x))\<rparr>"]
  by (auto simp: slist_def SLIST_REMOVE_HEAD_def SLIST_FIRST_def SLIST_NEXT_def linked_frame image_iff)

text \<open>The element in front of another one is found.\<close>

lemma slist_prev_at:
  assumes "linked c v (ys @ p # e # zs)" "distinct (ys @ p # e # zs)"
  shows "slist_prev c e v = Some p"
  using assms
proof (induction ys arbitrary: v)
  case Nil
  then show ?case by (subst slist_prev.simps) auto
next
  case (Cons y ys)
  then have "c (Next y) \<noteq> Some e" using linked_first [of c "c (Next y)" "ys @ p # e # zs"] by (cases ys) auto
  then show ?case using Cons by (subst slist_prev.simps) auto
qed

lemma slist_remove:
  assumes "slist st head (xs @ e # ys)"
  obtains st' u where "SLIST_REMOVE head e st = Some st'" "slist st' head (xs @ ys)" "u \<in> insert (First head) (Next ` set xs)"
    "\<forall>z. z \<noteq> u \<longrightarrow> slots st' z = slots st z"
proof (cases xs rule: rev_cases)
  case Nil
  then show ?thesis using slist_remove_head [of st head e ys] assms that slist_first [OF assms] by (auto simp: SLIST_REMOVE_def)
next
  case (snoc ws p)
  let ?st = "st\<lparr>slots := (slots st)(Next p := slots st (Next e))\<rparr>"
  have l: "linked (slots st) (slots st (First head)) (xs @ e # ys)" "distinct (xs @ e # ys)" using assms by (simp_all add: slist_def)
  have f: "SLIST_FIRST head st \<noteq> Some e" using slist_first [OF assms] l(2) snoc by (cases ws) auto
  have p: "slist_prev (slots st) e (SLIST_FIRST head st) = Some p" using slist_prev_at [of "slots st" _ ws p e ys] l snoc by (simp add: SLIST_FIRST_def)
  have "slots st (Next p) = Some e" using linked_at [OF l(1)] snoc by simp
  then have r: "SLIST_REMOVE head e st = Some ?st" using f p by (simp add: SLIST_REMOVE_def SLIST_REMOVE_AFTER_def SLIST_NEXT_def)
  have "linked (slots ?st) (slots ?st (First head)) (xs @ ys)" by (rule linked_remove [OF l]) (use snoc in auto)
  then have s: "slist ?st head (xs @ ys)" using l(2) by (simp add: slist_def)
  have "Next p \<in> insert (First head) (Next ` set xs)" using snoc by simp
  then show ?thesis using that [OF r s, of "Next p"] by simp
qed

text \<open>The contract, on the macros.\<close>

interpretation slists: linked_list slist "\<lambda>h e st. Some (SLIST_INSERT_HEAD h e st)" "\<lambda>h x e st. Some (SLIST_INSERT_AFTER x e st)" SLIST_REMOVE
proof
  fix st h xs e assume a: "slist st h xs" "e \<notin> set xs"
  have "slist (SLIST_INSERT_HEAD h e st) g zs" if "g \<noteq> h" "slist st g zs" "e \<notin> set zs" for g zs
    by (rule slist_frame [OF that(2)]) (use that in \<open>auto simp: SLIST_INSERT_HEAD_def\<close>)
  then show "\<exists>s'. Some (SLIST_INSERT_HEAD h e st) = Some s' \<and> slist s' h (e # xs) \<and>
      (\<forall>g zs. g \<noteq> h \<and> slist st g zs \<and> e \<notin> set zs \<and> set zs \<inter> set xs = {} \<longrightarrow> slist s' g zs)" using slist_insert_head [OF a] by blast
next
  fix st h xs x ys e assume a: "slist st h (xs @ x # ys)" "e \<notin> set (xs @ x # ys)"
  have "slist (SLIST_INSERT_AFTER x e st) g zs" if "slist st g zs" "e \<notin> set zs" "set zs \<inter> set (xs @ x # ys) = {}" for g zs
    by (rule slist_frame [OF that(1)]) (use that in \<open>auto simp: SLIST_INSERT_AFTER_def\<close>)
  then show "\<exists>s'. Some (SLIST_INSERT_AFTER x e st) = Some s' \<and> slist s' h (xs @ x # e # ys) \<and>
      (\<forall>g zs. g \<noteq> h \<and> slist st g zs \<and> e \<notin> set zs \<and> set zs \<inter> set (xs @ x # ys) = {} \<longrightarrow> slist s' g zs)"
    using slist_insert_after [OF a] by blast
next
  fix st h xs e ys assume a: "slist st h (xs @ e # ys)"
  obtain st' u where r: "SLIST_REMOVE h e st = Some st'" "slist st' h (xs @ ys)" "u \<in> insert (First h) (Next ` set xs)"
    "\<forall>z. z \<noteq> u \<longrightarrow> slots st' z = slots st z" using slist_remove [OF a] .
  have "slist st' g zs" if "g \<noteq> h" "slist st g zs" "set zs \<inter> set (xs @ e # ys) = {}" for g zs
    by (rule slist_frame [OF that(2)], rule r(4) [rule_format]) (use that r(3) in auto)
  then show "\<exists>s'. SLIST_REMOVE h e st = Some s' \<and> slist s' h (xs @ ys) \<and>
      (\<forall>g zs. g \<noteq> h \<and> slist st g zs \<and> set zs \<inter> set (xs @ e # ys) = {} \<longrightarrow> slist s' g zs)" using r(1,2) by blast
qed (simp add: slist_def)

text \<open>Swapping two heads, and the loops.\<close>

lemma slist_swap: "slist st h xs \<Longrightarrow> slist st g ys \<Longrightarrow> slist (SLIST_SWAP h g st) h ys \<and> slist (SLIST_SWAP h g st) g xs"
  by (auto simp: slist_def SLIST_SWAP_def SLIST_FIRST_def Let_def linked_frame image_iff)

lemma slist_foreach:
  assumes "slist (mem s) head xs" "\<forall>x s s'. x \<in> set xs \<and> body x s = Some s' \<longrightarrow> mem s' = mem s"
  shows "SLIST_FOREACH mem head body s = fold_opt body xs s"
  unfolding SLIST_FOREACH_def SLIST_NEXT_def SLIST_FIRST_def
  by (rule foreach_linked) (use assms in \<open>auto simp: slist_def\<close>)

lemma slist_foreach_safe:
  assumes "slist (mem s) head xs"
    "\<forall>x s s' y. x \<in> set xs \<and> y \<in> set xs \<and> y \<noteq> x \<and> body x s = Some s' \<longrightarrow> slots (mem s') (Next y) = slots (mem s) (Next y)"
  shows "SLIST_FOREACH_SAFE mem head body s = fold_opt body xs s"
  unfolding SLIST_FOREACH_SAFE_def SLIST_NEXT_def SLIST_FIRST_def
  by (rule foreach_safe_linked) (use assms in \<open>auto simp: slist_def\<close>)

text \<open>The body of the loop with the address of the pointer sees each element with the place it hangs from.\<close>

lemma prevptr_loop_linked:
  assumes "linked (slots (mem s)) (slots (mem s) p) xs" "\<forall>x q s s'. body x q s = Some s' \<longrightarrow> slots (mem s') = slots (mem s)"
  shows "prevptr_loop mem body p s = fold_opt (\<lambda>(x, q). body x q) (zip xs (p # map Next xs)) s"
  using assms(1)
proof (induction xs arbitrary: p s)
  case Nil
  then show ?case by (simp add: prevptr_loop.simps)
next
  case (Cons x xs)
  show ?case
  proof (cases "body x p s")
    case None
    then show ?thesis using Cons.prems by (simp add: prevptr_loop.simps [of _ _ p])
  next
    case (Some s')
    then have "slots (mem s') = slots (mem s)" using assms(2) by blast
    then show ?thesis using Cons Some by (simp add: prevptr_loop.simps [of _ _ p])
  qed
qed

lemma slist_foreach_prevptr:
  assumes "slist (mem s) head xs" "\<forall>x q s s'. body x q s = Some s' \<longrightarrow> slots (mem s') = slots (mem s)"
  shows "SLIST_FOREACH_PREVPTR mem head body s = fold_opt (\<lambda>(x, q). body x q) (zip xs (First head # map Next xs)) s"
  unfolding SLIST_FOREACH_PREVPTR_def by (rule prevptr_loop_linked) (use assms in \<open>auto simp: slist_def\<close>)

end
