(* ===== verification/Stailq.thy ===== *)
theory Stailq
  imports Slist
begin

text \<open>
  The singly-linked tail queues of \<^verbatim>\<open>src/queue.h\<close> (\<open>STAILQ_\<close>): a head also has the address of the last next
  pointer. \<^verbatim>\<open>__containerof\<close>, which \<^verbatim>\<open>STAILQ_LAST\<close> uses, is not defined in the repository and is a parameter: it takes the
  address of a next pointer to the element.
\<close>

record stailq_mem = cells +
  stqh_last :: "nat \<Rightarrow> slot"

section \<open>The macros\<close>

definition STAILQ_FIRST :: "nat \<Rightarrow> stailq_mem \<Rightarrow> ptr" where
  "STAILQ_FIRST head st = slots st (First head)"

definition STAILQ_EMPTY :: "nat \<Rightarrow> stailq_mem \<Rightarrow> bool" where
  "STAILQ_EMPTY head st \<longleftrightarrow> STAILQ_FIRST head st = None"

definition STAILQ_NEXT :: "stailq_mem \<Rightarrow> nat \<Rightarrow> ptr" where
  "STAILQ_NEXT st elm = slots st (Next elm)"

definition STAILQ_INIT :: "nat \<Rightarrow> stailq_mem \<Rightarrow> stailq_mem" where
  "STAILQ_INIT head st = st\<lparr>slots := (slots st)(First head := None), stqh_last := (stqh_last st)(head := First head)\<rparr>"

definition STAILQ_CONCAT :: "nat \<Rightarrow> nat \<Rightarrow> stailq_mem \<Rightarrow> stailq_mem" where
  "STAILQ_CONCAT head1 head2 st =
     (if \<not> STAILQ_EMPTY head2 st then
        let st = st\<lparr>slots := (slots st)(stqh_last st head1 := STAILQ_FIRST head2 st)\<rparr>;
            st = st\<lparr>stqh_last := (stqh_last st)(head1 := stqh_last st head2)\<rparr>
        in STAILQ_INIT head2 st
      else st)"

definition STAILQ_INSERT_AFTER :: "nat \<Rightarrow> nat \<Rightarrow> nat \<Rightarrow> stailq_mem \<Rightarrow> stailq_mem" where
  "STAILQ_INSERT_AFTER head tqelm elm st =
     (let st = st\<lparr>slots := (slots st)(Next elm := STAILQ_NEXT st tqelm)\<rparr>;
          st = (if STAILQ_NEXT st elm = None then st\<lparr>stqh_last := (stqh_last st)(head := Next elm)\<rparr> else st)
      in st\<lparr>slots := (slots st)(Next tqelm := Some elm)\<rparr>)"

definition STAILQ_INSERT_HEAD :: "nat \<Rightarrow> nat \<Rightarrow> stailq_mem \<Rightarrow> stailq_mem" where
  "STAILQ_INSERT_HEAD head elm st =
     (let st = st\<lparr>slots := (slots st)(Next elm := STAILQ_FIRST head st)\<rparr>;
          st = (if STAILQ_NEXT st elm = None then st\<lparr>stqh_last := (stqh_last st)(head := Next elm)\<rparr> else st)
      in st\<lparr>slots := (slots st)(First head := Some elm)\<rparr>)"

definition STAILQ_INSERT_TAIL :: "nat \<Rightarrow> nat \<Rightarrow> stailq_mem \<Rightarrow> stailq_mem" where
  "STAILQ_INSERT_TAIL head elm st =
     (let st = st\<lparr>slots := (slots st)(Next elm := None)\<rparr>;
          st = st\<lparr>slots := (slots st)(stqh_last st head := Some elm)\<rparr>
      in st\<lparr>stqh_last := (stqh_last st)(head := Next elm)\<rparr>)"

definition STAILQ_LAST :: "(slot \<Rightarrow> nat) \<Rightarrow> nat \<Rightarrow> stailq_mem \<Rightarrow> ptr" where
  "STAILQ_LAST containerof head st = (if STAILQ_EMPTY head st then None else Some (containerof (stqh_last st head)))"

definition STAILQ_REMOVE_AFTER :: "nat \<Rightarrow> nat \<Rightarrow> stailq_mem \<Rightarrow> stailq_mem option" where
  "STAILQ_REMOVE_AFTER head elm st = do {
     next \<leftarrow> STAILQ_NEXT st elm;
     let st = st\<lparr>slots := (slots st)(Next elm := STAILQ_NEXT st next)\<rparr>;
     Some (if STAILQ_NEXT st elm = None then st\<lparr>stqh_last := (stqh_last st)(head := Next elm)\<rparr> else st)
   }"

definition STAILQ_REMOVE_HEAD :: "nat \<Rightarrow> stailq_mem \<Rightarrow> stailq_mem option" where
  "STAILQ_REMOVE_HEAD head st = do {
     first \<leftarrow> STAILQ_FIRST head st;
     let st = st\<lparr>slots := (slots st)(First head := STAILQ_NEXT st first)\<rparr>;
     Some (if STAILQ_FIRST head st = None then st\<lparr>stqh_last := (stqh_last st)(head := First head)\<rparr> else st)
   }"

definition STAILQ_REMOVE :: "nat \<Rightarrow> nat \<Rightarrow> stailq_mem \<Rightarrow> stailq_mem option" where
  "STAILQ_REMOVE head elm st =
     (if STAILQ_FIRST head st = Some elm then STAILQ_REMOVE_HEAD head st
      else do {
        curelm \<leftarrow> slist_prev (slots st) elm (STAILQ_FIRST head st);
        STAILQ_REMOVE_AFTER head curelm st
      })"

definition STAILQ_SWAP :: "nat \<Rightarrow> nat \<Rightarrow> stailq_mem \<Rightarrow> stailq_mem" where
  "STAILQ_SWAP head1 head2 st =
     (let swap_first = STAILQ_FIRST head1 st;
          swap_last = stqh_last st head1;
          st = st\<lparr>slots := (slots st)(First head1 := STAILQ_FIRST head2 st)\<rparr>;
          st = st\<lparr>stqh_last := (stqh_last st)(head1 := stqh_last st head2)\<rparr>;
          st = st\<lparr>slots := (slots st)(First head2 := swap_first)\<rparr>;
          st = st\<lparr>stqh_last := (stqh_last st)(head2 := swap_last)\<rparr>;
          st = (if STAILQ_EMPTY head1 st then st\<lparr>stqh_last := (stqh_last st)(head1 := First head1)\<rparr> else st)
      in if STAILQ_EMPTY head2 st then st\<lparr>stqh_last := (stqh_last st)(head2 := First head2)\<rparr> else st)"

text \<open>The loops. The body works on a state of which \<open>mem\<close> is the memory of the queue.\<close>

definition STAILQ_FOREACH :: "('s \<Rightarrow> stailq_mem) \<Rightarrow> nat \<Rightarrow> (nat \<Rightarrow> 's \<Rightarrow> 's option) \<Rightarrow> 's \<Rightarrow> 's option" where
  "STAILQ_FOREACH mem head body s = foreach (\<lambda>s. STAILQ_NEXT (mem s)) body (STAILQ_FIRST head (mem s)) s"

definition STAILQ_FOREACH_FROM :: "('s \<Rightarrow> stailq_mem) \<Rightarrow> ptr \<Rightarrow> nat \<Rightarrow> (nat \<Rightarrow> 's \<Rightarrow> 's option) \<Rightarrow> 's \<Rightarrow> 's option" where
  "STAILQ_FOREACH_FROM mem var head body s =
     foreach (\<lambda>s. STAILQ_NEXT (mem s)) body (if var \<noteq> None then var else STAILQ_FIRST head (mem s)) s"

definition STAILQ_FOREACH_SAFE :: "('s \<Rightarrow> stailq_mem) \<Rightarrow> nat \<Rightarrow> (nat \<Rightarrow> 's \<Rightarrow> 's option) \<Rightarrow> 's \<Rightarrow> 's option" where
  "STAILQ_FOREACH_SAFE mem head body s = foreach_safe (\<lambda>s. STAILQ_NEXT (mem s)) body (STAILQ_FIRST head (mem s)) s"

definition STAILQ_FOREACH_FROM_SAFE :: "('s \<Rightarrow> stailq_mem) \<Rightarrow> ptr \<Rightarrow> nat \<Rightarrow> (nat \<Rightarrow> 's \<Rightarrow> 's option) \<Rightarrow> 's \<Rightarrow> 's option" where
  "STAILQ_FOREACH_FROM_SAFE mem var head body s =
     foreach_safe (\<lambda>s. STAILQ_NEXT (mem s)) body (if var \<noteq> None then var else STAILQ_FIRST head (mem s)) s"

section \<open>The queue of a head\<close>

definition stailq :: "stailq_mem \<Rightarrow> nat \<Rightarrow> nat list \<Rightarrow> bool" where
  "stailq st head xs \<longleftrightarrow> distinct xs \<and> linked (slots st) (slots st (First head)) xs \<and> stqh_last st head = end_slot (First head) xs"

lemma stailq_init [simp]: "stailq (STAILQ_INIT head st) head []"
  by (simp add: stailq_def STAILQ_INIT_def)

lemma stailq_first: "stailq st head xs \<Longrightarrow> STAILQ_FIRST head st = (case xs of [] \<Rightarrow> None | x # _ \<Rightarrow> Some x)"
  unfolding stailq_def STAILQ_FIRST_def using linked_first by blast

lemma stailq_frame:
  assumes "stailq st g zs" "\<And>z. z \<in> insert (First g) (Next ` set zs) \<Longrightarrow> slots st' z = slots st z" "stqh_last st' g = stqh_last st g"
  shows "stailq st' g zs"
  using assms(1,3) linked_cong [of zs "slots st'" "slots st"] assms(2) by (simp add: stailq_def)

lemma stailq_insert_head:
  assumes "stailq st head xs" "e \<notin> set xs"
  shows "stailq (STAILQ_INSERT_HEAD head e st) head (e # xs)"
  using assms linked_insert [of "slots st" "First head" "[]" xs e] stailq_first [OF assms(1)]
  by (auto simp: stailq_def STAILQ_INSERT_HEAD_def STAILQ_FIRST_def STAILQ_NEXT_def Let_def end_slot_def split: list.splits)

lemma stailq_insert_after:
  assumes "stailq st head (xs @ x # ys)" "e \<notin> set (xs @ x # ys)"
  shows "stailq (STAILQ_INSERT_AFTER head x e st) head (xs @ x # e # ys)"
proof -
  have l: "linked (slots st) (slots st (First head)) (xs @ x # ys)" "distinct (xs @ x # ys)" using assms(1) by (simp_all add: stailq_def)
  show ?thesis
    using assms linked_insert [of "slots st" "First head" "xs @ [x]" ys e] linked_next [OF l(1)]
    by (auto simp: stailq_def STAILQ_INSERT_AFTER_def STAILQ_NEXT_def Let_def end_slot_def split: list.splits)
qed

lemma stailq_insert_tail:
  assumes "stailq st head xs" "e \<notin> set xs"
  shows "stailq (STAILQ_INSERT_TAIL head e st) head (xs @ [e])"
proof -
  have l: "linked (slots st) (slots st (First head)) (xs @ [])" "distinct (xs @ [])" "stqh_last st head = end_slot (First head) xs"
    using assms(1) by (simp_all add: stailq_def)
  have n: "slots st (end_slot (First head) xs) = None" using linked_take [OF l(1)] by simp
  have "linked (slots (STAILQ_INSERT_TAIL head e st)) (slots (STAILQ_INSERT_TAIL head e st) (First head)) (xs @ e # [])"
    by (rule linked_insert [OF l(1,2)]) (use assms n l(3) in \<open>auto simp: STAILQ_INSERT_TAIL_def Let_def\<close>)
  then show ?thesis using l assms(2) by (simp add: stailq_def STAILQ_INSERT_TAIL_def Let_def)
qed

lemma stailq_last: "stailq st head xs \<Longrightarrow> (\<And>x. containerof (Next x) = x) \<Longrightarrow> STAILQ_LAST containerof head st = (if xs = [] then None else Some (last xs))"
  using stailq_first [of st head xs] by (auto simp: STAILQ_LAST_def STAILQ_EMPTY_def stailq_def end_slot_def split: list.splits)

lemma stailq_remove_head:
  assumes "stailq st head (x # xs)"
  obtains st' where "STAILQ_REMOVE_HEAD head st = Some st'" "stailq st' head xs" "\<forall>z. z \<noteq> First head \<longrightarrow> slots st' z = slots st z"
    "\<forall>g. g \<noteq> head \<longrightarrow> stqh_last st' g = stqh_last st g"
proof -
  let ?st = "st\<lparr>slots := (slots st)(First head := slots st (Next x))\<rparr>"
  let ?st' = "if slots st (Next x) = None then ?st\<lparr>stqh_last := (stqh_last st)(head := First head)\<rparr> else ?st"
  have l: "slots st (First head) = Some x" "linked (slots st) (slots st (Next x)) xs" "distinct xs" "stqh_last st head = end_slot (Next x) xs"
    using assms by (simp_all add: stailq_def)
  have "STAILQ_REMOVE_HEAD head st = Some ?st'" using l(1) by (simp add: STAILQ_REMOVE_HEAD_def STAILQ_FIRST_def STAILQ_NEXT_def Let_def)
  moreover have "stailq ?st' head xs"
    using l linked_first [OF l(2)] by (cases xs) (auto simp: stailq_def linked_frame image_iff)
  ultimately show thesis by (rule that) auto
qed

lemma stailq_remove:
  assumes "stailq st head (xs @ e # ys)"
  obtains st' u where "STAILQ_REMOVE head e st = Some st'" "stailq st' head (xs @ ys)" "u \<in> insert (First head) (Next ` set xs)"
    "\<forall>z. z \<noteq> u \<longrightarrow> slots st' z = slots st z" "\<forall>g. g \<noteq> head \<longrightarrow> stqh_last st' g = stqh_last st g"
proof (cases xs rule: rev_cases)
  case Nil
  then obtain st' where "STAILQ_REMOVE_HEAD head st = Some st'" "stailq st' head ys" "\<forall>z. z \<noteq> First head \<longrightarrow> slots st' z = slots st z"
    "\<forall>g. g \<noteq> head \<longrightarrow> stqh_last st' g = stqh_last st g" using stailq_remove_head [of st head e ys] assms by auto
  then show ?thesis using Nil that stailq_first [OF assms] by (simp add: STAILQ_REMOVE_def)
next
  case (snoc ws p)
  let ?st = "st\<lparr>slots := (slots st)(Next p := slots st (Next e))\<rparr>"
  let ?st' = "if slots st (Next e) = None then ?st\<lparr>stqh_last := (stqh_last st)(head := Next p)\<rparr> else ?st"
  have l: "linked (slots st) (slots st (First head)) (xs @ e # ys)" "distinct (xs @ e # ys)" using assms by (simp_all add: stailq_def)
  have f: "STAILQ_FIRST head st \<noteq> Some e" using stailq_first [OF assms] l(2) snoc by (cases ws) auto
  have p: "slist_prev (slots st) e (STAILQ_FIRST head st) = Some p" using slist_prev_at [of "slots st" _ ws p e ys] l snoc by (simp add: STAILQ_FIRST_def)
  have "slots st (Next p) = Some e" using linked_at [OF l(1)] snoc by simp
  then have r: "STAILQ_REMOVE head e st = Some ?st'" using f p by (simp add: STAILQ_REMOVE_def STAILQ_REMOVE_AFTER_def STAILQ_NEXT_def Let_def)
  have "linked (slots ?st) (slots ?st (First head)) (xs @ ys)" by (rule linked_remove [OF l]) (use snoc in auto)
  then have s: "stailq ?st' head (xs @ ys)"
    using l(2) assms linked_next [OF l(1)] snoc by (cases ys) (auto simp: stailq_def end_slot_def)
  have "Next p \<in> insert (First head) (Next ` set xs)" using snoc by simp
  then show ?thesis using that [OF r s, of "Next p"] by simp
qed

interpretation stailqs: linked_list stailq "\<lambda>h e st. Some (STAILQ_INSERT_HEAD h e st)" "\<lambda>h x e st. Some (STAILQ_INSERT_AFTER h x e st)" STAILQ_REMOVE
proof
  fix st h xs e assume a: "stailq st h xs" "e \<notin> set xs"
  have "stailq (STAILQ_INSERT_HEAD h e st) g zs" if "g \<noteq> h" "stailq st g zs" "e \<notin> set zs" for g zs
    by (rule stailq_frame [OF that(2)]) (use that in \<open>auto simp: STAILQ_INSERT_HEAD_def Let_def\<close>)
  then show "\<exists>s'. Some (STAILQ_INSERT_HEAD h e st) = Some s' \<and> stailq s' h (e # xs) \<and>
      (\<forall>g zs. g \<noteq> h \<and> stailq st g zs \<and> e \<notin> set zs \<and> set zs \<inter> set xs = {} \<longrightarrow> stailq s' g zs)" using stailq_insert_head [OF a] by blast
next
  fix st h xs x ys e assume a: "stailq st h (xs @ x # ys)" "e \<notin> set (xs @ x # ys)"
  have "stailq (STAILQ_INSERT_AFTER h x e st) g zs" if "g \<noteq> h" "stailq st g zs" "e \<notin> set zs" "set zs \<inter> set (xs @ x # ys) = {}" for g zs
    by (rule stailq_frame [OF that(2)]) (use that in \<open>auto simp: STAILQ_INSERT_AFTER_def Let_def\<close>)
  then show "\<exists>s'. Some (STAILQ_INSERT_AFTER h x e st) = Some s' \<and> stailq s' h (xs @ x # e # ys) \<and>
      (\<forall>g zs. g \<noteq> h \<and> stailq st g zs \<and> e \<notin> set zs \<and> set zs \<inter> set (xs @ x # ys) = {} \<longrightarrow> stailq s' g zs)"
    using stailq_insert_after [OF a] by blast
next
  fix st h xs e ys assume a: "stailq st h (xs @ e # ys)"
  obtain st' u where r: "STAILQ_REMOVE h e st = Some st'" "stailq st' h (xs @ ys)" "u \<in> insert (First h) (Next ` set xs)"
    "\<forall>z. z \<noteq> u \<longrightarrow> slots st' z = slots st z" "\<forall>g. g \<noteq> h \<longrightarrow> stqh_last st' g = stqh_last st g" using stailq_remove [OF a] .
  have "stailq st' g zs" if "g \<noteq> h" "stailq st g zs" "set zs \<inter> set (xs @ e # ys) = {}" for g zs
    by (rule stailq_frame [OF that(2)], rule r(4) [rule_format]) (use that r(3,5) in auto)
  then show "\<exists>s'. STAILQ_REMOVE h e st = Some s' \<and> stailq s' h (xs @ ys) \<and>
      (\<forall>g zs. g \<noteq> h \<and> stailq st g zs \<and> set zs \<inter> set (xs @ e # ys) = {} \<longrightarrow> stailq s' g zs)" using r(1,2) by blast
qed (simp add: stailq_def)

lemma stailq_concat:
  assumes "stailq st h xs" "stailq st g ys" "h \<noteq> g" "set xs \<inter> set ys = {}"
  shows "stailq (STAILQ_CONCAT h g st) h (xs @ ys) \<and> stailq (STAILQ_CONCAT h g st) g []"
proof (cases "ys = []")
  case True
  then show ?thesis using assms stailq_first [OF assms(2)] by (simp add: STAILQ_CONCAT_def STAILQ_EMPTY_def)
next
  case False
  let ?c = "(slots st)(end_slot (First h) xs := slots st (First g))"
  have l: "linked (slots st) (slots st (First h)) xs" "linked (slots st) (slots st (First g)) ys" "distinct (xs @ ys)"
    "stqh_last st h = end_slot (First h) xs" "stqh_last st g = end_slot (First g) ys" using assms by (simp_all add: stailq_def)
  have "linked ?c (?c (First h)) (xs @ ys)" by (rule linked_concat [OF l(1,2,3)]) auto
  then have "linked (?c(First g := None)) (?c (First h)) (xs @ ys)" by (subst linked_frame) auto
  moreover have "STAILQ_FIRST g st \<noteq> None" using stailq_first [OF assms(2)] False by (cases ys) auto
  moreover have "end_slot (First g) ys = end_slot (First h) (xs @ ys)" using False by (simp add: end_slot_def)
  ultimately show ?thesis using l assms(3) by (auto simp: stailq_def STAILQ_CONCAT_def STAILQ_EMPTY_def STAILQ_INIT_def STAILQ_FIRST_def Let_def)
qed

lemma stailq_swap:
  assumes "stailq st h xs" "stailq st g ys" "h \<noteq> g"
  shows "stailq (STAILQ_SWAP h g st) h ys \<and> stailq (STAILQ_SWAP h g st) g xs"
proof -
  have f: "slots st (First h) = (case xs of [] \<Rightarrow> None | x # _ \<Rightarrow> Some x)" "slots st (First g) = (case ys of [] \<Rightarrow> None | y # _ \<Rightarrow> Some y)"
    using stailq_first [OF assms(1)] stailq_first [OF assms(2)] by (simp_all add: STAILQ_FIRST_def)
  have e: "end_slot (First a) zs = end_slot (First b) zs" if "zs \<noteq> []" for a b zs using that by (simp add: end_slot_def)
  show ?thesis
    using assms f e by (cases xs; cases ys) (auto simp: stailq_def STAILQ_SWAP_def STAILQ_FIRST_def STAILQ_EMPTY_def Let_def linked_frame image_iff)
qed

lemma stailq_foreach:
  assumes "stailq (mem s) head xs" "\<forall>x s s'. x \<in> set xs \<and> body x s = Some s' \<longrightarrow> mem s' = mem s"
  shows "STAILQ_FOREACH mem head body s = fold_opt body xs s"
  unfolding STAILQ_FOREACH_def STAILQ_NEXT_def STAILQ_FIRST_def
  by (rule foreach_linked) (use assms in \<open>auto simp: stailq_def\<close>)

lemma stailq_foreach_safe:
  assumes "stailq (mem s) head xs"
    "\<forall>x s s' y. x \<in> set xs \<and> y \<in> set xs \<and> y \<noteq> x \<and> body x s = Some s' \<longrightarrow> slots (mem s') (Next y) = slots (mem s) (Next y)"
  shows "STAILQ_FOREACH_SAFE mem head body s = fold_opt body xs s"
  unfolding STAILQ_FOREACH_SAFE_def STAILQ_NEXT_def STAILQ_FIRST_def
  by (rule foreach_safe_linked) (use assms in \<open>auto simp: stailq_def\<close>)

end
