(* ===== verification/Tailq.thy ===== *)
theory Tailq
  imports Slots
begin

text \<open>
  The doubly-linked lists and tail queues of \<^verbatim>\<open>src/queue.h\<close> (\<open>LIST_\<close>, \<open>TAILQ_\<close>): the elements also have the address of
  the pointer to them. \<^verbatim>\<open>src/tcp.c\<close> declares a tail queue of segments.

  The macros call \<^verbatim>\<open>QMD_LIST_CHECK_\<close> and \<^verbatim>\<open>QMD_TAILQ_CHECK_\<close> macros that are not defined in the repository, so a
  file that uses the insertions or removals has to bring them. They are a parameter \<open>qmd\<close>; what is relied on is what
  the checks are for: they let a consistent list pass (\<open>list_checks\<close>, \<open>tailq_checks\<close>). \<^verbatim>\<open>__containerof\<close> is a parameter of
  \<^verbatim>\<open>LIST_PREV\<close>.
\<close>

datatype qmd_check = CHECK_HEAD nat | CHECK_NEXT nat | CHECK_PREV nat | CHECK_TAIL nat

record list_mem = cells +
  le_prev :: "nat \<Rightarrow> slot"

record tailq_mem = cells +
  tqh_last :: "nat \<Rightarrow> slot"
  tqe_prev :: "nat \<Rightarrow> slot"

section \<open>Lists\<close>

definition LIST_FIRST :: "nat \<Rightarrow> list_mem \<Rightarrow> ptr" where
  "LIST_FIRST head st = slots st (First head)"

definition LIST_EMPTY :: "nat \<Rightarrow> list_mem \<Rightarrow> bool" where
  "LIST_EMPTY head st \<longleftrightarrow> LIST_FIRST head st = None"

definition LIST_NEXT :: "list_mem \<Rightarrow> nat \<Rightarrow> ptr" where
  "LIST_NEXT st elm = slots st (Next elm)"

definition LIST_PREV :: "(slot \<Rightarrow> nat) \<Rightarrow> nat \<Rightarrow> nat \<Rightarrow> list_mem \<Rightarrow> ptr" where
  "LIST_PREV containerof elm head st = (if le_prev st elm = First head then None else Some (containerof (le_prev st elm)))"

definition LIST_INIT :: "nat \<Rightarrow> list_mem \<Rightarrow> list_mem" where
  "LIST_INIT head st = st\<lparr>slots := (slots st)(First head := None)\<rparr>"

text \<open>Setting the back link of an element, if there is one.\<close>

definition set_le_prev :: "ptr \<Rightarrow> slot \<Rightarrow> list_mem \<Rightarrow> list_mem" where
  "set_le_prev p v st = (case p of None \<Rightarrow> st | Some y \<Rightarrow> st\<lparr>le_prev := (le_prev st)(y := v)\<rparr>)"

definition LIST_INSERT_AFTER :: "(qmd_check \<Rightarrow> list_mem \<Rightarrow> list_mem option) \<Rightarrow> nat \<Rightarrow> nat \<Rightarrow> list_mem \<Rightarrow> list_mem option" where
  "LIST_INSERT_AFTER qmd listelm elm st = do {
     st \<leftarrow> qmd (CHECK_NEXT listelm) st;
     let st = st\<lparr>slots := (slots st)(Next elm := LIST_NEXT st listelm)\<rparr>;
     let st = (if LIST_NEXT st elm \<noteq> None then set_le_prev (LIST_NEXT st listelm) (Next elm) st else st);
     let st = st\<lparr>slots := (slots st)(Next listelm := Some elm)\<rparr>;
     Some (st\<lparr>le_prev := (le_prev st)(elm := Next listelm)\<rparr>)
   }"

definition LIST_INSERT_BEFORE :: "(qmd_check \<Rightarrow> list_mem \<Rightarrow> list_mem option) \<Rightarrow> nat \<Rightarrow> nat \<Rightarrow> list_mem \<Rightarrow> list_mem option" where
  "LIST_INSERT_BEFORE qmd listelm elm st = do {
     st \<leftarrow> qmd (CHECK_PREV listelm) st;
     let st = st\<lparr>le_prev := (le_prev st)(elm := le_prev st listelm)\<rparr>;
     let st = st\<lparr>slots := (slots st)(Next elm := Some listelm)\<rparr>;
     let st = st\<lparr>slots := (slots st)(le_prev st listelm := Some elm)\<rparr>;
     Some (st\<lparr>le_prev := (le_prev st)(listelm := Next elm)\<rparr>)
   }"

definition LIST_INSERT_HEAD :: "(qmd_check \<Rightarrow> list_mem \<Rightarrow> list_mem option) \<Rightarrow> nat \<Rightarrow> nat \<Rightarrow> list_mem \<Rightarrow> list_mem option" where
  "LIST_INSERT_HEAD qmd head elm st = do {
     st \<leftarrow> qmd (CHECK_HEAD head) st;
     let st = st\<lparr>slots := (slots st)(Next elm := LIST_FIRST head st)\<rparr>;
     let st = (if LIST_NEXT st elm \<noteq> None then set_le_prev (LIST_FIRST head st) (Next elm) st else st);
     let st = st\<lparr>slots := (slots st)(First head := Some elm)\<rparr>;
     Some (st\<lparr>le_prev := (le_prev st)(elm := First head)\<rparr>)
   }"

definition LIST_REMOVE :: "(qmd_check \<Rightarrow> list_mem \<Rightarrow> list_mem option) \<Rightarrow> nat \<Rightarrow> list_mem \<Rightarrow> list_mem option" where
  "LIST_REMOVE qmd elm st = do {
     st \<leftarrow> qmd (CHECK_NEXT elm) st;
     st \<leftarrow> qmd (CHECK_PREV elm) st;
     let st = (if LIST_NEXT st elm \<noteq> None then set_le_prev (LIST_NEXT st elm) (le_prev st elm) st else st);
     Some (st\<lparr>slots := (slots st)(le_prev st elm := LIST_NEXT st elm)\<rparr>)
   }"

definition LIST_SWAP :: "nat \<Rightarrow> nat \<Rightarrow> list_mem \<Rightarrow> list_mem" where
  "LIST_SWAP head1 head2 st =
     (let swap_tmp = LIST_FIRST head1 st;
          st = st\<lparr>slots := (slots st)(First head1 := LIST_FIRST head2 st)\<rparr>;
          st = st\<lparr>slots := (slots st)(First head2 := swap_tmp)\<rparr>;
          st = set_le_prev (LIST_FIRST head1 st) (First head1) st
      in set_le_prev (LIST_FIRST head2 st) (First head2) st)"

definition LIST_FOREACH :: "('s \<Rightarrow> list_mem) \<Rightarrow> nat \<Rightarrow> (nat \<Rightarrow> 's \<Rightarrow> 's option) \<Rightarrow> 's \<Rightarrow> 's option" where
  "LIST_FOREACH mem head body s = foreach (\<lambda>s. LIST_NEXT (mem s)) body (LIST_FIRST head (mem s)) s"

definition LIST_FOREACH_FROM :: "('s \<Rightarrow> list_mem) \<Rightarrow> ptr \<Rightarrow> nat \<Rightarrow> (nat \<Rightarrow> 's \<Rightarrow> 's option) \<Rightarrow> 's \<Rightarrow> 's option" where
  "LIST_FOREACH_FROM mem var head body s =
     foreach (\<lambda>s. LIST_NEXT (mem s)) body (if var \<noteq> None then var else LIST_FIRST head (mem s)) s"

definition LIST_FOREACH_SAFE :: "('s \<Rightarrow> list_mem) \<Rightarrow> nat \<Rightarrow> (nat \<Rightarrow> 's \<Rightarrow> 's option) \<Rightarrow> 's \<Rightarrow> 's option" where
  "LIST_FOREACH_SAFE mem head body s = foreach_safe (\<lambda>s. LIST_NEXT (mem s)) body (LIST_FIRST head (mem s)) s"

definition LIST_FOREACH_FROM_SAFE :: "('s \<Rightarrow> list_mem) \<Rightarrow> ptr \<Rightarrow> nat \<Rightarrow> (nat \<Rightarrow> 's \<Rightarrow> 's option) \<Rightarrow> 's \<Rightarrow> 's option" where
  "LIST_FOREACH_FROM_SAFE mem var head body s =
     foreach_safe (\<lambda>s. LIST_NEXT (mem s)) body (if var \<noteq> None then var else LIST_FIRST head (mem s)) s"

section \<open>Tail queues\<close>

definition TAILQ_FIRST :: "nat \<Rightarrow> tailq_mem \<Rightarrow> ptr" where
  "TAILQ_FIRST head st = slots st (First head)"

definition TAILQ_EMPTY :: "nat \<Rightarrow> tailq_mem \<Rightarrow> bool" where
  "TAILQ_EMPTY head st \<longleftrightarrow> TAILQ_FIRST head st = None"

definition TAILQ_NEXT :: "tailq_mem \<Rightarrow> nat \<Rightarrow> ptr" where
  "TAILQ_NEXT st elm = slots st (Next elm)"

text \<open>\<^verbatim>\<open>TAILQ_LAST\<close> and \<^verbatim>\<open>TAILQ_PREV\<close> read the links of an element as if they were a head: the word behind a slot
  is the tail link of the head, or the back link of the element.\<close>

definition slot_last :: "slot \<Rightarrow> tailq_mem \<Rightarrow> slot" where
  "slot_last s st = (case s of First head \<Rightarrow> tqh_last st head | Next elm \<Rightarrow> tqe_prev st elm)"

definition TAILQ_LAST :: "nat \<Rightarrow> tailq_mem \<Rightarrow> ptr" where
  "TAILQ_LAST head st = slots st (slot_last (tqh_last st head) st)"

definition TAILQ_PREV :: "tailq_mem \<Rightarrow> nat \<Rightarrow> ptr" where
  "TAILQ_PREV st elm = slots st (slot_last (tqe_prev st elm) st)"

definition TAILQ_INIT :: "nat \<Rightarrow> tailq_mem \<Rightarrow> tailq_mem" where
  "TAILQ_INIT head st = st\<lparr>slots := (slots st)(First head := None), tqh_last := (tqh_last st)(head := First head)\<rparr>"

definition set_tqe_prev :: "ptr \<Rightarrow> slot \<Rightarrow> tailq_mem \<Rightarrow> tailq_mem" where
  "set_tqe_prev p v st = (case p of None \<Rightarrow> st | Some y \<Rightarrow> st\<lparr>tqe_prev := (tqe_prev st)(y := v)\<rparr>)"

definition TAILQ_CONCAT :: "nat \<Rightarrow> nat \<Rightarrow> tailq_mem \<Rightarrow> tailq_mem" where
  "TAILQ_CONCAT head1 head2 st =
     (if \<not> TAILQ_EMPTY head2 st then
        let st = st\<lparr>slots := (slots st)(tqh_last st head1 := TAILQ_FIRST head2 st)\<rparr>;
            st = set_tqe_prev (TAILQ_FIRST head2 st) (tqh_last st head1) st;
            st = st\<lparr>tqh_last := (tqh_last st)(head1 := tqh_last st head2)\<rparr>
        in TAILQ_INIT head2 st
      else st)"

definition TAILQ_INSERT_AFTER :: "(qmd_check \<Rightarrow> tailq_mem \<Rightarrow> tailq_mem option) \<Rightarrow> nat \<Rightarrow> nat \<Rightarrow> nat \<Rightarrow> tailq_mem \<Rightarrow> tailq_mem option" where
  "TAILQ_INSERT_AFTER qmd head listelm elm st = do {
     st \<leftarrow> qmd (CHECK_NEXT listelm) st;
     let st = st\<lparr>slots := (slots st)(Next elm := TAILQ_NEXT st listelm)\<rparr>;
     let st = (if TAILQ_NEXT st elm \<noteq> None then set_tqe_prev (TAILQ_NEXT st elm) (Next elm) st
               else st\<lparr>tqh_last := (tqh_last st)(head := Next elm)\<rparr>);
     let st = st\<lparr>slots := (slots st)(Next listelm := Some elm)\<rparr>;
     Some (st\<lparr>tqe_prev := (tqe_prev st)(elm := Next listelm)\<rparr>)
   }"

definition TAILQ_INSERT_BEFORE :: "(qmd_check \<Rightarrow> tailq_mem \<Rightarrow> tailq_mem option) \<Rightarrow> nat \<Rightarrow> nat \<Rightarrow> tailq_mem \<Rightarrow> tailq_mem option" where
  "TAILQ_INSERT_BEFORE qmd listelm elm st = do {
     st \<leftarrow> qmd (CHECK_PREV listelm) st;
     let st = st\<lparr>tqe_prev := (tqe_prev st)(elm := tqe_prev st listelm)\<rparr>;
     let st = st\<lparr>slots := (slots st)(Next elm := Some listelm)\<rparr>;
     let st = st\<lparr>slots := (slots st)(tqe_prev st listelm := Some elm)\<rparr>;
     Some (st\<lparr>tqe_prev := (tqe_prev st)(listelm := Next elm)\<rparr>)
   }"

definition TAILQ_INSERT_HEAD :: "(qmd_check \<Rightarrow> tailq_mem \<Rightarrow> tailq_mem option) \<Rightarrow> nat \<Rightarrow> nat \<Rightarrow> tailq_mem \<Rightarrow> tailq_mem option" where
  "TAILQ_INSERT_HEAD qmd head elm st = do {
     st \<leftarrow> qmd (CHECK_HEAD head) st;
     let st = st\<lparr>slots := (slots st)(Next elm := TAILQ_FIRST head st)\<rparr>;
     let st = (if TAILQ_NEXT st elm \<noteq> None then set_tqe_prev (TAILQ_FIRST head st) (Next elm) st
               else st\<lparr>tqh_last := (tqh_last st)(head := Next elm)\<rparr>);
     let st = st\<lparr>slots := (slots st)(First head := Some elm)\<rparr>;
     Some (st\<lparr>tqe_prev := (tqe_prev st)(elm := First head)\<rparr>)
   }"

definition TAILQ_INSERT_TAIL :: "(qmd_check \<Rightarrow> tailq_mem \<Rightarrow> tailq_mem option) \<Rightarrow> nat \<Rightarrow> nat \<Rightarrow> tailq_mem \<Rightarrow> tailq_mem option" where
  "TAILQ_INSERT_TAIL qmd head elm st = do {
     st \<leftarrow> qmd (CHECK_TAIL head) st;
     let st = st\<lparr>slots := (slots st)(Next elm := None)\<rparr>;
     let st = st\<lparr>tqe_prev := (tqe_prev st)(elm := tqh_last st head)\<rparr>;
     let st = st\<lparr>slots := (slots st)(tqh_last st head := Some elm)\<rparr>;
     Some (st\<lparr>tqh_last := (tqh_last st)(head := Next elm)\<rparr>)
   }"

definition TAILQ_REMOVE :: "(qmd_check \<Rightarrow> tailq_mem \<Rightarrow> tailq_mem option) \<Rightarrow> nat \<Rightarrow> nat \<Rightarrow> tailq_mem \<Rightarrow> tailq_mem option" where
  "TAILQ_REMOVE qmd head elm st = do {
     st \<leftarrow> qmd (CHECK_NEXT elm) st;
     st \<leftarrow> qmd (CHECK_PREV elm) st;
     let st = (if TAILQ_NEXT st elm \<noteq> None then set_tqe_prev (TAILQ_NEXT st elm) (tqe_prev st elm) st
               else st\<lparr>tqh_last := (tqh_last st)(head := tqe_prev st elm)\<rparr>);
     Some (st\<lparr>slots := (slots st)(tqe_prev st elm := TAILQ_NEXT st elm)\<rparr>)
   }"

definition TAILQ_SWAP :: "nat \<Rightarrow> nat \<Rightarrow> tailq_mem \<Rightarrow> tailq_mem" where
  "TAILQ_SWAP head1 head2 st =
     (let swap_first = TAILQ_FIRST head1 st;
          swap_last = tqh_last st head1;
          st = st\<lparr>slots := (slots st)(First head1 := TAILQ_FIRST head2 st)\<rparr>;
          st = st\<lparr>tqh_last := (tqh_last st)(head1 := tqh_last st head2)\<rparr>;
          st = st\<lparr>slots := (slots st)(First head2 := swap_first)\<rparr>;
          st = st\<lparr>tqh_last := (tqh_last st)(head2 := swap_last)\<rparr>;
          st = (if TAILQ_FIRST head1 st \<noteq> None then set_tqe_prev (TAILQ_FIRST head1 st) (First head1) st
                else st\<lparr>tqh_last := (tqh_last st)(head1 := First head1)\<rparr>)
      in if TAILQ_FIRST head2 st \<noteq> None then set_tqe_prev (TAILQ_FIRST head2 st) (First head2) st
         else st\<lparr>tqh_last := (tqh_last st)(head2 := First head2)\<rparr>)"

definition TAILQ_FOREACH :: "('s \<Rightarrow> tailq_mem) \<Rightarrow> nat \<Rightarrow> (nat \<Rightarrow> 's \<Rightarrow> 's option) \<Rightarrow> 's \<Rightarrow> 's option" where
  "TAILQ_FOREACH mem head body s = foreach (\<lambda>s. TAILQ_NEXT (mem s)) body (TAILQ_FIRST head (mem s)) s"

definition TAILQ_FOREACH_FROM :: "('s \<Rightarrow> tailq_mem) \<Rightarrow> ptr \<Rightarrow> nat \<Rightarrow> (nat \<Rightarrow> 's \<Rightarrow> 's option) \<Rightarrow> 's \<Rightarrow> 's option" where
  "TAILQ_FOREACH_FROM mem var head body s =
     foreach (\<lambda>s. TAILQ_NEXT (mem s)) body (if var \<noteq> None then var else TAILQ_FIRST head (mem s)) s"

definition TAILQ_FOREACH_SAFE :: "('s \<Rightarrow> tailq_mem) \<Rightarrow> nat \<Rightarrow> (nat \<Rightarrow> 's \<Rightarrow> 's option) \<Rightarrow> 's \<Rightarrow> 's option" where
  "TAILQ_FOREACH_SAFE mem head body s = foreach_safe (\<lambda>s. TAILQ_NEXT (mem s)) body (TAILQ_FIRST head (mem s)) s"

definition TAILQ_FOREACH_FROM_SAFE :: "('s \<Rightarrow> tailq_mem) \<Rightarrow> ptr \<Rightarrow> nat \<Rightarrow> (nat \<Rightarrow> 's \<Rightarrow> 's option) \<Rightarrow> 's \<Rightarrow> 's option" where
  "TAILQ_FOREACH_FROM_SAFE mem var head body s =
     foreach_safe (\<lambda>s. TAILQ_NEXT (mem s)) body (if var \<noteq> None then var else TAILQ_FIRST head (mem s)) s"

definition TAILQ_FOREACH_REVERSE :: "('s \<Rightarrow> tailq_mem) \<Rightarrow> nat \<Rightarrow> (nat \<Rightarrow> 's \<Rightarrow> 's option) \<Rightarrow> 's \<Rightarrow> 's option" where
  "TAILQ_FOREACH_REVERSE mem head body s = foreach (\<lambda>s. TAILQ_PREV (mem s)) body (TAILQ_LAST head (mem s)) s"

definition TAILQ_FOREACH_REVERSE_FROM :: "('s \<Rightarrow> tailq_mem) \<Rightarrow> ptr \<Rightarrow> nat \<Rightarrow> (nat \<Rightarrow> 's \<Rightarrow> 's option) \<Rightarrow> 's \<Rightarrow> 's option" where
  "TAILQ_FOREACH_REVERSE_FROM mem var head body s =
     foreach (\<lambda>s. TAILQ_PREV (mem s)) body (if var \<noteq> None then var else TAILQ_LAST head (mem s)) s"

definition TAILQ_FOREACH_REVERSE_SAFE :: "('s \<Rightarrow> tailq_mem) \<Rightarrow> nat \<Rightarrow> (nat \<Rightarrow> 's \<Rightarrow> 's option) \<Rightarrow> 's \<Rightarrow> 's option" where
  "TAILQ_FOREACH_REVERSE_SAFE mem head body s = foreach_safe (\<lambda>s. TAILQ_PREV (mem s)) body (TAILQ_LAST head (mem s)) s"

definition TAILQ_FOREACH_REVERSE_FROM_SAFE :: "('s \<Rightarrow> tailq_mem) \<Rightarrow> ptr \<Rightarrow> nat \<Rightarrow> (nat \<Rightarrow> 's \<Rightarrow> 's option) \<Rightarrow> 's \<Rightarrow> 's option" where
  "TAILQ_FOREACH_REVERSE_FROM_SAFE mem var head body s =
     foreach_safe (\<lambda>s. TAILQ_PREV (mem s)) body (if var \<noteq> None then var else TAILQ_LAST head (mem s)) s"

section \<open>Back links\<close>

fun backlinks :: "(nat \<Rightarrow> slot) \<Rightarrow> slot \<Rightarrow> nat list \<Rightarrow> bool" where
  "backlinks p s [] \<longleftrightarrow> True"
| "backlinks p s (x # xs) \<longleftrightarrow> p x = s \<and> backlinks p (Next x) xs"

definition dlist :: "(slot \<Rightarrow> ptr) \<Rightarrow> (nat \<Rightarrow> slot) \<Rightarrow> nat \<Rightarrow> nat list \<Rightarrow> bool" where
  "dlist c p head xs \<longleftrightarrow> distinct xs \<and> linked c (c (First head)) xs \<and> backlinks p (First head) xs"

lemma backlinks_append [simp]: "backlinks p s (xs @ ys) \<longleftrightarrow> backlinks p s xs \<and> backlinks p (end_slot s xs) ys"
  by (induction xs arbitrary: s) auto

lemma backlinks_cong: "(\<And>x. x \<in> set xs \<Longrightarrow> p' x = p x) \<Longrightarrow> backlinks p' s xs = backlinks p s xs"
  by (induction xs arbitrary: s) auto

text \<open>Setting the back link of what follows, if anything does.\<close>

definition set_prev :: "ptr \<Rightarrow> slot \<Rightarrow> (nat \<Rightarrow> slot) \<Rightarrow> nat \<Rightarrow> slot" where
  "set_prev v s p = (case v of None \<Rightarrow> p | Some y \<Rightarrow> p(y := s))"

lemma backlinks_set_prev: "linked c v ys \<Longrightarrow> distinct ys \<Longrightarrow> backlinks p t ys \<Longrightarrow> backlinks (set_prev v s p) s ys"
proof (cases ys)
  case (Cons y ws)
  assume a: "linked c v ys" "distinct ys" "backlinks p t ys"
  have "backlinks (p(y := s)) (Next y) ws = backlinks p (Next y) ws" by (rule backlinks_cong) (use a(2) Cons in auto)
  then show ?thesis using a Cons by (simp add: set_prev_def)
qed (simp add: set_prev_def)

lemma set_prev_other: "linked c v ys \<Longrightarrow> x \<notin> set ys \<Longrightarrow> set_prev v s p x = p x"
  by (cases ys) (auto simp: set_prev_def)

lemma dlist_frame:
  assumes "dlist c p g zs" "\<And>z. z \<in> insert (First g) (Next ` set zs) \<Longrightarrow> c' z = c z" "\<And>x. x \<in> set zs \<Longrightarrow> p' x = p x"
  shows "dlist c' p' g zs"
  using assms(1) linked_cong [of zs c' c] backlinks_cong [of zs p' p] assms(2,3) by (simp add: dlist_def)

lemma dlist_insert:
  assumes "dlist c p head (xs @ ys)" "e \<notin> set (xs @ ys)" "t = end_slot (First head) xs"
    "c' = c(Next e := c t, t := Some e)" "p' = (set_prev (c t) (Next e) p)(e := t)"
  shows "dlist c' p' head (xs @ e # ys)"
proof -
  have l: "linked c (c (First head)) (xs @ ys)" "distinct (xs @ ys)" "backlinks p (First head) xs" "backlinks p t ys" using assms(1,3) by (simp_all add: dlist_def)
  have ys: "linked c (c t) ys" using linked_take [OF l(1)] assms(3) by simp
  have "linked c' (c' (First head)) (xs @ e # ys)" by (rule linked_insert [OF l(1,2) assms(2) _ assms(3,4)]) auto
  moreover have "backlinks p' (First head) xs = backlinks p (First head) xs" by (rule backlinks_cong) (use assms(2,5) l(2) set_prev_other [OF ys] in auto)
  moreover have "backlinks p' (Next e) ys = backlinks (set_prev (c t) (Next e) p) (Next e) ys" by (rule backlinks_cong) (use assms(2,5) in auto)
  ultimately show ?thesis using l assms(2,3,5) backlinks_set_prev [OF ys _ l(4), of "Next e"] by (simp add: dlist_def)
qed

lemma dlist_remove:
  assumes "dlist c p head (xs @ e # ys)" "t = end_slot (First head) xs" "c' = c(t := c (Next e))" "p' = set_prev (c (Next e)) (p e) p"
  shows "dlist c' p' head (xs @ ys)" "p e = t"
proof -
  have l: "linked c (c (First head)) (xs @ e # ys)" "distinct (xs @ e # ys)" "backlinks p (First head) xs" "p e = t" "backlinks p (Next e) ys"
    using assms(1,2) by (simp_all add: dlist_def)
  have ys: "linked c (c (Next e)) ys" using linked_take [OF l(1)] by simp
  have "linked c' (c' (First head)) (xs @ ys)" by (rule linked_remove [OF l(1,2) _ assms(2,3)]) auto
  moreover have "backlinks p' (First head) xs = backlinks p (First head) xs" by (rule backlinks_cong) (use assms(4) l(2) set_prev_other [OF ys] in auto)
  moreover have "backlinks p' t ys" using backlinks_set_prev [OF ys _ l(5), of t] l(2,4) assms(4) by simp
  ultimately show "dlist c' p' head (xs @ ys)" using l(2,3) assms(2) by (simp add: dlist_def)
  show "p e = t" by (rule l(4))
qed

text \<open>Both leave other lists as they are.\<close>

lemma dlist_insert_other:
  assumes "dlist c p head (xs @ ys)" "dlist c p g zs" "g \<noteq> head" "e \<notin> set zs" "set zs \<inter> set (xs @ ys) = {}" "t = end_slot (First head) xs"
    "c' = c(Next e := c t, t := Some e)" "p' = (set_prev (c t) (Next e) p)(e := t)"
  shows "dlist c' p' g zs"
proof (rule dlist_frame [OF assms(2)])
  have ys: "linked c (c t) ys" using assms(1,6) linked_take [of c "First head" xs ys] by (simp add: dlist_def)
  have "t \<in> insert (First head) (Next ` set xs)" using assms(6) end_slot_in by simp
  then show "z \<in> insert (First g) (Next ` set zs) \<Longrightarrow> c' z = c z" for z using assms(3-5,7) by auto
  show "x \<in> set zs \<Longrightarrow> p' x = p x" for x using assms(4,5,8) set_prev_other [OF ys, of x] by auto
qed

lemma dlist_remove_other:
  assumes "dlist c p head (xs @ e # ys)" "dlist c p g zs" "g \<noteq> head" "set zs \<inter> set (xs @ e # ys) = {}" "t = end_slot (First head) xs"
    "c' = c(t := c (Next e))" "p' = set_prev (c (Next e)) (p e) p"
  shows "dlist c' p' g zs"
proof (rule dlist_frame [OF assms(2)])
  have ys: "linked c (c (Next e)) ys" using assms(1) linked_take [of c "First head" xs "e # ys"] by (simp add: dlist_def)
  have "t \<in> insert (First head) (Next ` set xs)" using assms(5) end_slot_in by simp
  then show "z \<in> insert (First g) (Next ` set zs) \<Longrightarrow> c' z = c z" for z using assms(3,4,6) by auto
  show "x \<in> set zs \<Longrightarrow> p' x = p x" for x using assms(4,7) set_prev_other [OF ys, of x] by auto
qed

text \<open>What the links of a list are, as the checks read them.\<close>

lemma dlist_links:
  assumes "dlist c p head (xs @ x # ys)"
  shows "c (p x) = Some x" "\<forall>y. c (Next x) = Some y \<longrightarrow> p y = Next x" "p x = end_slot (First head) xs"
proof -
  have l: "linked c (c (First head)) (xs @ x # ys)" "p x = end_slot (First head) xs" "backlinks p (Next x) ys" using assms by (simp_all add: dlist_def)
  show "c (p x) = Some x" using linked_at [OF l(1)] l(2) by simp
  show "\<forall>y. c (Next x) = Some y \<longrightarrow> p y = Next x" using linked_next [OF l(1)] l(3) by (cases ys) auto
qed (use assms in \<open>simp add: dlist_def\<close>)

lemma dlist_first: "dlist c p head xs \<Longrightarrow> c (First head) = (case xs of [] \<Rightarrow> None | x # _ \<Rightarrow> Some x)"
  unfolding dlist_def using linked_first by blast

section \<open>The lists of the heads\<close>

definition llist :: "list_mem \<Rightarrow> nat \<Rightarrow> nat list \<Rightarrow> bool" where
  "llist st head xs \<longleftrightarrow> dlist (slots st) (le_prev st) head xs"

definition tailq :: "tailq_mem \<Rightarrow> nat \<Rightarrow> nat list \<Rightarrow> bool" where
  "tailq st head xs \<longleftrightarrow> dlist (slots st) (tqe_prev st) head xs \<and> tqh_last st head = end_slot (First head) xs"

text \<open>What the checks are for.\<close>

fun list_check_ok :: "qmd_check \<Rightarrow> list_mem \<Rightarrow> bool" where
  "list_check_ok (CHECK_HEAD head) st \<longleftrightarrow> (case slots st (First head) of None \<Rightarrow> True | Some x \<Rightarrow> le_prev st x = First head)"
| "list_check_ok (CHECK_NEXT elm) st \<longleftrightarrow> (case slots st (Next elm) of None \<Rightarrow> True | Some x \<Rightarrow> le_prev st x = Next elm)"
| "list_check_ok (CHECK_PREV elm) st \<longleftrightarrow> slots st (le_prev st elm) = Some elm"
| "list_check_ok (CHECK_TAIL head) st \<longleftrightarrow> True"

fun tailq_check_ok :: "qmd_check \<Rightarrow> tailq_mem \<Rightarrow> bool" where
  "tailq_check_ok (CHECK_HEAD head) st \<longleftrightarrow> (case slots st (First head) of None \<Rightarrow> True | Some x \<Rightarrow> tqe_prev st x = First head)"
| "tailq_check_ok (CHECK_NEXT elm) st \<longleftrightarrow> (case slots st (Next elm) of None \<Rightarrow> True | Some x \<Rightarrow> tqe_prev st x = Next elm)"
| "tailq_check_ok (CHECK_PREV elm) st \<longleftrightarrow> slots st (tqe_prev st elm) = Some elm"
| "tailq_check_ok (CHECK_TAIL head) st \<longleftrightarrow> slots st (tqh_last st head) = None"

locale list_checks =
  fixes qmd :: "qmd_check \<Rightarrow> list_mem \<Rightarrow> list_mem option"
  assumes pass: "list_check_ok c st \<Longrightarrow> qmd c st = Some st"

locale tailq_checks =
  fixes qmd :: "qmd_check \<Rightarrow> tailq_mem \<Rightarrow> tailq_mem option"
  assumes pass: "tailq_check_ok c st \<Longrightarrow> qmd c st = Some st"

lemma set_le_prev_simps [simp]:
  "slots (set_le_prev v s st) = slots st" "le_prev (set_le_prev v s st) = set_prev v s (le_prev st)"
  by (simp_all add: set_le_prev_def set_prev_def split: option.splits)

lemma set_tqe_prev_simps [simp]:
  "slots (set_tqe_prev v s st) = slots st" "tqe_prev (set_tqe_prev v s st) = set_prev v s (tqe_prev st)"
  "tqh_last (set_tqe_prev v s st) = tqh_last st"
  by (simp_all add: set_tqe_prev_def set_prev_def split: option.splits)

lemma set_prev_None [simp]: "set_prev None s p = p"
  by (simp add: set_prev_def)

context list_checks
begin

lemma insert_head_links:
  assumes "llist st h xs" "e \<notin> set xs"
  obtains st' where "LIST_INSERT_HEAD qmd h e st = Some st'" "llist st' h (e # xs)"
    "slots st' = (slots st)(Next e := slots st (First h), First h := Some e)"
    "le_prev st' = (set_prev (slots st (First h)) (Next e) (le_prev st))(e := First h)"
proof -
  have d: "dlist (slots st) (le_prev st) h ([] @ xs)" using assms(1) by (simp add: llist_def)
  have "list_check_ok (CHECK_HEAD h) st" using dlist_first [OF d] d by (cases xs) (auto simp: dlist_def)
  then have p: "qmd (CHECK_HEAD h) st = Some st" by (rule pass)
  then have "\<exists>st'. LIST_INSERT_HEAD qmd h e st = Some st' \<and> slots st' = (slots st)(Next e := slots st (First h), First h := Some e) \<and>
      le_prev st' = (set_prev (slots st (First h)) (Next e) (le_prev st))(e := First h)"
    by (simp add: LIST_INSERT_HEAD_def LIST_FIRST_def LIST_NEXT_def Let_def)
  then obtain st' where st': "LIST_INSERT_HEAD qmd h e st = Some st'"
    "slots st' = (slots st)(Next e := slots st (First h), First h := Some e)"
    "le_prev st' = (set_prev (slots st (First h)) (Next e) (le_prev st))(e := First h)" by blast
  then show thesis using that dlist_insert [OF d _ refl, of e "slots st'" "le_prev st'"] assms(2) by (simp add: llist_def)
qed

lemma insert_after_links:
  assumes "llist st h (xs @ x # ys)" "e \<notin> set (xs @ x # ys)"
  obtains st' where "LIST_INSERT_AFTER qmd x e st = Some st'" "llist st' h (xs @ x # e # ys)"
    "slots st' = (slots st)(Next e := slots st (Next x), Next x := Some e)"
    "le_prev st' = (set_prev (slots st (Next x)) (Next e) (le_prev st))(e := Next x)"
proof -
  have d: "dlist (slots st) (le_prev st) h ((xs @ [x]) @ ys)" "dlist (slots st) (le_prev st) h (xs @ x # ys)" using assms(1) by (simp_all add: llist_def)
  have "list_check_ok (CHECK_NEXT x) st" using dlist_links(2) [OF d(2)] by (auto split: option.splits)
  then have p: "qmd (CHECK_NEXT x) st = Some st" by (rule pass)
  have n: "e \<noteq> x" using assms(2) by auto
  have "\<exists>st'. LIST_INSERT_AFTER qmd x e st = Some st' \<and> slots st' = (slots st)(Next e := slots st (Next x), Next x := Some e) \<and>
      le_prev st' = (set_prev (slots st (Next x)) (Next e) (le_prev st))(e := Next x)"
    using p n by (simp add: LIST_INSERT_AFTER_def LIST_NEXT_def Let_def)
  then obtain st' where st': "LIST_INSERT_AFTER qmd x e st = Some st'"
    "slots st' = (slots st)(Next e := slots st (Next x), Next x := Some e)"
    "le_prev st' = (set_prev (slots st (Next x)) (Next e) (le_prev st))(e := Next x)" by blast
  then show thesis using that dlist_insert [OF d(1) _ refl, of e "slots st'" "le_prev st'"] assms(2) by (simp add: llist_def)
qed

lemma remove_links:
  assumes "llist st h (xs @ e # ys)"
  obtains st' where "LIST_REMOVE qmd e st = Some st'" "llist st' h (xs @ ys)"
    "slots st' = (slots st)(end_slot (First h) xs := slots st (Next e))" "le_prev st' = set_prev (slots st (Next e)) (le_prev st e) (le_prev st)"
proof -
  have d: "dlist (slots st) (le_prev st) h (xs @ e # ys)" using assms by (simp add: llist_def)
  have "list_check_ok (CHECK_NEXT e) st" "list_check_ok (CHECK_PREV e) st" using dlist_links [OF d] by (auto split: option.splits)
  then have p: "qmd (CHECK_NEXT e) st = Some st" "qmd (CHECK_PREV e) st = Some st" by (simp_all add: pass)
  have "e \<notin> set ys" "linked (slots st) (slots st (Next e)) ys" using d linked_take [of "slots st" "First h" xs "e # ys"] by (simp_all add: dlist_def)
  then have o: "set_prev (slots st (Next e)) s (le_prev st) e = le_prev st e" for s by (simp add: set_prev_other)
  then have "\<exists>st'. LIST_REMOVE qmd e st = Some st' \<and> slots st' = (slots st)(end_slot (First h) xs := slots st (Next e)) \<and>
      le_prev st' = set_prev (slots st (Next e)) (le_prev st e) (le_prev st)"
    using p dlist_links(3) [OF d] by (simp add: LIST_REMOVE_def LIST_NEXT_def Let_def)
  then obtain st' where st': "LIST_REMOVE qmd e st = Some st'" "slots st' = (slots st)(end_slot (First h) xs := slots st (Next e))"
    "le_prev st' = set_prev (slots st (Next e)) (le_prev st e) (le_prev st)" by blast
  then show thesis using that dlist_remove(1) [OF d refl, of "slots st'" "le_prev st'"] by (simp add: llist_def)
qed

end

context tailq_checks
begin

lemma tq_insert_head_links:
  assumes "tailq st h xs" "e \<notin> set xs"
  obtains st' where "TAILQ_INSERT_HEAD qmd h e st = Some st'" "tailq st' h (e # xs)"
    "slots st' = (slots st)(Next e := slots st (First h), First h := Some e)"
    "tqe_prev st' = (set_prev (slots st (First h)) (Next e) (tqe_prev st))(e := First h)" "\<forall>g. g \<noteq> h \<longrightarrow> tqh_last st' g = tqh_last st g"
proof -
  have d: "dlist (slots st) (tqe_prev st) h ([] @ xs)" "tqh_last st h = end_slot (First h) xs" using assms(1) by (simp_all add: tailq_def)
  have f: "slots st (First h) = (case xs of [] \<Rightarrow> None | x # _ \<Rightarrow> Some x)" using dlist_first [OF d(1)] by simp
  have "tailq_check_ok (CHECK_HEAD h) st" using f d(1) by (cases xs) (auto simp: dlist_def)
  then have p: "qmd (CHECK_HEAD h) st = Some st" by (rule pass)
  then have "\<exists>st'. TAILQ_INSERT_HEAD qmd h e st = Some st' \<and> slots st' = (slots st)(Next e := slots st (First h), First h := Some e) \<and>
      tqe_prev st' = (set_prev (slots st (First h)) (Next e) (tqe_prev st))(e := First h) \<and>
      tqh_last st' = (if xs = [] then (tqh_last st)(h := Next e) else tqh_last st)"
    using f by (cases xs) (simp_all add: TAILQ_INSERT_HEAD_def TAILQ_FIRST_def TAILQ_NEXT_def Let_def)
  then obtain st' where st': "TAILQ_INSERT_HEAD qmd h e st = Some st'"
    "slots st' = (slots st)(Next e := slots st (First h), First h := Some e)"
    "tqe_prev st' = (set_prev (slots st (First h)) (Next e) (tqe_prev st))(e := First h)"
    "tqh_last st' = (if xs = [] then (tqh_last st)(h := Next e) else tqh_last st)" by blast
  have "tailq st' h (e # xs)"
    using dlist_insert [OF d(1) _ refl, of e "slots st'" "tqe_prev st'"] assms(2) st' d(2) by (simp add: tailq_def end_slot_def)
  then show thesis using that [OF st'(1)] st'(2-4) by simp
qed

lemma tq_insert_after_links:
  assumes "tailq st h (xs @ x # ys)" "e \<notin> set (xs @ x # ys)"
  obtains st' where "TAILQ_INSERT_AFTER qmd h x e st = Some st'" "tailq st' h (xs @ x # e # ys)"
    "slots st' = (slots st)(Next e := slots st (Next x), Next x := Some e)"
    "tqe_prev st' = (set_prev (slots st (Next x)) (Next e) (tqe_prev st))(e := Next x)" "\<forall>g. g \<noteq> h \<longrightarrow> tqh_last st' g = tqh_last st g"
proof -
  have d: "dlist (slots st) (tqe_prev st) h ((xs @ [x]) @ ys)" "dlist (slots st) (tqe_prev st) h (xs @ x # ys)"
    "tqh_last st h = end_slot (First h) (xs @ x # ys)" using assms(1) by (simp_all add: tailq_def)
  have n: "slots st (Next x) = (case ys of [] \<Rightarrow> None | y # _ \<Rightarrow> Some y)" using d(2) linked_next by (auto simp: dlist_def)
  have "tailq_check_ok (CHECK_NEXT x) st" using dlist_links(2) [OF d(2)] by (auto split: option.splits)
  then have p: "qmd (CHECK_NEXT x) st = Some st" by (rule pass)
  have "e \<noteq> x" using assms(2) by auto
  then have "\<exists>st'. TAILQ_INSERT_AFTER qmd h x e st = Some st' \<and> slots st' = (slots st)(Next e := slots st (Next x), Next x := Some e) \<and>
      tqe_prev st' = (set_prev (slots st (Next x)) (Next e) (tqe_prev st))(e := Next x) \<and>
      tqh_last st' = (if ys = [] then (tqh_last st)(h := Next e) else tqh_last st)"
    using p n by (cases ys) (simp_all add: TAILQ_INSERT_AFTER_def TAILQ_NEXT_def Let_def)
  then obtain st' where st': "TAILQ_INSERT_AFTER qmd h x e st = Some st'"
    "slots st' = (slots st)(Next e := slots st (Next x), Next x := Some e)"
    "tqe_prev st' = (set_prev (slots st (Next x)) (Next e) (tqe_prev st))(e := Next x)"
    "tqh_last st' = (if ys = [] then (tqh_last st)(h := Next e) else tqh_last st)" by blast
  have "tailq st' h (xs @ x # e # ys)"
    using dlist_insert [OF d(1) _ refl, of e "slots st'" "tqe_prev st'"] assms(2) st' d(3) by (simp add: tailq_def end_slot_def)
  then show thesis using that [OF st'(1)] st'(2-4) by simp
qed

lemma tq_remove_links:
  assumes "tailq st h (xs @ e # ys)"
  obtains st' where "TAILQ_REMOVE qmd h e st = Some st'" "tailq st' h (xs @ ys)"
    "slots st' = (slots st)(end_slot (First h) xs := slots st (Next e))" "tqe_prev st' = set_prev (slots st (Next e)) (tqe_prev st e) (tqe_prev st)"
    "\<forall>g. g \<noteq> h \<longrightarrow> tqh_last st' g = tqh_last st g"
proof -
  have d: "dlist (slots st) (tqe_prev st) h (xs @ e # ys)" "tqh_last st h = end_slot (First h) (xs @ e # ys)" using assms by (simp_all add: tailq_def)
  have "tailq_check_ok (CHECK_NEXT e) st" "tailq_check_ok (CHECK_PREV e) st" using dlist_links [OF d(1)] by (auto split: option.splits)
  then have p: "qmd (CHECK_NEXT e) st = Some st" "qmd (CHECK_PREV e) st = Some st" by (simp_all add: pass)
  have "e \<notin> set ys" "linked (slots st) (slots st (Next e)) ys" "slots st (Next e) = (case ys of [] \<Rightarrow> None | y # _ \<Rightarrow> Some y)"
    using d(1) linked_take [of "slots st" "First h" xs "e # ys"] linked_next by (auto simp: dlist_def)
  then have "\<exists>st'. TAILQ_REMOVE qmd h e st = Some st' \<and> slots st' = (slots st)(end_slot (First h) xs := slots st (Next e)) \<and>
      tqe_prev st' = set_prev (slots st (Next e)) (tqe_prev st e) (tqe_prev st) \<and>
      tqh_last st' = (if ys = [] then (tqh_last st)(h := end_slot (First h) xs) else tqh_last st)"
    using p dlist_links(3) [OF d(1)] set_prev_other [of "slots st" "slots st (Next e)" ys e]
    by (cases ys) (simp_all add: TAILQ_REMOVE_def TAILQ_NEXT_def Let_def)
  then obtain st' where st': "TAILQ_REMOVE qmd h e st = Some st'" "slots st' = (slots st)(end_slot (First h) xs := slots st (Next e))"
    "tqe_prev st' = set_prev (slots st (Next e)) (tqe_prev st e) (tqe_prev st)"
    "tqh_last st' = (if ys = [] then (tqh_last st)(h := end_slot (First h) xs) else tqh_last st)" by blast
  have "tailq st' h (xs @ ys)"
    using dlist_remove(1) [OF d(1) refl, of "slots st'" "tqe_prev st'"] st' d(2) by (simp add: tailq_def end_slot_def)
  then show thesis using that [OF st'(1)] st'(2-4) by simp
qed

end

sublocale list_checks \<subseteq> linked_list llist "LIST_INSERT_HEAD qmd" "\<lambda>h x e. LIST_INSERT_AFTER qmd x e" "\<lambda>h e. LIST_REMOVE qmd e"
proof
  show "llist st h xs \<Longrightarrow> distinct xs" for st h xs by (simp add: llist_def dlist_def)
next
  fix st h xs e assume a: "llist st h xs" "e \<notin> set xs"
  show "\<exists>s'. LIST_INSERT_HEAD qmd h e st = Some s' \<and> llist s' h (e # xs) \<and>
      (\<forall>g zs. g \<noteq> h \<and> llist st g zs \<and> e \<notin> set zs \<and> set zs \<inter> set xs = {} \<longrightarrow> llist s' g zs)"
    using insert_head_links [OF a] dlist_insert_other [of "slots st" "le_prev st" h "[]" xs] a(1) unfolding llist_def by (metis append_Nil end_slot_simps(1))
next
  fix st h xs x ys e assume a: "llist st h (xs @ x # ys)" "e \<notin> set (xs @ x # ys)"
  then have d: "dlist (slots st) (le_prev st) h ((xs @ [x]) @ ys)" by (simp add: llist_def)
  show "\<exists>s'. LIST_INSERT_AFTER qmd x e st = Some s' \<and> llist s' h (xs @ x # e # ys) \<and>
      (\<forall>g zs. g \<noteq> h \<and> llist st g zs \<and> e \<notin> set zs \<and> set zs \<inter> set (xs @ x # ys) = {} \<longrightarrow> llist s' g zs)"
    using insert_after_links [OF a] dlist_insert_other [OF d] unfolding llist_def
    by (metis append.assoc append_Cons append_Nil end_slot_simps(3))
next
  fix st h xs e ys assume a: "llist st h (xs @ e # ys)"
  show "\<exists>s'. LIST_REMOVE qmd e st = Some s' \<and> llist s' h (xs @ ys) \<and>
      (\<forall>g zs. g \<noteq> h \<and> llist st g zs \<and> set zs \<inter> set (xs @ e # ys) = {} \<longrightarrow> llist s' g zs)"
    using remove_links [OF a] dlist_remove_other [OF a [unfolded llist_def]] unfolding llist_def by metis
qed

sublocale tailq_checks \<subseteq> linked_list tailq "TAILQ_INSERT_HEAD qmd" "TAILQ_INSERT_AFTER qmd" "TAILQ_REMOVE qmd"
proof
  show "tailq st h xs \<Longrightarrow> distinct xs" for st h xs by (simp add: tailq_def dlist_def)
next
  fix st h xs e assume a: "tailq st h xs" "e \<notin> set xs"
  then have d: "dlist (slots st) (tqe_prev st) h ([] @ xs)" by (simp add: tailq_def)
  show "\<exists>s'. TAILQ_INSERT_HEAD qmd h e st = Some s' \<and> tailq s' h (e # xs) \<and>
      (\<forall>g zs. g \<noteq> h \<and> tailq st g zs \<and> e \<notin> set zs \<and> set zs \<inter> set xs = {} \<longrightarrow> tailq s' g zs)"
    by (rule tq_insert_head_links [OF a], intro exI conjI, assumption, assumption)
      (auto simp: tailq_def intro: dlist_insert_other [OF d, unfolded end_slot_simps append_Nil])
next
  fix st h xs x ys e assume a: "tailq st h (xs @ x # ys)" "e \<notin> set (xs @ x # ys)"
  then have d: "dlist (slots st) (tqe_prev st) h ((xs @ [x]) @ ys)" by (simp add: tailq_def)
  show "\<exists>s'. TAILQ_INSERT_AFTER qmd h x e st = Some s' \<and> tailq s' h (xs @ x # e # ys) \<and>
      (\<forall>g zs. g \<noteq> h \<and> tailq st g zs \<and> e \<notin> set zs \<and> set zs \<inter> set (xs @ x # ys) = {} \<longrightarrow> tailq s' g zs)"
  proof (rule tq_insert_after_links [OF a])
    fix st' assume s: "TAILQ_INSERT_AFTER qmd h x e st = Some st'" "tailq st' h (xs @ x # e # ys)"
      "slots st' = (slots st)(Next e := slots st (Next x), Next x := Some e)"
      "tqe_prev st' = (set_prev (slots st (Next x)) (Next e) (tqe_prev st))(e := Next x)" "\<forall>g. g \<noteq> h \<longrightarrow> tqh_last st' g = tqh_last st g"
    have "tailq st' g zs" if "g \<noteq> h" "tailq st g zs" "e \<notin> set zs" "set zs \<inter> set (xs @ x # ys) = {}" for g zs
      using dlist_insert_other [OF d _ that(1,3), where t = "Next x" and c' = "slots st'" and p' = "tqe_prev st'"] that s(3-5) by (simp add: tailq_def)
    then show ?thesis using s(1,2) by blast
  qed
next
  fix st h xs e ys assume a: "tailq st h (xs @ e # ys)"
  then have d: "dlist (slots st) (tqe_prev st) h (xs @ e # ys)" by (simp add: tailq_def)
  show "\<exists>s'. TAILQ_REMOVE qmd h e st = Some s' \<and> tailq s' h (xs @ ys) \<and>
      (\<forall>g zs. g \<noteq> h \<and> tailq st g zs \<and> set zs \<inter> set (xs @ e # ys) = {} \<longrightarrow> tailq s' g zs)"
  proof (rule tq_remove_links [OF a])
    fix st' assume s: "TAILQ_REMOVE qmd h e st = Some st'" "tailq st' h (xs @ ys)"
      "slots st' = (slots st)(end_slot (First h) xs := slots st (Next e))"
      "tqe_prev st' = set_prev (slots st (Next e)) (tqe_prev st e) (tqe_prev st)" "\<forall>g. g \<noteq> h \<longrightarrow> tqh_last st' g = tqh_last st g"
    have "tailq st' g zs" if "g \<noteq> h" "tailq st g zs" "set zs \<inter> set (xs @ e # ys) = {}" for g zs
      using dlist_remove_other [OF d _ that(1,3) refl s(3,4)] that(1,2) s(5) by (simp add: tailq_def)
    then show ?thesis using s(1,2) by blast
  qed
qed

context list_checks
begin

lemmas list_refines = ops_refine

end

context tailq_checks
begin

lemmas tailq_refines = ops_refine

end

text \<open>Checks that do nothing, and checks that stop the program when they fail.\<close>

interpretation list_unchecked: list_checks "\<lambda>_ st. Some st"
  by unfold_locales simp

interpretation list_checked: list_checks "\<lambda>c st. if list_check_ok c st then Some st else None"
  by unfold_locales simp

interpretation tailq_unchecked: tailq_checks "\<lambda>_ st. Some st"
  by unfold_locales simp

interpretation tailq_checked: tailq_checks "\<lambda>c st. if tailq_check_ok c st then Some st else None"
  by unfold_locales simp

section \<open>The other operations\<close>

lemma list_insert_before:
  assumes "llist st h (xs @ x # ys)" "e \<notin> set (xs @ x # ys)" "qmd (CHECK_PREV x) st = Some st"
  obtains st' where "LIST_INSERT_BEFORE qmd x e st = Some st'" "llist st' h (xs @ e # x # ys)"
proof -
  have d: "dlist (slots st) (le_prev st) h (xs @ x # ys)" using assms(1) by (simp add: llist_def)
  let ?t = "end_slot (First h) xs"
  have l: "slots st ?t = Some x" "le_prev st x = ?t" using dlist_links [OF d] by simp_all
  have "e \<noteq> x" using assms(2) by auto
  then have "\<exists>st'. LIST_INSERT_BEFORE qmd x e st = Some st' \<and> slots st' = (slots st)(Next e := slots st ?t, ?t := Some e) \<and>
      le_prev st' = (set_prev (slots st ?t) (Next e) (le_prev st))(e := ?t)"
    using assms(3) l by (simp add: LIST_INSERT_BEFORE_def Let_def set_prev_def fun_upd_twist)
  then obtain st' where st': "LIST_INSERT_BEFORE qmd x e st = Some st'" "slots st' = (slots st)(Next e := slots st ?t, ?t := Some e)"
      "le_prev st' = (set_prev (slots st ?t) (Next e) (le_prev st))(e := ?t)" by blast
  have "dlist (slots st') (le_prev st') h (xs @ e # x # ys)" by (rule dlist_insert [OF d assms(2) refl st'(2,3)])
  then show thesis using that st'(1) by (simp add: llist_def)
qed

lemma tailq_insert_before:
  assumes "tailq st h (xs @ x # ys)" "e \<notin> set (xs @ x # ys)" "qmd (CHECK_PREV x) st = Some st"
  obtains st' where "TAILQ_INSERT_BEFORE qmd x e st = Some st'" "tailq st' h (xs @ e # x # ys)"
proof -
  have d: "dlist (slots st) (tqe_prev st) h (xs @ x # ys)" "tqh_last st h = end_slot (First h) (xs @ x # ys)" using assms(1) by (simp_all add: tailq_def)
  let ?t = "end_slot (First h) xs"
  have l: "slots st ?t = Some x" "tqe_prev st x = ?t" using dlist_links [OF d(1)] by simp_all
  have "e \<noteq> x" using assms(2) by auto
  then have "\<exists>st'. TAILQ_INSERT_BEFORE qmd x e st = Some st' \<and> slots st' = (slots st)(Next e := slots st ?t, ?t := Some e) \<and>
      tqe_prev st' = (set_prev (slots st ?t) (Next e) (tqe_prev st))(e := ?t) \<and> tqh_last st' = tqh_last st"
    using assms(3) l by (simp add: TAILQ_INSERT_BEFORE_def Let_def set_prev_def fun_upd_twist)
  then obtain st' where st': "TAILQ_INSERT_BEFORE qmd x e st = Some st'" "slots st' = (slots st)(Next e := slots st ?t, ?t := Some e)"
      "tqe_prev st' = (set_prev (slots st ?t) (Next e) (tqe_prev st))(e := ?t)" "tqh_last st' = tqh_last st" by blast
  have "dlist (slots st') (tqe_prev st') h (xs @ e # x # ys)" by (rule dlist_insert [OF d(1) assms(2) refl st'(2,3)])
  then show thesis using that st'(1,4) d(2) by (simp add: tailq_def end_slot_append)
qed

lemma tailq_insert_tail:
  assumes "tailq st h xs" "e \<notin> set xs" "qmd (CHECK_TAIL h) st = Some st"
  obtains st' where "TAILQ_INSERT_TAIL qmd h e st = Some st'" "tailq st' h (xs @ [e])"
proof -
  have d: "dlist (slots st) (tqe_prev st) h (xs @ [])" "tqh_last st h = end_slot (First h) xs" using assms(1) by (simp_all add: tailq_def)
  let ?t = "end_slot (First h) xs"
  have n: "slots st ?t = None" using d(1) linked_take [of "slots st" "First h" xs "[]"] by (simp add: dlist_def)
  have "\<exists>st'. TAILQ_INSERT_TAIL qmd h e st = Some st' \<and> slots st' = (slots st)(Next e := slots st ?t, ?t := Some e) \<and>
      tqe_prev st' = (set_prev (slots st ?t) (Next e) (tqe_prev st))(e := ?t) \<and> tqh_last st' h = Next e"
    using assms(3) n d(2) by (simp add: TAILQ_INSERT_TAIL_def Let_def)
  then obtain st' where st': "TAILQ_INSERT_TAIL qmd h e st = Some st'" "slots st' = (slots st)(Next e := slots st ?t, ?t := Some e)"
      "tqe_prev st' = (set_prev (slots st ?t) (Next e) (tqe_prev st))(e := ?t)" "tqh_last st' h = Next e" by blast
  have "dlist (slots st') (tqe_prev st') h (xs @ e # [])" by (rule dlist_insert [OF d(1) _ refl st'(2,3)]) (use assms(2) in simp)
  then show thesis using that st'(1,4) by (simp add: tailq_def)
qed

text \<open>The last element, and the one in front of another.\<close>

lemma tailq_back:
  assumes "tailq st h xs" "zs @ ys = xs"
  shows "slots st (slot_last (end_slot (First h) zs) st) = (if zs = [] then None else Some (last zs))"
proof (cases zs rule: rev_cases)
  case Nil
  have "slots st (end_slot (First h) xs) = None"
    using assms(1) linked_take [of "slots st" "First h" xs "[]"] by (simp add: tailq_def dlist_def)
  then show ?thesis using assms(1) Nil by (simp add: slot_last_def tailq_def)
next
  case (snoc ws w)
  have "dlist (slots st) (tqe_prev st) h (ws @ w # ys)" using assms snoc by (auto simp: tailq_def)
  then show ?thesis using dlist_links(1) snoc by (simp add: slot_last_def)
qed

lemma tailq_last: "tailq st h xs \<Longrightarrow> TAILQ_LAST h st = (if xs = [] then None else Some (last xs))"
  using tailq_back [of st h xs xs "[]"] by (simp add: TAILQ_LAST_def tailq_def)

lemma tailq_prev: "tailq st h (xs @ x # ys) \<Longrightarrow> TAILQ_PREV st x = (if xs = [] then None else Some (last xs))"
  using tailq_back [of st h "xs @ x # ys" xs "x # ys", OF _ refl] dlist_links(3) [of "slots st" "tqe_prev st" h xs x ys] by (simp add: TAILQ_PREV_def tailq_def)

lemma list_prev: "llist st h (xs @ x # ys) \<Longrightarrow> (\<And>x. containerof (Next x) = x) \<Longrightarrow> LIST_PREV containerof x h st = (if xs = [] then None else Some (last xs))"
  using dlist_links(3) [of "slots st" "le_prev st" h xs x ys] by (auto simp: LIST_PREV_def llist_def end_slot_def)

lemma tailq_reverse: "tailq st h xs \<Longrightarrow> follows (TAILQ_PREV st) (TAILQ_LAST h st) (rev xs)"
proof -
  assume a: "tailq st h xs"
  have "follows (TAILQ_PREV st) (if zs = [] then None else Some (last zs)) (rev zs)" if "zs @ ys = xs" for zs ys
    using that
  proof (induction zs arbitrary: ys rule: rev_induct)
    case (snoc w ws)
    then have "TAILQ_PREV st w = (if ws = [] then None else Some (last ws))" using a tailq_prev [of st h ws w ys] by simp
    then show ?case using snoc.IH [of "w # ys"] snoc.prems by (simp split del: if_split)
  qed simp
  from this [of xs "[]"] show ?thesis using tailq_last [OF a] by simp
qed

lemma tailq_foreach_reverse:
  assumes "tailq (mem s) head xs" "\<forall>x s s'. x \<in> set xs \<and> body x s = Some s' \<longrightarrow> mem s' = mem s"
  shows "TAILQ_FOREACH_REVERSE mem head body s = fold_opt body (rev xs) s"
  unfolding TAILQ_FOREACH_REVERSE_def
  by (rule foreach_follows) (use assms tailq_reverse in auto)

lemma tailq_foreach:
  assumes "tailq (mem s) head xs" "\<forall>x s s'. x \<in> set xs \<and> body x s = Some s' \<longrightarrow> mem s' = mem s"
  shows "TAILQ_FOREACH mem head body s = fold_opt body xs s"
  unfolding TAILQ_FOREACH_def TAILQ_NEXT_def TAILQ_FIRST_def
  by (rule foreach_linked) (use assms in \<open>auto simp: tailq_def dlist_def\<close>)

lemma list_foreach:
  assumes "llist (mem s) head xs" "\<forall>x s s'. x \<in> set xs \<and> body x s = Some s' \<longrightarrow> mem s' = mem s"
  shows "LIST_FOREACH mem head body s = fold_opt body xs s"
  unfolding LIST_FOREACH_def LIST_NEXT_def LIST_FIRST_def
  by (rule foreach_linked) (use assms in \<open>auto simp: llist_def dlist_def\<close>)

lemma tailq_foreach_safe:
  assumes "tailq (mem s) head xs"
    "\<forall>x s s' y. x \<in> set xs \<and> y \<in> set xs \<and> y \<noteq> x \<and> body x s = Some s' \<longrightarrow> slots (mem s') (Next y) = slots (mem s) (Next y)"
  shows "TAILQ_FOREACH_SAFE mem head body s = fold_opt body xs s"
  unfolding TAILQ_FOREACH_SAFE_def TAILQ_NEXT_def TAILQ_FIRST_def
  by (rule foreach_safe_linked) (use assms in \<open>auto simp: tailq_def dlist_def\<close>)

lemma list_init [simp]: "llist (LIST_INIT head st) head []"
  by (simp add: llist_def dlist_def LIST_INIT_def)

lemma tailq_init [simp]: "tailq (TAILQ_INIT head st) head []"
  by (simp add: tailq_def dlist_def TAILQ_INIT_def)

text \<open>Appending and exchanging.\<close>

lemma tailq_concat:
  assumes "tailq st h xs" "tailq st g ys" "h \<noteq> g" "set xs \<inter> set ys = {}"
  shows "tailq (TAILQ_CONCAT h g st) h (xs @ ys) \<and> tailq (TAILQ_CONCAT h g st) g []"
proof (cases "ys = []")
  case True
  then show ?thesis using assms dlist_first [of "slots st" "tqe_prev st" g ys]
    by (simp add: TAILQ_CONCAT_def TAILQ_EMPTY_def TAILQ_FIRST_def tailq_def)
next
  case False
  let ?t = "end_slot (First h) xs"
  let ?c = "(slots st)(?t := slots st (First g))" and ?p = "set_prev (slots st (First g)) ?t (tqe_prev st)"
  have l: "linked (slots st) (slots st (First h)) xs" "linked (slots st) (slots st (First g)) ys" "distinct (xs @ ys)"
    "backlinks (tqe_prev st) (First h) xs" "backlinks (tqe_prev st) (First g) ys"
    "tqh_last st h = ?t" "tqh_last st g = end_slot (First g) ys" using assms by (simp_all add: tailq_def dlist_def)
  have "linked ?c (?c (First h)) (xs @ ys)" by (rule linked_concat [OF l(1,2,3)]) auto
  then have c: "linked (?c(First g := None)) (?c (First h)) (xs @ ys)" by (subst linked_frame) auto
  have "backlinks ?p (First h) xs = backlinks (tqe_prev st) (First h) xs" by (rule backlinks_cong) (use l(3) set_prev_other [OF l(2)] in auto)
  then have p: "backlinks ?p (First h) (xs @ ys)" using l(3,4) backlinks_set_prev [OF l(2) _ l(5), of ?t] by simp
  have "slots st (First g) \<noteq> None" using linked_first [OF l(2)] False by (cases ys) auto
  moreover have "end_slot (First g) ys = end_slot (First h) (xs @ ys)" using False by (simp add: end_slot_def)
  moreover have "?t \<noteq> First g" using end_slot_first [of h xs g] assms(3) by auto
  ultimately show ?thesis using c p l(3,6,7) assms(3)
    by (auto simp: tailq_def dlist_def TAILQ_CONCAT_def TAILQ_EMPTY_def TAILQ_INIT_def TAILQ_FIRST_def Let_def)
qed

lemma dlist_swap:
  assumes "dlist c p h xs" "dlist c p g ys" "h \<noteq> g" "set xs \<inter> set ys = {}" "c' = c(First h := c (First g), First g := c (First h))"
    "p' = set_prev (c (First h)) (First g) (set_prev (c (First g)) (First h) p)"
  shows "dlist c' p' h ys" "dlist c' p' g xs"
proof -
  have l: "linked c (c (First h)) xs" "linked c (c (First g)) ys" "distinct xs" "distinct ys" "backlinks p (First h) xs" "backlinks p (First g) ys"
    using assms(1,2) by (simp_all add: dlist_def)
  have c: "linked c' v zs = linked c v zs" for v zs by (rule linked_cong) (simp add: assms(5))
  have y: "backlinks p' (First h) ys = backlinks (set_prev (c (First g)) (First h) p) (First h) ys"
    by (rule backlinks_cong) (use assms(4,6) set_prev_other [OF l(1)] in auto)
  have x: "backlinks (set_prev (c (First g)) (First h) p) (First h) xs = backlinks p (First h) xs"
    by (rule backlinks_cong) (use assms(4) set_prev_other [OF l(2)] in auto)
  show "dlist c' p' h ys" using backlinks_set_prev [OF l(2,4,6)] l y c assms(3,5) by (simp add: dlist_def)
  have "backlinks p' (First g) xs" unfolding assms(6) by (rule backlinks_set_prev [OF l(1,3)]) (use x l(5) in simp)
  then show "dlist c' p' g xs" using l c assms(3,5) by (simp add: dlist_def)
qed

lemma list_swap:
  assumes "llist st h xs" "llist st g ys" "h \<noteq> g" "set xs \<inter> set ys = {}"
  shows "llist (LIST_SWAP h g st) h ys \<and> llist (LIST_SWAP h g st) g xs"
proof -
  have "slots (LIST_SWAP h g st) = (slots st)(First h := slots st (First g), First g := slots st (First h))"
    "le_prev (LIST_SWAP h g st) = set_prev (slots st (First h)) (First g) (set_prev (slots st (First g)) (First h) (le_prev st))"
    using assms(3) by (simp_all add: LIST_SWAP_def LIST_FIRST_def Let_def)
  then show ?thesis using dlist_swap [OF assms(1,2) [unfolded llist_def] assms(3,4)] by (simp add: llist_def)
qed

lemma tailq_swap:
  assumes "tailq st h xs" "tailq st g ys" "h \<noteq> g" "set xs \<inter> set ys = {}"
  shows "tailq (TAILQ_SWAP h g st) h ys \<and> tailq (TAILQ_SWAP h g st) g xs"
proof -
  let ?st = "TAILQ_SWAP h g st"
  have d: "dlist (slots st) (tqe_prev st) h xs" "dlist (slots st) (tqe_prev st) g ys" "tqh_last st h = end_slot (First h) xs"
    "tqh_last st g = end_slot (First g) ys" using assms by (simp_all add: tailq_def)
  note f = dlist_first [OF d(1)] dlist_first [OF d(2)]
  have c: "slots ?st = (slots st)(First h := slots st (First g), First g := slots st (First h))"
    "tqe_prev ?st = set_prev (slots st (First h)) (First g) (set_prev (slots st (First g)) (First h) (tqe_prev st))"
    using assms(3) by (simp_all add: TAILQ_SWAP_def TAILQ_FIRST_def Let_def)
  have e: "end_slot (First a) zs = end_slot (First b) zs" if "zs \<noteq> []" for a b zs using that by (simp add: end_slot_def)
  have "tqh_last ?st h = end_slot (First h) ys" "tqh_last ?st g = end_slot (First g) xs"
    using assms(3) d(3,4) f e by (cases xs; cases ys; simp add: TAILQ_SWAP_def TAILQ_FIRST_def Let_def)+
  then show ?thesis using dlist_swap [OF d(1,2) assms(3,4) c] by (simp add: tailq_def)
qed

end
