(* ===== verification/Queue_H.thy ===== *)
theory Queue_H
  imports Slist Stailq Tailq
begin

text \<open>
  The four kinds of linked lists of \<^verbatim>\<open>src/queue.h\<close> side by side: they are all lists.
\<close>

text \<open>C18: The linked lists implement lists. In any sequence of insertions at the head, insertions behind an element and removals, on
  any number of heads, in which a new element is in no list and the element named is in the list named, the
  singly-linked lists, the singly-linked tail queues, the lists and the tail queues do not access a NULL
  pointer, their loops end, and every head holds what the same operations on lists give; no other head is
  disturbed. This holds with checks that do nothing and with checks that stop the program.\<close>

theorem linked_lists_refine:
  assumes "list_ops_ok H ps L" "represents slist H L s" "represents stailq H L t" "represents llist H L u" "represents tailq H L v"
    "\<forall>c st. list_check_ok c st \<longrightarrow> qmd c st = Some st" "\<forall>c st. tailq_check_ok c st \<longrightarrow> qmd' c st = Some st"
  shows "(\<exists>s'. fold_opt (run_list_op (\<lambda>h e st. Some (SLIST_INSERT_HEAD h e st)) (\<lambda>h x e st. Some (SLIST_INSERT_AFTER x e st)) SLIST_REMOVE) ps s =
        Some s' \<and> represents slist H (fold list_op_spec ps L) s') \<and>
    (\<exists>t'. fold_opt (run_list_op (\<lambda>h e st. Some (STAILQ_INSERT_HEAD h e st)) (\<lambda>h x e st. Some (STAILQ_INSERT_AFTER h x e st)) STAILQ_REMOVE) ps t =
        Some t' \<and> represents stailq H (fold list_op_spec ps L) t') \<and>
    (\<exists>u'. fold_opt (run_list_op (LIST_INSERT_HEAD qmd) (\<lambda>h x e. LIST_INSERT_AFTER qmd x e) (\<lambda>h e. LIST_REMOVE qmd e)) ps u =
        Some u' \<and> represents llist H (fold list_op_spec ps L) u') \<and>
    (\<exists>v'. fold_opt (run_list_op (TAILQ_INSERT_HEAD qmd') (TAILQ_INSERT_AFTER qmd') (TAILQ_REMOVE qmd')) ps v =
        Some v' \<and> represents tailq H (fold list_op_spec ps L) v')"
proof -
  have "list_checks qmd" "tailq_checks qmd'" using assms(6,7) by unfold_locales blast+
  then show ?thesis
    using slists.ops_refine [OF assms(2,1)] stailqs.ops_refine [OF assms(3,1)] list_checks.list_refines [OF _ assms(4,1)]
      tailq_checks.tailq_refines [OF _ assms(5,1)] by blast
qed

lemma linked_lists_refine_witness:
  "\<exists>s' v'. fold_opt (run_list_op (\<lambda>h e st. Some (SLIST_INSERT_HEAD h e st)) (\<lambda>h x e st. Some (SLIST_INSERT_AFTER x e st)) SLIST_REMOVE)
      [Insert_head 0 5, Insert_after 0 5 6, Insert_head 1 7, Insert_head 0 8, Remove 0 5] (SLIST_INIT 1 (SLIST_INIT 0 \<lparr>slots = \<lambda>_. None\<rparr>)) = Some s' \<and>
    fold_opt (run_list_op (TAILQ_INSERT_HEAD (\<lambda>_ st. Some st)) (TAILQ_INSERT_AFTER (\<lambda>_ st. Some st)) (TAILQ_REMOVE (\<lambda>_ st. Some st)))
      [Insert_head 0 5, Insert_after 0 5 6, Insert_head 1 7, Insert_head 0 8, Remove 0 5]
      (TAILQ_INIT 1 (TAILQ_INIT 0 \<lparr>slots = \<lambda>_. None, tqh_last = First, tqe_prev = First\<rparr>)) = Some v' \<and>
    slist s' 0 [8, 6] \<and> slist s' 1 [7] \<and> tailq v' 0 [8, 6] \<and> tailq v' 1 [7]"
proof -
  let ?ps = "[Insert_head 0 5, Insert_after 0 5 6, Insert_head 1 7, Insert_head 0 8, Remove 0 5]"
  let ?s = "SLIST_INIT 1 (SLIST_INIT 0 \<lparr>slots = \<lambda>_. None\<rparr>)"
  let ?t = "STAILQ_INIT 1 (STAILQ_INIT 0 \<lparr>slots = \<lambda>_. None, stqh_last = First\<rparr>)"
  let ?u = "LIST_INIT 1 (LIST_INIT 0 \<lparr>slots = \<lambda>_. None, le_prev = First\<rparr>)"
  let ?v = "TAILQ_INIT 1 (TAILQ_INIT 0 \<lparr>slots = \<lambda>_. None, tqh_last = First, tqe_prev = First\<rparr>)"
  have o: "list_ops_ok {0, 1} ?ps (\<lambda>_. [])" by simp
  have r: "represents slist {0, 1} (\<lambda>_. []) ?s" "represents stailq {0, 1} (\<lambda>_. []) ?t" "represents llist {0, 1} (\<lambda>_. []) ?u"
    "represents tailq {0, 1} (\<lambda>_. []) ?v"
    by (simp_all add: represents_def slist_def stailq_def llist_def tailq_def dlist_def SLIST_INIT_def STAILQ_INIT_def LIST_INIT_def TAILQ_INIT_def)
  have "fold list_op_spec ?ps (\<lambda>_. []) 0 = [8, 6]" "fold list_op_spec ?ps (\<lambda>_. []) 1 = [7]" by simp_all
  then show ?thesis
    using linked_lists_refine [OF o r, of "\<lambda>_ st. Some st" "\<lambda>_ st. Some st"] unfolding represents_def by (metis insertCI)
qed

end
