(* ===== verification/Splay_Tree.thy ===== *)
theory Splay_Tree
  imports Xs_Prelude
begin

text \<open>
  The intrusive splay trees of \<^verbatim>\<open>src/tree.h\<close> (the \<open>SPLAY_\<close> macros), at the level of pointers, in the
  same way as the red-black trees in \<open>Tree_RB\<close>: an element is a number, a pointer is a \<open>ptr\<close>, an access through
  NULL and a loop that does not end are \<open>None\<close>, and the comparison is already applied to the element searched for.

  The splay operation builds its two side trees in a local variable \<^verbatim>\<open>__node\<close> of the type of the elements.
  The address of that variable is the argument \<open>node\<close>; it is the address of no element.
\<close>

record splay_head =
  sph_root :: ptr
  spe_left :: "nat \<Rightarrow> ptr"
  spe_right :: "nat \<Rightarrow> ptr"

definition SPLAY_INIT :: "splay_head \<Rightarrow> splay_head" where
  "SPLAY_INIT h = h\<lparr>sph_root := None\<rparr>"

definition SPLAY_EMPTY :: "splay_head \<Rightarrow> bool" where
  "SPLAY_EMPTY h = (sph_root h = None)"

section \<open>Field access\<close>

definition SPLAY_LEFT :: "splay_head \<Rightarrow> ptr \<Rightarrow> ptr option" where
  "SPLAY_LEFT h p = map_option (spe_left h) p"

definition SPLAY_RIGHT :: "splay_head \<Rightarrow> ptr \<Rightarrow> ptr option" where
  "SPLAY_RIGHT h p = map_option (spe_right h) p"

definition set_spe_left :: "splay_head \<Rightarrow> ptr \<Rightarrow> ptr \<Rightarrow> splay_head option" where
  "set_spe_left h p v = map_option (\<lambda>x. h\<lparr>spe_left := (spe_left h)(x := v)\<rparr>) p"

definition set_spe_right :: "splay_head \<Rightarrow> ptr \<Rightarrow> ptr \<Rightarrow> splay_head option" where
  "set_spe_right h p v = map_option (\<lambda>x. h\<lparr>spe_right := (spe_right h)(x := v)\<rparr>) p"

section \<open>Rotations and the side trees\<close>

definition SPLAY_ROTATE_RIGHT :: "splay_head \<Rightarrow> ptr \<Rightarrow> splay_head option" where
  "SPLAY_ROTATE_RIGHT h tmp = do {
     v \<leftarrow> SPLAY_RIGHT h tmp;
     h \<leftarrow> set_spe_left h (sph_root h) v;
     h \<leftarrow> set_spe_right h tmp (sph_root h);
     Some (h\<lparr>sph_root := tmp\<rparr>)
   }"

definition SPLAY_ROTATE_LEFT :: "splay_head \<Rightarrow> ptr \<Rightarrow> splay_head option" where
  "SPLAY_ROTATE_LEFT h tmp = do {
     v \<leftarrow> SPLAY_LEFT h tmp;
     h \<leftarrow> set_spe_right h (sph_root h) v;
     h \<leftarrow> set_spe_left h tmp (sph_root h);
     Some (h\<lparr>sph_root := tmp\<rparr>)
   }"

definition SPLAY_LINKLEFT :: "splay_head \<Rightarrow> ptr \<Rightarrow> (splay_head \<times> ptr) option" where
  "SPLAY_LINKLEFT h tmp = do {
     h \<leftarrow> set_spe_left h tmp (sph_root h);
     let tmp = sph_root h;
     v \<leftarrow> SPLAY_LEFT h (sph_root h);
     Some (h\<lparr>sph_root := v\<rparr>, tmp)
   }"

definition SPLAY_LINKRIGHT :: "splay_head \<Rightarrow> ptr \<Rightarrow> (splay_head \<times> ptr) option" where
  "SPLAY_LINKRIGHT h tmp = do {
     h \<leftarrow> set_spe_right h tmp (sph_root h);
     let tmp = sph_root h;
     v \<leftarrow> SPLAY_RIGHT h (sph_root h);
     Some (h\<lparr>sph_root := v\<rparr>, tmp)
   }"

definition SPLAY_ASSEMBLE :: "splay_head \<Rightarrow> ptr \<Rightarrow> ptr \<Rightarrow> ptr \<Rightarrow> splay_head option" where
  "SPLAY_ASSEMBLE h node left right = do {
     v \<leftarrow> SPLAY_LEFT h (sph_root h);
     h \<leftarrow> set_spe_right h left v;
     v \<leftarrow> SPLAY_RIGHT h (sph_root h);
     h \<leftarrow> set_spe_left h right v;
     v \<leftarrow> SPLAY_RIGHT h node;
     h \<leftarrow> set_spe_left h (sph_root h) v;
     v \<leftarrow> SPLAY_LEFT h node;
     set_spe_right h (sph_root h) v
   }"

section \<open>Splaying\<close>

partial_function (option) splay_loop :: "(nat \<Rightarrow> int) \<Rightarrow> splay_head \<Rightarrow> ptr \<Rightarrow> ptr \<Rightarrow> (splay_head \<times> ptr \<times> ptr) option" where
  "splay_loop cmp h left right = do {
     dir \<leftarrow> map_option cmp (sph_root h);
     if dir = 0 then Some (h, left, right)
     else if dir < 0 then do {
       tmp \<leftarrow> SPLAY_LEFT h (sph_root h);
       if tmp = None then Some (h, left, right)
       else do {
         c \<leftarrow> map_option cmp tmp;
         h \<leftarrow> (if c < 0 then SPLAY_ROTATE_RIGHT h tmp else Some h);
         l \<leftarrow> SPLAY_LEFT h (sph_root h);
         if c < 0 \<and> l = None then Some (h, left, right)
         else do {
           (h, right) \<leftarrow> SPLAY_LINKLEFT h right;
           splay_loop cmp h left right
         }
       }
     }
     else do {
       tmp \<leftarrow> SPLAY_RIGHT h (sph_root h);
       if tmp = None then Some (h, left, right)
       else do {
         c \<leftarrow> map_option cmp tmp;
         h \<leftarrow> (if c > 0 then SPLAY_ROTATE_LEFT h tmp else Some h);
         r \<leftarrow> SPLAY_RIGHT h (sph_root h);
         if c > 0 \<and> r = None then Some (h, left, right)
         else do {
           (h, left) \<leftarrow> SPLAY_LINKRIGHT h left;
           splay_loop cmp h left right
         }
       }
     }
   }"

definition SPLAY :: "(nat \<Rightarrow> int) \<Rightarrow> nat \<Rightarrow> splay_head \<Rightarrow> splay_head option" where
  "SPLAY cmp node h = do {
     h \<leftarrow> set_spe_right h (Some node) None;
     h \<leftarrow> set_spe_left h (Some node) None;
     (h, left, right) \<leftarrow> splay_loop cmp h (Some node) (Some node);
     SPLAY_ASSEMBLE h (Some node) left right
   }"

text \<open>With 0 for the direction the loop of \<^verbatim>\<open>SPLAY_MINMAX\<close> does not end.\<close>

partial_function (option) splay_minmax_loop :: "int \<Rightarrow> splay_head \<Rightarrow> ptr \<Rightarrow> ptr \<Rightarrow> (splay_head \<times> ptr \<times> ptr) option" where
  "splay_minmax_loop dir h left right =
     (if dir < 0 then do {
        tmp \<leftarrow> SPLAY_LEFT h (sph_root h);
        if tmp = None then Some (h, left, right)
        else do {
          h \<leftarrow> SPLAY_ROTATE_RIGHT h tmp;
          l \<leftarrow> SPLAY_LEFT h (sph_root h);
          if l = None then Some (h, left, right)
          else do {
            (h, right) \<leftarrow> SPLAY_LINKLEFT h right;
            splay_minmax_loop dir h left right
          }
        }
      }
      else if dir > 0 then do {
        tmp \<leftarrow> SPLAY_RIGHT h (sph_root h);
        if tmp = None then Some (h, left, right)
        else do {
          h \<leftarrow> SPLAY_ROTATE_LEFT h tmp;
          r \<leftarrow> SPLAY_RIGHT h (sph_root h);
          if r = None then Some (h, left, right)
          else do {
            (h, left) \<leftarrow> SPLAY_LINKRIGHT h left;
            splay_minmax_loop dir h left right
          }
        }
      }
      else splay_minmax_loop dir h left right)"

definition SPLAY_MINMAX :: "nat \<Rightarrow> splay_head \<Rightarrow> int \<Rightarrow> splay_head option" where
  "SPLAY_MINMAX node h dir = do {
     h \<leftarrow> set_spe_right h (Some node) None;
     h \<leftarrow> set_spe_left h (Some node) None;
     (h, left, right) \<leftarrow> splay_minmax_loop dir h (Some node) (Some node);
     SPLAY_ASSEMBLE h (Some node) left right
   }"

section \<open>The operations\<close>

definition SPLAY_FIND :: "(nat \<Rightarrow> int) \<Rightarrow> nat \<Rightarrow> splay_head \<Rightarrow> (ptr \<times> splay_head) option" where
  "SPLAY_FIND cmp node h =
     (if SPLAY_EMPTY h then Some (None, h)
      else do {
        h \<leftarrow> SPLAY cmp node h;
        c \<leftarrow> map_option cmp (sph_root h);
        Some (if c = 0 then sph_root h else None, h)
      })"

partial_function (option) splay_leftmost :: "splay_head \<Rightarrow> ptr \<Rightarrow> ptr option" where
  "splay_leftmost h elm = do {
     l \<leftarrow> SPLAY_LEFT h elm;
     if l \<noteq> None then splay_leftmost h l else Some elm
   }"

definition SPLAY_NEXT :: "(nat \<Rightarrow> int) \<Rightarrow> nat \<Rightarrow> splay_head \<Rightarrow> ptr \<Rightarrow> (ptr \<times> splay_head) option" where
  "SPLAY_NEXT cmp node h elm = do {
     h \<leftarrow> SPLAY cmp node h;
     r \<leftarrow> SPLAY_RIGHT h elm;
     if r \<noteq> None then do { elm \<leftarrow> splay_leftmost h r; Some (elm, h) }
     else Some (None, h)
   }"

definition SPLAY_MIN_MAX :: "nat \<Rightarrow> splay_head \<Rightarrow> int \<Rightarrow> (ptr \<times> splay_head) option" where
  "SPLAY_MIN_MAX node h val = do { h \<leftarrow> SPLAY_MINMAX node h val; Some (sph_root h, h) }"

definition SPLAY_NEGINF :: int where "SPLAY_NEGINF = -1"
definition SPLAY_INF :: int where "SPLAY_INF = 1"

definition SPLAY_MIN :: "nat \<Rightarrow> splay_head \<Rightarrow> (ptr \<times> splay_head) option" where
  "SPLAY_MIN node h = (if SPLAY_EMPTY h then Some (None, h) else SPLAY_MIN_MAX node h SPLAY_NEGINF)"

definition SPLAY_MAX :: "nat \<Rightarrow> splay_head \<Rightarrow> (ptr \<times> splay_head) option" where
  "SPLAY_MAX node h = (if SPLAY_EMPTY h then Some (None, h) else SPLAY_MIN_MAX node h SPLAY_INF)"

definition SPLAY_INSERT :: "(nat \<Rightarrow> int) \<Rightarrow> nat \<Rightarrow> splay_head \<Rightarrow> nat \<Rightarrow> (splay_head \<times> ptr) option" where
  "SPLAY_INSERT cmp node h elm =
     (if SPLAY_EMPTY h then do {
        h \<leftarrow> set_spe_right h (Some elm) None;
        h \<leftarrow> set_spe_left h (Some elm) None;
        Some (h\<lparr>sph_root := Some elm\<rparr>, None)
      }
      else do {
        h \<leftarrow> SPLAY cmp node h;
        dir \<leftarrow> map_option cmp (sph_root h);
        if dir < 0 then do {
          v \<leftarrow> SPLAY_LEFT h (sph_root h);
          h \<leftarrow> set_spe_left h (Some elm) v;
          h \<leftarrow> set_spe_right h (Some elm) (sph_root h);
          h \<leftarrow> set_spe_left h (sph_root h) None;
          Some (h\<lparr>sph_root := Some elm\<rparr>, None)
        }
        else if dir > 0 then do {
          v \<leftarrow> SPLAY_RIGHT h (sph_root h);
          h \<leftarrow> set_spe_right h (Some elm) v;
          h \<leftarrow> set_spe_left h (Some elm) (sph_root h);
          h \<leftarrow> set_spe_right h (sph_root h) None;
          Some (h\<lparr>sph_root := Some elm\<rparr>, None)
        }
        else Some (h, sph_root h)
      })"

definition SPLAY_REMOVE :: "(nat \<Rightarrow> int) \<Rightarrow> nat \<Rightarrow> splay_head \<Rightarrow> nat \<Rightarrow> (splay_head \<times> ptr) option" where
  "SPLAY_REMOVE cmp node h elm =
     (if SPLAY_EMPTY h then Some (h, None)
      else do {
        h \<leftarrow> SPLAY cmp node h;
        c \<leftarrow> map_option cmp (sph_root h);
        if c = 0 then do {
          l \<leftarrow> SPLAY_LEFT h (sph_root h);
          tmp \<leftarrow> SPLAY_RIGHT h (sph_root h);
          if l = None then Some (h\<lparr>sph_root := tmp\<rparr>, Some elm)
          else do {
            h \<leftarrow> SPLAY cmp node (h\<lparr>sph_root := l\<rparr>);
            h \<leftarrow> set_spe_right h (sph_root h) tmp;
            Some (h, Some elm)
          }
        }
        else Some (h, None)
      })"

text \<open>The loop \<^verbatim>\<open>SPLAY_FOREACH\<close> with a body that works on a state of its own. \<open>cmp e\<close> compares with the element \<open>e\<close>.\<close>

partial_function (option) splay_foreach ::
  "(nat \<Rightarrow> nat \<Rightarrow> int) \<Rightarrow> nat \<Rightarrow> (nat \<Rightarrow> 's \<Rightarrow> 's option) \<Rightarrow> ptr \<Rightarrow> splay_head \<Rightarrow> 's \<Rightarrow> (splay_head \<times> 's) option" where
  "splay_foreach cmp node body x h s =
     (case x of
        None \<Rightarrow> Some (h, s)
      | Some e \<Rightarrow> do {
          s \<leftarrow> body e s;
          (x, h) \<leftarrow> SPLAY_NEXT (cmp e) node h x;
          splay_foreach cmp node body x h s
        })"

definition SPLAY_FOREACH ::
  "(nat \<Rightarrow> nat \<Rightarrow> int) \<Rightarrow> nat \<Rightarrow> (nat \<Rightarrow> 's \<Rightarrow> 's option) \<Rightarrow> splay_head \<Rightarrow> 's \<Rightarrow> (splay_head \<times> 's) option" where
  "SPLAY_FOREACH cmp node body h s = do {
     (x, h) \<leftarrow> SPLAY_MIN node h;
     splay_foreach cmp node body x h s
   }"

end
