(* ===== verification/Tree_RB.thy ===== *)
theory Tree_RB
  imports Xs_Prelude
begin

text \<open>
  The intrusive red-black trees of \<^verbatim>\<open>src/tree.h\<close> (the \<open>RB_\<close> macros), at the level of pointers.

  An element is named by its index (a \<open>nat\<close>) in the array or heap it lives in; a pointer is a
  \<open>nat option\<close> with \<open>None\<close> for NULL. A tree is its head pointer and the map from elements to their
  link fields (\<^verbatim>\<open>RB_ENTRY\<close>), which also holds the links of elements that are in no tree. Every
  access through a NULL pointer is \<open>None\<close>, and so is a loop that does not end: the loops are
  \<open>partial_function (option)\<close>. The comparison function of \<^verbatim>\<open>RB_GENERATE\<close> is a parameter,
  already applied to the element searched for or inserted. \<^verbatim>\<open>RB_AUGMENT\<close> is the empty default.
\<close>

datatype rb_color = RB_BLACK | RB_RED

record rb_entry =
  rbe_left :: ptr
  rbe_right :: ptr
  rbe_parent :: ptr
  rbe_color :: rb_color

record rb_head =
  rbh_root :: ptr
  links :: "nat \<Rightarrow> rb_entry"

text \<open>Static storage is zeroed: all links NULL and the colour 0, which is black.\<close>

definition rb_entry_zero :: rb_entry where
  "rb_entry_zero = \<lparr>rbe_left = None, rbe_right = None, rbe_parent = None, rbe_color = RB_BLACK\<rparr>"

definition RB_INIT :: "rb_head \<Rightarrow> rb_head" where
  "RB_INIT h = h\<lparr>rbh_root := None\<rparr>"

definition RB_EMPTY :: "rb_head \<Rightarrow> bool" where
  "RB_EMPTY h = (rbh_root h = None)"

section \<open>Field access\<close>

definition RB_LEFT :: "rb_head \<Rightarrow> ptr \<Rightarrow> ptr option" where
  "RB_LEFT h p = map_option (\<lambda>x. rbe_left (links h x)) p"

definition RB_RIGHT :: "rb_head \<Rightarrow> ptr \<Rightarrow> ptr option" where
  "RB_RIGHT h p = map_option (\<lambda>x. rbe_right (links h x)) p"

definition RB_PARENT :: "rb_head \<Rightarrow> ptr \<Rightarrow> ptr option" where
  "RB_PARENT h p = map_option (\<lambda>x. rbe_parent (links h x)) p"

definition RB_COLOR :: "rb_head \<Rightarrow> ptr \<Rightarrow> rb_color option" where
  "RB_COLOR h p = map_option (\<lambda>x. rbe_color (links h x)) p"

definition upd_link :: "(rb_entry \<Rightarrow> rb_entry) \<Rightarrow> rb_head \<Rightarrow> ptr \<Rightarrow> rb_head option" where
  "upd_link f h p = map_option (\<lambda>x. h\<lparr>links := (links h)(x := f (links h x))\<rparr>) p"

definition set_left :: "rb_head \<Rightarrow> ptr \<Rightarrow> ptr \<Rightarrow> rb_head option" where
  "set_left h p v = upd_link (\<lambda>e. e\<lparr>rbe_left := v\<rparr>) h p"

definition set_right :: "rb_head \<Rightarrow> ptr \<Rightarrow> ptr \<Rightarrow> rb_head option" where
  "set_right h p v = upd_link (\<lambda>e. e\<lparr>rbe_right := v\<rparr>) h p"

definition set_parent :: "rb_head \<Rightarrow> ptr \<Rightarrow> ptr \<Rightarrow> rb_head option" where
  "set_parent h p v = upd_link (\<lambda>e. e\<lparr>rbe_parent := v\<rparr>) h p"

definition set_color :: "rb_head \<Rightarrow> ptr \<Rightarrow> rb_color \<Rightarrow> rb_head option" where
  "set_color h p c = upd_link (\<lambda>e. e\<lparr>rbe_color := c\<rparr>) h p"

definition RB_SET :: "rb_head \<Rightarrow> ptr \<Rightarrow> ptr \<Rightarrow> rb_head option" where
  "RB_SET h elm parent = do {
     h \<leftarrow> set_parent h elm parent;
     h \<leftarrow> set_right h elm None;
     h \<leftarrow> set_left h elm None;
     set_color h elm RB_RED
   }"

definition RB_SET_BLACKRED :: "rb_head \<Rightarrow> ptr \<Rightarrow> ptr \<Rightarrow> rb_head option" where
  "RB_SET_BLACKRED h black red = do {
     h \<leftarrow> set_color h black RB_BLACK;
     set_color h red RB_RED
   }"

section \<open>Rotations\<close>

text \<open>Replace \<open>elm\<close> by \<open>tmp\<close> in the parent of \<open>elm\<close>, or in the head: the part the two rotations
  share. \<open>RB_PARENT(tmp)\<close> has just been set to the parent of \<open>elm\<close>.\<close>

definition rotate_relink :: "rb_head \<Rightarrow> ptr \<Rightarrow> ptr \<Rightarrow> rb_head option" where
  "rotate_relink h elm tmp = do {
     ep \<leftarrow> RB_PARENT h elm;
     h \<leftarrow> set_parent h tmp ep;
     if ep \<noteq> None then do {
       ep \<leftarrow> RB_PARENT h elm;
       epl \<leftarrow> RB_LEFT h ep;
       if elm = epl then set_left h ep tmp else set_right h ep tmp
     } else Some (h\<lparr>rbh_root := tmp\<rparr>)
   }"

definition RB_ROTATE_LEFT :: "rb_head \<Rightarrow> ptr \<Rightarrow> rb_head option" where
  "RB_ROTATE_LEFT h elm = do {
     tmp \<leftarrow> RB_RIGHT h elm;
     tl \<leftarrow> RB_LEFT h tmp;
     h \<leftarrow> set_right h elm tl;
     h \<leftarrow> (if tl \<noteq> None then do { tl \<leftarrow> RB_LEFT h tmp; set_parent h tl elm } else Some h);
     h \<leftarrow> rotate_relink h elm tmp;
     h \<leftarrow> set_left h tmp elm;
     set_parent h elm tmp
   }"

definition RB_ROTATE_RIGHT :: "rb_head \<Rightarrow> ptr \<Rightarrow> rb_head option" where
  "RB_ROTATE_RIGHT h elm = do {
     tmp \<leftarrow> RB_LEFT h elm;
     tr \<leftarrow> RB_RIGHT h tmp;
     h \<leftarrow> set_left h elm tr;
     h \<leftarrow> (if tr \<noteq> None then do { tr \<leftarrow> RB_RIGHT h tmp; set_parent h tr elm } else Some h);
     h \<leftarrow> rotate_relink h elm tmp;
     h \<leftarrow> set_right h tmp elm;
     set_parent h elm tmp
   }"

section \<open>Insertion\<close>

text \<open>\<open>tmp && RB_COLOR(tmp) == RB_RED\<close>.\<close>

definition is_red :: "rb_head \<Rightarrow> ptr \<Rightarrow> bool" where
  "is_red h p = (RB_COLOR h p = Some RB_RED)"

text \<open>One iteration of the loop of \<^verbatim>\<open>RB_INSERT_COLOR\<close>, for \<open>parent = RB_PARENT(elm)\<close> red. The
  result is the \<open>elm\<close> of the next iteration.\<close>

definition insert_color_body :: "rb_head \<Rightarrow> ptr \<Rightarrow> ptr \<Rightarrow> (rb_head \<times> ptr) option" where
  "insert_color_body h elm parent = do {
     gparent \<leftarrow> RB_PARENT h parent;
     gl \<leftarrow> RB_LEFT h gparent;
     if parent = gl then do {
       tmp \<leftarrow> RB_RIGHT h gparent;
       if is_red h tmp then do {
         h \<leftarrow> set_color h tmp RB_BLACK;
         h \<leftarrow> RB_SET_BLACKRED h parent gparent;
         Some (h, gparent)
       } else do {
         pr \<leftarrow> RB_RIGHT h parent;
         (h, parent, elm) \<leftarrow> (if pr = elm then do {
              h \<leftarrow> RB_ROTATE_LEFT h parent;
              Some (h, elm, parent)
            } else Some (h, parent, elm));
         h \<leftarrow> RB_SET_BLACKRED h parent gparent;
         h \<leftarrow> RB_ROTATE_RIGHT h gparent;
         Some (h, elm)
       }
     } else do {
       tmp \<leftarrow> RB_LEFT h gparent;
       if is_red h tmp then do {
         h \<leftarrow> set_color h tmp RB_BLACK;
         h \<leftarrow> RB_SET_BLACKRED h parent gparent;
         Some (h, gparent)
       } else do {
         pl \<leftarrow> RB_LEFT h parent;
         (h, parent, elm) \<leftarrow> (if pl = elm then do {
              h \<leftarrow> RB_ROTATE_RIGHT h parent;
              Some (h, elm, parent)
            } else Some (h, parent, elm));
         h \<leftarrow> RB_SET_BLACKRED h parent gparent;
         h \<leftarrow> RB_ROTATE_LEFT h gparent;
         Some (h, elm)
       }
     }
   }"

partial_function (option) insert_color_loop :: "rb_head \<Rightarrow> ptr \<Rightarrow> rb_head option" where
  "insert_color_loop h elm = do {
     parent \<leftarrow> RB_PARENT h elm;
     if parent \<noteq> None \<and> is_red h parent then do {
       (h, elm) \<leftarrow> insert_color_body h elm parent;
       insert_color_loop h elm
     } else Some h
   }"

definition RB_INSERT_COLOR :: "rb_head \<Rightarrow> ptr \<Rightarrow> rb_head option" where
  "RB_INSERT_COLOR h elm = do {
     h \<leftarrow> insert_color_loop h elm;
     set_color h (rbh_root h) RB_BLACK
   }"

text \<open>The search of \<^verbatim>\<open>RB_INSERT\<close>: the element already there (\<open>Inl\<close>), or the parent of the new
  leaf and the last comparison (\<open>Inr\<close>).\<close>

partial_function (option) insert_search ::
  "(nat \<Rightarrow> int) \<Rightarrow> rb_head \<Rightarrow> ptr \<Rightarrow> ptr \<Rightarrow> int \<Rightarrow> (nat + ptr \<times> int) option" where
  "insert_search cmp h tmp parent c =
     (case tmp of
        None \<Rightarrow> Some (Inr (parent, c))
      | Some t \<Rightarrow>
          if cmp t < 0 then do { l \<leftarrow> RB_LEFT h tmp; insert_search cmp h l tmp (cmp t) }
          else if cmp t > 0 then do { r \<leftarrow> RB_RIGHT h tmp; insert_search cmp h r tmp (cmp t) }
          else Some (Inl t))"

text \<open>\<open>RB_INSERT\<close> returns NULL, or the element with the same key that is already in the tree.\<close>

definition RB_INSERT :: "(nat \<Rightarrow> int) \<Rightarrow> rb_head \<Rightarrow> nat \<Rightarrow> (rb_head \<times> ptr) option" where
  "RB_INSERT cmp h elm = do {
     s \<leftarrow> insert_search cmp h (rbh_root h) None 0;
     case s of
       Inl t \<Rightarrow> Some (h, Some t)
     | Inr (parent, c) \<Rightarrow> do {
         h \<leftarrow> RB_SET h (Some elm) parent;
         h \<leftarrow> (if parent \<noteq> None then
                if c < 0 then set_left h parent (Some elm) else set_right h parent (Some elm)
              else Some (h\<lparr>rbh_root := Some elm\<rparr>));
         h \<leftarrow> RB_INSERT_COLOR h (Some elm);
         Some (h, None)
       }
   }"

section \<open>Lookup and traversal\<close>

partial_function (option) find_loop :: "(nat \<Rightarrow> int) \<Rightarrow> rb_head \<Rightarrow> ptr \<Rightarrow> ptr option" where
  "find_loop cmp h tmp =
     (case tmp of
        None \<Rightarrow> Some None
      | Some t \<Rightarrow>
          if cmp t < 0 then do { l \<leftarrow> RB_LEFT h tmp; find_loop cmp h l }
          else if cmp t > 0 then do { r \<leftarrow> RB_RIGHT h tmp; find_loop cmp h r }
          else Some tmp)"

definition RB_FIND :: "(nat \<Rightarrow> int) \<Rightarrow> rb_head \<Rightarrow> ptr option" where
  "RB_FIND cmp h = find_loop cmp h (rbh_root h)"

partial_function (option) nfind_loop :: "(nat \<Rightarrow> int) \<Rightarrow> rb_head \<Rightarrow> ptr \<Rightarrow> ptr \<Rightarrow> ptr option" where
  "nfind_loop cmp h tmp res =
     (case tmp of
        None \<Rightarrow> Some res
      | Some t \<Rightarrow>
          if cmp t < 0 then do { l \<leftarrow> RB_LEFT h tmp; nfind_loop cmp h l tmp }
          else if cmp t > 0 then do { r \<leftarrow> RB_RIGHT h tmp; nfind_loop cmp h r res }
          else Some tmp)"

definition RB_NFIND :: "(nat \<Rightarrow> int) \<Rightarrow> rb_head \<Rightarrow> ptr option" where
  "RB_NFIND cmp h = nfind_loop cmp h (rbh_root h) None"

partial_function (option) leftmost :: "rb_head \<Rightarrow> ptr \<Rightarrow> ptr option" where
  "leftmost h elm = do {
     l \<leftarrow> RB_LEFT h elm;
     if l \<noteq> None then leftmost h l else Some elm
   }"

partial_function (option) rightmost :: "rb_head \<Rightarrow> ptr \<Rightarrow> ptr option" where
  "rightmost h elm = do {
     r \<leftarrow> RB_RIGHT h elm;
     if r \<noteq> None then rightmost h r else Some elm
   }"

partial_function (option) climb_right :: "rb_head \<Rightarrow> ptr \<Rightarrow> ptr option" where
  "climb_right h elm = do {
     p \<leftarrow> RB_PARENT h elm;
     if p \<noteq> None then do {
       r \<leftarrow> RB_RIGHT h p;
       if elm = r then climb_right h p else Some elm
     } else Some elm
   }"

partial_function (option) climb_left :: "rb_head \<Rightarrow> ptr \<Rightarrow> ptr option" where
  "climb_left h elm = do {
     p \<leftarrow> RB_PARENT h elm;
     if p \<noteq> None then do {
       l \<leftarrow> RB_LEFT h p;
       if elm = l then climb_left h p else Some elm
     } else Some elm
   }"

definition RB_NEXT :: "rb_head \<Rightarrow> ptr \<Rightarrow> ptr option" where
  "RB_NEXT h elm = do {
     r \<leftarrow> RB_RIGHT h elm;
     if r \<noteq> None then leftmost h r
     else do {
       p \<leftarrow> RB_PARENT h elm;
       pl \<leftarrow> (if p \<noteq> None then RB_LEFT h p else Some None);
       if p \<noteq> None \<and> elm = pl then Some p
       else do { e \<leftarrow> climb_right h elm; RB_PARENT h e }
     }
   }"

definition RB_PREV :: "rb_head \<Rightarrow> ptr \<Rightarrow> ptr option" where
  "RB_PREV h elm = do {
     l \<leftarrow> RB_LEFT h elm;
     if l \<noteq> None then rightmost h l
     else do {
       p \<leftarrow> RB_PARENT h elm;
       pr \<leftarrow> (if p \<noteq> None then RB_RIGHT h p else Some None);
       if p \<noteq> None \<and> elm = pr then Some p
       else do { e \<leftarrow> climb_left h elm; RB_PARENT h e }
     }
   }"

partial_function (option) minmax_loop :: "rb_head \<Rightarrow> int \<Rightarrow> ptr \<Rightarrow> ptr \<Rightarrow> ptr option" where
  "minmax_loop h val tmp parent =
     (if tmp = None then Some parent
      else do {
        next \<leftarrow> (if val < 0 then RB_LEFT h tmp else RB_RIGHT h tmp);
        minmax_loop h val next tmp
      })"

definition RB_MINMAX :: "rb_head \<Rightarrow> int \<Rightarrow> ptr option" where
  "RB_MINMAX h val = minmax_loop h val (rbh_root h) None"

definition RB_MIN :: "rb_head \<Rightarrow> ptr option" where
  "RB_MIN h = RB_MINMAX h (-1)"

definition RB_MAX :: "rb_head \<Rightarrow> ptr option" where
  "RB_MAX h = RB_MINMAX h 1"

text \<open>\<open>RB_FOREACH(x, name, head) if (found(x)) goto match;\<close>: the first element in order that
  satisfies a test, NULL when there is none.\<close>

partial_function (option) foreach_find :: "(nat \<Rightarrow> bool) \<Rightarrow> rb_head \<Rightarrow> ptr \<Rightarrow> ptr option" where
  "foreach_find found h x =
     (case x of
        None \<Rightarrow> Some None
      | Some e \<Rightarrow> if found e then Some x else do { n \<leftarrow> RB_NEXT h x; foreach_find found h n })"

definition RB_FOREACH_find :: "(nat \<Rightarrow> bool) \<Rightarrow> rb_head \<Rightarrow> ptr option" where
  "RB_FOREACH_find found h = do { x \<leftarrow> RB_MIN h; foreach_find found h x }"

section \<open>Removal\<close>

text \<open>\<open>p == NULL || RB_COLOR(p) == RB_BLACK\<close>.\<close>

definition is_black :: "rb_head \<Rightarrow> ptr \<Rightarrow> bool" where
  "is_black h p = (p = None \<or> RB_COLOR h p = Some RB_BLACK)"

text \<open>One iteration of \<^verbatim>\<open>RB_REMOVE_COLOR\<close> when \<open>elm\<close> is the left child of \<open>parent\<close>: first a red
  sibling \<open>tmp\<close> is rotated away, then the part below. \<open>Inl\<close> is the next \<open>(elm, parent)\<close>; \<open>Inr\<close> is
  the \<open>break\<close> with \<open>elm = RB_ROOT(head)\<close>.\<close>

definition remove_fix_left ::
  "rb_head \<Rightarrow> ptr \<Rightarrow> ptr \<Rightarrow> (rb_head \<times> (ptr \<times> ptr + ptr)) option" where
  "remove_fix_left h parent tmp = do {
     tl \<leftarrow> RB_LEFT h tmp;
     tr \<leftarrow> RB_RIGHT h tmp;
     if is_black h tl \<and> is_black h tr then do {
       h \<leftarrow> set_color h tmp RB_RED;
       pp \<leftarrow> RB_PARENT h parent;
       Some (h, Inl (parent, pp))
     } else do {
       (h, tmp) \<leftarrow> (if is_black h tr then do {
            oleft \<leftarrow> RB_LEFT h tmp;
            h \<leftarrow> (if oleft \<noteq> None then set_color h oleft RB_BLACK else Some h);
            h \<leftarrow> set_color h tmp RB_RED;
            h \<leftarrow> RB_ROTATE_RIGHT h tmp;
            tmp \<leftarrow> RB_RIGHT h parent;
            Some (h, tmp)
          } else Some (h, tmp));
       pc \<leftarrow> RB_COLOR h parent;
       h \<leftarrow> set_color h tmp pc;
       h \<leftarrow> set_color h parent RB_BLACK;
       tr \<leftarrow> RB_RIGHT h tmp;
       h \<leftarrow> (if tr \<noteq> None then set_color h tr RB_BLACK else Some h);
       h \<leftarrow> RB_ROTATE_LEFT h parent;
       Some (h, Inr (rbh_root h))
     }
   }"

definition remove_color_left ::
  "rb_head \<Rightarrow> ptr \<Rightarrow> (rb_head \<times> (ptr \<times> ptr + ptr)) option" where
  "remove_color_left h parent = do {
     tmp \<leftarrow> RB_RIGHT h parent;
     tc \<leftarrow> RB_COLOR h tmp;
     (h, tmp) \<leftarrow> (if tc = RB_RED then do {
          h \<leftarrow> RB_SET_BLACKRED h tmp parent;
          h \<leftarrow> RB_ROTATE_LEFT h parent;
          tmp \<leftarrow> RB_RIGHT h parent;
          Some (h, tmp)
        } else Some (h, tmp));
     remove_fix_left h parent tmp
   }"

definition remove_fix_right ::
  "rb_head \<Rightarrow> ptr \<Rightarrow> ptr \<Rightarrow> (rb_head \<times> (ptr \<times> ptr + ptr)) option" where
  "remove_fix_right h parent tmp = do {
     tl \<leftarrow> RB_LEFT h tmp;
     tr \<leftarrow> RB_RIGHT h tmp;
     if is_black h tl \<and> is_black h tr then do {
       h \<leftarrow> set_color h tmp RB_RED;
       pp \<leftarrow> RB_PARENT h parent;
       Some (h, Inl (parent, pp))
     } else do {
       (h, tmp) \<leftarrow> (if is_black h tl then do {
            oright \<leftarrow> RB_RIGHT h tmp;
            h \<leftarrow> (if oright \<noteq> None then set_color h oright RB_BLACK else Some h);
            h \<leftarrow> set_color h tmp RB_RED;
            h \<leftarrow> RB_ROTATE_LEFT h tmp;
            tmp \<leftarrow> RB_LEFT h parent;
            Some (h, tmp)
          } else Some (h, tmp));
       pc \<leftarrow> RB_COLOR h parent;
       h \<leftarrow> set_color h tmp pc;
       h \<leftarrow> set_color h parent RB_BLACK;
       tl \<leftarrow> RB_LEFT h tmp;
       h \<leftarrow> (if tl \<noteq> None then set_color h tl RB_BLACK else Some h);
       h \<leftarrow> RB_ROTATE_RIGHT h parent;
       Some (h, Inr (rbh_root h))
     }
   }"

definition remove_color_right ::
  "rb_head \<Rightarrow> ptr \<Rightarrow> (rb_head \<times> (ptr \<times> ptr + ptr)) option" where
  "remove_color_right h parent = do {
     tmp \<leftarrow> RB_LEFT h parent;
     tc \<leftarrow> RB_COLOR h tmp;
     (h, tmp) \<leftarrow> (if tc = RB_RED then do {
          h \<leftarrow> RB_SET_BLACKRED h tmp parent;
          h \<leftarrow> RB_ROTATE_RIGHT h parent;
          tmp \<leftarrow> RB_LEFT h parent;
          Some (h, tmp)
        } else Some (h, tmp));
     remove_fix_right h parent tmp
   }"

text \<open>The loop returns the \<open>elm\<close> that is painted black at the end.\<close>

partial_function (option) remove_color_loop ::
  "rb_head \<Rightarrow> ptr \<Rightarrow> ptr \<Rightarrow> (rb_head \<times> ptr) option" where
  "remove_color_loop h parent elm =
     (if is_black h elm \<and> elm \<noteq> rbh_root h then do {
        pl \<leftarrow> RB_LEFT h parent;
        (h, r) \<leftarrow> (if pl = elm then remove_color_left h parent else remove_color_right h parent);
        case r of
          Inl (elm, parent) \<Rightarrow> remove_color_loop h parent elm
        | Inr elm \<Rightarrow> Some (h, elm)
      } else Some (h, elm))"

definition RB_REMOVE_COLOR :: "rb_head \<Rightarrow> ptr \<Rightarrow> ptr \<Rightarrow> rb_head option" where
  "RB_REMOVE_COLOR h parent elm = do {
     (h, elm) \<leftarrow> remove_color_loop h parent elm;
     if elm \<noteq> None then set_color h elm RB_BLACK else Some h
   }"

text \<open>Let \<open>child\<close> take the place of \<open>elm\<close> below \<open>parent\<close>, or at the head.\<close>

definition replace_child :: "rb_head \<Rightarrow> ptr \<Rightarrow> ptr \<Rightarrow> ptr \<Rightarrow> rb_head option" where
  "replace_child h parent elm child =
     (if parent \<noteq> None then do {
        pl \<leftarrow> RB_LEFT h parent;
        if pl = elm then set_left h parent child else set_right h parent child
      } else Some (h\<lparr>rbh_root := child\<rparr>))"

text \<open>The node \<open>elm\<close> has at most one child: unlink it (\<open>child\<close> may be NULL).\<close>

definition remove_single ::
  "rb_head \<Rightarrow> ptr \<Rightarrow> ptr \<Rightarrow> (rb_head \<times> rb_color \<times> ptr \<times> ptr) option" where
  "remove_single h elm child = do {
     parent \<leftarrow> RB_PARENT h elm;
     color \<leftarrow> RB_COLOR h elm;
     h \<leftarrow> (if child \<noteq> None then set_parent h child parent else Some h);
     h \<leftarrow> replace_child h parent elm child;
     Some (h, color, parent, child)
   }"

text \<open>The loop that calls \<^verbatim>\<open>RB_AUGMENT\<close> (here empty) on every ancestor.\<close>

partial_function (option) walk_up :: "rb_head \<Rightarrow> ptr \<Rightarrow> unit option" where
  "walk_up h p = do {
     pp \<leftarrow> RB_PARENT h p;
     if pp \<noteq> None then walk_up h pp else Some ()
   }"

text \<open>The node \<open>old\<close> has two children: unlink its successor and put it in the place of \<open>old\<close>.\<close>

definition remove_successor ::
  "rb_head \<Rightarrow> ptr \<Rightarrow> (rb_head \<times> rb_color \<times> ptr \<times> ptr) option" where
  "remove_successor h old = do {
     right \<leftarrow> RB_RIGHT h old;
     elm \<leftarrow> leftmost h right;
     child \<leftarrow> RB_RIGHT h elm;
     parent \<leftarrow> RB_PARENT h elm;
     color \<leftarrow> RB_COLOR h elm;
     h \<leftarrow> (if child \<noteq> None then set_parent h child parent else Some h);
     h \<leftarrow> replace_child h parent elm child;
     ep \<leftarrow> RB_PARENT h elm;
     parent \<leftarrow> Some (if ep = old then elm else parent);
     h \<leftarrow> (case old of None \<Rightarrow> None | Some x \<Rightarrow> upd_link (\<lambda>_. links h x) h elm);
     oldp \<leftarrow> RB_PARENT h old;
     h \<leftarrow> replace_child h oldp old elm;
     oldl \<leftarrow> RB_LEFT h old;
     h \<leftarrow> set_parent h oldl elm;
     oldr \<leftarrow> RB_RIGHT h old;
     h \<leftarrow> (if oldr \<noteq> None then set_parent h oldr elm else Some h);
     _ \<leftarrow> (if parent \<noteq> None then walk_up h parent else Some ());
     Some (h, color, parent, child)
   }"

definition RB_REMOVE :: "rb_head \<Rightarrow> ptr \<Rightarrow> rb_head option" where
  "RB_REMOVE h elm = do {
     l \<leftarrow> RB_LEFT h elm;
     r \<leftarrow> RB_RIGHT h elm;
     (h, color, parent, child) \<leftarrow>
       (if l = None then remove_single h elm r
        else if r = None then remove_single h elm l
        else remove_successor h elm);
     if color = RB_BLACK then RB_REMOVE_COLOR h parent child else Some h
   }"

end
