(* ===== verification/Tree_Refine.thy ===== *)
theory Tree_Refine
  imports Tree_RB
begin

text \<open>
  What the pointers of a red-black tree represent. A tree in memory is a tree value \<open>rbt\<close> whose nodes
  carry their element and colour; a position inside it is a subtree together with its context, the
  list of frames from the position up to the root. \<open>at h K t\<close> says that the head and links \<open>h\<close>
  hold the tree \<open>plug K t\<close>. Under this reading each pointer operation of \<open>Tree_RB\<close> is an operation
  on trees: the lemmas of this theory are those refinements, one per operation, and they show at the
  same time that no NULL pointer is dereferenced.
\<close>

datatype rbt = Lf | Nd rb_color rbt nat rbt

datatype frame = InL rb_color nat rbt | InR rb_color rbt nat

type_synonym ctx = "frame list"

fun inord :: "rbt \<Rightarrow> nat list" where
  "inord Lf = []"
| "inord (Nd c l x r) = inord l @ x # inord r"

fun rootp :: "rbt \<Rightarrow> ptr" where
  "rootp Lf = None"
| "rootp (Nd c l x r) = Some x"

fun fnode :: "frame \<Rightarrow> nat" where
  "fnode (InL c x r) = x"
| "fnode (InR c l x) = x"

fun fcolor :: "frame \<Rightarrow> rb_color" where
  "fcolor (InL c x r) = c"
| "fcolor (InR c l x) = c"

fun plug :: "ctx \<Rightarrow> rbt \<Rightarrow> rbt" where
  "plug [] t = t"
| "plug (InL c x r # K) t = plug K (Nd c t x r)"
| "plug (InR c l x # K) t = plug K (Nd c l x t)"

fun cpar :: "ctx \<Rightarrow> ptr" where
  "cpar [] = None"
| "cpar (f # K) = Some (fnode f)"

fun croot :: "ctx \<Rightarrow> ptr \<Rightarrow> ptr" where
  "croot [] p = p"
| "croot (f # K) p = croot K (Some (fnode f))"

fun cset :: "ctx \<Rightarrow> nat set" where
  "cset [] = {}"
| "cset (InL c x r # K) = insert x (set (inord r) \<union> cset K)"
| "cset (InR c l x # K) = insert x (set (inord l) \<union> cset K)"

fun cdist :: "ctx \<Rightarrow> bool" where
  "cdist [] = True"
| "cdist (InL c x r # K) = (x \<notin> set (inord r) \<and> distinct (inord r) \<and> x \<notin> cset K \<and>
     set (inord r) \<inter> cset K = {} \<and> cdist K)"
| "cdist (InR c l x # K) = (x \<notin> set (inord l) \<and> distinct (inord l) \<and> x \<notin> cset K \<and>
     set (inord l) \<inter> cset K = {} \<and> cdist K)"

fun tree_at :: "(nat \<Rightarrow> rb_entry) \<Rightarrow> ptr \<Rightarrow> rbt \<Rightarrow> bool" where
  "tree_at E par Lf = True"
| "tree_at E par (Nd c l x r) =
     (E x = \<lparr>rbe_left = rootp l, rbe_right = rootp r, rbe_parent = par, rbe_color = c\<rparr> \<and>
      tree_at E (Some x) l \<and> tree_at E (Some x) r)"

fun ctx_at :: "(nat \<Rightarrow> rb_entry) \<Rightarrow> ctx \<Rightarrow> ptr \<Rightarrow> bool" where
  "ctx_at E [] p = True"
| "ctx_at E (InL c x r # K) p =
     (E x = \<lparr>rbe_left = p, rbe_right = rootp r, rbe_parent = cpar K, rbe_color = c\<rparr> \<and>
      tree_at E (Some x) r \<and> ctx_at E K (Some x))"
| "ctx_at E (InR c l x # K) p =
     (E x = \<lparr>rbe_left = rootp l, rbe_right = p, rbe_parent = cpar K, rbe_color = c\<rparr> \<and>
      tree_at E (Some x) l \<and> ctx_at E K (Some x))"

definition at :: "rb_head \<Rightarrow> ctx \<Rightarrow> rbt \<Rightarrow> bool" where
  "at h K t \<longleftrightarrow> rbh_root h = croot K (rootp t) \<and>
     ctx_at (links h) K (rootp t) \<and> tree_at (links h) (cpar K) t \<and>
     distinct (inord t) \<and> cdist K \<and> set (inord t) \<inter> cset K = {}"

section \<open>Moving the focus\<close>

lemma at_InL: "at h (InL c x r # K) t \<longleftrightarrow> at h K (Nd c t x r)"
  unfolding at_def by auto

lemma at_InR: "at h (InR c l x # K) t \<longleftrightarrow> at h K (Nd c l x t)"
  unfolding at_def by auto

lemma at_plug: "at h (J @ K) t \<longleftrightarrow> at h K (plug J t)"
proof (induction J arbitrary: t)
  case (Cons f J)
  then show ?case by (cases f) (simp_all add: at_InL at_InR)
qed simp

lemma rootp_eq_None [simp]: "rootp t = None \<longleftrightarrow> t = Lf"
  by (cases t) auto

lemma rootp_eq_Some: "rootp t = Some x \<longleftrightarrow> (\<exists>c l r. t = Nd c l x r)"
  by (cases t) auto

lemma rootp_mem: "rootp t = Some x \<Longrightarrow> x \<in> set (inord t)"
  by (cases t) auto

lemma rootp_notin [simp]:
  "x \<notin> set (inord t) \<Longrightarrow> rootp t \<noteq> Some x"
  "x \<notin> set (inord t) \<Longrightarrow> Some x \<noteq> rootp t"
  using rootp_mem by (auto dest: sym)

lemma tree_at_upd [simp]: "x \<notin> set (inord t) \<Longrightarrow> tree_at (E(x := e)) par t = tree_at E par t"
  by (induction t arbitrary: par) auto

lemma ctx_at_upd [simp]: "x \<notin> cset K \<Longrightarrow> ctx_at (E(x := e)) K p = ctx_at E K p"
  by (induction K arbitrary: p rule: cset.induct) auto

lemmas rb_access = RB_LEFT_def RB_RIGHT_def RB_PARENT_def RB_COLOR_def
  set_left_def set_right_def set_parent_def set_color_def upd_link_def

section \<open>Colours\<close>

lemma set_color_at:
  assumes "at h K (Nd c l x r)"
  obtains h' where "set_color h (Some x) c' = Some h'" "at h' K (Nd c' l x r)"
  using assms unfolding at_def by (auto simp: rb_access)

lemma at_color: "at h K (Nd c l x r) \<Longrightarrow> RB_COLOR h (Some x) = Some c"
  unfolding at_def by (simp add: rb_access)

lemma at_left: "at h K (Nd c l x r) \<Longrightarrow> RB_LEFT h (Some x) = Some (rootp l)"
  unfolding at_def by (simp add: rb_access)

lemma at_right: "at h K (Nd c l x r) \<Longrightarrow> RB_RIGHT h (Some x) = Some (rootp r)"
  unfolding at_def by (simp add: rb_access)

lemma at_parent: "at h K (Nd c l x r) \<Longrightarrow> RB_PARENT h (Some x) = Some (cpar K)"
  unfolding at_def by (simp add: rb_access)

lemma at_root: "at h K t \<Longrightarrow> rbh_root h = croot K (rootp t)"
  unfolding at_def by simp

section \<open>Rotations\<close>

lemmas rotate_defs = at_def RB_ROTATE_LEFT_def RB_ROTATE_RIGHT_def rotate_relink_def rb_access

lemma rotate_left_at:
  assumes "at h K (Nd c a x (Nd d b y e))"
  obtains h' where "RB_ROTATE_LEFT h (Some x) = Some h'" "at h' K (Nd d (Nd c a x b) y e)"
proof -
  have "x \<noteq> y" using assms by (auto simp: at_def)
  then show thesis
    using assms that
    by (cases b; cases K rule: cset.cases) (auto simp: rotate_defs)
qed

lemma rotate_right_at:
  assumes "at h K (Nd c (Nd d a x b) y e)"
  obtains h' where "RB_ROTATE_RIGHT h (Some y) = Some h'" "at h' K (Nd d a x (Nd c b y e))"
proof -
  have "x \<noteq> y" using assms by (auto simp: at_def)
  then show thesis
    using assms that
    by (cases b; cases K rule: cset.cases) (auto simp: rotate_defs)
qed

section \<open>Rebalancing after an insertion\<close>

fun tcolor :: "rbt \<Rightarrow> rb_color" where
  "tcolor Lf = RB_BLACK"
| "tcolor (Nd c l x r) = c"

lemma tcolor_red: "tcolor t = RB_RED \<longleftrightarrow> (\<exists>l x r. t = Nd RB_RED l x r)"
  by (cases t) auto

lemma not_red [simp]: "c \<noteq> RB_RED \<longleftrightarrow> c = RB_BLACK" "c \<noteq> RB_BLACK \<longleftrightarrow> c = RB_RED"
  by (cases c; simp)+

lemma is_red_at: "at h K t \<Longrightarrow> is_red h (rootp t) \<longleftrightarrow> tcolor t = RB_RED"
  by (cases t) (auto simp: is_red_def at_color, simp add: RB_COLOR_def)

lemma is_black_at: "at h K t \<Longrightarrow> is_black h (rootp t) \<longleftrightarrow> tcolor t = RB_BLACK"
  by (cases t) (auto simp: is_black_def at_color)

lemma set_blackred_at:
  assumes "at h K (Nd c (Nd d a x b) y e)"
  obtains h' where "RB_SET_BLACKRED h (Some x) (Some y) = Some h'"
    "at h' K (Nd RB_RED (Nd RB_BLACK a x b) y e)"
proof -
  obtain h1 where 1: "set_color h (Some x) RB_BLACK = Some h1"
    "at h1 K (Nd c (Nd RB_BLACK a x b) y e)"
    using set_color_at [of h "InL c y e # K" d a x b RB_BLACK] assms by (auto simp: at_InL)
  obtain h2 where 2: "set_color h1 (Some y) RB_RED = Some h2"
    "at h2 K (Nd RB_RED (Nd RB_BLACK a x b) y e)"
    using set_color_at [OF 1(2)] by blast
  show thesis using that [of h2] 1 2 by (simp add: RB_SET_BLACKRED_def)
qed

lemma set_blackred_at_right:
  assumes "at h K (Nd c e y (Nd d a x b))"
  obtains h' where "RB_SET_BLACKRED h (Some x) (Some y) = Some h'"
    "at h' K (Nd RB_RED e y (Nd RB_BLACK a x b))"
proof -
  obtain h1 where 1: "set_color h (Some x) RB_BLACK = Some h1"
    "at h1 K (Nd c e y (Nd RB_BLACK a x b))"
    using set_color_at [of h "InR c e y # K" d a x b RB_BLACK] assms by (auto simp: at_InR)
  obtain h2 where 2: "set_color h1 (Some y) RB_RED = Some h2"
    "at h2 K (Nd RB_RED e y (Nd RB_BLACK a x b))"
    using set_color_at [OF 1(2)] by blast
  show thesis using that [of h2] 1 2 by (simp add: RB_SET_BLACKRED_def)
qed

text \<open>Reading the neighbourhood of a node whose left (right) child is in focus.\<close>

lemma at_child_left:
  assumes "at h K (Nd c (Nd d a x b) y e)"
  shows "RB_PARENT h (Some x) = Some (Some y)" "RB_LEFT h (Some x) = Some (rootp a)"
    "RB_RIGHT h (Some x) = Some (rootp b)" "RB_COLOR h (Some x) = Some d"
    "is_red h (rootp e) \<longleftrightarrow> tcolor e = RB_RED" "is_black h (rootp e) \<longleftrightarrow> tcolor e = RB_BLACK"
    "x \<noteq> y" "rootp e \<noteq> Some x"
proof -
  have l: "at h (InL c y e # K) (Nd d a x b)" and r: "at h (InR c (Nd d a x b) y # K) e"
    using assms by (simp_all add: at_InL at_InR)
  show "RB_PARENT h (Some x) = Some (Some y)" "RB_LEFT h (Some x) = Some (rootp a)"
    "RB_RIGHT h (Some x) = Some (rootp b)" "RB_COLOR h (Some x) = Some d"
    using at_parent [OF l] at_left [OF l] at_right [OF l] at_color [OF l] by simp_all
  show "is_red h (rootp e) \<longleftrightarrow> tcolor e = RB_RED" "is_black h (rootp e) \<longleftrightarrow> tcolor e = RB_BLACK"
    using is_red_at [OF r] is_black_at [OF r] by simp_all
  show "x \<noteq> y" "rootp e \<noteq> Some x" using assms by (auto simp: at_def)
qed

lemma at_child_right:
  assumes "at h K (Nd c e y (Nd d a x b))"
  shows "RB_PARENT h (Some x) = Some (Some y)" "RB_LEFT h (Some x) = Some (rootp a)"
    "RB_RIGHT h (Some x) = Some (rootp b)" "RB_COLOR h (Some x) = Some d"
    "is_red h (rootp e) \<longleftrightarrow> tcolor e = RB_RED" "is_black h (rootp e) \<longleftrightarrow> tcolor e = RB_BLACK"
    "x \<noteq> y" "rootp e \<noteq> Some x"
proof -
  have l: "at h (InR c e y # K) (Nd d a x b)" and r: "at h (InL c y (Nd d a x b) # K) e"
    using assms by (simp_all add: at_InL at_InR)
  show "RB_PARENT h (Some x) = Some (Some y)" "RB_LEFT h (Some x) = Some (rootp a)"
    "RB_RIGHT h (Some x) = Some (rootp b)" "RB_COLOR h (Some x) = Some d"
    using at_parent [OF l] at_left [OF l] at_right [OF l] at_color [OF l] by simp_all
  show "is_red h (rootp e) \<longleftrightarrow> tcolor e = RB_RED" "is_black h (rootp e) \<longleftrightarrow> tcolor e = RB_BLACK"
    using is_red_at [OF r] is_black_at [OF r] by simp_all
  show "x \<noteq> y" "rootp e \<noteq> Some x" using assms by (auto simp: at_def)
qed

text \<open>The uncle is red: recolour and continue at the grandparent.\<close>

lemma body_recolor_left:
  assumes "at h K (Nd gc (Nd RB_RED a p b) g (Nd RB_RED ul y ur))"
  obtains h' where "insert_color_body h elm (Some p) = Some (h', Some g)"
    "at h' K (Nd RB_RED (Nd RB_BLACK a p b) g (Nd RB_BLACK ul y ur))"
proof -
  obtain h1 where 1: "set_color h (Some y) RB_BLACK = Some h1"
    "at h1 K (Nd gc (Nd RB_RED a p b) g (Nd RB_BLACK ul y ur))"
    using set_color_at [of h "InR gc (Nd RB_RED a p b) g # K" RB_RED ul y ur RB_BLACK] assms
    by (auto simp: at_InR)
  obtain h2 where 2: "RB_SET_BLACKRED h1 (Some p) (Some g) = Some h2"
    "at h2 K (Nd RB_RED (Nd RB_BLACK a p b) g (Nd RB_BLACK ul y ur))"
    using set_blackred_at [OF 1(2)] by blast
  show thesis
    using that [of h2] 1 2 at_child_left [OF assms] at_left [OF assms] at_right [OF assms]
    by (simp add: insert_color_body_def)
qed

lemma body_recolor_right:
  assumes "at h K (Nd gc (Nd RB_RED ul y ur) g (Nd RB_RED a p b))"
  obtains h' where "insert_color_body h elm (Some p) = Some (h', Some g)"
    "at h' K (Nd RB_RED (Nd RB_BLACK ul y ur) g (Nd RB_BLACK a p b))"
proof -
  obtain h1 where 1: "set_color h (Some y) RB_BLACK = Some h1"
    "at h1 K (Nd gc (Nd RB_BLACK ul y ur) g (Nd RB_RED a p b))"
    using set_color_at [of h "InL gc g (Nd RB_RED a p b) # K" RB_RED ul y ur RB_BLACK] assms
    by (auto simp: at_InL)
  obtain h2 where 2: "RB_SET_BLACKRED h1 (Some p) (Some g) = Some h2"
    "at h2 K (Nd RB_RED (Nd RB_BLACK ul y ur) g (Nd RB_BLACK a p b))"
    using set_blackred_at_right [OF 1(2)] by blast
  show thesis
    using that [of h2] 1 2 at_child_right [OF assms] at_left [OF assms] at_right [OF assms]
    by (simp add: insert_color_body_def)
qed

text \<open>The uncle is black: one or two rotations, after which the parent is black.\<close>

lemma body_rotate_ll:
  assumes "at h K (Nd gc (Nd RB_RED (Nd c a x b) p s) g u)" "tcolor u = RB_BLACK"
  obtains h' where "insert_color_body h (Some x) (Some p) = Some (h', Some x)"
    "at h' K (Nd RB_BLACK (Nd c a x b) p (Nd RB_RED s g u))"
proof -
  have "at h (InL gc g u # K) (Nd RB_RED (Nd c a x b) p s)" using assms(1) by (simp add: at_InL)
  then have ps: "rootp s \<noteq> Some x" by (rule at_child_left)
  obtain h1 where 1: "RB_SET_BLACKRED h (Some p) (Some g) = Some h1"
    "at h1 K (Nd RB_RED (Nd RB_BLACK (Nd c a x b) p s) g u)"
    using set_blackred_at [OF assms(1)] by blast
  obtain h2 where 2: "RB_ROTATE_RIGHT h1 (Some g) = Some h2"
    "at h2 K (Nd RB_BLACK (Nd c a x b) p (Nd RB_RED s g u))"
    using rotate_right_at [OF 1(2)] by blast
  show thesis
    using that [of h2] 1 2 at_child_left [OF assms(1)] at_left [OF assms(1)]
      at_right [OF assms(1)] assms(2) ps
    by (simp add: insert_color_body_def)
qed

lemma body_rotate_rr:
  assumes "at h K (Nd gc u g (Nd RB_RED s p (Nd c a x b)))" "tcolor u = RB_BLACK"
  obtains h' where "insert_color_body h (Some x) (Some p) = Some (h', Some x)"
    "at h' K (Nd RB_BLACK (Nd RB_RED u g s) p (Nd c a x b))"
proof -
  have "at h (InR gc u g # K) (Nd RB_RED s p (Nd c a x b))" using assms(1) by (simp add: at_InR)
  then have ps: "rootp s \<noteq> Some x" by (rule at_child_right)
  obtain h1 where 1: "RB_SET_BLACKRED h (Some p) (Some g) = Some h1"
    "at h1 K (Nd RB_RED u g (Nd RB_BLACK s p (Nd c a x b)))"
    using set_blackred_at_right [OF assms(1)] by blast
  obtain h2 where 2: "RB_ROTATE_LEFT h1 (Some g) = Some h2"
    "at h2 K (Nd RB_BLACK (Nd RB_RED u g s) p (Nd c a x b))"
    using rotate_left_at [OF 1(2)] by blast
  show thesis
    using that [of h2] 1 2 at_child_right [OF assms(1)] at_left [OF assms(1)]
      at_right [OF assms(1)] assms(2) ps
    by (auto simp: insert_color_body_def)
qed

lemma body_rotate_lr:
  assumes "at h K (Nd gc (Nd RB_RED s p (Nd c a x b)) g u)" "tcolor u = RB_BLACK"
  obtains h' where "insert_color_body h (Some x) (Some p) = Some (h', Some p)"
    "at h' K (Nd RB_BLACK (Nd RB_RED s p a) x (Nd RB_RED b g u))"
proof -
  obtain h1 where 1: "RB_ROTATE_LEFT h (Some p) = Some h1"
    "at h1 K (Nd gc (Nd c (Nd RB_RED s p a) x b) g u)"
    using rotate_left_at [of h "InL gc g u # K", unfolded at_InL, OF assms(1)] by blast
  obtain h2 where 2: "RB_SET_BLACKRED h1 (Some x) (Some g) = Some h2"
    "at h2 K (Nd RB_RED (Nd RB_BLACK (Nd RB_RED s p a) x b) g u)"
    using set_blackred_at [OF 1(2)] by blast
  obtain h3 where 3: "RB_ROTATE_RIGHT h2 (Some g) = Some h3"
    "at h3 K (Nd RB_BLACK (Nd RB_RED s p a) x (Nd RB_RED b g u))"
    using rotate_right_at [OF 2(2)] by blast
  show thesis
    using that [of h3] 1 2 3 at_child_left [OF assms(1)] at_left [OF assms(1)]
      at_right [OF assms(1)] assms(2)
    by (simp add: insert_color_body_def)
qed

lemma body_rotate_rl:
  assumes "at h K (Nd gc u g (Nd RB_RED (Nd c a x b) p s))" "tcolor u = RB_BLACK"
  obtains h' where "insert_color_body h (Some x) (Some p) = Some (h', Some p)"
    "at h' K (Nd RB_BLACK (Nd RB_RED u g a) x (Nd RB_RED b p s))"
proof -
  obtain h1 where 1: "RB_ROTATE_RIGHT h (Some p) = Some h1"
    "at h1 K (Nd gc u g (Nd c a x (Nd RB_RED b p s)))"
    using rotate_right_at [of h "InR gc u g # K", unfolded at_InR, OF assms(1)] by blast
  obtain h2 where 2: "RB_SET_BLACKRED h1 (Some x) (Some g) = Some h2"
    "at h2 K (Nd RB_RED u g (Nd RB_BLACK a x (Nd RB_RED b p s)))"
    using set_blackred_at_right [OF 1(2)] by blast
  obtain h3 where 3: "RB_ROTATE_LEFT h2 (Some g) = Some h3"
    "at h3 K (Nd RB_BLACK (Nd RB_RED u g a) x (Nd RB_RED b p s))"
    using rotate_left_at [OF 2(2)] by blast
  show thesis
    using that [of h3] 1 2 3 at_child_right [OF assms(1)] at_left [OF assms(1)]
      at_right [OF assms(1)] assms(2)
    by (auto simp: insert_color_body_def)
qed

text \<open>The same rebalancing on trees: \<open>ins_fix K t\<close> is the whole tree after the loop ran with
  \<open>t\<close> in the context \<open>K\<close>.\<close>

fun ins_fix :: "ctx \<Rightarrow> rbt \<Rightarrow> rbt" where
  "ins_fix (InL RB_RED p s # InL gc g (Nd RB_RED ul y ur) # K) t =
     ins_fix K (Nd RB_RED (Nd RB_BLACK t p s) g (Nd RB_BLACK ul y ur))"
| "ins_fix (InR RB_RED s p # InL gc g (Nd RB_RED ul y ur) # K) t =
     ins_fix K (Nd RB_RED (Nd RB_BLACK s p t) g (Nd RB_BLACK ul y ur))"
| "ins_fix (InL RB_RED p s # InR gc (Nd RB_RED ul y ur) g # K) t =
     ins_fix K (Nd RB_RED (Nd RB_BLACK ul y ur) g (Nd RB_BLACK t p s))"
| "ins_fix (InR RB_RED s p # InR gc (Nd RB_RED ul y ur) g # K) t =
     ins_fix K (Nd RB_RED (Nd RB_BLACK ul y ur) g (Nd RB_BLACK s p t))"
| "ins_fix (InL RB_RED p s # InL gc g u # K) t = plug K (Nd RB_BLACK t p (Nd RB_RED s g u))"
| "ins_fix (InR RB_RED s p # InL gc g u # K) (Nd c a x b) =
     plug K (Nd RB_BLACK (Nd RB_RED s p a) x (Nd RB_RED b g u))"
| "ins_fix (InL RB_RED p s # InR gc u g # K) (Nd c a x b) =
     plug K (Nd RB_BLACK (Nd RB_RED u g a) x (Nd RB_RED b p s))"
| "ins_fix (InR RB_RED s p # InR gc u g # K) t = plug K (Nd RB_BLACK (Nd RB_RED u g s) p t)"
| "ins_fix K t = plug K t"

text \<open>The root of the tree is black, so that a red parent has a parent.\<close>

definition top_black :: "ctx \<Rightarrow> bool" where
  "top_black K \<longleftrightarrow> (K = [] \<or> fcolor (last K) = RB_BLACK)"

lemma top_black_simps [simp]:
  "top_black []" "top_black [f] \<longleftrightarrow> fcolor f = RB_BLACK"
  "top_black (f # g # K) \<longleftrightarrow> top_black (g # K)"
  by (simp_all add: top_black_def)

lemma top_black_tl: "top_black (f # K) \<Longrightarrow> top_black K"
  by (simp add: top_black_def split: if_splits)

text \<open>The loop ends where the parent is missing or black.\<close>

lemma at_parent_color:
  assumes "at h (f # K) t"
  shows "RB_COLOR h (Some (fnode f)) = Some (fcolor f)"
proof -
  have "at h K (plug [f] t)" using assms at_plug [of h "[f]"] by simp
  then show ?thesis by (cases f) (auto dest: at_color)
qed

lemma at_rootp_parent: "at h K t \<Longrightarrow> t \<noteq> Lf \<Longrightarrow> RB_PARENT h (rootp t) = Some (cpar K)"
  by (cases t) (auto dest: at_parent)

lemma insert_loop_stop:
  assumes "at h K t" "t \<noteq> Lf" "\<And>f J. K = f # J \<Longrightarrow> fcolor f = RB_BLACK"
  shows "insert_color_loop h (rootp t) = Some h"
  using at_rootp_parent [OF assms(1,2)] at_parent_color assms(1,3)
  by (cases K) (auto simp: insert_color_loop.simps is_red_def)

lemma insert_loop_step:
  assumes "at h (f # K) t" "t \<noteq> Lf" "fcolor f = RB_RED"
    and "insert_color_body h (rootp t) (Some (fnode f)) = Some (h', elm)"
  shows "insert_color_loop h (rootp t) = insert_color_loop h' elm"
  using assms at_parent_color [OF assms(1)] at_rootp_parent [OF assms(1,2)]
  by (simp add: insert_color_loop.simps [of h "rootp t"] is_red_def)

lemma ins_fix_black_uncle:
  assumes "tcolor u = RB_BLACK"
  shows "ins_fix (InL RB_RED p s # InL gc g u # K) t = plug K (Nd RB_BLACK t p (Nd RB_RED s g u))"
    "ins_fix (InR RB_RED s p # InL gc g u # K) (Nd c a x b) =
       plug K (Nd RB_BLACK (Nd RB_RED s p a) x (Nd RB_RED b g u))"
    "ins_fix (InL RB_RED p s # InR gc u g # K) (Nd c a x b) =
       plug K (Nd RB_BLACK (Nd RB_RED u g a) x (Nd RB_RED b p s))"
    "ins_fix (InR RB_RED s p # InR gc u g # K) t = plug K (Nd RB_BLACK (Nd RB_RED u g s) p t)"
  using assms by (cases u; simp)+

lemma ins_fix_stop: "(\<And>f J. K = f # J \<Longrightarrow> fcolor f = RB_BLACK) \<Longrightarrow> ins_fix K t = plug K t"
  by (cases "(K, t)" rule: ins_fix.cases) auto

lemma plug_at: "at h K t \<Longrightarrow> at h [] (plug K t)"
  using at_plug [of h K "[]"] by simp

text \<open>One iteration below a red parent, with the two ways it can end: the loop goes on two levels
  up, or it is done because the next parent is black.\<close>

definition insert_step :: "rb_head \<Rightarrow> frame \<Rightarrow> frame \<Rightarrow> ctx \<Rightarrow> rbt \<Rightarrow> bool" where
  "insert_step h f g G t \<longleftrightarrow>
     (\<exists>h' t'. insert_color_body h (rootp t) (Some (fnode f)) = Some (h', rootp t') \<and>
        at h' G t' \<and> t' \<noteq> Lf \<and> ins_fix (f # g # G) t = ins_fix G t') \<or>
     (\<exists>h' f' t'. insert_color_body h (rootp t) (Some (fnode f)) = Some (h', rootp t') \<and>
        at h' (f' # G) t' \<and> t' \<noteq> Lf \<and> fcolor f' = RB_BLACK \<and>
        ins_fix (f # g # G) t = plug (f' # G) t')"

lemma insert_stepI_again:
  "insert_color_body h (rootp t) (Some (fnode f)) = Some (h', rootp t') \<Longrightarrow> at h' G t' \<Longrightarrow> t' \<noteq> Lf \<Longrightarrow>
   ins_fix (f # g # G) t = ins_fix G t' \<Longrightarrow> insert_step h f g G t"
  unfolding insert_step_def by blast

lemma insert_stepI_stop:
  "insert_color_body h (rootp t) (Some (fnode f)) = Some (h', rootp t') \<Longrightarrow> at h' (f' # G) t' \<Longrightarrow>
   t' \<noteq> Lf \<Longrightarrow> fcolor f' = RB_BLACK \<Longrightarrow> ins_fix (f # g # G) t = plug (f' # G) t' \<Longrightarrow>
   insert_step h f g G t"
  unfolding insert_step_def by blast

lemma insert_step_ll:
  assumes A: "at h G (Nd gc (Nd RB_RED t p s) g u)" and t: "t = Nd c a x b"
  shows "insert_step h (InL RB_RED p s) (InL gc g u) G t"
proof (cases "tcolor u = RB_RED")
  case True
  then obtain ul y ur where u: "u = Nd RB_RED ul y ur" by (auto simp: tcolor_red)
  obtain h' where "insert_color_body h (rootp t) (Some p) = Some (h', Some g)"
    "at h' G (Nd RB_RED (Nd RB_BLACK t p s) g (Nd RB_BLACK ul y ur))"
    using body_recolor_left [OF A [unfolded u]] by blast
  then show ?thesis by (intro insert_stepI_again) (simp_all add: u)
next
  case False
  then have u: "tcolor u = RB_BLACK" by simp
  obtain h' where "insert_color_body h (Some x) (Some p) = Some (h', Some x)"
    "at h' G (Nd RB_BLACK (Nd c a x b) p (Nd RB_RED s g u))"
    using body_rotate_ll [OF A [unfolded t] u] by blast
  then show ?thesis
    by (intro insert_stepI_stop [where f' = "InL RB_BLACK p (Nd RB_RED s g u)" and t' = "Nd c a x b"])
      (simp_all add: t at_InL at_InR ins_fix_black_uncle [OF u])
qed

lemma insert_step_rl:
  assumes A: "at h G (Nd gc u g (Nd RB_RED t p s))" and t: "t = Nd c a x b"
  shows "insert_step h (InL RB_RED p s) (InR gc u g) G t"
proof (cases "tcolor u = RB_RED")
  case True
  then obtain ul y ur where u: "u = Nd RB_RED ul y ur" by (auto simp: tcolor_red)
  obtain h' where "insert_color_body h (rootp t) (Some p) = Some (h', Some g)"
    "at h' G (Nd RB_RED (Nd RB_BLACK ul y ur) g (Nd RB_BLACK t p s))"
    using body_recolor_right [OF A [unfolded u]] by blast
  then show ?thesis by (intro insert_stepI_again) (simp_all add: u)
next
  case False
  then have u: "tcolor u = RB_BLACK" by simp
  obtain h' where "insert_color_body h (Some x) (Some p) = Some (h', Some p)"
    "at h' G (Nd RB_BLACK (Nd RB_RED u g a) x (Nd RB_RED b p s))"
    using body_rotate_rl [OF A [unfolded t] u] by blast
  then show ?thesis
    by (intro insert_stepI_stop [where f' = "InR RB_BLACK (Nd RB_RED u g a) x" and t' = "Nd RB_RED b p s"])
      (simp_all add: t at_InL at_InR ins_fix_black_uncle [OF u])
qed

lemma insert_step_lr:
  assumes A: "at h G (Nd gc (Nd RB_RED s p t) g u)" and t: "t = Nd c a x b"
  shows "insert_step h (InR RB_RED s p) (InL gc g u) G t"
proof (cases "tcolor u = RB_RED")
  case True
  then obtain ul y ur where u: "u = Nd RB_RED ul y ur" by (auto simp: tcolor_red)
  obtain h' where "insert_color_body h (rootp t) (Some p) = Some (h', Some g)"
    "at h' G (Nd RB_RED (Nd RB_BLACK s p t) g (Nd RB_BLACK ul y ur))"
    using body_recolor_left [OF A [unfolded u]] by blast
  then show ?thesis by (intro insert_stepI_again) (simp_all add: u)
next
  case False
  then have u: "tcolor u = RB_BLACK" by simp
  obtain h' where "insert_color_body h (Some x) (Some p) = Some (h', Some p)"
    "at h' G (Nd RB_BLACK (Nd RB_RED s p a) x (Nd RB_RED b g u))"
    using body_rotate_lr [OF A [unfolded t] u] by blast
  then show ?thesis
    by (intro insert_stepI_stop [where f' = "InL RB_BLACK x (Nd RB_RED b g u)" and t' = "Nd RB_RED s p a"])
      (simp_all add: t at_InL at_InR ins_fix_black_uncle [OF u])
qed

lemma insert_step_rr:
  assumes A: "at h G (Nd gc u g (Nd RB_RED s p t))" and t: "t = Nd c a x b"
  shows "insert_step h (InR RB_RED s p) (InR gc u g) G t"
proof (cases "tcolor u = RB_RED")
  case True
  then obtain ul y ur where u: "u = Nd RB_RED ul y ur" by (auto simp: tcolor_red)
  obtain h' where "insert_color_body h (rootp t) (Some p) = Some (h', Some g)"
    "at h' G (Nd RB_RED (Nd RB_BLACK ul y ur) g (Nd RB_BLACK s p t))"
    using body_recolor_right [OF A [unfolded u]] by blast
  then show ?thesis by (intro insert_stepI_again) (simp_all add: u)
next
  case False
  then have u: "tcolor u = RB_BLACK" by simp
  obtain h' where "insert_color_body h (Some x) (Some p) = Some (h', Some x)"
    "at h' G (Nd RB_BLACK (Nd RB_RED u g s) p (Nd c a x b))"
    using body_rotate_rr [OF A [unfolded t] u] by blast
  then show ?thesis
    by (intro insert_stepI_stop [where f' = "InR RB_BLACK (Nd RB_RED u g s) p" and t' = "Nd c a x b"])
      (simp_all add: t at_InL at_InR ins_fix_black_uncle [OF u])
qed

lemma insert_step_at:
  assumes "at h (f # g # G) t" "t \<noteq> Lf" "fcolor f = RB_RED"
  shows "insert_step h f g G t"
proof -
  obtain c a x b where t: "t = Nd c a x b" using assms(2) by (cases t) auto
  show ?thesis
    using assms(1,3) insert_step_ll [OF _ t] insert_step_lr [OF _ t] insert_step_rl [OF _ t]
      insert_step_rr [OF _ t]
    by (cases f; cases g) (simp_all add: at_InL at_InR)
qed

lemma insert_color_loop_at:
  "at h K t \<Longrightarrow> t \<noteq> Lf \<Longrightarrow> top_black K \<Longrightarrow>
   \<exists>h'. insert_color_loop h (rootp t) = Some h' \<and> at h' [] (ins_fix K t)"
proof (induction "length K" arbitrary: K t h rule: less_induct)
  case less
  show ?case
  proof (cases "\<exists>f J. K = f # J \<and> fcolor f = RB_RED")
    case False
    then have *: "\<And>f J. K = f # J \<Longrightarrow> fcolor f = RB_BLACK" by auto
    then show ?thesis
      using insert_loop_stop [OF less.prems(1,2) *] ins_fix_stop [of K t] plug_at [OF less.prems(1)]
      by simp
  next
    case True
    then obtain f J where K: "K = f # J" and red: "fcolor f = RB_RED" by auto
    then obtain g G where J: "J = g # G" using less.prems(3) by (cases J) auto
    have tb: "top_black G" using less.prems(3) K J by (auto dest: top_black_tl)
    have at: "at h (f # g # G) t" using less.prems(1) K J by simp
    note step = insert_loop_step [OF at less.prems(2) red]
    from insert_step_at [OF at less.prems(2) red, unfolded insert_step_def] show ?thesis
    proof (elim disjE exE conjE)
      fix h' t'
      assume *: "insert_color_body h (rootp t) (Some (fnode f)) = Some (h', rootp t')" "at h' G t'"
        "t' \<noteq> Lf" "ins_fix (f # g # G) t = ins_fix G t'"
      show ?thesis using step [OF *(1)] less.hyps [OF _ *(2,3) tb] *(4) K J by simp
    next
      fix h' f' t'
      assume *: "insert_color_body h (rootp t) (Some (fnode f)) = Some (h', rootp t')"
        "at h' (f' # G) t'" "t' \<noteq> Lf" "fcolor f' = RB_BLACK" "ins_fix (f # g # G) t = plug (f' # G) t'"
      show ?thesis
        using step [OF *(1)] insert_loop_stop [OF *(2,3)] plug_at [OF *(2)] *(4,5) K J by simp
    qed
  qed
qed

fun blacken :: "rbt \<Rightarrow> rbt" where
  "blacken Lf = Lf"
| "blacken (Nd c l x r) = Nd RB_BLACK l x r"

lemma plug_not_Lf: "t \<noteq> Lf \<Longrightarrow> plug K t \<noteq> Lf"
  by (induction K t rule: plug.induct) auto

lemma ins_fix_not_Lf: "t \<noteq> Lf \<Longrightarrow> ins_fix K t \<noteq> Lf"
  by (induction K t rule: ins_fix.induct) (auto simp: plug_not_Lf)

lemma RB_INSERT_COLOR_at:
  assumes "at h K t" "t \<noteq> Lf" "top_black K"
  obtains h' where "RB_INSERT_COLOR h (rootp t) = Some h'" "at h' [] (blacken (ins_fix K t))"
proof -
  obtain h1 where 1: "insert_color_loop h (rootp t) = Some h1" "at h1 [] (ins_fix K t)"
    using insert_color_loop_at [OF assms] by blast
  obtain c l x r where f: "ins_fix K t = Nd c l x r"
    using ins_fix_not_Lf [OF assms(2)] by (cases "ins_fix K t") auto
  obtain h2 where "set_color h1 (Some x) RB_BLACK = Some h2" "at h2 [] (Nd RB_BLACK l x r)"
    using set_color_at [OF 1(2) [unfolded f]] by blast
  then show thesis
    using that [of h2] 1 f at_root [OF 1(2)] by (simp add: RB_INSERT_COLOR_def)
qed

section \<open>Searching\<close>

text \<open>The path a comparison takes: to the element it is equal to, or to the context of the leaf
  where it ends.\<close>

fun descend :: "(nat \<Rightarrow> int) \<Rightarrow> ctx \<Rightarrow> rbt \<Rightarrow> nat + ctx" where
  "descend cmp K Lf = Inr K"
| "descend cmp K (Nd c l x r) =
     (if cmp x < 0 then descend cmp (InL c x r # K) l
      else if cmp x > 0 then descend cmp (InR c l x # K) r
      else Inl x)"

fun dir_ok :: "ctx \<Rightarrow> int \<Rightarrow> bool" where
  "dir_ok [] c = True"
| "dir_ok (InL d x r # K) c = (c < 0)"
| "dir_ok (InR d l x # K) c = (c > 0)"

lemma find_loop_at:
  "at h K t \<Longrightarrow> find_loop cmp h (rootp t) =
     Some (case descend cmp K t of Inl x \<Rightarrow> Some x | Inr _ \<Rightarrow> None)"
proof (induction t arbitrary: K)
  case Lf
  then show ?case by (simp add: find_loop.simps)
next
  case (Nd c l x r)
  have "at h (InL c x r # K) l" "at h (InR c l x # K) r"
    using Nd.prems by (simp_all add: at_InL at_InR)
  then show ?case
    using Nd.IH at_left [OF Nd.prems] at_right [OF Nd.prems]
    by (simp add: find_loop.simps [of _ _ "Some x"])
qed

lemma insert_search_at:
  "at h K t \<Longrightarrow> dir_ok K d0 \<Longrightarrow>
   (\<forall>x. descend cmp K t = Inl x \<longrightarrow> insert_search cmp h (rootp t) (cpar K) d0 = Some (Inl x)) \<and>
   (\<forall>J. descend cmp K t = Inr J \<longrightarrow> at h J Lf \<and>
      (\<exists>d. insert_search cmp h (rootp t) (cpar K) d0 = Some (Inr (cpar J, d)) \<and> dir_ok J d))"
proof (induction t arbitrary: K d0)
  case Lf
  then show ?case by (auto simp: insert_search.simps)
next
  case (Nd c l x r)
  have l: "at h (InL c x r # K) l" and r: "at h (InR c l x # K) r"
    using Nd.prems by (simp_all add: at_InL at_InR)
  show ?case
    using Nd.IH(1) [OF l, of "cmp x"] Nd.IH(2) [OF r, of "cmp x"]
      at_left [OF Nd.prems(1)] at_right [OF Nd.prems(1)]
    by (simp add: insert_search.simps [of _ _ "Some x"])
qed

lemma RB_FIND_at:
  "at h [] t \<Longrightarrow> RB_FIND cmp h = Some (case descend cmp [] t of Inl x \<Rightarrow> Some x | Inr _ \<Rightarrow> None)"
  unfolding RB_FIND_def using find_loop_at [of h "[]" t cmp] at_root [of h "[]" t] by simp

section \<open>Insertion\<close>

definition tree_insert :: "(nat \<Rightarrow> int) \<Rightarrow> nat \<Rightarrow> rbt \<Rightarrow> rbt \<times> ptr" where
  "tree_insert cmp elm t =
     (case descend cmp [] t of
        Inl x \<Rightarrow> (t, Some x)
      | Inr K \<Rightarrow> (blacken (ins_fix K (Nd RB_RED Lf elm Lf)), None))"

lemma new_leaf_at:
  assumes "at h K Lf" "elm \<notin> cset K" "dir_ok K d"
  obtains h1 h2 where "RB_SET h (Some elm) (cpar K) = Some h1"
    "(if cpar K \<noteq> None then
        if d < 0 then set_left h1 (cpar K) (Some elm) else set_right h1 (cpar K) (Some elm)
      else Some (h1\<lparr>rbh_root := Some elm\<rparr>)) = Some h2"
    "at h2 K (Nd RB_RED Lf elm Lf)"
  using assms that
  by (cases K rule: cset.cases) (auto simp: at_def RB_SET_def rb_access)

lemma descend_cset: "descend cmp K t = Inr J \<Longrightarrow> cset J \<subseteq> cset K \<union> set (inord t)"
  by (induction cmp K t rule: descend.induct) (fastforce split: if_splits)+

lemma descend_top_black:
  "descend cmp K t = Inr J \<Longrightarrow> top_black K \<Longrightarrow> K = [] \<longrightarrow> tcolor t = RB_BLACK \<Longrightarrow> top_black J"
proof (induction cmp K t rule: descend.induct)
  case (2 cmp K c l x r)
  then show ?case
    by (cases K) (auto split: if_splits)
qed simp

lemma RB_INSERT_at:
  assumes "at h [] t" "tcolor t = RB_BLACK" "elm \<notin> set (inord t)"
  obtains h' where "RB_INSERT cmp h elm = Some (h', snd (tree_insert cmp elm t))"
    "at h' [] (fst (tree_insert cmp elm t))"
proof (cases "descend cmp [] t")
  case (Inl x)
  then have "insert_search cmp h (rbh_root h) None 0 = Some (Inl x)"
    using insert_search_at [OF assms(1), of 0 cmp] at_root [OF assms(1)] by simp
  then show thesis
    using that [of h] assms(1) Inl by (simp add: RB_INSERT_def tree_insert_def)
next
  case (Inr K)
  obtain d where d: "insert_search cmp h (rbh_root h) None 0 = Some (Inr (cpar K, d))"
    "at h K Lf" "dir_ok K d"
    using insert_search_at [OF assms(1), of 0 cmp] at_root [OF assms(1)] Inr by auto
  have fresh: "elm \<notin> cset K" using descend_cset [OF Inr] assms(3) by auto
  obtain h1 h2 where h: "RB_SET h (Some elm) (cpar K) = Some h1"
    "(if cpar K \<noteq> None then
        if d < 0 then set_left h1 (cpar K) (Some elm) else set_right h1 (cpar K) (Some elm)
      else Some (h1\<lparr>rbh_root := Some elm\<rparr>)) = Some h2"
    "at h2 K (Nd RB_RED Lf elm Lf)"
    using new_leaf_at [OF d(2) fresh d(3)] .
  have "top_black K" using descend_top_black [OF Inr] assms(2) by simp
  then obtain h3 where "RB_INSERT_COLOR h2 (Some elm) = Some h3"
    "at h3 [] (blacken (ins_fix K (Nd RB_RED Lf elm Lf)))"
    using RB_INSERT_COLOR_at [OF h(3)] by auto
  then show thesis
    using that [of h3] d(1) h Inr by (simp add: RB_INSERT_def tree_insert_def)
qed

end
