(* ===== verification/Tree_Balance.thy ===== *)
theory Tree_Balance
  imports Tree_Refine
begin

text \<open>
  The red-black conditions stated in the comment of \<^verbatim>\<open>src/tree.h\<close>: every path from the root to a
  leaf has the same number of black nodes, a red node has black children, the root is black. Insertion
  and removal keep them; they are what makes the rebalancing loops of the C code end and keeps them
  from following a NULL pointer (the grandparent of a red node, the sibling of a node that lost a
  black level). The height bound of the comment follows.
\<close>

section \<open>The conditions on trees and on contexts\<close>

fun bh :: "rbt \<Rightarrow> nat" where
  "bh Lf = 0"
| "bh (Nd c l x r) = bh l + (if c = RB_BLACK then 1 else 0)"

fun invh :: "rbt \<Rightarrow> bool" where
  "invh Lf = True"
| "invh (Nd c l x r) = (bh l = bh r \<and> invh l \<and> invh r)"

fun invc :: "rbt \<Rightarrow> bool" where
  "invc Lf = True"
| "invc (Nd c l x r) =
     ((c = RB_RED \<longrightarrow> tcolor l = RB_BLACK \<and> tcolor r = RB_BLACK) \<and> invc l \<and> invc r)"

definition rb_ok :: "rbt \<Rightarrow> bool" where
  "rb_ok t \<longleftrightarrow> invc t \<and> invh t \<and> tcolor t = RB_BLACK"

text \<open>\<open>cinvh K n\<close>: a subtree of black height \<open>n\<close> fits into the context \<open>K\<close>.\<close>

fun cinvh :: "ctx \<Rightarrow> nat \<Rightarrow> bool" where
  "cinvh [] n = True"
| "cinvh (InL c x r # K) n = (invh r \<and> bh r = n \<and> cinvh K (n + (if c = RB_BLACK then 1 else 0)))"
| "cinvh (InR c l x # K) n = (invh l \<and> bh l = n \<and> cinvh K (n + (if c = RB_BLACK then 1 else 0)))"

fun ccolor :: "ctx \<Rightarrow> rb_color" where
  "ccolor [] = RB_BLACK"
| "ccolor (f # K) = fcolor f"

fun cinvc :: "ctx \<Rightarrow> bool" where
  "cinvc [] = True"
| "cinvc (InL c x r # K) =
     (invc r \<and> (c = RB_RED \<longrightarrow> tcolor r = RB_BLACK \<and> ccolor K = RB_BLACK) \<and> cinvc K)"
| "cinvc (InR c l x # K) =
     (invc l \<and> (c = RB_RED \<longrightarrow> tcolor l = RB_BLACK \<and> ccolor K = RB_BLACK) \<and> cinvc K)"

lemma invh_plug: "invh (plug K t) \<longleftrightarrow> invh t \<and> cinvh K (bh t)"
  by (induction K t rule: plug.induct) auto

lemma invc_plug: "invc (plug K t) \<longleftrightarrow> invc t \<and> cinvc K \<and> (tcolor t = RB_RED \<longrightarrow> ccolor K = RB_BLACK)"
  by (induction K t rule: plug.induct) auto

lemma tcolor_plug: "tcolor (plug K t) = (if K = [] then tcolor t else fcolor (last K))"
  by (induction K t rule: plug.induct) auto

lemma invh_blacken: "invh (blacken t) = invh t"
  by (cases t) auto

lemma tcolor_blacken [simp]: "tcolor (blacken t) = RB_BLACK"
  by (cases t) auto

lemma blacken_id: "tcolor t = RB_BLACK \<Longrightarrow> blacken t = t"
  by (cases t) auto

lemma invc_blacken: "invc t \<Longrightarrow> invc (blacken t)"
  by (cases t) auto

lemma inord_blacken [simp]: "inord (blacken t) = inord t"
  by (cases t) auto

fun cpre :: "ctx \<Rightarrow> nat list" where
  "cpre [] = []"
| "cpre (InL c x r # K) = cpre K"
| "cpre (InR c l x # K) = cpre K @ inord l @ [x]"

fun cpost :: "ctx \<Rightarrow> nat list" where
  "cpost [] = []"
| "cpost (InL c x r # K) = x # inord r @ cpost K"
| "cpost (InR c l x # K) = cpost K"

lemma inord_plug: "inord (plug K t) = cpre K @ inord t @ cpost K"
  by (induction K t rule: plug.induct) auto

section \<open>Insertion\<close>

lemma ins_fix_invh:
  "invh t \<Longrightarrow> cinvh K (bh t) \<Longrightarrow> cinvc K \<Longrightarrow> tcolor t = RB_RED \<Longrightarrow> invh (ins_fix K t)"
  by (induction K t rule: ins_fix.induct) (auto simp: invh_plug split: if_splits)

lemma ins_fix_invc:
  "invc t \<Longrightarrow> cinvc K \<Longrightarrow> tcolor t = RB_RED \<Longrightarrow> top_black K \<Longrightarrow> invc (ins_fix K t)"
  by (induction K t rule: ins_fix.induct) (auto simp: invc_plug dest: top_black_tl)

lemma inord_ins_fix: "t \<noteq> Lf \<Longrightarrow> inord (ins_fix K t) = inord (plug K t)"
  by (induction K t rule: ins_fix.induct) (auto simp: inord_plug)

lemma descend_plug: "descend cmp K t = Inr J \<Longrightarrow> plug J Lf = plug K t"
  by (induction cmp K t rule: descend.induct) (auto split: if_splits)

lemma tree_insert_ok:
  assumes "rb_ok t"
  shows "rb_ok (fst (tree_insert cmp elm t))"
proof (cases "descend cmp [] t")
  case (Inr K)
  have "plug K Lf = t" using descend_plug [OF Inr] by simp
  then have "cinvh K 0" "cinvc K"
    using assms invh_plug [of K Lf] invc_plug [of K Lf] by (auto simp: rb_ok_def)
  moreover have "top_black K" using descend_top_black [OF Inr] assms by (simp add: rb_ok_def)
  ultimately show ?thesis
    using ins_fix_invh [of "Nd RB_RED Lf elm Lf" K] ins_fix_invc [of "Nd RB_RED Lf elm Lf" K]
    by (simp add: tree_insert_def Inr rb_ok_def invh_blacken invc_blacken)
qed (use assms in \<open>simp add: tree_insert_def\<close>)

section \<open>Removal: rebalancing\<close>

text \<open>The rotations that end the loop, for a node that is the left (right) child of \<open>p\<close> and whose
  sibling \<open>s\<close> has a red child.\<close>

fun del_term_l :: "rb_color \<Rightarrow> rbt \<Rightarrow> nat \<Rightarrow> rbt \<Rightarrow> rbt" where
  "del_term_l pc t p (Nd sc (Nd ac a1 w a2) z b) =
     (if tcolor b = RB_RED then Nd pc (Nd RB_BLACK t p (Nd ac a1 w a2)) z (blacken b)
      else Nd pc (Nd RB_BLACK t p a1) w (Nd RB_BLACK a2 z b))"
| "del_term_l pc t p (Nd sc Lf z b) = Nd pc (Nd RB_BLACK t p Lf) z (blacken b)"
| "del_term_l pc t p Lf = Nd pc t p Lf"

fun del_term_r :: "rb_color \<Rightarrow> rbt \<Rightarrow> nat \<Rightarrow> rbt \<Rightarrow> rbt" where
  "del_term_r pc (Nd sc a z (Nd bc b1 w b2)) p t =
     (if tcolor a = RB_RED then Nd pc (blacken a) z (Nd RB_BLACK (Nd bc b1 w b2) p t)
      else Nd pc (Nd RB_BLACK a z b1) w (Nd RB_BLACK b2 p t))"
| "del_term_r pc (Nd sc a z Lf) p t = Nd pc (blacken a) z (Nd RB_BLACK Lf p t)"
| "del_term_r pc Lf p t = Nd pc Lf p t"

lemma set_color_plug:
  assumes "at h K (plug J (Nd c l x r))"
  obtains h' where "set_color h (Some x) c' = Some h'" "at h' K (plug J (Nd c' l x r))"
  using set_color_at [of h "J @ K" c l x r c'] assms by (auto simp: at_plug)

lemma set_color_blacken:
  assumes "at h K (plug J t)"
  obtains h' where "(if rootp t \<noteq> None then set_color h (rootp t) RB_BLACK else Some h) = Some h'"
    "at h' K (plug J (blacken t))"
  using assms set_color_plug [of h K J _ _ _ _ RB_BLACK] that by (cases t) (auto, blast)

lemma sibling_colors:
  assumes "at h K (plug J (Nd c a z b))"
  shows "RB_LEFT h (Some z) = Some (rootp a)" "RB_RIGHT h (Some z) = Some (rootp b)"
    "RB_COLOR h (Some z) = Some c"
    "is_black h (rootp a) \<longleftrightarrow> tcolor a = RB_BLACK" "is_black h (rootp b) \<longleftrightarrow> tcolor b = RB_BLACK"
proof -
  have z: "at h (J @ K) (Nd c a z b)" using assms by (simp add: at_plug)
  then have "at h (InL c z b # J @ K) a" "at h (InR c a z # J @ K) b"
    by (simp_all add: at_InL at_InR)
  then show "is_black h (rootp a) \<longleftrightarrow> tcolor a = RB_BLACK"
    "is_black h (rootp b) \<longleftrightarrow> tcolor b = RB_BLACK"
    using is_black_at by blast+
  show "RB_LEFT h (Some z) = Some (rootp a)" "RB_RIGHT h (Some z) = Some (rootp b)"
    "RB_COLOR h (Some z) = Some c"
    using at_left [OF z] at_right [OF z] at_color [OF z] by simp_all
qed

lemma fix_left_continue:
  assumes "at h K (Nd pc t p (Nd sc a z b))" "tcolor a = RB_BLACK" "tcolor b = RB_BLACK"
  obtains h' where "remove_fix_left h (Some p) (Some z) = Some (h', Inl (Some p, cpar K))"
    "at h' K (Nd pc t p (Nd RB_RED a z b))"
proof -
  have A: "at h K (plug [InR pc t p] (Nd sc a z b))" using assms(1) by simp
  obtain h' where h': "set_color h (Some z) RB_RED = Some h'"
    "at h' K (Nd pc t p (Nd RB_RED a z b))"
    using set_color_plug [OF A, of RB_RED] by auto
  show thesis
    using that [of h'] h' at_parent [OF h'(2)] sibling_colors [OF A] assms(2,3)
    by (simp add: remove_fix_left_def del: not_None_eq)
qed

text \<open>The tail of the iteration, once the far child of the sibling is red or painted.\<close>

lemma fix_left_tail:
  assumes "at h K (Nd pc t p (Nd sc a z b))"
  obtains h1 h2 h3 h4 where "set_color h (Some z) pc = Some h1"
    "set_color h1 (Some p) RB_BLACK = Some h2" "RB_RIGHT h2 (Some z) = Some (rootp b)"
    "(if rootp b \<noteq> None then set_color h2 (rootp b) RB_BLACK else Some h2) = Some h3"
    "RB_ROTATE_LEFT h3 (Some p) = Some h4" "at h4 K (Nd pc (Nd RB_BLACK t p a) z (blacken b))"
proof -
  obtain h1 where 1: "set_color h (Some z) pc = Some h1" "at h1 K (Nd pc t p (Nd pc a z b))"
    using set_color_plug [of h K "[InR pc t p]" sc a z b pc] assms by auto
  obtain h2 where 2: "set_color h1 (Some p) RB_BLACK = Some h2"
    "at h2 K (Nd RB_BLACK t p (Nd pc a z b))"
    using set_color_at [OF 1(2)] by blast
  obtain h3 where 3: "(if rootp b \<noteq> None then set_color h2 (rootp b) RB_BLACK else Some h2) = Some h3"
    "at h3 K (Nd RB_BLACK t p (Nd pc a z (blacken b)))"
    using set_color_blacken [of h2 K "[InR pc a z, InR RB_BLACK t p]" b] 2 by auto
  obtain h4 where "RB_ROTATE_LEFT h3 (Some p) = Some h4"
    "at h4 K (Nd pc (Nd RB_BLACK t p a) z (blacken b))"
    using rotate_left_at [OF 3(2)] by blast
  moreover have "RB_RIGHT h2 (Some z) = Some (rootp b)"
    using sibling_colors(2) [of h2 K "[InR RB_BLACK t p]"] 2(2) by simp
  ultimately show thesis using that 1 2 3 by blast
qed

lemma fix_left_break:
  assumes A: "at h K (Nd pc t p (Nd sc a z b))" and red: "tcolor a = RB_RED \<or> tcolor b = RB_RED"
  obtains h' where "remove_fix_left h (Some p) (Some z) = Some (h', Inr (rbh_root h'))"
    "at h' K (del_term_l pc t p (Nd sc a z b))"
proof (cases "tcolor b = RB_RED")
  case True
  have B: "at h K (plug [InR pc t p] (Nd sc a z b))" using A by simp
  have "del_term_l pc t p (Nd sc a z b) = Nd pc (Nd RB_BLACK t p a) z (blacken b)"
    using True by (cases a) auto
  moreover obtain k1 k2 k3 k4 where k: "set_color h (Some z) pc = Some k1"
    "set_color k1 (Some p) RB_BLACK = Some k2" "RB_RIGHT k2 (Some z) = Some (rootp b)"
    "(if rootp b \<noteq> None then set_color k2 (rootp b) RB_BLACK else Some k2) = Some k3"
    "RB_ROTATE_LEFT k3 (Some p) = Some k4"
    "at k4 K (Nd pc (Nd RB_BLACK t p a) z (blacken b))"
    using fix_left_tail [OF A] .
  ultimately show thesis
    using that [of k4] True sibling_colors [OF B] at_color [OF A]
    by (simp add: remove_fix_left_def del: not_None_eq)
next
  case False
  then obtain a1 w a2 where a: "a = Nd RB_RED a1 w a2" using red by (auto simp: tcolor_red)
  have B: "at h K (plug [InR pc t p] (Nd sc a z b))" using A by simp
  obtain h1 where 1: "set_color h (Some w) RB_BLACK = Some h1"
    "at h1 K (Nd pc t p (Nd sc (Nd RB_BLACK a1 w a2) z b))"
    using set_color_plug [of h K "[InL sc z b, InR pc t p]" RB_RED a1 w a2 RB_BLACK] A a by auto
  obtain h2 where 2: "set_color h1 (Some z) RB_RED = Some h2"
    "at h2 K (Nd pc t p (Nd RB_RED (Nd RB_BLACK a1 w a2) z b))"
    using set_color_plug [of h1 K "[InR pc t p]" sc "Nd RB_BLACK a1 w a2" z b RB_RED] 1 by auto
  obtain h3 where 3: "RB_ROTATE_RIGHT h2 (Some z) = Some h3"
    "at h3 K (Nd pc t p (Nd RB_BLACK a1 w (Nd RB_RED a2 z b)))"
    using rotate_right_at [of h2 "InR pc t p # K", unfolded at_InR, OF 2(2)] by blast
  have "RB_RIGHT h3 (Some p) = Some (Some w)" "RB_COLOR h3 (Some p) = Some pc"
    using at_right [OF 3(2)] at_color [OF 3(2)] by simp_all
  moreover obtain k1 k2 k3 k4 where k: "set_color h3 (Some w) pc = Some k1"
    "set_color k1 (Some p) RB_BLACK = Some k2" "RB_RIGHT k2 (Some w) = Some (rootp (Nd RB_RED a2 z b))"
    "(if rootp (Nd RB_RED a2 z b) \<noteq> None then set_color k2 (rootp (Nd RB_RED a2 z b)) RB_BLACK else Some k2) = Some k3"
    "RB_ROTATE_LEFT k3 (Some p) = Some k4"
    "at k4 K (Nd pc (Nd RB_BLACK t p a1) w (blacken (Nd RB_RED a2 z b)))"
    using fix_left_tail [OF 3(2)] .
  ultimately show thesis
    using that [of k4] 1 2 3 False a sibling_colors [OF B]
    by (simp add: remove_fix_left_def del: not_None_eq)
qed

lemma fix_right_continue:
  assumes "at h K (Nd pc (Nd sc b z a) p t)" "tcolor a = RB_BLACK" "tcolor b = RB_BLACK"
  obtains h' where "remove_fix_right h (Some p) (Some z) = Some (h', Inl (Some p, cpar K))"
    "at h' K (Nd pc (Nd RB_RED b z a) p t)"
proof -
  have A: "at h K (plug [InL pc p t] (Nd sc b z a))" using assms(1) by simp
  obtain h' where h': "set_color h (Some z) RB_RED = Some h'"
    "at h' K (Nd pc (Nd RB_RED b z a) p t)"
    using set_color_plug [OF A, of RB_RED] by auto
  show thesis
    using that [of h'] h' at_parent [OF h'(2)] sibling_colors [OF A] assms(2,3)
    by (simp add: remove_fix_right_def del: not_None_eq)
qed

text \<open>The tail of the iteration, once the far child of the sibling is red or painted.\<close>

lemma fix_right_tail:
  assumes "at h K (Nd pc (Nd sc b z a) p t)"
  obtains h1 h2 h3 h4 where "set_color h (Some z) pc = Some h1"
    "set_color h1 (Some p) RB_BLACK = Some h2" "RB_LEFT h2 (Some z) = Some (rootp b)"
    "(if rootp b \<noteq> None then set_color h2 (rootp b) RB_BLACK else Some h2) = Some h3"
    "RB_ROTATE_RIGHT h3 (Some p) = Some h4" "at h4 K (Nd pc (blacken b) z (Nd RB_BLACK a p t))"
proof -
  obtain h1 where 1: "set_color h (Some z) pc = Some h1" "at h1 K (Nd pc (Nd pc b z a) p t)"
    using set_color_plug [of h K "[InL pc p t]" sc b z a pc] assms by auto
  obtain h2 where 2: "set_color h1 (Some p) RB_BLACK = Some h2"
    "at h2 K (Nd RB_BLACK (Nd pc b z a) p t)"
    using set_color_at [OF 1(2)] by blast
  obtain h3 where 3: "(if rootp b \<noteq> None then set_color h2 (rootp b) RB_BLACK else Some h2) = Some h3"
    "at h3 K (Nd RB_BLACK (Nd pc (blacken b) z a) p t)"
    using set_color_blacken [of h2 K "[InL pc z a, InL RB_BLACK p t]" b] 2 by auto
  obtain h4 where "RB_ROTATE_RIGHT h3 (Some p) = Some h4"
    "at h4 K (Nd pc (blacken b) z (Nd RB_BLACK a p t))"
    using rotate_right_at [OF 3(2)] by blast
  moreover have "RB_LEFT h2 (Some z) = Some (rootp b)"
    using sibling_colors(1) [of h2 K "[InL RB_BLACK p t]"] 2(2) by simp
  ultimately show thesis using that 1 2 3 by blast
qed

lemma fix_right_break:
  assumes A: "at h K (Nd pc (Nd sc b z a) p t)" and red: "tcolor a = RB_RED \<or> tcolor b = RB_RED"
  obtains h' where "remove_fix_right h (Some p) (Some z) = Some (h', Inr (rbh_root h'))"
    "at h' K (del_term_r pc (Nd sc b z a) p t)"
proof (cases "tcolor b = RB_RED")
  case True
  have B: "at h K (plug [InL pc p t] (Nd sc b z a))" using A by simp
  have "del_term_r pc (Nd sc b z a) p t = Nd pc (blacken b) z (Nd RB_BLACK a p t)"
    using True by (cases a) auto
  moreover obtain k1 k2 k3 k4 where k: "set_color h (Some z) pc = Some k1"
    "set_color k1 (Some p) RB_BLACK = Some k2" "RB_LEFT k2 (Some z) = Some (rootp b)"
    "(if rootp b \<noteq> None then set_color k2 (rootp b) RB_BLACK else Some k2) = Some k3"
    "RB_ROTATE_RIGHT k3 (Some p) = Some k4"
    "at k4 K (Nd pc (blacken b) z (Nd RB_BLACK a p t))"
    using fix_right_tail [OF A] .
  ultimately show thesis
    using that [of k4] True sibling_colors [OF B] at_color [OF A]
    by (simp add: remove_fix_right_def del: not_None_eq)
next
  case False
  then obtain a1 w a2 where a: "a = Nd RB_RED a2 w a1" using red by (auto simp: tcolor_red)
  have B: "at h K (plug [InL pc p t] (Nd sc b z a))" using A by simp
  obtain h1 where 1: "set_color h (Some w) RB_BLACK = Some h1"
    "at h1 K (Nd pc (Nd sc b z (Nd RB_BLACK a2 w a1)) p t)"
    using set_color_plug [of h K "[InR sc b z, InL pc p t]" RB_RED a2 w a1 RB_BLACK] A a by auto
  obtain h2 where 2: "set_color h1 (Some z) RB_RED = Some h2"
    "at h2 K (Nd pc (Nd RB_RED b z (Nd RB_BLACK a2 w a1)) p t)"
    using set_color_plug [of h1 K "[InL pc p t]" sc b z "Nd RB_BLACK a2 w a1" RB_RED] 1 by auto
  obtain h3 where 3: "RB_ROTATE_LEFT h2 (Some z) = Some h3"
    "at h3 K (Nd pc (Nd RB_BLACK (Nd RB_RED b z a2) w a1) p t)"
    using rotate_left_at [of h2 "InL pc p t # K", unfolded at_InL, OF 2(2)] by blast
  have "RB_LEFT h3 (Some p) = Some (Some w)" "RB_COLOR h3 (Some p) = Some pc"
    using at_left [OF 3(2)] at_color [OF 3(2)] by simp_all
  moreover obtain k1 k2 k3 k4 where k: "set_color h3 (Some w) pc = Some k1"
    "set_color k1 (Some p) RB_BLACK = Some k2" "RB_LEFT k2 (Some w) = Some (rootp (Nd RB_RED b z a2))"
    "(if rootp (Nd RB_RED b z a2) \<noteq> None then set_color k2 (rootp (Nd RB_RED b z a2)) RB_BLACK else Some k2) = Some k3"
    "RB_ROTATE_RIGHT k3 (Some p) = Some k4"
    "at k4 K (Nd pc (blacken (Nd RB_RED b z a2)) w (Nd RB_BLACK a1 p t))"
    using fix_right_tail [OF 3(2)] .
  ultimately show thesis
    using that [of k4] 1 2 3 False a sibling_colors [OF B]
    by (simp add: remove_fix_right_def del: not_None_eq)
qed


text \<open>The whole loop on trees: \<open>del_fix K t\<close> is the tree after \<open>t\<close>, which lacks one black level in the
  context \<open>K\<close>, has been rebalanced.\<close>

fun del_fix :: "ctx \<Rightarrow> rbt \<Rightarrow> rbt" where
  "del_fix [] t = blacken t"
| "del_fix (InL pc p s # K) t =
     (if tcolor t = RB_RED then plug (InL pc p s # K) (blacken t)
      else case s of
          Nd RB_RED (Nd sc a z b) y r \<Rightarrow>
            if tcolor a = RB_BLACK \<and> tcolor b = RB_BLACK
            then plug K (Nd RB_BLACK (Nd RB_BLACK t p (Nd RB_RED a z b)) y r)
            else blacken (plug K (Nd RB_BLACK (del_term_l RB_RED t p (Nd sc a z b)) y r))
        | Nd RB_BLACK a z b \<Rightarrow>
            if tcolor a = RB_BLACK \<and> tcolor b = RB_BLACK
            then del_fix K (Nd pc t p (Nd RB_RED a z b))
            else blacken (plug K (del_term_l pc t p (Nd RB_BLACK a z b)))
        | _ \<Rightarrow> plug (InL pc p s # K) t)"
| "del_fix (InR pc s p # K) t =
     (if tcolor t = RB_RED then plug (InR pc s p # K) (blacken t)
      else case s of
          Nd RB_RED r y (Nd sc b z a) \<Rightarrow>
            if tcolor a = RB_BLACK \<and> tcolor b = RB_BLACK
            then plug K (Nd RB_BLACK r y (Nd RB_BLACK (Nd RB_RED b z a) p t))
            else blacken (plug K (Nd RB_BLACK r y (del_term_r RB_RED (Nd sc b z a) p t)))
        | Nd RB_BLACK b z a \<Rightarrow>
            if tcolor a = RB_BLACK \<and> tcolor b = RB_BLACK
            then del_fix K (Nd pc (Nd RB_RED b z a) p t)
            else blacken (plug K (del_term_r pc (Nd RB_BLACK b z a) p t))
        | _ \<Rightarrow> plug (InR pc s p # K) t)"

text \<open>The final \<open>if (elm) RB_COLOR(elm) = RB_BLACK\<close>.\<close>

definition painted :: "rb_head \<Rightarrow> ptr \<Rightarrow> rbt \<Rightarrow> bool" where
  "painted h e t \<longleftrightarrow>
     (\<exists>h'. (if e \<noteq> None then set_color h e RB_BLACK else Some h) = Some h' \<and> at h' [] t)"

lemma painted_at: "at h K t \<Longrightarrow> painted h (rootp t) (plug K (blacken t))"
  using set_color_blacken [of h "[]" K t] at_plug [of h K "[]"] unfolding painted_def
  by (metis append_Nil2)

lemma painted_root: "at h K t \<Longrightarrow> painted h (rbh_root h) (blacken (plug K t))"
  using painted_at [OF plug_at] at_root [OF plug_at] by (metis croot.simps(1) plug.simps(1))

lemma remove_loop_stop:
  assumes "at h K t" "K = [] \<or> tcolor t = RB_RED"
  shows "remove_color_loop h par (rootp t) = Some (h, rootp t)"
  using at_root [OF assms(1)] is_black_at [OF assms(1)] assms(2)
  by (auto simp: remove_color_loop.simps)

lemma fnode_cset: "fnode f \<in> cset (f # K)"
  by (cases f) auto

lemma cset_Cons: "cset K \<subseteq> cset (f # K)"
  by (cases f) auto

lemma croot_mem: "\<exists>x \<in> cset (f # K). croot (f # K) p = Some x"
proof (induction K arbitrary: f p)
  case Nil
  then show ?case using fnode_cset by simp
next
  case (Cons g K)
  then show ?case using cset_Cons by (metis croot.simps(2) subsetD)
qed

lemma at_not_root:
  assumes "at h (f # K) t"
  shows "rbh_root h \<noteq> rootp t"
proof -
  obtain x where "x \<in> cset (f # K)" "rbh_root h = Some x"
    using croot_mem [of f K "rootp t"] at_root [OF assms] by auto
  then show ?thesis
    using assms rootp_mem [of t x] unfolding at_def by (auto simp: disjoint_iff)
qed

text \<open>One iteration: \<open>elm\<close> is black and not the root.\<close>

lemma remove_loop_step_left:
  assumes "at h (InL pc p s # K) t" "tcolor t = RB_BLACK"
    and "remove_color_left h (Some p) = Some (h', r)"
  shows "remove_color_loop h (Some p) (rootp t) =
    (case r of Inl (e, q) \<Rightarrow> remove_color_loop h' q e | Inr e \<Rightarrow> Some (h', e))"
  using assms is_black_at [OF assms(1)] at_not_root [OF assms(1)]
    at_left [OF assms(1) [unfolded at_InL]]
  by (auto simp: remove_color_loop.simps [of h "Some p" "rootp t"] split: sum.splits)

lemma remove_loop_step_right:
  assumes "at h (InR pc s p # K) t" "tcolor t = RB_BLACK" "s \<noteq> Lf"
    and "remove_color_right h (Some p) = Some (h', r)"
  shows "remove_color_loop h (Some p) (rootp t) =
    (case r of Inl (e, q) \<Rightarrow> remove_color_loop h' q e | Inr e \<Rightarrow> Some (h', e))"
proof -
  obtain c a z b where s: "s = Nd c a z b" using assms(3) by (cases s) auto
  have "rootp t \<noteq> Some z"
    using assms(1) rootp_mem [of t z] unfolding at_def s by (auto simp: disjoint_iff)
  then show ?thesis
    using s assms is_black_at [OF assms(1)] at_not_root [OF assms(1)]
      at_left [OF assms(1) [unfolded at_InR]]
    by (auto simp: remove_color_loop.simps [of h "Some p" "rootp t"] split: sum.splits)
qed

text \<open>A red sibling is rotated above the parent first.\<close>

lemma remove_left_red:
  assumes "at h K (Nd pc t p (Nd RB_RED (Nd sc a z b) y r))"
  obtains h' where "remove_color_left h (Some p) = remove_fix_left h' (Some p) (Some z)"
    "at h' (InL RB_BLACK y r # K) (Nd RB_RED t p (Nd sc a z b))"
proof -
  obtain h1 where 1: "RB_SET_BLACKRED h (Some y) (Some p) = Some h1"
    "at h1 K (Nd RB_RED t p (Nd RB_BLACK (Nd sc a z b) y r))"
    using set_blackred_at_right [OF assms] by blast
  obtain h2 where 2: "RB_ROTATE_LEFT h1 (Some p) = Some h2"
    "at h2 K (Nd RB_BLACK (Nd RB_RED t p (Nd sc a z b)) y r)"
    using rotate_left_at [OF 1(2)] by blast
  have "RB_RIGHT h2 (Some p) = Some (Some z)"
    using at_child_left(3) [OF 2(2)] by simp
  then show thesis
    using that [of h2] 1 2 at_right [OF assms] at_child_right(4) [OF assms]
    by (simp add: remove_color_left_def at_InL)
qed

lemma remove_left_black:
  assumes "at h K (Nd pc t p (Nd RB_BLACK a z b))"
  shows "remove_color_left h (Some p) = remove_fix_left h (Some p) (Some z)"
  using at_right [OF assms] at_child_right(4) [OF assms] by (simp add: remove_color_left_def)

lemma remove_right_red:
  assumes "at h K (Nd pc (Nd RB_RED r y (Nd sc b z a)) p t)"
  obtains h' where "remove_color_right h (Some p) = remove_fix_right h' (Some p) (Some z)"
    "at h' (InR RB_BLACK r y # K) (Nd RB_RED (Nd sc b z a) p t)"
proof -
  obtain h1 where 1: "RB_SET_BLACKRED h (Some y) (Some p) = Some h1"
    "at h1 K (Nd RB_RED (Nd RB_BLACK r y (Nd sc b z a)) p t)"
    using set_blackred_at [OF assms] by blast
  obtain h2 where 2: "RB_ROTATE_RIGHT h1 (Some p) = Some h2"
    "at h2 K (Nd RB_BLACK r y (Nd RB_RED (Nd sc b z a) p t))"
    using rotate_right_at [OF 1(2)] by blast
  have "RB_LEFT h2 (Some p) = Some (Some z)"
    using at_child_right(2) [OF 2(2)] by simp
  then show thesis
    using that [of h2] 1 2 at_left [OF assms] at_child_left(4) [OF assms]
    by (simp add: remove_color_right_def at_InR)
qed

lemma remove_right_black:
  assumes "at h K (Nd pc (Nd RB_BLACK b z a) p t)"
  shows "remove_color_right h (Some p) = remove_fix_right h (Some p) (Some z)"
  using at_left [OF assms] at_child_left(4) [OF assms] by (simp add: remove_color_right_def)

text \<open>What the loop does from a position, in one predicate.\<close>

definition loop_yields :: "rb_head \<Rightarrow> ctx \<Rightarrow> rbt \<Rightarrow> rbt \<Rightarrow> bool" where
  "loop_yields h K t t' \<longleftrightarrow>
     (\<exists>h' e. remove_color_loop h (cpar K) (rootp t) = Some (h', e) \<and> painted h' e t')"

lemma loop_yields_stop:
  "at h K t \<Longrightarrow> K = [] \<or> tcolor t = RB_RED \<Longrightarrow> loop_yields h K t (plug K (blacken t))"
  unfolding loop_yields_def using remove_loop_stop painted_at by blast

lemma loop_left_red:
  assumes A: "at h (InL pc p (Nd RB_RED (Nd sc a z b) y r) # K) t" and t: "tcolor t = RB_BLACK"
  shows "loop_yields h (InL pc p (Nd RB_RED (Nd sc a z b) y r) # K) t
    (del_fix (InL pc p (Nd RB_RED (Nd sc a z b) y r) # K) t)"
proof -
  note step = remove_loop_step_left [OF A t]
  obtain h1 where 1: "remove_color_left h (Some p) = remove_fix_left h1 (Some p) (Some z)"
    "at h1 (InL RB_BLACK y r # K) (Nd RB_RED t p (Nd sc a z b))"
    using remove_left_red [OF A [unfolded at_InL]] by blast
  show ?thesis
  proof (cases "tcolor a = RB_BLACK \<and> tcolor b = RB_BLACK")
    case True
    obtain h2 where 2: "remove_fix_left h1 (Some p) (Some z) = Some (h2, Inl (Some p, Some y))"
      "at h2 (InL RB_BLACK y r # K) (Nd RB_RED t p (Nd RB_RED a z b))"
      using fix_left_continue [OF 1(2)] True by auto
    then show ?thesis
      using loop_yields_stop [OF 2(2)] step 1 True t by (simp add: loop_yields_def)
  next
    case False
    then have red: "tcolor a = RB_RED \<or> tcolor b = RB_RED" by simp
    obtain h2 where 2: "remove_fix_left h1 (Some p) (Some z) = Some (h2, Inr (rbh_root h2))"
      "at h2 (InL RB_BLACK y r # K) (del_term_l RB_RED t p (Nd sc a z b))"
      using fix_left_break [OF 1(2) red] .
    then show ?thesis
      using painted_root [OF 2(2)] step 1 False t by (auto simp: loop_yields_def)
  qed
qed

lemma loop_left_black:
  assumes A: "at h (InL pc p (Nd RB_BLACK a z b) # K) t" and t: "tcolor t = RB_BLACK"
    and IH: "\<And>h'. at h' K (Nd pc t p (Nd RB_RED a z b)) \<Longrightarrow> tcolor a = RB_BLACK \<Longrightarrow> tcolor b = RB_BLACK \<Longrightarrow>
      loop_yields h' K (Nd pc t p (Nd RB_RED a z b)) (del_fix K (Nd pc t p (Nd RB_RED a z b)))"
  shows "loop_yields h (InL pc p (Nd RB_BLACK a z b) # K) t (del_fix (InL pc p (Nd RB_BLACK a z b) # K) t)"
proof -
  note B = A [unfolded at_InL]
  note step = remove_loop_step_left [OF A t]
  note e = remove_left_black [OF B]
  show ?thesis
  proof (cases "tcolor a = RB_BLACK \<and> tcolor b = RB_BLACK")
    case True
    obtain h2 where 2: "remove_fix_left h (Some p) (Some z) = Some (h2, Inl (Some p, cpar K))"
      "at h2 K (Nd pc t p (Nd RB_RED a z b))"
      using fix_left_continue [OF B] True by auto
    then show ?thesis
      using IH [OF 2(2)] step e True t by (simp add: loop_yields_def)
  next
    case False
    then have red: "tcolor a = RB_RED \<or> tcolor b = RB_RED" by simp
    obtain h2 where 2: "remove_fix_left h (Some p) (Some z) = Some (h2, Inr (rbh_root h2))"
      "at h2 K (del_term_l pc t p (Nd RB_BLACK a z b))"
      using fix_left_break [OF B red] .
    then show ?thesis
      using painted_root [OF 2(2)] step e False t by (auto simp: loop_yields_def)
  qed
qed

lemma loop_right_red:
  assumes A: "at h (InR pc (Nd RB_RED r y (Nd sc b z a)) p # K) t" and t: "tcolor t = RB_BLACK"
  shows "loop_yields h (InR pc (Nd RB_RED r y (Nd sc b z a)) p # K) t
    (del_fix (InR pc (Nd RB_RED r y (Nd sc b z a)) p # K) t)"
proof -
  note step = remove_loop_step_right [OF A t]
  obtain h1 where 1: "remove_color_right h (Some p) = remove_fix_right h1 (Some p) (Some z)"
    "at h1 (InR RB_BLACK r y # K) (Nd RB_RED (Nd sc b z a) p t)"
    using remove_right_red [OF A [unfolded at_InR]] by blast
  show ?thesis
  proof (cases "tcolor a = RB_BLACK \<and> tcolor b = RB_BLACK")
    case True
    obtain h2 where 2: "remove_fix_right h1 (Some p) (Some z) = Some (h2, Inl (Some p, Some y))"
      "at h2 (InR RB_BLACK r y # K) (Nd RB_RED (Nd RB_RED b z a) p t)"
      using fix_right_continue [OF 1(2)] True by auto
    then show ?thesis
      using loop_yields_stop [OF 2(2)] step 1 True t by (simp add: loop_yields_def)
  next
    case False
    then have red: "tcolor a = RB_RED \<or> tcolor b = RB_RED" by simp
    obtain h2 where 2: "remove_fix_right h1 (Some p) (Some z) = Some (h2, Inr (rbh_root h2))"
      "at h2 (InR RB_BLACK r y # K) (del_term_r RB_RED (Nd sc b z a) p t)"
      using fix_right_break [OF 1(2) red] .
    then show ?thesis
      using painted_root [OF 2(2)] step 1 False t by (auto simp: loop_yields_def)
  qed
qed

lemma loop_right_black:
  assumes A: "at h (InR pc (Nd RB_BLACK b z a) p # K) t" and t: "tcolor t = RB_BLACK"
    and IH: "\<And>h'. at h' K (Nd pc (Nd RB_RED b z a) p t) \<Longrightarrow> tcolor a = RB_BLACK \<Longrightarrow> tcolor b = RB_BLACK \<Longrightarrow>
      loop_yields h' K (Nd pc (Nd RB_RED b z a) p t) (del_fix K (Nd pc (Nd RB_RED b z a) p t))"
  shows "loop_yields h (InR pc (Nd RB_BLACK b z a) p # K) t (del_fix (InR pc (Nd RB_BLACK b z a) p # K) t)"
proof -
  note B = A [unfolded at_InR]
  note step = remove_loop_step_right [OF A t]
  note e = remove_right_black [OF B]
  show ?thesis
  proof (cases "tcolor a = RB_BLACK \<and> tcolor b = RB_BLACK")
    case True
    obtain h2 where 2: "remove_fix_right h (Some p) (Some z) = Some (h2, Inl (Some p, cpar K))"
      "at h2 K (Nd pc (Nd RB_RED b z a) p t)"
      using fix_right_continue [OF B] True by auto
    then show ?thesis
      using IH [OF 2(2)] step e True t by (simp add: loop_yields_def)
  next
    case False
    then have red: "tcolor a = RB_RED \<or> tcolor b = RB_RED" by simp
    obtain h2 where 2: "remove_fix_right h (Some p) (Some z) = Some (h2, Inr (rbh_root h2))"
      "at h2 K (del_term_r pc (Nd RB_BLACK b z a) p t)"
      using fix_right_break [OF B red] .
    then show ?thesis
      using painted_root [OF 2(2)] step e False t by (auto simp: loop_yields_def)
  qed
qed

text \<open>A subtree that lacks one black level has a sibling, and a red sibling has two children.\<close>

lemma sibling_cases:
  assumes "bh s = Suc n" "invh s"
  obtains (red_l) sc a z b y r where "s = Nd RB_RED (Nd sc a z b) y r"
    | (black) a z b where "s = Nd RB_BLACK a z b"
proof (cases s)
  case (Nd c l y r)
  then show thesis using that assms by (cases c; cases l) auto
qed (use assms in auto)

lemma sibling_cases_r:
  assumes "bh s = Suc n" "invh s"
  obtains (red_r) sc a z b y r where "s = Nd RB_RED r y (Nd sc b z a)"
    | (black) a z b where "s = Nd RB_BLACK b z a"
proof (cases s)
  case (Nd c l y r)
  then show thesis using that assms by (cases c; cases r) auto
qed (use assms in auto)

lemma remove_color_loop_at:
  "at h K t \<Longrightarrow> invh t \<Longrightarrow> cinvh K (Suc (bh t)) \<Longrightarrow> loop_yields h K t (del_fix K t)"
proof (induction K arbitrary: h t)
  case Nil
  then show ?case using loop_yields_stop [of h "[]" t] by simp
next
  case (Cons f K)
  show ?case
  proof (cases "tcolor t = RB_RED")
    case True
    then show ?thesis using loop_yields_stop [OF Cons.prems(1)] by (cases f) simp_all
  next
    case False
    then have t: "tcolor t = RB_BLACK" by (simp add: not_red)
    show ?thesis
    proof (cases f)
      case (InL pc p s)
      from Cons.prems InL have s: "bh s = Suc (bh t)" "invh s" by auto
      then show ?thesis
      proof (cases rule: sibling_cases)
        case red_l
        then show ?thesis using loop_left_red t Cons.prems InL by blast
      next
        case (black a z b)
        then show ?thesis
          using loop_left_black [of h pc p a z b K t] t Cons InL s by auto
      qed
    next
      case (InR pc s p)
      from Cons.prems InR have s: "bh s = Suc (bh t)" "invh s" by auto
      then show ?thesis
      proof (cases rule: sibling_cases_r)
        case red_r
        then show ?thesis using loop_right_red t Cons.prems InR by blast
      next
        case (black a z b)
        then show ?thesis
          using loop_right_black [of h pc b z a p K t] t Cons InR s by auto
      qed
    qed
  qed
qed

lemma RB_REMOVE_COLOR_at:
  assumes "at h K t" "invh t" "cinvh K (Suc (bh t))"
  obtains h' where "RB_REMOVE_COLOR h (cpar K) (rootp t) = Some h'" "at h' [] (del_fix K t)"
  using remove_color_loop_at [OF assms] that
  by (auto simp: loop_yields_def painted_def RB_REMOVE_COLOR_def)

end
