(* ===== verification/Tree_Remove.thy ===== *)
theory Tree_Remove
  imports Tree_Balance
begin

text \<open>
  \<^verbatim>\<open>RB_REMOVE\<close>: the pointer surgery that unlinks an element, or puts its successor in its place,
  refines the removal of the element from the in-order sequence, and keeps the red-black conditions.
\<close>

section \<open>The rebalancing loop keeps the conditions\<close>

lemma del_term_l_ok:
  assumes "tcolor a = RB_RED \<or> tcolor b = RB_RED"
  shows "inord (del_term_l pc t p (Nd sc a z b)) = inord t @ p # inord a @ z # inord b"
    and "invh t \<Longrightarrow> invh (Nd RB_BLACK a z b) \<Longrightarrow> bh a = bh t \<Longrightarrow>
      invh (del_term_l pc t p (Nd sc a z b)) \<and>
      bh (del_term_l pc t p (Nd sc a z b)) = Suc (bh t) + (if pc = RB_BLACK then 1 else 0)"
    and "invc t \<Longrightarrow> invc a \<Longrightarrow> invc b \<Longrightarrow> tcolor t = RB_BLACK \<Longrightarrow>
      invc (del_term_l pc t p (Nd sc a z b)) \<and> tcolor (del_term_l pc t p (Nd sc a z b)) = pc"
  using assms by (cases a; cases b; auto)+

lemma del_term_r_ok:
  assumes "tcolor a = RB_RED \<or> tcolor b = RB_RED"
  shows "inord (del_term_r pc (Nd sc b z a) p t) = inord b @ z # inord a @ p # inord t"
    and "invh t \<Longrightarrow> invh (Nd RB_BLACK b z a) \<Longrightarrow> bh b = bh t \<Longrightarrow>
      invh (del_term_r pc (Nd sc b z a) p t) \<and>
      bh (del_term_r pc (Nd sc b z a) p t) = Suc (bh t) + (if pc = RB_BLACK then 1 else 0)"
    and "invc t \<Longrightarrow> invc a \<Longrightarrow> invc b \<Longrightarrow> tcolor t = RB_BLACK \<Longrightarrow>
      invc (del_term_r pc (Nd sc b z a) p t) \<and> tcolor (del_term_r pc (Nd sc b z a) p t) = pc"
  using assms by (cases a; cases b; auto)+

lemma bh_blacken: "tcolor t = RB_RED \<Longrightarrow> bh (blacken t) = Suc (bh t)"
  by (cases t) auto

lemma inord_del_fix: "inord (del_fix K t) = inord (plug K t)"
  by (induction K t rule: del_fix.induct)
    (auto simp: inord_plug del_term_l_ok(1) del_term_r_ok(1) split: rb_color.splits rbt.splits)

lemma del_fix_invh:
  "invh t \<Longrightarrow> cinvh K (Suc (bh t)) \<Longrightarrow> cinvc K \<Longrightarrow> invh (del_fix K t)"
proof (induction K t rule: del_fix.induct)
  case (2 pc p s K t)
  from 2 have "bh s = Suc (bh t)" "invh s" by auto
  then show ?case
    by (cases rule: sibling_cases)
      (use 2 in \<open>auto simp: invh_plug invh_blacken bh_blacken del_term_l_ok(2)\<close>)
next
  case (3 pc s p K t)
  from 3 have "bh s = Suc (bh t)" "invh s" by auto
  then show ?case
    by (cases rule: sibling_cases_r)
      (use 3 in \<open>auto simp: invh_plug invh_blacken bh_blacken del_term_r_ok(2)\<close>)
qed (simp add: invh_blacken)

lemma del_fix_invc:
  "invc (blacken t) \<Longrightarrow> invh t \<Longrightarrow> cinvh K (Suc (bh t)) \<Longrightarrow> cinvc K \<Longrightarrow> top_black K \<Longrightarrow>
   invc (del_fix K t) \<and> tcolor (del_fix K t) = RB_BLACK"
proof (induction K t rule: del_fix.induct)
  case (2 pc p s K t)
  from 2 have "bh s = Suc (bh t)" "invh s" by auto
  then show ?case
    by (cases rule: sibling_cases)
      (use 2 in \<open>auto simp: invc_plug invc_blacken blacken_id tcolor_plug del_term_l_ok(3) top_black_def\<close>)
next
  case (3 pc s p K t)
  from 3 have "bh s = Suc (bh t)" "invh s" by auto
  then show ?case
    by (cases rule: sibling_cases_r)
      (use 3 in \<open>auto simp: invc_plug invc_blacken blacken_id tcolor_plug del_term_r_ok(3) top_black_def\<close>)
qed (simp add: invh_blacken)

section \<open>After the node is unlinked\<close>

text \<open>The node that left the tree had at most one child \<open>t\<close>; its colour decides whether a black level
  is missing. The premise says that the tree with that node (under any name \<open>z\<close>) was well formed.\<close>

lemma unlinked_conditions:
  assumes "rb_ok (plug K (Nd col Lf z t))"
  shows "invh t" "invc t" "cinvc K" "bh t = 0"
    "cinvh K (if col = RB_BLACK then Suc (bh t) else bh t)"
    "col = RB_RED \<Longrightarrow> tcolor t = RB_BLACK" "top_black K"
proof -
  have *: "invh (Nd col Lf z t)" "invc (Nd col Lf z t)" "cinvh K (bh (Nd col Lf z t))" "cinvc K"
    using assms by (auto simp: rb_ok_def invh_plug invc_plug)
  then show "invh t" "invc t" "cinvc K" "bh t = 0"
    "cinvh K (if col = RB_BLACK then Suc (bh t) else bh t)"
    "col = RB_RED \<Longrightarrow> tcolor t = RB_BLACK"
    by auto
  show "top_black K"
    using assms by (auto simp: rb_ok_def tcolor_plug top_black_def split: if_splits)
qed

lemma after_unlink:
  assumes "at h K t" "rb_ok (plug K (Nd col Lf z t))"
  obtains h' t' where
    "(if col = RB_BLACK then RB_REMOVE_COLOR h (cpar K) (rootp t) else Some h) = Some h'"
    "at h' [] t'" "rb_ok t'" "inord t' = inord (plug K t)"
proof (cases col)
  case RB_BLACK
  note u = unlinked_conditions [OF assms(2) [unfolded RB_BLACK], simplified]
  have h: "cinvh K (Suc (bh t))" using u by simp
  obtain h' where "RB_REMOVE_COLOR h (cpar K) (rootp t) = Some h'" "at h' [] (del_fix K t)"
    using RB_REMOVE_COLOR_at [OF assms(1) u(1) h] .
  moreover have "rb_ok (del_fix K t)"
    using del_fix_invh [OF u(1) h] del_fix_invc [of t K] u h by (simp add: rb_ok_def invc_blacken)
  ultimately show thesis using that RB_BLACK inord_del_fix by simp
next
  case RB_RED
  note u = unlinked_conditions [OF assms(2) [unfolded RB_RED], simplified]
  have "rb_ok (plug K t)"
    using u by (auto simp: rb_ok_def invh_plug invc_plug tcolor_plug top_black_def)
  then show thesis
    using that [of h "plug K t"] RB_RED assms(1) at_plug [of h K "[]" t] by simp
qed

section \<open>Unlinking\<close>

lemma splice_at:
  assumes "at h K (Nd c l x r)" "l = Lf \<and> t = r \<or> r = Lf \<and> t = l"
  obtains h1 h2 where
    "(if rootp t \<noteq> None then set_parent h (rootp t) (cpar K) else Some h) = Some h1"
    "replace_child h1 (cpar K) (Some x) (rootp t) = Some h2" "at h2 K t" "links h2 x = links h x"
proof -
  have "x \<notin> set (inord t)" "x \<notin> cset K" using assms by (auto simp: at_def)
  then show thesis
    using assms that
    by (cases t; cases K rule: cset.cases) (auto simp: at_def replace_child_def rb_access)
qed

lemma remove_single_at:
  assumes "at h K (Nd c l x r)" "l = Lf \<and> t = r \<or> r = Lf \<and> t = l"
  obtains h' where "remove_single h (Some x) (rootp t) = Some (h', c, cpar K, rootp t)" "at h' K t"
proof -
  obtain h1 h2 where
    "(if rootp t \<noteq> None then set_parent h (rootp t) (cpar K) else Some h) = Some h1"
    "replace_child h1 (cpar K) (Some x) (rootp t) = Some h2" "at h2 K t"
    using splice_at [OF assms] .
  then show thesis
    using that at_parent [OF assms(1)] at_color [OF assms(1)] by (simp add: remove_single_def)
qed

lemma walk_up_at: "at h K t \<Longrightarrow> K \<noteq> [] \<Longrightarrow> walk_up h (cpar K) = Some ()"
proof (induction K arbitrary: t)
  case (Cons f K)
  obtain t' where t': "at h K t'" "rootp t' = Some (fnode f)"
    using Cons.prems(1) at_InL at_InR by (cases f) (metis fnode.simps rootp.simps(2))+
  then have "RB_PARENT h (Some (fnode f)) = Some (cpar K)"
    using at_parent by (metis rootp_eq_Some)
  then show ?case
    using Cons.IH [OF t'(1)] by (cases K) (simp_all add: walk_up.simps)
qed simp

fun split_min :: "ctx \<Rightarrow> rbt \<Rightarrow> ctx \<times> rb_color \<times> nat \<times> rbt" where
  "split_min M (Nd c (Nd d a z b) x r) = split_min (InL c x r # M) (Nd d a z b)"
| "split_min M (Nd c Lf x r) = (M, c, x, r)"
| "split_min M Lf = (M, RB_BLACK, 0, Lf)"

lemma split_min_at:
  "at h (M @ K) t \<Longrightarrow> t \<noteq> Lf \<Longrightarrow> split_min M t = (M', sc, y, sr) \<Longrightarrow>
   leftmost h (rootp t) = Some (Some y) \<and> at h (M' @ K) (Nd sc Lf y sr) \<and>
   plug M' (Nd sc Lf y sr) = plug M t"
proof (induction M t rule: split_min.induct)
  case (1 M c d a z b x r)
  from 1 at_left [OF 1(2)] show ?case by (simp add: leftmost.simps at_InL)
next
  case (2 M c x r)
  from 2 at_left [OF 2(1)] show ?case by (simp add: leftmost.simps)
qed simp

lemma split_min_cpre: "split_min M t = (M', sc, y, sr) \<Longrightarrow> cpre M' = cpre M"
  by (induction M t rule: split_min.induct) auto

lemma swap_node_at:
  assumes "at h K (Nd c l x r)" "l \<noteq> Lf" "y \<noteq> x" "y \<notin> set (inord l)" "y \<notin> set (inord r)" "y \<notin> cset K"
  obtains h1 h2 h3 h4 where "upd_link (\<lambda>_. links h x) h (Some y) = Some h1"
    "RB_PARENT h1 (Some x) = Some (cpar K)" "replace_child h1 (cpar K) (Some x) (Some y) = Some h2"
    "RB_LEFT h2 (Some x) = Some (rootp l)" "set_parent h2 (rootp l) (Some y) = Some h3"
    "RB_RIGHT h3 (Some x) = Some (rootp r)"
    "(if rootp r \<noteq> None then set_parent h3 (rootp r) (Some y) else Some h3) = Some h4"
    "at h4 K (Nd c l y r)"
  using assms that
  by (cases l; cases r; cases K rule: cset.cases) (auto simp: at_def replace_child_def rb_access)

lemma plug_append: "plug (J @ K) t = plug K (plug J t)"
  by (induction J t rule: plug.induct) auto

lemma rb_ok_plug:
  "rb_ok (plug K t) \<longleftrightarrow> invh t \<and> cinvh K (bh t) \<and> invc t \<and> cinvc K \<and>
     (tcolor t = RB_RED \<longrightarrow> ccolor K = RB_BLACK) \<and> (if K = [] then tcolor t else fcolor (last K)) = RB_BLACK"
  by (auto simp: rb_ok_def invh_plug invc_plug tcolor_plug)

lemma ctx_rename:
  "cinvh (M @ InR c l y # K) n = cinvh (M @ InR c l x # K) n"
  "ccolor (M @ InR c l y # K) = ccolor (M @ InR c l x # K)"
  "cinvc (M @ InR c l y # K) = cinvc (M @ InR c l x # K)"
proof -
  show col: "ccolor (M @ InR c l y # K) = ccolor (M @ InR c l x # K)" for M
    by (cases M) auto
  show "cinvh (M @ InR c l y # K) n = cinvh (M @ InR c l x # K) n"
    by (induction M n rule: cinvh.induct) auto
  show "cinvc (M @ InR c l y # K) = cinvc (M @ InR c l x # K)"
    by (induction M rule: cinvc.induct) (auto simp: col)
qed

text \<open>The conditions do not depend on which element stands in the node that is kept.\<close>

lemma rb_ok_rename:
  "rb_ok (plug (M @ InR c l y # K) t) = rb_ok (plug (M @ InR c l x # K) t)"
  by (simp add: rb_ok_plug ctx_rename(1) [of M c l y K _ x] ctx_rename(2,3) [of M c l y K x])

lemma cset_append: "cset (J @ K) = cset J \<union> cset K"
  by (induction J rule: cset.induct) auto

lemma set_inord_plug: "set (inord (plug K t)) = cset K \<union> set (inord t)"
  by (induction K t rule: plug.induct) auto

lemma remove_successor_at:
  assumes A: "at h K (Nd c l x r)" and l: "l \<noteq> Lf" and r: "r \<noteq> Lf"
    and sp: "split_min [] r = (M, sc, y, sr)"
  obtains h' where
    "remove_successor h (Some x) = Some (h', sc, cpar (M @ InR c l y # K), rootp sr)"
    "at h' (M @ InR c l y # K) sr"
proof -
  let ?J = "M @ InR c l x # K"
  note m = split_min_at [of h "[]" "InR c l x # K" r, simplified, OF A [folded at_InR] r sp]
  then have y: "at h ?J (Nd sc Lf y sr)" by simp
  obtain h1 h2 where 2:
    "(if rootp sr \<noteq> None then set_parent h (rootp sr) (cpar ?J) else Some h) = Some h1"
    "replace_child h1 (cpar ?J) (Some y) (rootp sr) = Some h2" "at h2 ?J sr"
    "links h2 y = links h y"
    using splice_at [OF y, of sr] by auto
  have B: "at h2 K (Nd c l x (plug M sr))" using 2(3) by (simp add: at_plug at_InR)
  have fresh: "y \<noteq> x" "y \<notin> set (inord l)" "y \<notin> set (inord (plug M sr))" "y \<notin> cset K"
    using y by (auto simp: at_def cset_append set_inord_plug)
  obtain h3 h4 h5 h6 where 6: "upd_link (\<lambda>_. links h2 x) h2 (Some y) = Some h3"
    "RB_PARENT h3 (Some x) = Some (cpar K)" "replace_child h3 (cpar K) (Some x) (Some y) = Some h4"
    "RB_LEFT h4 (Some x) = Some (rootp l)" "set_parent h4 (rootp l) (Some y) = Some h5"
    "RB_RIGHT h5 (Some x) = Some (rootp (plug M sr))"
    "(if rootp (plug M sr) \<noteq> None then set_parent h5 (rootp (plug M sr)) (Some y) else Some h5) = Some h6"
    "at h6 K (Nd c l y (plug M sr))"
    using swap_node_at [OF B l fresh] .
  have C: "at h6 (M @ InR c l y # K) sr" using 6(8) by (simp add: at_plug at_InR)
  have "walk_up h6 (cpar (M @ InR c l y # K)) = Some ()" using walk_up_at [OF C] by simp
  moreover have "(if cpar ?J = Some x then Some y else cpar ?J) = cpar (M @ InR c l y # K)"
    using y by (cases M; cases "hd M") (auto simp: at_def cset_append)
  moreover have "RB_PARENT h2 (Some y) = Some (cpar ?J)"
    using 2(4) at_parent [OF y] by (simp add: rb_access)
  ultimately show thesis
    using that [of h6] 2 6 C m at_right [OF A] at_right [OF y] at_parent [OF y] at_color [OF y]
    by (simp add: remove_successor_def del: not_None_eq)
qed

lemma split_at:
  assumes "x \<in> set (inord t)"
  obtains K c l r where "t = plug K (Nd c l x r)"
proof -
  have "\<exists>K c l r. t = plug K (Nd c l x r)" using assms
  proof (induction t)
    case (Nd d a y b)
    then consider "x \<in> set (inord a)" | "x = y" | "x \<in> set (inord b)" by auto
    then show ?case
    proof cases
      case 1
      then obtain K c l r where "a = plug K (Nd c l x r)" using Nd by blast
      then have "Nd d a y b = plug (K @ [InL d y b]) (Nd c l x r)" by (simp add: plug_append)
      then show ?thesis by blast
    next
      case 2
      then have "Nd d a y b = plug [] (Nd d a x b)" by simp
      then show ?thesis by blast
    next
      case 3
      then obtain K c l r where "b = plug K (Nd c l x r)" using Nd by blast
      then have "Nd d a y b = plug (K @ [InR d a y]) (Nd c l x r)" by (simp add: plug_append)
      then show ?thesis by blast
    qed
  qed simp
  then show thesis using that by blast
qed

lemma cset_cpre_cpost: "cset K = set (cpre K) \<union> set (cpost K)"
  by (induction K rule: cset.induct) auto

text \<open>\<open>RB_REMOVE\<close> of an element of the tree, at any position.\<close>

lemma RB_REMOVE_case:
  assumes "at h K (Nd c l x r)" "rb_ok (plug K (Nd c l x r))"
  obtains h1 J z t col where "at h1 J t" "rb_ok (plug J (Nd col Lf z t))"
    "RB_REMOVE h (Some x) =
      (if col = RB_BLACK then RB_REMOVE_COLOR h1 (cpar J) (rootp t) else Some h1)"
    "inord (plug J t) = cpre K @ inord l @ inord r @ cpost K"
proof (cases "l = Lf \<or> r = Lf")
  case True
  define t where "t = (if l = Lf then r else l)"
  then have t: "l = Lf \<and> t = r \<or> r = Lf \<and> t = l" using True by auto
  obtain h1 where 1: "remove_single h (Some x) (rootp t) = Some (h1, c, cpar K, rootp t)" "at h1 K t"
    using remove_single_at [OF assms(1) t] .
  have "RB_REMOVE h (Some x) = (if c = RB_BLACK then RB_REMOVE_COLOR h1 (cpar K) (rootp t) else Some h1)"
    using 1 t at_left [OF assms(1)] at_right [OF assms(1)] by (auto simp: RB_REMOVE_def t_def)
  moreover have "rb_ok (plug K (Nd c Lf x t))"
    using assms(2) t by (auto simp: rb_ok_plug)
  ultimately show thesis using that 1 t by (auto simp: inord_plug)
next
  case False
  obtain M sc y sr where sp: "split_min [] r = (M, sc, y, sr)" by (cases "split_min [] r") auto
  obtain h1 where 1: "remove_successor h (Some x) = Some (h1, sc, cpar (M @ InR c l y # K), rootp sr)"
    "at h1 (M @ InR c l y # K) sr"
    using remove_successor_at [OF assms(1) _ _ sp] False by blast
  have r: "plug M (Nd sc Lf y sr) = r"
    using split_min_at [of h "[]" "InR c l x # K" r] assms(1) False sp by (simp add: at_InR)
  have "RB_REMOVE h (Some x) = (if sc = RB_BLACK
      then RB_REMOVE_COLOR h1 (cpar (M @ InR c l y # K)) (rootp sr) else Some h1)"
    using 1 False at_left [OF assms(1)] at_right [OF assms(1)] by (simp add: RB_REMOVE_def)
  moreover have "rb_ok (plug (M @ InR c l y # K) (Nd sc Lf y sr))"
    using assms(2) r rb_ok_rename [of M c l y K "Nd sc Lf y sr" x] by (simp add: plug_append)
  moreover have "inord (plug (M @ InR c l y # K) sr) = cpre K @ inord l @ inord r @ cpost K"
    using split_min_cpre [OF sp] by (simp add: r [symmetric] inord_plug plug_append)
  ultimately show thesis using that 1 by blast
qed

lemma RB_REMOVE_at:
  assumes "at h [] t" "rb_ok t" "x \<in> set (inord t)"
  obtains h' t' where "RB_REMOVE h (Some x) = Some h'" "at h' [] t'" "rb_ok t'"
    "inord t' = remove1 x (inord t)"
proof -
  obtain K c l r where t: "t = plug K (Nd c l x r)" using split_at [OF assms(3)] .
  have A: "at h K (Nd c l x r)" using assms(1) t at_plug [of h K "[]"] by simp
  have x: "x \<notin> set (cpre K)" "x \<notin> set (inord l)"
    using A unfolding at_def by (auto simp: cset_cpre_cpost)
  obtain h1 J z s col where 1: "at h1 J s" "rb_ok (plug J (Nd col Lf z s))"
    "RB_REMOVE h (Some x) =
      (if col = RB_BLACK then RB_REMOVE_COLOR h1 (cpar J) (rootp s) else Some h1)"
    "inord (plug J s) = cpre K @ inord l @ inord r @ cpost K"
    using RB_REMOVE_case [OF A assms(2) [unfolded t]] .
  moreover obtain h' t' where
    "(if col = RB_BLACK then RB_REMOVE_COLOR h1 (cpar J) (rootp s) else Some h1) = Some h'"
    "at h' [] t'" "rb_ok t'" "inord t' = inord (plug J s)"
    using after_unlink [OF 1(1,2)] .
  ultimately show thesis
    using that [of h' t'] x by (simp add: t inord_plug remove1_append)
qed

end
