(* ===== verification/Tree_Traverse.thy ===== *)
theory Tree_Traverse
  imports Tree_Remove
begin

text \<open>
  \<^verbatim>\<open>RB_MIN\<close>, \<^verbatim>\<open>RB_MAX\<close>, \<^verbatim>\<open>RB_NEXT\<close>, \<^verbatim>\<open>RB_PREV\<close> and \<^verbatim>\<open>RB_FOREACH\<close> walk the in-order
  sequence of the tree, and the height bound stated in the comment of \<^verbatim>\<open>src/tree.h\<close>.
\<close>

section \<open>Traversal\<close>

fun first :: "nat list \<Rightarrow> ptr" where
  "first [] = None"
| "first (x # xs) = Some x"

definition final :: "nat list \<Rightarrow> ptr" where
  "final xs = first (rev xs)"

lemma first_append: "first (xs @ ys) = (if xs = [] then first ys else first xs)"
  by (cases xs) auto

lemma final_simps [simp]: "final [] = None" "final (xs @ [x]) = Some x"
  by (simp_all add: final_def)

lemma final_append: "final (xs @ ys) = (if ys = [] then final xs else final ys)"
  by (simp add: final_def first_append)

lemma final_Cons: "final (x # ys) = (if ys = [] then Some x else final ys)"
  by (simp add: final_def first_append)

lemma inord_Nil [simp]: "inord t = [] \<longleftrightarrow> t = Lf"
  by (cases t) auto

lemma leftmost_at: "at h K t \<Longrightarrow> t \<noteq> Lf \<Longrightarrow> leftmost h (rootp t) = Some (first (inord t))"
proof (induction t arbitrary: K)
  case (Nd c l x r)
  have "at h (InL c x r # K) l" using Nd.prems by (simp add: at_InL)
  then show ?case
    using Nd.IH(1) at_left [OF Nd.prems(1)]
    by (cases "l = Lf") (auto simp: leftmost.simps [of h "Some x"] first_append)
qed simp

lemma rightmost_at: "at h K t \<Longrightarrow> t \<noteq> Lf \<Longrightarrow> rightmost h (rootp t) = Some (final (inord t))"
proof (induction t arbitrary: K)
  case (Nd c l x r)
  have "at h (InR c l x # K) r" using Nd.prems by (simp add: at_InR)
  then show ?case
    using Nd.IH(2) at_right [OF Nd.prems(1)]
    by (cases "r = Lf") (auto simp: rightmost.simps [of h "Some x"] final_append final_Cons)
qed simp

lemma climb_right_at:
  "at h K t \<Longrightarrow> t \<noteq> Lf \<Longrightarrow> do { e \<leftarrow> climb_right h (rootp t); RB_PARENT h e } = Some (first (cpost K))"
proof (induction K arbitrary: t)
  case Nil
  then obtain c l x r where "t = Nd c l x r" by (cases t) auto
  then show ?case using at_parent [of h "[]"] Nil by (simp add: climb_right.simps [of h "Some x"])
next
  case (Cons f K)
  obtain c l x r where t: "t = Nd c l x r" using Cons.prems by (cases t) auto
  have p: "RB_PARENT h (Some x) = Some (Some (fnode f))"
    using at_parent [OF Cons.prems(1) [unfolded t]] by simp
  show ?case
  proof (cases f)
    case (InL pc p s)
    have "at h K (Nd pc t p s)" using Cons.prems InL by (simp add: at_InL)
    then have "RB_RIGHT h (Some p) = Some (rootp s)" "rootp s \<noteq> Some x"
      using at_right at_child_left(8) t by blast+
    then show ?thesis using p InL t by (auto simp: climb_right.simps [of h "Some x"])
  next
    case (InR pc s p)
    have P: "at h K (Nd pc s p t)" using Cons.prems InR by (simp add: at_InR)
    then have "RB_RIGHT h (Some p) = Some (Some x)" using at_right t by fastforce
    then show ?thesis
      using Cons.IH [OF P] p InR t by (simp add: climb_right.simps [of h "Some x"])
  qed
qed

lemma climb_left_at:
  "at h K t \<Longrightarrow> t \<noteq> Lf \<Longrightarrow> do { e \<leftarrow> climb_left h (rootp t); RB_PARENT h e } = Some (final (cpre K))"
proof (induction K arbitrary: t)
  case Nil
  then obtain c l x r where "t = Nd c l x r" by (cases t) auto
  then show ?case using at_parent [of h "[]"] Nil by (simp add: climb_left.simps [of h "Some x"])
next
  case (Cons f K)
  obtain c l x r where t: "t = Nd c l x r" using Cons.prems by (cases t) auto
  have p: "RB_PARENT h (Some x) = Some (Some (fnode f))"
    using at_parent [OF Cons.prems(1) [unfolded t]] by simp
  show ?case
  proof (cases f)
    case (InR pc s p)
    have "at h K (Nd pc s p t)" using Cons.prems InR by (simp add: at_InR)
    then have "RB_LEFT h (Some p) = Some (rootp s)" "rootp s \<noteq> Some x"
      using at_left at_child_right(8) t by blast+
    then show ?thesis
      using p InR t by (auto simp: climb_left.simps [of h "Some x"] final_append final_Cons)
  next
    case (InL pc p s)
    have P: "at h K (Nd pc t p s)" using Cons.prems InL by (simp add: at_InL)
    then have "RB_LEFT h (Some p) = Some (Some x)" using at_left t by fastforce
    then show ?thesis
      using Cons.IH [OF P] p InL t by (simp add: climb_left.simps [of h "Some x"])
  qed
qed

lemma RB_NEXT_at:
  assumes "at h K (Nd c l x r)"
  shows "RB_NEXT h (Some x) = Some (first (inord r @ cpost K))"
proof (cases "r = Lf")
  case False
  have "at h (InR c l x # K) r" using assms by (simp add: at_InR)
  then show ?thesis
    using leftmost_at False at_right [OF assms] by (auto simp: RB_NEXT_def first_append)
next
  case True
  have "do { e \<leftarrow> climb_right h (Some x); RB_PARENT h e } = Some (first (cpost K))"
    using climb_right_at [OF assms] by simp
  moreover have "K = InL pc p s # J \<Longrightarrow> RB_LEFT h (Some p) = Some (Some x)" for pc p s J
    using assms at_left [of h J pc "Nd c l x r" p s] by (simp add: at_InL)
  moreover have "K = InR pc s p # J \<Longrightarrow> RB_LEFT h (Some p) = Some (rootp s) \<and> rootp s \<noteq> Some x" for pc p s J
    using assms at_left [of h J pc s p "Nd c l x r"] at_child_right(8) [of h J pc s p c l x r]
    by (simp add: at_InR)
  ultimately show ?thesis
    using True at_right [OF assms] at_parent [OF assms]
    by (cases K rule: cset.cases) (auto simp: RB_NEXT_def)
qed

lemma RB_PREV_at:
  assumes "at h K (Nd c l x r)"
  shows "RB_PREV h (Some x) = Some (final (cpre K @ inord l))"
proof (cases "l = Lf")
  case False
  have "at h (InL c x r # K) l" using assms by (simp add: at_InL)
  then show ?thesis
    using rightmost_at False at_left [OF assms] by (auto simp: RB_PREV_def final_append)
next
  case True
  have "do { e \<leftarrow> climb_left h (Some x); RB_PARENT h e } = Some (final (cpre K))"
    using climb_left_at [OF assms] by simp
  moreover have "K = InR pc s p # J \<Longrightarrow> RB_RIGHT h (Some p) = Some (Some x)" for pc p s J
    using assms at_right [of h J pc s p "Nd c l x r"] by (simp add: at_InR)
  moreover have "K = InL pc p s # J \<Longrightarrow> RB_RIGHT h (Some p) = Some (rootp s) \<and> rootp s \<noteq> Some x" for pc p s J
    using assms at_right [of h J pc "Nd c l x r" p s] at_child_left(8) [of h J pc c l x r p s]
    by (simp add: at_InL)
  ultimately show ?thesis
    using True at_left [OF assms] at_parent [OF assms]
    by (cases K rule: cset.cases) (auto simp: RB_PREV_def final_append final_Cons)
qed

end
