(* ===== verification/Tree_Order.thy ===== *)
theory Tree_Order
  imports Tree_Traverse
begin

text \<open>
  The contract of the red-black trees of \<^verbatim>\<open>src/tree.h\<close>: \<open>rb_tree h xs\<close> says that the head and links
  \<open>h\<close> are a red-black tree whose elements, in order, are \<open>xs\<close>. The locale \<open>key_order\<close> is the
  interface between the trees and the comparison functions of their users: where the comparison
  orders the keys that are in use, lookup, insertion and removal are those of a finite set of elements
  with distinct keys.
\<close>

definition rb_tree :: "rb_head \<Rightarrow> nat list \<Rightarrow> bool" where
  "rb_tree h xs \<longleftrightarrow> (\<exists>t. at h [] t \<and> rb_ok t \<and> inord t = xs)"

lemma rb_tree_init: "rb_tree (RB_INIT h) []"
  unfolding rb_tree_def by (rule exI [of _ Lf]) (simp add: RB_INIT_def at_def rb_ok_def)

lemma rb_tree_distinct: "rb_tree h xs \<Longrightarrow> distinct xs"
  by (auto simp: rb_tree_def at_def)

lemma rb_tree_remove:
  assumes "rb_tree h xs" "x \<in> set xs"
  obtains h' where "RB_REMOVE h (Some x) = Some h'" "rb_tree h' (remove1 x xs)"
proof -
  obtain t where "at h [] t" "rb_ok t" "inord t = xs" using assms(1) by (auto simp: rb_tree_def)
  then show thesis using RB_REMOVE_at [of h t x] assms(2) that unfolding rb_tree_def by metis
qed

lemma first_None [simp]: "first xs = None \<longleftrightarrow> xs = []"
  by (cases xs) auto

section \<open>Traversal of the whole tree\<close>

lemma minmax_left_at:
  "at h K t \<Longrightarrow> v < 0 \<Longrightarrow> minmax_loop h v (rootp t) par =
     Some (if t = Lf then par else first (inord t))"
proof (induction t arbitrary: K par)
  case (Nd c l x r)
  have "at h (InL c x r # K) l" using Nd.prems by (simp add: at_InL)
  then show ?case
    using Nd.IH(1) at_left [OF Nd.prems(1)] Nd.prems(2)
    by (simp add: minmax_loop.simps [of h v "Some x"] first_append)
qed (simp add: minmax_loop.simps)

lemma minmax_right_at:
  "at h K t \<Longrightarrow> \<not> v < 0 \<Longrightarrow> minmax_loop h v (rootp t) par =
     Some (if t = Lf then par else final (inord t))"
proof (induction t arbitrary: K par)
  case (Nd c l x r)
  have "at h (InR c l x # K) r" using Nd.prems by (simp add: at_InR)
  then show ?case
    using Nd.IH(2) at_right [OF Nd.prems(1)] Nd.prems(2)
    by (simp add: minmax_loop.simps [of h v "Some x"] final_append final_Cons)
qed (simp add: minmax_loop.simps)

lemma rb_tree_min: "rb_tree h xs \<Longrightarrow> RB_MIN h = Some (first xs)"
  unfolding rb_tree_def RB_MIN_def RB_MINMAX_def
  using minmax_left_at [of h "[]" _ "-1" None] at_root by fastforce

lemma rb_tree_max: "rb_tree h xs \<Longrightarrow> RB_MAX h = Some (final xs)"
  unfolding rb_tree_def RB_MAX_def RB_MINMAX_def
  using minmax_right_at [of h "[]" _ 1 None] at_root by fastforce

text \<open>The neighbours of an element are its neighbours in the sequence.\<close>

lemma rb_tree_step:
  assumes "rb_tree h (us @ x # vs)"
  shows "RB_NEXT h (Some x) = Some (first vs)" "RB_PREV h (Some x) = Some (final us)"
proof -
  obtain t where t: "at h [] t" "inord t = us @ x # vs" using assms by (auto simp: rb_tree_def)
  obtain K c l r where p: "t = plug K (Nd c l x r)" using split_at [of x t] t(2) by (metis in_set_conv_decomp)
  have A: "at h K (Nd c l x r)" using t p at_plug [of h K "[]"] by simp
  have "(cpre K @ inord l) @ x # (inord r @ cpost K) = us @ x # vs"
    using t p by (simp add: inord_plug)
  moreover have "x \<notin> set (cpre K @ inord l)" "x \<notin> set (inord r @ cpost K)"
    using A unfolding at_def by (auto simp: cset_cpre_cpost)
  ultimately have "us = cpre K @ inord l" "vs = inord r @ cpost K"
    using append_Cons_eq_iff [of x "cpre K @ inord l" "inord r @ cpost K" us vs] by blast+
  then show "RB_NEXT h (Some x) = Some (first vs)" "RB_PREV h (Some x) = Some (final us)"
    using RB_NEXT_at [OF A] RB_PREV_at [OF A] by simp_all
qed

lemma foreach_find_at:
  "rb_tree h (us @ vs) \<Longrightarrow> foreach_find found h (first vs) = Some (List.find found vs)"
proof (induction vs arbitrary: us)
  case (Cons x vs)
  then show ?case
    using Cons.IH [of "us @ [x]"] rb_tree_step(1) [of h us x vs]
    by (simp add: foreach_find.simps [of found h "Some x"])
qed (simp add: foreach_find.simps)

lemma rb_tree_foreach:
  "rb_tree h xs \<Longrightarrow> RB_FOREACH_find found h = Some (List.find found xs)"
  using foreach_find_at [of h "[]" xs found] rb_tree_min [of h xs] by (simp add: RB_FOREACH_find_def)

section \<open>Searching an ordered sequence\<close>

text \<open>A comparison that is positive, then at most once zero, then negative along the sequence.\<close>

definition falling :: "(nat \<Rightarrow> int) \<Rightarrow> nat list \<Rightarrow> bool" where
  "falling c xs \<longleftrightarrow> sorted_wrt (\<lambda>a b. (c b \<ge> 0 \<longrightarrow> c a > 0) \<and> (c a \<le> 0 \<longrightarrow> c b < 0)) xs"

lemma falling_Nd:
  assumes "falling c (inord (Nd d l x r))"
  shows "falling c (inord l)" "falling c (inord r)"
    "y \<in> set (inord l) \<Longrightarrow> c x \<ge> 0 \<Longrightarrow> c y > 0" "y \<in> set (inord r) \<Longrightarrow> c x \<le> 0 \<Longrightarrow> c y < 0"
    "y \<in> set (inord l) \<Longrightarrow> c y \<le> 0 \<Longrightarrow> c x < 0" "y \<in> set (inord r) \<Longrightarrow> c y \<ge> 0 \<Longrightarrow> c x > 0"
  using assms by (auto simp: falling_def sorted_wrt_append)

lemma descend_hit: "falling c (inord t) \<Longrightarrow> descend c K t = Inl x \<longleftrightarrow> x \<in> set (inord t) \<and> c x = 0"
proof (induction t arbitrary: K)
  case (Nd d l y r)
  note f = falling_Nd [OF Nd.prems]
  consider "c y < 0" | "c y > 0" | "c y = 0" by linarith
  then show ?case
    by cases (use Nd.IH f f(3-) [of x] in \<open>auto dest: f(3,4)\<close>)
qed simp

lemma descend_miss:
  "falling c (inord t) \<Longrightarrow> descend c K t = Inr J \<Longrightarrow> \<forall>y \<in> set (cpre K). c y > 0 \<Longrightarrow>
   \<forall>y \<in> set (cpost K). c y < 0 \<Longrightarrow> (\<forall>y \<in> set (cpre J). c y > 0) \<and> (\<forall>y \<in> set (cpost J). c y < 0)"
proof (induction t arbitrary: K)
  case (Nd d l x r)
  note f = falling_Nd [OF Nd.prems(1)]
  show ?case
  proof (cases "c x < 0")
    case True
    then show ?thesis
      using Nd.IH(1) [OF f(1), of "InL d x r # K"] Nd.prems(2-) f(4) by fastforce
  next
    case False
    then have "c x > 0" "descend c (InR d l x # K) r = Inr J"
      using Nd.prems(2) by (auto split: if_splits)
    then show ?thesis
      using Nd.IH(2) [OF f(2), of "InR d l x # K"] Nd.prems(3-) f(3) by fastforce
  qed
qed simp

lemma nfind_loop_at:
  "at h K t \<Longrightarrow> falling c (inord t) \<Longrightarrow> nfind_loop c h (rootp t) res =
     Some (case first (filter (\<lambda>y. c y \<le> 0) (inord t)) of None \<Rightarrow> res | Some y \<Rightarrow> Some y)"
proof (induction t arbitrary: K res)
  case (Nd d l x r)
  have "at h (InL d x r # K) l" "at h (InR d l x # K) r"
    using Nd.prems by (simp_all add: at_InL at_InR)
  moreover note f = falling_Nd [OF Nd.prems(2)]
  moreover have "c x \<ge> 0 \<Longrightarrow> filter (\<lambda>y. c y \<le> 0) (inord l) = []"
    using f(3) by (fastforce simp: filter_empty_conv)
  ultimately show ?case
    using Nd.IH at_left [OF Nd.prems(1)] at_right [OF Nd.prems(1)]
    by (auto simp: nfind_loop.simps [of c h "Some x"] first_append split: option.splits)
qed (simp add: nfind_loop.simps)

lemma find_unique:
  assumes "x \<in> set xs" "P x" "\<And>y. y \<in> set xs \<Longrightarrow> P y \<Longrightarrow> y = x"
  shows "List.find P xs = Some x"
proof (cases "List.find P xs")
  case None
  then show ?thesis using assms(1,2) by (auto simp: find_None_iff)
next
  case (Some y)
  then have "y \<in> set xs" "P y" by (auto simp: find_Some_iff)
  from assms(3) [OF this] show ?thesis using Some by simp
qed

lemma rb_tree_find:
  assumes "rb_tree h xs" "falling c xs"
  shows "RB_FIND c h = Some (List.find (\<lambda>x. c x = 0) xs)"
proof -
  obtain t where t: "at h [] t" "inord t = xs" using assms(1) by (auto simp: rb_tree_def)
  note hit = descend_hit [of c t "[]", unfolded t(2), OF assms(2)]
  have "(case descend c [] t of Inl x \<Rightarrow> Some x | Inr _ \<Rightarrow> None) = List.find (\<lambda>x. c x = 0) xs"
  proof (cases "descend c [] t")
    case (Inl x)
    then have "List.find (\<lambda>x. c x = 0) xs = Some x"
      using hit by (intro find_unique) (simp, simp, metis sum.inject(1))
    then show ?thesis using Inl by simp
  next
    case (Inr J)
    then have "List.find (\<lambda>x. c x = 0) xs = None" using hit by (auto simp: find_None_iff)
    then show ?thesis using Inr by simp
  qed
  then show ?thesis using RB_FIND_at [OF t(1)] by simp
qed

lemma rb_tree_nfind:
  assumes "rb_tree h xs" "falling c xs"
  shows "RB_NFIND c h = Some (first (filter (\<lambda>y. c y \<le> 0) xs))"
  using assms nfind_loop_at [of h "[]" _ c None] at_root unfolding rb_tree_def RB_NFIND_def
  by (fastforce split: option.splits)

section \<open>Insertion into an ordered sequence\<close>

lemma rb_tree_insert_hit:
  assumes "rb_tree h xs" "falling c xs" "x \<in> set xs" "c x = 0"
  shows "RB_INSERT c h e = Some (h, Some x)"
proof -
  obtain t where t: "at h [] t" "inord t = xs" using assms(1) by (auto simp: rb_tree_def)
  have "descend c [] t = Inl x" using descend_hit [of c t "[]" x] assms t(2) by simp
  then have "insert_search c h (rbh_root h) None 0 = Some (Inl x)"
    using insert_search_at [OF t(1), of 0 c] at_root [OF t(1)] by simp
  then show ?thesis by (simp add: RB_INSERT_def)
qed

lemma rb_tree_insert_miss:
  assumes "rb_tree h xs" "falling c xs" "\<forall>x \<in> set xs. c x \<noteq> 0" "e \<notin> set xs"
  obtains h' us vs where "RB_INSERT c h e = Some (h', None)" "rb_tree h' (us @ e # vs)"
    "xs = us @ vs" "\<forall>y \<in> set us. c y > 0" "\<forall>y \<in> set vs. c y < 0"
proof -
  obtain t where t: "at h [] t" "rb_ok t" "inord t = xs" using assms(1) by (auto simp: rb_tree_def)
  obtain J where J: "descend c [] t = Inr J"
    using descend_hit [of c t "[]"] assms(2,3) t(3) by (cases "descend c [] t") auto
  obtain h' where h': "RB_INSERT c h e = Some (h', snd (tree_insert c e t))"
    "at h' [] (fst (tree_insert c e t))"
    using RB_INSERT_at [of h t e c] t assms(4) by (auto simp: rb_ok_def)
  have "inord (fst (tree_insert c e t)) = cpre J @ e # cpost J"
    by (simp add: tree_insert_def J inord_ins_fix inord_plug)
  then have "rb_tree h' (cpre J @ e # cpost J)"
    unfolding rb_tree_def using h'(2) tree_insert_ok [OF t(2)] by blast
  moreover have "xs = cpre J @ cpost J"
    using descend_plug [OF J] t(3) inord_plug [of J Lf] by simp
  moreover have "\<forall>y \<in> set (cpre J). c y > 0" "\<forall>y \<in> set (cpost J). c y < 0"
    using descend_miss [OF _ J] assms(2) t(3) by simp_all
  ultimately show thesis
    using that [of h' "cpre J" "cpost J"] h'(1) by (simp add: tree_insert_def J)
qed

section \<open>The interface to the comparison functions\<close>

text \<open>\<open>kf\<close> gives the key stored in an element, \<open>rank\<close> the place of a key in the order.\<close>

definition rb_set :: "('a \<Rightarrow> 'k::linorder) \<Rightarrow> (nat \<Rightarrow> 'a) \<Rightarrow> rb_head \<Rightarrow> nat set \<Rightarrow> bool" where
  "rb_set rank kf h S \<longleftrightarrow>
     (\<exists>xs. rb_tree h xs \<and> sorted_wrt (\<lambda>x y. rank (kf x) < rank (kf y)) xs \<and> set xs = S)"

lemma rb_set_init: "rb_set rank kf (RB_INIT h) {}"
  unfolding rb_set_def using rb_tree_init by force

lemma rb_set_cong:
  assumes "rb_set rank kf h S" "\<And>x. x \<in> S \<Longrightarrow> rank (kf' x) = rank (kf x)"
  shows "rb_set rank kf' h S"
proof -
  obtain xs where xs: "rb_tree h xs" "sorted_wrt (\<lambda>x y. rank (kf x) < rank (kf y)) xs" "set xs = S"
    using assms(1) by (auto simp: rb_set_def)
  have "sorted_wrt (\<lambda>x y. rank (kf' x) < rank (kf' y)) xs"
    using xs(2) by (rule sorted_wrt_mono_rel [rotated]) (use assms(2) xs(3) in auto)
  then show ?thesis using xs by (auto simp: rb_set_def)
qed

lemma rb_set_inj:
  assumes "rb_set rank kf h S" "x \<in> S" "y \<in> S" "rank (kf x) = rank (kf y)"
  shows "x = y"
proof -
  obtain xs where "sorted_wrt (\<lambda>x y. rank (kf x) < rank (kf y)) xs" "set xs = S"
    using assms(1) by (auto simp: rb_set_def)
  then show ?thesis
    using assms(2-) by (metis in_set_conv_nth less_irrefl linorder_neqE_nat sorted_wrt_nth_less)
qed

lemma rb_set_finite: "rb_set rank kf h S \<Longrightarrow> finite S"
  by (auto simp: rb_set_def)

lemma rb_set_remove:
  assumes "rb_set rank kf h S" "x \<in> S"
  obtains h' where "RB_REMOVE h (Some x) = Some h'" "rb_set rank kf h' (S - {x})"
proof -
  obtain xs where xs: "rb_tree h xs" "sorted_wrt (\<lambda>x y. rank (kf x) < rank (kf y)) xs" "set xs = S"
    using assms(1) by (auto simp: rb_set_def)
  obtain h' where h': "RB_REMOVE h (Some x) = Some h'" "rb_tree h' (remove1 x xs)"
    using rb_tree_remove [OF xs(1)] xs(3) assms(2) by auto
  moreover have "set (remove1 x xs) = S - {x}"
    using rb_tree_distinct [OF xs(1)] xs(3) by simp
  moreover have "sorted_wrt (\<lambda>x y. rank (kf x) < rank (kf y)) (remove1 x xs)"
    using xs(2) by (induction xs) (auto dest: notin_set_remove1)
  ultimately show thesis using that by (auto simp: rb_set_def)
qed

lemma rb_tree_links:
  "rb_tree h xs \<Longrightarrow> e \<notin> set xs \<Longrightarrow> rb_tree (h\<lparr>links := (links h)(e := v)\<rparr>) xs"
  unfolding rb_tree_def at_def by fastforce

lemma rb_set_links:
  "rb_set rank kf h S \<Longrightarrow> e \<notin> S \<Longrightarrow> rb_set rank kf (h\<lparr>links := (links h)(e := v)\<rparr>) S"
  unfolding rb_set_def using rb_tree_links by blast

lemma rb_set_foreach:
  assumes "rb_set rank kf h S"
  obtains (found) x where "RB_FOREACH_find found h = Some (Some x)" "x \<in> S" "found x"
      "\<forall>y \<in> S. found y \<longrightarrow> rank (kf x) \<le> rank (kf y)"
    | (missing) "RB_FOREACH_find found h = Some None" "\<forall>y \<in> S. \<not> found y"
proof -
  obtain xs where xs: "rb_tree h xs" "sorted_wrt (\<lambda>x y. rank (kf x) < rank (kf y)) xs" "set xs = S"
    using assms by (auto simp: rb_set_def)
  show thesis
  proof (cases "List.find found xs")
    case None
    then show thesis using missing rb_tree_foreach [OF xs(1)] xs(3) by (auto simp: find_None_iff)
  next
    case (Some x)
    then obtain i where i: "i < length xs" "x = xs ! i" "found x" "\<forall>j < i. \<not> found (xs ! j)"
      by (auto simp: find_Some_iff)
    have "rank (kf x) \<le> rank (kf y)" if y: "y \<in> S" "found y" for y
    proof -
      obtain j where j: "j < length xs" "y = xs ! j" using y(1) xs(3) by (metis in_set_conv_nth)
      have "i \<le> j" using i(4) y(2) j(2) by (metis leI)
      then show ?thesis
        using sorted_wrt_nth_less [OF xs(2), of i j] i(2) j by (cases "i = j") (auto simp: less_imp_le)
    qed
    then show thesis using found [of x] rb_tree_foreach [OF xs(1)] Some i xs(3) by auto
  qed
qed

locale key_order =
  fixes cmp :: "'a \<Rightarrow> 'a \<Rightarrow> int" and rank :: "'a \<Rightarrow> 'k::linorder" and valid :: "'a \<Rightarrow> bool"
  assumes cmp_less: "valid a \<Longrightarrow> valid b \<Longrightarrow> cmp a b < 0 \<longleftrightarrow> rank a < rank b"
    and cmp_greater: "valid a \<Longrightarrow> valid b \<Longrightarrow> cmp a b > 0 \<longleftrightarrow> rank a > rank b"
begin

lemma cmp_zero: "valid a \<Longrightarrow> valid b \<Longrightarrow> cmp a b = 0 \<longleftrightarrow> rank a = rank b"
  using cmp_less [of a b] cmp_greater [of a b] by force

lemma falling_cmp:
  assumes "sorted_wrt (\<lambda>x y. rank (kf x) < rank (kf y)) xs" "\<forall>x \<in> set xs. valid (kf x)" "valid a"
  shows "falling (\<lambda>x. cmp a (kf x)) xs"
  unfolding falling_def using assms(1)
proof (rule sorted_wrt_mono_rel [rotated])
  fix x y
  assume xy: "x \<in> set xs" "y \<in> set xs" "rank (kf x) < rank (kf y)"
  then have v: "valid (kf x)" "valid (kf y)" using assms(2) by auto
  show "(0 \<le> cmp a (kf y) \<longrightarrow> 0 < cmp a (kf x)) \<and> (cmp a (kf x) \<le> 0 \<longrightarrow> cmp a (kf y) < 0)"
    using cmp_less [OF assms(3) v(1)] cmp_less [OF assms(3) v(2)]
      cmp_greater [OF assms(3) v(1)] cmp_greater [OF assms(3) v(2)] xy(3)
    by (metis leI less_le_trans order_less_imp_le le_less_trans)
qed

lemma find_some:
  assumes "rb_set rank kf h S" "\<forall>x \<in> S. valid (kf x)" "valid a" "x \<in> S" "rank (kf x) = rank a"
  shows "RB_FIND (\<lambda>x. cmp a (kf x)) h = Some (Some x)"
proof -
  obtain xs where xs: "rb_tree h xs" "sorted_wrt (\<lambda>x y. rank (kf x) < rank (kf y)) xs" "set xs = S"
    using assms(1) by (auto simp: rb_set_def)
  have "List.find (\<lambda>x. cmp a (kf x) = 0) xs = Some x"
  proof (rule find_unique)
    show "x \<in> set xs" "cmp a (kf x) = 0" using assms xs(3) by (simp_all add: cmp_zero)
    show "y = x" if "y \<in> set xs" "cmp a (kf y) = 0" for y
      using that rb_set_inj [OF assms(1)] assms(2-) xs(3) by (simp add: cmp_zero)
  qed
  then show ?thesis using rb_tree_find [OF xs(1) falling_cmp] xs assms(2,3) by simp
qed

lemma find_none:
  assumes "rb_set rank kf h S" "\<forall>x \<in> S. valid (kf x)" "valid a" "\<forall>x \<in> S. rank (kf x) \<noteq> rank a"
  shows "RB_FIND (\<lambda>x. cmp a (kf x)) h = Some None"
proof -
  obtain xs where xs: "rb_tree h xs" "sorted_wrt (\<lambda>x y. rank (kf x) < rank (kf y)) xs" "set xs = S"
    using assms(1) by (auto simp: rb_set_def)
  have "List.find (\<lambda>x. cmp a (kf x) = 0) xs = None"
    using assms xs(3) by (auto simp: find_None_iff cmp_zero)
  then show ?thesis using rb_tree_find [OF xs(1) falling_cmp] xs assms(2,3) by simp
qed

lemma insert_dup:
  assumes "rb_set rank kf h S" "\<forall>x \<in> S. valid (kf x)" "valid a" "x \<in> S" "rank (kf x) = rank a"
  shows "RB_INSERT (\<lambda>x. cmp a (kf x)) h e = Some (h, Some x)"
proof -
  obtain xs where xs: "rb_tree h xs" "sorted_wrt (\<lambda>x y. rank (kf x) < rank (kf y)) xs" "set xs = S"
    using assms(1) by (auto simp: rb_set_def)
  show ?thesis
    using rb_tree_insert_hit [OF xs(1) falling_cmp] xs assms(2-) by (simp add: cmp_zero)
qed

lemma insert_new:
  assumes "rb_set rank kf h S" "\<forall>x \<in> S. valid (kf x)" "valid (kf e)" "e \<notin> S"
    "\<forall>x \<in> S. rank (kf x) \<noteq> rank (kf e)"
  obtains h' where "RB_INSERT (\<lambda>x. cmp (kf e) (kf x)) h e = Some (h', None)"
    "rb_set rank kf h' (insert e S)"
proof -
  obtain xs where xs: "rb_tree h xs" "sorted_wrt (\<lambda>x y. rank (kf x) < rank (kf y)) xs" "set xs = S"
    using assms(1) by (auto simp: rb_set_def)
  have f: "falling (\<lambda>x. cmp (kf e) (kf x)) xs" using falling_cmp xs assms(2,3) by blast
  have z: "\<forall>x \<in> set xs. cmp (kf e) (kf x) \<noteq> 0"
    using assms(2,3,5) xs(3) by (metis cmp_zero)
  have e: "e \<notin> set xs" using assms(4) xs(3) by simp
  obtain h' us vs where r: "RB_INSERT (\<lambda>x. cmp (kf e) (kf x)) h e = Some (h', None)"
    "rb_tree h' (us @ e # vs)" "xs = us @ vs" "\<forall>y \<in> set us. cmp (kf e) (kf y) > 0"
    "\<forall>y \<in> set vs. cmp (kf e) (kf y) < 0"
    using rb_tree_insert_miss [OF xs(1) f z e] .
  have "sorted_wrt (\<lambda>x y. rank (kf x) < rank (kf y)) (us @ e # vs)"
    using xs r(3-) assms(2,3) by (auto simp: sorted_wrt_append cmp_less cmp_greater)
  then have "rb_set rank kf h' (insert e S)"
    using r(2,3) xs(3) by (auto simp: rb_set_def)
  then show thesis using that r(1) by blast
qed

end

section \<open>The height bound\<close>

fun rbt_height :: "rbt \<Rightarrow> nat" where
  "rbt_height Lf = 0"
| "rbt_height (Nd c l x r) = Suc (max (rbt_height l) (rbt_height r))"

lemma bh_size: "invh t \<Longrightarrow> 2 ^ bh t \<le> Suc (length (inord t))"
proof (induction t)
  case (Nd c l x r)
  then have "2 ^ bh l \<le> Suc (length (inord l))" "2 ^ bh l \<le> Suc (length (inord r))" by auto
  then show ?case by auto
qed simp

lemma height_bh:
  "invc t \<Longrightarrow> invh t \<Longrightarrow> rbt_height t \<le> 2 * bh t + (if tcolor t = RB_RED then 1 else 0)"
  by (induction t) (auto split: if_splits)

lemma rb_ok_height:
  assumes "rb_ok t"
  shows "2 ^ rbt_height t \<le> (Suc (length (inord t))) ^ 2"
proof -
  have "rbt_height t \<le> bh t * 2" using height_bh [of t] assms by (simp add: rb_ok_def)
  then have "(2::nat) ^ rbt_height t \<le> (2 ^ bh t) ^ 2"
    unfolding power_mult [symmetric] by (rule power_increasing) simp
  also have "\<dots> \<le> (Suc (length (inord t))) ^ 2"
    using bh_size [of t] assms by (intro power_mono) (auto simp: rb_ok_def)
  finally show ?thesis .
qed

lemma height_plug: "rbt_height t + length K \<le> rbt_height (plug K t)"
proof (induction K arbitrary: t)
  case (Cons f K)
  show ?case
  proof (cases f)
    case (InL c x r)
    then show ?thesis using Cons [of "Nd c t x r"] by simp
  next
    case (InR c l x)
    then show ?thesis using Cons [of "Nd c l x t"] by simp
  qed
qed simp

text \<open>\<open>n\<close> steps up the parent pointers.\<close>

fun up_steps :: "rb_head \<Rightarrow> nat \<Rightarrow> ptr \<Rightarrow> ptr option" where
  "up_steps h 0 p = Some p"
| "up_steps h (Suc n) p = do { q \<leftarrow> RB_PARENT h p; up_steps h n q }"

lemma up_steps_at: "at h K (Nd c l x r) \<Longrightarrow> up_steps h (Suc (length K)) (Some x) = Some None"
proof (induction K arbitrary: c l x r)
  case Nil
  then show ?case using at_parent by fastforce
next
  case (Cons f K)
  obtain d a b where "at h K (Nd d a (fnode f) b)"
    using Cons.prems at_InL at_InR by (cases f) auto
  then show ?case using Cons.IH at_parent [OF Cons.prems] by simp
qed

lemma rb_tree_height:
  assumes "rb_tree h xs" "x \<in> set xs"
  shows "\<exists>n. up_steps h n (Some x) = Some None \<and> 2 ^ n \<le> (Suc (length xs)) ^ 2"
proof -
  obtain t where t: "at h [] t" "rb_ok t" "inord t = xs" using assms(1) by (auto simp: rb_tree_def)
  obtain K c l r where p: "t = plug K (Nd c l x r)" using split_at [of x t] t(3) assms(2) by metis
  have "Suc (length K) \<le> rbt_height t" using height_plug [of "Nd c l x r" K] p by simp
  then have "2 ^ Suc (length K) \<le> (2::nat) ^ rbt_height t" by (rule power_increasing) simp
  also have "\<dots> \<le> (Suc (length xs)) ^ 2" using rb_ok_height [OF t(2)] t(3) by simp
  finally have "2 ^ Suc (length K) \<le> (Suc (length xs)) ^ 2" .
  moreover have "up_steps h (Suc (length K)) (Some x) = Some None"
    using up_steps_at [of h K c l x r] t(1) p at_plug [of h K "[]"] by simp
  ultimately show ?thesis by blast
qed

section \<open>The contract of the trees\<close>

text \<open>The equations of the loops, for evaluation.\<close>

declare insert_color_loop.simps [code] insert_search.simps [code] find_loop.simps [code]
  nfind_loop.simps [code] remove_color_loop.simps [code] leftmost.simps [code] rightmost.simps [code]
  climb_right.simps [code] climb_left.simps [code] minmax_loop.simps [code] walk_up.simps [code]
  foreach_find.simps [code]

definition example_head :: rb_head where
  "example_head = \<lparr>rbh_root = Some 2, links = (\<lambda>_. rb_entry_zero)
     (1 := \<lparr>rbe_left = None, rbe_right = None, rbe_parent = Some 2, rbe_color = RB_RED\<rparr>,
      2 := \<lparr>rbe_left = Some 1, rbe_right = Some 3, rbe_parent = None, rbe_color = RB_BLACK\<rparr>,
      3 := \<lparr>rbe_left = None, rbe_right = None, rbe_parent = Some 2, rbe_color = RB_RED\<rparr>)\<rparr>"

lemma example_tree: "rb_tree example_head [1, 2, 3]"
  unfolding rb_tree_def
  by (rule exI [of _ "Nd RB_BLACK (Nd RB_RED Lf 1 Lf) 2 (Nd RB_RED Lf 3 Lf)"])
    (simp add: at_def example_head_def rb_ok_def)

text \<open>C9: \<^verbatim>\<open>RB_INSERT\<close> always returns. If an element of the tree compares equal it returns that
  element and leaves the tree as it is; otherwise it returns NULL and the new tree is again a
  red-black tree, with the new element between those that are smaller and those that are larger.\<close>

theorem RB_INSERT_correct:
  assumes "rb_tree h xs" "falling cmp xs" "e \<notin> set xs"
  shows "case List.find (\<lambda>x. cmp x = 0) xs of
      Some x \<Rightarrow> RB_INSERT cmp h e = Some (h, Some x)
    | None \<Rightarrow> \<exists>h' us vs. RB_INSERT cmp h e = Some (h', None) \<and> rb_tree h' (us @ e # vs) \<and>
        xs = us @ vs \<and> (\<forall>y \<in> set us. cmp y > 0) \<and> (\<forall>y \<in> set vs. cmp y < 0)"
proof (cases "List.find (\<lambda>x. cmp x = 0) xs")
  case None
  then have "\<forall>x \<in> set xs. cmp x \<noteq> 0" by (simp add: find_None_iff)
  from rb_tree_insert_miss [OF assms(1,2) this assms(3)]
  have "\<exists>h' us vs. RB_INSERT cmp h e = Some (h', None) \<and> rb_tree h' (us @ e # vs) \<and>
        xs = us @ vs \<and> (\<forall>y \<in> set us. cmp y > 0) \<and> (\<forall>y \<in> set vs. cmp y < 0)"
    by blast
  then show ?thesis using None by simp
next
  case (Some x)
  then have "x \<in> set xs" "cmp x = 0" by (auto simp: find_Some_iff)
  then show ?thesis using rb_tree_insert_hit [OF assms(1,2)] Some by simp
qed

lemma RB_INSERT_correct_witness:
  "rb_tree example_head [1, 2, 3] \<and>
   (\<exists>h'. RB_INSERT (\<lambda>x. 4 - int x) example_head 4 = Some (h', None) \<and> rb_tree h' [1, 2, 3, 4])"
proof -
  have "falling (\<lambda>x. 4 - int x) [1, 2, 3]" by (simp add: falling_def)
  from RB_INSERT_correct [OF example_tree this, of 4] obtain h' us vs where
    h': "RB_INSERT (\<lambda>x. 4 - int x) example_head 4 = Some (h', None)" "rb_tree h' (us @ 4 # vs)"
    "[1, 2, 3] = us @ vs" "\<forall>y \<in> set vs. 4 - int y < 0"
    by auto
  have "vs = []" using h'(3,4) by (cases vs rule: rev_cases) auto
  then show ?thesis using h' example_tree by auto
qed

text \<open>C10: \<^verbatim>\<open>RB_REMOVE\<close> of an element of the tree returns, follows no NULL pointer, and leaves a
  red-black tree of the other elements in the same order.\<close>

theorem RB_REMOVE_correct:
  assumes "rb_tree h xs" "x \<in> set xs"
  shows "\<exists>h'. RB_REMOVE h (Some x) = Some h' \<and> rb_tree h' (remove1 x xs)"
  using rb_tree_remove [OF assms] by blast

lemma RB_REMOVE_correct_witness:
  "rb_tree example_head [1, 2, 3] \<and>
   (\<exists>h'. RB_REMOVE example_head (Some 2) = Some h' \<and> rb_tree h' [1, 3])"
  using RB_REMOVE_correct [OF example_tree, of 2] example_tree by simp

text \<open>C25: \<^verbatim>\<open>RB_MIN\<close>, \<^verbatim>\<open>RB_MAX\<close>, \<^verbatim>\<open>RB_NEXT\<close> and \<^verbatim>\<open>RB_PREV\<close> walk the elements in order, and a loop
  over \<^verbatim>\<open>RB_FOREACH\<close> that stops at the first match sees every element once, in order.\<close>

theorem RB_traversal_correct:
  assumes "rb_tree h (us @ x # vs)"
  shows "RB_MIN h = Some (first (us @ [x])) \<and> RB_MAX h = Some (final (x # vs)) \<and>
    RB_NEXT h (Some x) = Some (first vs) \<and> RB_PREV h (Some x) = Some (final us) \<and>
    RB_FOREACH_find found h = Some (List.find found (us @ x # vs))"
  using rb_tree_min [OF assms] rb_tree_max [OF assms] rb_tree_step [OF assms]
    rb_tree_foreach [OF assms, of found]
  by (simp add: first_append final_append)

lemma RB_traversal_correct_witness:
  "rb_tree example_head ([1] @ 2 # [3]) \<and> RB_MIN example_head = Some (Some 1) \<and>
   RB_MAX example_head = Some (Some 3) \<and> RB_NEXT example_head (Some 2) = Some (Some 3) \<and>
   RB_PREV example_head (Some 2) = Some (Some 1) \<and>
   RB_FOREACH_find (\<lambda>x. x > 1) example_head = Some (Some 2)"
  using RB_traversal_correct [of example_head "[1]" 2 "[3]" "\<lambda>x. x > 1"] example_tree
  by (simp add: final_def)

end
