(* ===== verification/Splay_Refine.thy ===== *)
theory Splay_Refine
  imports Splay_Tree Tree_Order Slots "HOL-Library.Tree"
begin

text \<open>
  The splay trees of \<open>Splay_Tree\<close> are trees. \<open>splay_at\<close> says what tree the links hold from a pointer on, and
  \<open>splaying\<close> what they hold while the splay operation runs: a left tree, the tree in hand and a right tree. Under this
  reading the loop is the function \<open>split_tree\<close> on trees, which keeps the order of the elements. The contract at the end
  says what each operation does to the list of the elements.
\<close>

fun splay_at :: "(nat \<Rightarrow> ptr) \<Rightarrow> (nat \<Rightarrow> ptr) \<Rightarrow> ptr \<Rightarrow> nat tree \<Rightarrow> bool" where
  "splay_at L R p Leaf \<longleftrightarrow> p = None"
| "splay_at L R p (Node l x r) \<longleftrightarrow> p = Some x \<and> splay_at L R (L x) l \<and> splay_at L R (R x) r"

lemma splay_at_cong:
  "splay_at L R p t \<Longrightarrow> \<forall>x \<in> set_tree t. L' x = L x \<and> R' x = R x \<Longrightarrow> splay_at L' R' p t"
  by (induction t arbitrary: p) auto

lemma splay_at_upd [simp]:
  "x \<notin> set_tree t \<Longrightarrow> splay_at (L(x := v)) R p t = splay_at L R p t"
  "x \<notin> set_tree t \<Longrightarrow> splay_at L (R(x := v)) p t = splay_at L R p t"
  by (induction t arbitrary: p) auto

lemma splay_at_None [simp]: "splay_at L R None t \<longleftrightarrow> t = Leaf"
  by (cases t) auto

text \<open>A tree in the place of the rightmost, or leftmost, leaf of another one.\<close>

fun graft_r :: "nat tree \<Rightarrow> nat tree \<Rightarrow> nat tree" where
  "graft_r Leaf t = t"
| "graft_r (Node l x r) t = Node l x (graft_r r t)"

fun graft_l :: "nat tree \<Rightarrow> nat tree \<Rightarrow> nat tree" where
  "graft_l Leaf t = t"
| "graft_l (Node l x r) t = Node (graft_l l t) x r"

lemma inorder_graft [simp]:
  "inorder (graft_r s t) = inorder s @ inorder t" "inorder (graft_l s t) = inorder t @ inorder s"
  by (induction s) auto

lemma set_graft [simp]:
  "set_tree (graft_r s t) = set_tree s \<union> set_tree t" "set_tree (graft_l s t) = set_tree t \<union> set_tree s"
  by (induction s) auto

lemma inorder_Nil [simp]: "inorder t = [] \<longleftrightarrow> t = Leaf"
  by (cases t) auto

lemma graft_r_at:
  assumes "splay_at L (R(c := None)) p s" "s \<noteq> Leaf" "c = last (inorder s)" "distinct (inorder s)"
    "splay_at L (R(c := q)) q t"
  shows "splay_at L (R(c := q)) p (graft_r s t)"
  using assms
proof (induction s arbitrary: p)
  case (Node l x r)
  show ?case
  proof (cases "r = Leaf")
    case True
    then show ?thesis using Node.prems by (simp del: fun_upd_apply add: fun_upd_same)
  next
    case False
    then have "c = last (inorder r)" using Node.prems(3) by simp
    then have "c \<in> set_tree r" using False by (metis inorder_Nil last_in_set set_inorder)
    then have "c \<noteq> x" "c \<notin> set_tree l" using Node.prems(4) by auto
    then show ?thesis using False Node.prems Node.IH(2) [of "R x"] by (simp del: fun_upd_apply add: fun_upd_other)
  qed
qed simp

lemma graft_l_at:
  assumes "splay_at (L(c := None)) R p s" "s \<noteq> Leaf" "c = hd (inorder s)" "distinct (inorder s)"
    "splay_at (L(c := q)) R q t"
  shows "splay_at (L(c := q)) R p (graft_l s t)"
  using assms
proof (induction s arbitrary: p)
  case (Node l x r)
  show ?case
  proof (cases "l = Leaf")
    case True
    then show ?thesis using Node.prems by (simp del: fun_upd_apply add: fun_upd_same)
  next
    case False
    then have "c = hd (inorder l)" using Node.prems(3) by simp
    then have "c \<in> set_tree l" using False by (metis inorder_Nil hd_in_set set_inorder)
    then have "c \<noteq> x" "c \<notin> set_tree r" using Node.prems(4) by auto
    then show ?thesis using False Node.prems Node.IH(1) [of "L x"] by (simp del: fun_upd_apply add: fun_upd_other)
  qed
qed simp

section \<open>The state of the splay operation\<close>

text \<open>The left tree hangs from the right link of \<open>node\<close> and its place for more is the right link of its last element, or
  of \<open>node\<close> when it is empty. The value of that link is not part of it.\<close>

definition left_tree :: "(nat \<Rightarrow> ptr) \<Rightarrow> (nat \<Rightarrow> ptr) \<Rightarrow> nat \<Rightarrow> nat \<Rightarrow> nat tree \<Rightarrow> bool" where
  "left_tree L R node lp t \<longleftrightarrow> lp = last (node # inorder t) \<and> splay_at L (R(lp := None)) ((R(lp := None)) node) t"

definition right_tree :: "(nat \<Rightarrow> ptr) \<Rightarrow> (nat \<Rightarrow> ptr) \<Rightarrow> nat \<Rightarrow> nat \<Rightarrow> nat tree \<Rightarrow> bool" where
  "right_tree L R node rp t \<longleftrightarrow> rp = hd (inorder t @ [node]) \<and> splay_at (L(rp := None)) R ((L(rp := None)) node) t"

definition splaying :: "nat \<Rightarrow> splay_head \<Rightarrow> nat \<Rightarrow> nat \<Rightarrow> nat tree \<Rightarrow> nat tree \<Rightarrow> nat tree \<Rightarrow> bool" where
  "splaying node h lp rp s t u \<longleftrightarrow> distinct (node # inorder s @ inorder t @ inorder u) \<and>
     splay_at (spe_left h) (spe_right h) (sph_root h) t \<and>
     left_tree (spe_left h) (spe_right h) node lp s \<and> right_tree (spe_left h) (spe_right h) node rp u"

lemma left_tree_mem: "left_tree L R node lp t \<Longrightarrow> lp \<in> insert node (set_tree t)"
  unfolding left_tree_def by (metis last_in_set list.discI list.simps(15) set_inorder)

lemma right_tree_mem: "right_tree L R node rp t \<Longrightarrow> rp \<in> insert node (set_tree t)"
  unfolding right_tree_def by (cases "inorder t") (auto simp flip: set_inorder)

lemma left_tree_cong:
  assumes "left_tree L R node lp t" "\<forall>x \<in> set_tree t. L' x = L x" "\<forall>x \<in> insert node (set_tree t). x \<noteq> lp \<longrightarrow> R' x = R x"
  shows "left_tree L' R' node lp t"
  using assms splay_at_cong [of L "R(lp := None)" "(R(lp := None)) node" t L' "R'(lp := None)"]
  by (auto simp: left_tree_def)

lemma right_tree_cong:
  assumes "right_tree L R node rp t" "\<forall>x \<in> insert node (set_tree t). x \<noteq> rp \<longrightarrow> L' x = L x" "\<forall>x \<in> set_tree t. R' x = R x"
  shows "right_tree L' R' node rp t"
  using assms splay_at_cong [of "L(rp := None)" R "(L(rp := None)) node" t "L'(rp := None)" R']
  by (auto simp: right_tree_def)

lemma left_tree_graft:
  assumes "left_tree L R node lp s" "distinct (node # inorder s)" "splay_at L (R(lp := q)) q t"
  shows "splay_at L (R(lp := q)) ((R(lp := q)) node) (graft_r s t)"
proof (cases "s = Leaf")
  case True
  then show ?thesis using assms by (simp add: left_tree_def)
next
  case False
  then have "lp \<noteq> node" using assms(1,2) by (auto simp: left_tree_def simp flip: set_inorder)
  then show ?thesis using graft_r_at [of L R lp "R node" s q t] assms False by (auto simp: left_tree_def)
qed

lemma right_tree_graft:
  assumes "right_tree L R node rp s" "distinct (node # inorder s)" "splay_at (L(rp := q)) R q t"
  shows "splay_at (L(rp := q)) R ((L(rp := q)) node) (graft_l s t)"
proof (cases "s = Leaf")
  case True
  then show ?thesis using assms by (simp add: right_tree_def)
next
  case False
  then have "rp \<noteq> node" using assms(1,2) by (auto simp: right_tree_def hd_append simp flip: set_inorder)
  then show ?thesis using graft_l_at [of L rp R "L node" s q t] assms False by (auto simp: right_tree_def hd_append)
qed

section \<open>The steps\<close>

lemmas splay_access = SPLAY_LEFT_def SPLAY_RIGHT_def set_spe_left_def set_spe_right_def

text \<open>The links of elements that are not in the trees stay as they are.\<close>

definition splay_frame :: "nat set \<Rightarrow> splay_head \<Rightarrow> splay_head \<Rightarrow> bool" where
  "splay_frame A h h' \<longleftrightarrow> (\<forall>x. x \<notin> A \<longrightarrow> spe_left h' x = spe_left h x \<and> spe_right h' x = spe_right h x)"

lemma splay_frame_trans: "splay_frame A h h' \<Longrightarrow> splay_frame A h' h'' \<Longrightarrow> splay_frame A h h''"
  by (simp add: splay_frame_def)

lemma splaying_disjoint:
  assumes "splaying node h lp rp s t u"
  shows "node \<notin> set_tree s" "node \<notin> set_tree t" "node \<notin> set_tree u" "set_tree s \<inter> set_tree t = {}" "set_tree s \<inter> set_tree u = {}"
    "set_tree t \<inter> set_tree u = {}" "lp \<notin> set_tree t" "rp \<notin> set_tree t" "lp \<notin> set_tree u" "rp \<notin> set_tree s"
  using assms left_tree_mem [of "spe_left h" "spe_right h" node lp s] right_tree_mem [of "spe_left h" "spe_right h" node rp u]
  by (auto simp: splaying_def)

lemma splay_rotate_right_at:
  assumes "splaying node h lp rp s (Node (Node a y b) x r) u"
  obtains h' where "SPLAY_ROTATE_RIGHT h (Some y) = Some h'" "splaying node h' lp rp s (Node a y (Node b x r)) u"
    "splay_frame (set_tree (Node (Node a y b) x r)) h h'"
proof -
  let ?h = "h\<lparr>spe_left := (spe_left h)(x := spe_right h y), spe_right := (spe_right h)(y := Some x), sph_root := Some y\<rparr>"
  note d = splaying_disjoint [OF assms]
  have "distinct (node # inorder s @ inorder (Node (Node a y b) x r) @ inorder u)" using assms unfolding splaying_def by blast
  then have n: "x \<noteq> y" "x \<notin> set_tree a" "x \<notin> set_tree b" "y \<notin> set_tree b" "y \<notin> set_tree a" "y \<notin> set_tree r" "x \<notin> set_tree r"
    "distinct (node # inorder s @ inorder (Node a y (Node b x r)) @ inorder u)" by auto
  have "left_tree (spe_left ?h) (spe_right ?h) node lp s" "right_tree (spe_left ?h) (spe_right ?h) node rp u"
    using assms d unfolding splaying_def
    by (auto elim!: left_tree_cong right_tree_cong)
  moreover have "splay_at (spe_left ?h) (spe_right ?h) (Some y) (Node a y (Node b x r))"
    using assms n(1-7) by (simp add: splaying_def)
  ultimately have "splaying node ?h lp rp s (Node a y (Node b x r)) u" using n(8) by (simp add: splaying_def)
  moreover have "SPLAY_ROTATE_RIGHT h (Some y) = Some ?h"
    using assms by (simp add: SPLAY_ROTATE_RIGHT_def splay_access splaying_def)
  ultimately show thesis by (intro that [of ?h]) (auto simp: splay_frame_def)
qed

lemma splay_rotate_left_at:
  assumes "splaying node h lp rp s (Node l x (Node a y b)) u"
  obtains h' where "SPLAY_ROTATE_LEFT h (Some y) = Some h'" "splaying node h' lp rp s (Node (Node l x a) y b) u"
    "splay_frame (set_tree (Node l x (Node a y b))) h h'"
proof -
  let ?h = "h\<lparr>spe_right := (spe_right h)(x := spe_left h y), spe_left := (spe_left h)(y := Some x), sph_root := Some y\<rparr>"
  note d = splaying_disjoint [OF assms]
  have "distinct (node # inorder s @ inorder (Node l x (Node a y b)) @ inorder u)" using assms unfolding splaying_def by blast
  then have n: "x \<noteq> y" "x \<notin> set_tree a" "x \<notin> set_tree b" "y \<notin> set_tree b" "y \<notin> set_tree a" "y \<notin> set_tree l" "x \<notin> set_tree l"
    "distinct (node # inorder s @ inorder (Node (Node l x a) y b) @ inorder u)" by auto
  have "left_tree (spe_left ?h) (spe_right ?h) node lp s" "right_tree (spe_left ?h) (spe_right ?h) node rp u"
    using assms d unfolding splaying_def
    by (auto elim!: left_tree_cong right_tree_cong)
  moreover have "splay_at (spe_left ?h) (spe_right ?h) (Some y) (Node (Node l x a) y b)"
    using assms n(1-7) by (simp add: splaying_def)
  ultimately have "splaying node ?h lp rp s (Node (Node l x a) y b) u" using n(8) by (simp add: splaying_def)
  moreover have "SPLAY_ROTATE_LEFT h (Some y) = Some ?h"
    using assms by (simp add: SPLAY_ROTATE_LEFT_def splay_access splaying_def)
  ultimately show thesis by (intro that [of ?h]) (auto simp: splay_frame_def)
qed

lemma linkleft_at:
  assumes "splaying node h lp rp s (Node l x r) u"
  obtains h' where "SPLAY_LINKLEFT h (Some rp) = Some (h', Some x)" "splaying node h' lp x s l (graft_l u (Node Leaf x r))"
    "splay_frame (insert node (set_tree u)) h h'"
proof -
  let ?L = "(spe_left h)(rp := Some x)" and ?R = "spe_right h"
  let ?h = "h\<lparr>spe_left := ?L, sph_root := spe_left h x\<rparr>"
  note d = splaying_disjoint [OF assms]
  have D: "distinct (node # inorder s @ inorder (Node l x r) @ inorder u)" and R: "right_tree (spe_left h) ?R node rp u"
    and T: "splay_at (spe_left h) ?R (sph_root h) (Node l x r)" and S: "left_tree (spe_left h) ?R node lp s"
    using assms unfolding splaying_def by blast+
  have x: "x \<noteq> rp" "x \<notin> set_tree r" "x \<noteq> node" "x \<notin> set_tree u" using d D by auto
  have "right_tree ((spe_left h)(x := None)) ?R node rp u" by (rule right_tree_cong [OF R]) (use x in auto)
  then have "splay_at ((spe_left h)(x := None, rp := Some x)) ?R (((spe_left h)(x := None, rp := Some x)) node) (graft_l u (Node Leaf x r))"
    by (rule right_tree_graft) (use D T d x in auto)
  then have "right_tree ?L ?R node x (graft_l u (Node Leaf x r))" using x by (simp add: right_tree_def fun_upd_twist)
  moreover have "left_tree ?L ?R node lp s" by (rule left_tree_cong [OF S]) (use d in auto)
  ultimately have "splaying node ?h lp x s l (graft_l u (Node Leaf x r))" using D T d by (auto simp: splaying_def)
  moreover have "SPLAY_LINKLEFT h (Some rp) = Some (?h, Some x)"
    using T x by (simp add: SPLAY_LINKLEFT_def splay_access)
  ultimately show thesis using right_tree_mem [OF R] by (intro that [of ?h]) (auto simp: splay_frame_def)
qed

lemma linkright_at:
  assumes "splaying node h lp rp s (Node l x r) u"
  obtains h' where "SPLAY_LINKRIGHT h (Some lp) = Some (h', Some x)" "splaying node h' x rp (graft_r s (Node l x Leaf)) r u"
    "splay_frame (insert node (set_tree s)) h h'"
proof -
  let ?R = "(spe_right h)(lp := Some x)" and ?L = "spe_left h"
  let ?h = "h\<lparr>spe_right := ?R, sph_root := spe_right h x\<rparr>"
  note d = splaying_disjoint [OF assms]
  have D: "distinct (node # inorder s @ inorder (Node l x r) @ inorder u)" and S: "left_tree ?L (spe_right h) node lp s"
    and T: "splay_at ?L (spe_right h) (sph_root h) (Node l x r)" and R: "right_tree ?L (spe_right h) node rp u"
    using assms unfolding splaying_def by blast+
  have x: "x \<noteq> lp" "x \<notin> set_tree l" "x \<noteq> node" "x \<notin> set_tree s" using d D by auto
  have "left_tree ?L ((spe_right h)(x := None)) node lp s" by (rule left_tree_cong [OF S]) (use x in auto)
  then have "splay_at ?L ((spe_right h)(x := None, lp := Some x)) (((spe_right h)(x := None, lp := Some x)) node) (graft_r s (Node l x Leaf))"
    by (rule left_tree_graft) (use D T d x in auto)
  then have "left_tree ?L ?R node x (graft_r s (Node l x Leaf))" using x by (simp add: left_tree_def fun_upd_twist)
  moreover have "right_tree ?L ?R node rp u" by (rule right_tree_cong [OF R]) (use d in auto)
  ultimately have "splaying node ?h x rp (graft_r s (Node l x Leaf)) r u" using D T d by (auto simp: splaying_def)
  moreover have "SPLAY_LINKRIGHT h (Some lp) = Some (?h, Some x)"
    using T x by (simp add: SPLAY_LINKRIGHT_def splay_access)
  ultimately show thesis using left_tree_mem [OF S] by (intro that [of ?h]) (auto simp: splay_frame_def)
qed

lemma assemble_at:
  assumes "splaying node h lp rp s (Node l x r) u"
  obtains h' where "SPLAY_ASSEMBLE h (Some node) (Some lp) (Some rp) = Some h'" "sph_root h' = Some x"
    "splay_at (spe_left h') (spe_right h') (Some x) (Node (graft_r s l) x (graft_l u r))"
    "splay_frame (insert node (insert x (set_tree s \<union> set_tree u))) h h'"
proof -
  let ?L = "(spe_left h)(rp := spe_right h x)" and ?R = "(spe_right h)(lp := spe_left h x)"
  let ?L' = "?L(x := ?R node)" and ?R' = "?R(x := ?L node)"
  let ?h = "h\<lparr>spe_left := ?L', spe_right := ?R'\<rparr>"
  note d = splaying_disjoint [OF assms]
  have D: "distinct (node # inorder s @ inorder (Node l x r) @ inorder u)" and S: "left_tree (spe_left h) (spe_right h) node lp s"
    and T: "splay_at (spe_left h) (spe_right h) (sph_root h) (Node l x r)" and R: "right_tree (spe_left h) (spe_right h) node rp u"
    using assms unfolding splaying_def by blast+
  have n: "x \<noteq> lp" "x \<noteq> rp" "x \<noteq> node" "x \<notin> set_tree l" "x \<notin> set_tree r" "x \<notin> set_tree s" "x \<notin> set_tree u" using d D by auto
  have "splay_at (spe_left h) ?R (?R node) (graft_r s l)"
    by (rule left_tree_graft [OF S]) (use D T d in auto)
  then have "splay_at ?L' ?R' (?R node) (graft_r s l)"
    by (rule splay_at_cong) (use n d D in auto)
  moreover have "splay_at ?L (spe_right h) (?L node) (graft_l u r)"
    by (rule right_tree_graft [OF R]) (use D T d in auto)
  then have "splay_at ?L' ?R' (?L node) (graft_l u r)"
    by (rule splay_at_cong) (use n d D in auto)
  ultimately have "splay_at ?L' ?R' (Some x) (Node (graft_r s l) x (graft_l u r))" by simp
  moreover have "SPLAY_ASSEMBLE h (Some node) (Some lp) (Some rp) = Some ?h"
    using T n by (simp add: SPLAY_ASSEMBLE_def splay_access)
  ultimately show thesis using T left_tree_mem [OF S] right_tree_mem [OF R] by (intro that [of ?h]) (auto simp: splay_frame_def)
qed

section \<open>Splaying as a function on trees\<close>

text \<open>The loop on a left tree, the tree in hand and a right tree.\<close>

function split_tree :: "(nat \<Rightarrow> int) \<Rightarrow> nat tree \<Rightarrow> nat tree \<Rightarrow> nat tree \<Rightarrow> nat tree \<times> nat tree \<times> nat tree" where
  "split_tree c s Leaf u = (s, Leaf, u)"
| "split_tree c s (Node l x r) u =
     (if c x = 0 then (s, Node l x r, u)
      else if c x < 0 then
        (case l of
           Leaf \<Rightarrow> (s, Node l x r, u)
         | Node a y b \<Rightarrow>
             if c y < 0 then
               if a = Leaf then (s, Node a y (Node b x r), u) else split_tree c s a (graft_l u (Node Leaf y (Node b x r)))
             else split_tree c s l (graft_l u (Node Leaf x r)))
      else
        (case r of
           Leaf \<Rightarrow> (s, Node l x r, u)
         | Node a y b \<Rightarrow>
             if c y > 0 then
               if b = Leaf then (s, Node (Node l x a) y b, u) else split_tree c (graft_r s (Node (Node l x a) y Leaf)) b u
             else split_tree c (graft_r s (Node l x Leaf)) r u))"
  by pat_completeness auto
termination by (relation "measure (\<lambda>(c, s, t, u). size t)") auto

definition parts :: "nat tree \<Rightarrow> nat tree \<Rightarrow> nat tree \<Rightarrow> nat set" where
  "parts s t u = set_tree s \<union> set_tree t \<union> set_tree u"

text \<open>One turn of the loop when the element looked for is smaller than the root: the loop stops, or goes on with a smaller tree.\<close>

lemma splay_turn_less:
  assumes T: "splaying node h lp rp s (Node l x r) u" and less: "c x < 0"
  obtains (stop) h' t' where "splay_loop c h (Some lp) (Some rp) = Some (h', Some lp, Some rp)"
      "split_tree c s (Node l x r) u = (s, t', u)" "splaying node h' lp rp s t' u" "t' \<noteq> Leaf"
      "splay_frame (insert node (parts s (Node l x r) u)) h h'"
    | (go) h' rp' t' u' where "splay_loop c h (Some lp) (Some rp) = splay_loop c h' (Some lp) (Some rp')"
      "split_tree c s (Node l x r) u = split_tree c s t' u'" "splaying node h' lp rp' s t' u'" "t' \<noteq> Leaf" "size t' < size (Node l x r)"
      "parts s t' u' = parts s (Node l x r) u" "splay_frame (insert node (parts s (Node l x r) u)) h h'"
proof (cases l)
  case Leaf
  then show thesis using T less by (intro stop [of h "Node l x r"]) (auto simp: splay_loop.simps [of c h] splaying_def splay_frame_def splay_access)
next
  case (Node a y b)
  have root: "sph_root h = Some x" "spe_left h x = Some y" using T Node by (simp_all add: splaying_def)
  show thesis
  proof (cases "c y < 0")
    case True
    obtain h1 where h1: "SPLAY_ROTATE_RIGHT h (Some y) = Some h1" "splaying node h1 lp rp s (Node a y (Node b x r)) u"
      "splay_frame (set_tree (Node (Node a y b) x r)) h h1"
      using splay_rotate_right_at T Node by metis
    have r1: "sph_root h1 = Some y" "splay_at (spe_left h1) (spe_right h1) (spe_left h1 y) a" using h1(2) by (simp_all add: splaying_def)
    show thesis
    proof (cases "a = Leaf")
      case a: True
      have "splay_loop c h (Some lp) (Some rp) = Some (h1, Some lp, Some rp)"
        using h1(1) r1 a True less root by (simp add: splay_loop.simps [of c h] splay_access)
      then show thesis using h1 a True less Node by (intro stop [of h1 "Node a y (Node b x r)"]) (auto simp: splay_frame_def parts_def)
    next
      case False
      then obtain z where z: "spe_left h1 y = Some z" using r1(2) by (cases a) auto
      obtain h2 where h2: "SPLAY_LINKLEFT h1 (Some rp) = Some (h2, Some y)"
        "splaying node h2 lp y s a (graft_l u (Node Leaf y (Node b x r)))" "splay_frame (insert node (set_tree u)) h1 h2"
        using linkleft_at h1(2) by metis
      have "splay_loop c h (Some lp) (Some rp) = splay_loop c h2 (Some lp) (Some y)"
        using h1(1) h2(1) r1(1) z True less root by (simp add: splay_loop.simps [of c h] splay_access)
      then show thesis using h1(3) h2(2,3) False True less Node by (intro go) (auto simp: splay_frame_def parts_def)
    qed
  next
    case False
    obtain h2 where h2: "SPLAY_LINKLEFT h (Some rp) = Some (h2, Some x)"
      "splaying node h2 lp x s l (graft_l u (Node Leaf x r))" "splay_frame (insert node (set_tree u)) h h2"
      using linkleft_at T by metis
    have "splay_loop c h (Some lp) (Some rp) = splay_loop c h2 (Some lp) (Some x)"
      using h2(1) False less root by (simp add: splay_loop.simps [of c h] splay_access)
    then show thesis using h2(2,3) False less Node by (intro go) (auto simp: splay_frame_def parts_def)
  qed
qed

lemma splay_turn_more:
  assumes T: "splaying node h lp rp s (Node l x r) u" and more: "c x > 0"
  obtains (stop) h' t' where "splay_loop c h (Some lp) (Some rp) = Some (h', Some lp, Some rp)"
      "split_tree c s (Node l x r) u = (s, t', u)" "splaying node h' lp rp s t' u" "t' \<noteq> Leaf"
      "splay_frame (insert node (parts s (Node l x r) u)) h h'"
    | (go) h' lp' s' t' where "splay_loop c h (Some lp) (Some rp) = splay_loop c h' (Some lp') (Some rp)"
      "split_tree c s (Node l x r) u = split_tree c s' t' u" "splaying node h' lp' rp s' t' u" "t' \<noteq> Leaf" "size t' < size (Node l x r)"
      "parts s' t' u = parts s (Node l x r) u" "splay_frame (insert node (parts s (Node l x r) u)) h h'"
proof (cases r)
  case Leaf
  then show thesis using T more by (intro stop [of h "Node l x r"]) (auto simp: splay_loop.simps [of c h] splaying_def splay_frame_def splay_access)
next
  case (Node a y b)
  have root: "sph_root h = Some x" "spe_right h x = Some y" using T Node by (simp_all add: splaying_def)
  show thesis
  proof (cases "c y > 0")
    case True
    obtain h1 where h1: "SPLAY_ROTATE_LEFT h (Some y) = Some h1" "splaying node h1 lp rp s (Node (Node l x a) y b) u"
      "splay_frame (set_tree (Node l x (Node a y b))) h h1"
      using splay_rotate_left_at T Node by metis
    have r1: "sph_root h1 = Some y" "splay_at (spe_left h1) (spe_right h1) (spe_right h1 y) b" using h1(2) by (simp_all add: splaying_def)
    show thesis
    proof (cases "b = Leaf")
      case b: True
      have "splay_loop c h (Some lp) (Some rp) = Some (h1, Some lp, Some rp)"
        using h1(1) r1 b True more root by (simp add: splay_loop.simps [of c h] splay_access)
      then show thesis using h1 b True more Node by (intro stop [of h1 "Node (Node l x a) y b"]) (auto simp: splay_frame_def parts_def)
    next
      case False
      then obtain z where z: "spe_right h1 y = Some z" using r1(2) by (cases b) auto
      obtain h2 where h2: "SPLAY_LINKRIGHT h1 (Some lp) = Some (h2, Some y)"
        "splaying node h2 y rp (graft_r s (Node (Node l x a) y Leaf)) b u" "splay_frame (insert node (set_tree s)) h1 h2"
        using linkright_at h1(2) by metis
      have "splay_loop c h (Some lp) (Some rp) = splay_loop c h2 (Some y) (Some rp)"
        using h1(1) h2(1) r1(1) z True more root by (simp add: splay_loop.simps [of c h] splay_access)
      then show thesis using h1(3) h2(2,3) False True more Node by (intro go) (auto simp: splay_frame_def parts_def)
    qed
  next
    case False
    obtain h2 where h2: "SPLAY_LINKRIGHT h (Some lp) = Some (h2, Some x)"
      "splaying node h2 x rp (graft_r s (Node l x Leaf)) r u" "splay_frame (insert node (set_tree s)) h h2"
      using linkright_at T by metis
    have "splay_loop c h (Some lp) (Some rp) = splay_loop c h2 (Some x) (Some rp)"
      using h2(1) False more root by (simp add: splay_loop.simps [of c h] splay_access)
    then show thesis using h2(2,3) False more Node by (intro go) (auto simp: splay_frame_def parts_def)
  qed
qed

lemma splay_loop_at:
  assumes "splaying node h lp rp s t u" "t \<noteq> Leaf"
  shows "\<exists>h' lp' rp' s' t' u'. splay_loop c h (Some lp) (Some rp) = Some (h', Some lp', Some rp') \<and>
    split_tree c s t u = (s', t', u') \<and> splaying node h' lp' rp' s' t' u' \<and> t' \<noteq> Leaf \<and> splay_frame (insert node (parts s t u)) h h'"
  using assms
proof (induction "size t" arbitrary: h lp rp s t u rule: less_induct)
  case less
  obtain l x r where t: "t = Node l x r" using less.prems(2) by (cases t) auto
  note T = less.prems(1) [unfolded t]
  consider "c x = 0" | "c x < 0" | "c x > 0" by linarith
  then show ?case
  proof cases
    case 1
    moreover have "sph_root h = Some x" using T by (simp add: splaying_def)
    ultimately show ?thesis using T t by (simp add: splay_loop.simps [of c h] splay_frame_def)
  next
    case 2
    show ?thesis
    proof (rule splay_turn_less [OF T, where c = c, OF 2], goal_cases)
      case (2 h1 rp1 t1 u1)
      show ?case using less.hyps [of t1, OF _ 2(3,4)] 2 splay_frame_trans [OF 2(7)] unfolding t by fastforce
    qed (use t in auto)
  next
    case 3
    show ?thesis
    proof (rule splay_turn_more [OF T, where c = c, OF 3], goal_cases)
      case (2 h1 lp1 s1 t1)
      show ?case using less.hyps [of t1, OF _ 2(3,4)] 2 splay_frame_trans [OF 2(7)] unfolding t by fastforce
    qed (use t in auto)
  qed
qed

declare split_tree.simps(2) [simp del]

text \<open>The order of the elements does not change, and the root ends up where the element looked for belongs.\<close>

lemma split_tree_inorder: "split_tree c s t u = (s', t', u') \<Longrightarrow> inorder s' @ inorder t' @ inorder u' = inorder s @ inorder t @ inorder u"
proof (induction c s t u rule: split_tree.induct)
  case (2 c s l x r u)
  show ?case
    using "2.prems" "2.IH" by (auto simp: split_tree.simps(2) [of c s l x r u] split: if_splits tree.splits)
qed simp

lemma split_tree_sides:
  assumes "split_tree c s t u = (s', Node l' x' r', u')" "falling c (inorder s @ inorder t @ inorder u)"
    "\<forall>y \<in> set_tree s. c y > 0" "\<forall>y \<in> set_tree u. c y < 0"
  shows "(\<forall>y \<in> set_tree s' \<union> set_tree l'. c y > 0) \<and> (\<forall>y \<in> set_tree u' \<union> set_tree r'. c y < 0)"
  using assms
proof (induction c s t u rule: split_tree.induct)
  case (2 c s l x r u)
  have lo: "c x \<ge> 0 \<Longrightarrow> \<forall>y \<in> set_tree l. c y > 0" and hi: "c x \<le> 0 \<Longrightarrow> \<forall>y \<in> set_tree r. c y < 0"
    using "2.prems"(2) by (auto simp: falling_def sorted_wrt_append)
  have lo': "c y \<ge> 0 \<Longrightarrow> \<forall>z \<in> set_tree a. c z > 0" if "r = Node a y b" for a y b
    using "2.prems"(2) that by (auto simp: falling_def sorted_wrt_append)
  have hi': "c y \<le> 0 \<Longrightarrow> \<forall>z \<in> set_tree b. c z < 0" if "l = Node a y b" for a y b
    using "2.prems"(2) that by (auto simp: falling_def sorted_wrt_append)
  note eq = "2.prems"(1) [unfolded split_tree.simps(2) [of c s l x r u]] and f = "2.prems"(2) and su = "2.prems"(3,4)
  consider (hit) "c x = 0 \<or> c x < 0 \<and> l = Leaf \<or> c x > 0 \<and> r = Leaf" | (less) a y b where "c x < 0" "l = Node a y b"
    | (more) a y b where "c x > 0" "r = Node a y b"
    by (metis linorder_neqE_linordered_idom tree.exhaust)
  then show ?case
  proof cases
    case hit
    then have "s' = s" "l' = l" "x' = x" "r' = r" "u' = u" using eq by auto
    then show ?thesis using hit lo hi su by auto
  next
    case less
    note h = hi' [OF less(2)]
    consider "c y < 0" "a = Leaf" | "c y < 0" "a \<noteq> Leaf" | "\<not> c y < 0" by blast
    then show ?thesis
    proof cases
      case 1
      then have "s' = s" "l' = Leaf" "x' = y" "r' = Node b x r" "u' = u" using eq less by auto
      then show ?thesis using 1 hi h su less by auto
    next
      case 2
      then have "split_tree c s a (graft_l u (Node Leaf y (Node b x r))) = (s', Node l' x' r', u')" using eq less by simp
      then show ?thesis using "2.IH"(1) [OF _ less 2] f su hi h less 2(1) by (simp add: ball_Un)
    next
      case 3
      then have "split_tree c s l (graft_l u (Node Leaf x r)) = (s', Node l' x' r', u')" using eq less by simp
      then show ?thesis using "2.IH"(2) [OF _ less 3] f su hi less(1) by (simp add: ball_Un)
    qed
  next
    case more
    note h = lo' [OF more(2)]
    consider "c y > 0" "b = Leaf" | "c y > 0" "b \<noteq> Leaf" | "\<not> c y > 0" by blast
    then show ?thesis
    proof cases
      case 1
      then have "s' = s" "l' = Node l x a" "x' = y" "r' = Leaf" "u' = u" using eq more by auto
      then show ?thesis using 1 lo h su more by auto
    next
      case 2
      then have "split_tree c (graft_r s (Node (Node l x a) y Leaf)) b u = (s', Node l' x' r', u')" using eq more by simp
      then show ?thesis using "2.IH"(3) [OF _ _ more(2) 2] f su lo h more 2(1) by (simp add: ball_Un)
    next
      case 3
      then have "split_tree c (graft_r s (Node l x Leaf)) r u = (s', Node l' x' r', u')" using eq more by simp
      then show ?thesis using "2.IH"(4) [OF _ _ more(2) 3] f su lo more(1) by (simp add: ball_Un)
    qed
  qed
qed simp

section \<open>The contract\<close>

definition splay_tree :: "splay_head \<Rightarrow> nat list \<Rightarrow> bool" where
  "splay_tree h xs \<longleftrightarrow> distinct xs \<and> (\<exists>t. splay_at (spe_left h) (spe_right h) (sph_root h) t \<and> inorder t = xs)"

text \<open>The root is \<open>x\<close>, before it are \<open>us\<close> and behind it \<open>vs\<close>.\<close>

definition splayed :: "splay_head \<Rightarrow> nat list \<Rightarrow> nat \<Rightarrow> nat list \<Rightarrow> bool" where
  "splayed h us x vs \<longleftrightarrow> distinct (us @ x # vs) \<and> sph_root h = Some x \<and>
     (\<exists>l r. splay_at (spe_left h) (spe_right h) (spe_left h x) l \<and> splay_at (spe_left h) (spe_right h) (spe_right h x) r \<and>
       inorder l = us \<and> inorder r = vs)"

lemma splayed_tree:
  assumes "splayed h us x vs"
  shows "splay_tree h (us @ x # vs)"
proof -
  obtain l r where "splay_at (spe_left h) (spe_right h) (sph_root h) (Node l x r)" "inorder (Node l x r) = us @ x # vs"
    using assms unfolding splayed_def by auto
  then show ?thesis using assms unfolding splay_tree_def splayed_def by blast
qed

lemma splay_tree_empty: "splay_tree h xs \<Longrightarrow> SPLAY_EMPTY h \<longleftrightarrow> xs = []"
  unfolding splay_tree_def SPLAY_EMPTY_def by (metis inorder_Nil splay_at_None splay_at.simps(1))

lemma splay_tree_init: "splay_tree (SPLAY_INIT h) []"
  by (simp add: splay_tree_def SPLAY_INIT_def)

lemma SPLAY_splayed:
  assumes "splay_tree h xs" "xs \<noteq> []" "node \<notin> set xs" "falling c xs"
  obtains h' us x vs where "SPLAY c node h = Some h'" "splayed h' us x vs" "us @ x # vs = xs" "\<forall>y \<in> set us. c y > 0"
    "\<forall>y \<in> set vs. c y < 0" "splay_frame (insert node (set xs)) h h'"
proof -
  obtain t where t: "distinct xs" "splay_at (spe_left h) (spe_right h) (sph_root h) t" "inorder t = xs" "t \<noteq> Leaf" "set_tree t = set xs"
    using assms(1,2) unfolding splay_tree_def by (metis inorder.simps(1) set_inorder)
  let ?h = "h\<lparr>spe_right := (spe_right h)(node := None), spe_left := (spe_left h)(node := None)\<rparr>"
  have "splaying node ?h node node Leaf t Leaf" using t assms(3) by (simp add: splaying_def left_tree_def right_tree_def)
  then obtain h1 lp rp s t' u where h1: "splay_loop c ?h (Some node) (Some node) = Some (h1, Some lp, Some rp)"
    "split_tree c Leaf t Leaf = (s, t', u)" "splaying node h1 lp rp s t' u" "t' \<noteq> Leaf" "splay_frame (insert node (set xs)) ?h h1"
    using splay_loop_at [of node ?h node node Leaf t Leaf c] t(4,5) by (auto simp: parts_def)
  obtain l x r where t': "t' = Node l x r" using h1(4) by (cases t') auto
  obtain h2 where h2: "SPLAY_ASSEMBLE h1 (Some node) (Some lp) (Some rp) = Some h2" "sph_root h2 = Some x"
    "splay_at (spe_left h2) (spe_right h2) (Some x) (Node (graft_r s l) x (graft_l u r))"
    "splay_frame (insert node (insert x (set_tree s \<union> set_tree u))) h1 h2"
    using assemble_at h1(3) t' by metis
  have i: "inorder s @ inorder l @ x # inorder r @ inorder u = xs" using split_tree_inorder [OF h1(2)] t' t(3) by simp
  then have "set xs = set_tree s \<union> set_tree l \<union> insert x (set_tree r \<union> set_tree u)" by auto
  then have f: "splay_frame (insert node (set xs)) h h2" using h1(5) h2(4) by (auto simp: splay_frame_def)
  have "splayed h2 (inorder s @ inorder l) x (inorder r @ inorder u)"
    unfolding splayed_def using h2(2,3) i t(1) by (intro conjI exI [of _ "graft_r s l"] exI [of _ "graft_l u r"]) auto
  moreover have "SPLAY c node h = Some h2"
    using h1(1) h2(1) by (simp add: SPLAY_def splay_access)
  ultimately show thesis
    using split_tree_sides [of c Leaf t Leaf s l x r u] h1(2) t' assms(4) t(3) f i by (intro that) auto
qed

end
