(* ===== verification/Splay_Spec.thy ===== *)
theory Splay_Spec
  imports Splay_Refine
begin

text \<open>
  What the operations of the splay trees of \<^verbatim>\<open>src/tree.h\<close> do to the list of the elements: the same as the operations of the
  red-black trees, and with the element last used at the root.
\<close>

lemma splay_frame_root: "splay_frame A (h\<lparr>sph_root := v\<rparr>) h' = splay_frame A h h'"
  by (simp add: splay_frame_def)

lemma splayed_root: "splayed h us x vs \<Longrightarrow> sph_root h = Some x"
  by (simp add: splayed_def)

lemma find_between:
  assumes "\<forall>y \<in> set us. c y > 0" "\<forall>y \<in> set vs. c y < (0 :: int)"
  shows "List.find (\<lambda>y. c y = 0) (us @ x # vs) = (if c x = 0 then Some x else None)"
proof (cases "c x = 0")
  case True
  then show ?thesis using assms by (simp, intro find_unique) auto
next
  case False
  then show ?thesis using assms by (auto simp: find_None_iff)
qed

lemma SPLAY_FIND_tree:
  assumes "splay_tree h xs" "node \<notin> set xs" "falling c xs"
  shows "\<exists>h'. SPLAY_FIND c node h = Some (List.find (\<lambda>x. c x = 0) xs, h') \<and> splay_tree h' xs"
proof (cases "xs = []")
  case False
  obtain h' us x vs where h': "SPLAY c node h = Some h'" "splayed h' us x vs" "us @ x # vs = xs" "\<forall>y \<in> set us. c y > 0"
    "\<forall>y \<in> set vs. c y < 0" "splay_frame (insert node (set xs)) h h'"
    using SPLAY_splayed [OF assms(1) False assms(2,3)] .
  have "List.find (\<lambda>x. c x = 0) xs = (if c x = 0 then Some x else None)" using find_between [OF h'(4,5)] h'(3) by blast
  then show ?thesis
    using h'(1,3) splayed_tree [OF h'(2)] splayed_root [OF h'(2)] splay_tree_empty [OF assms(1)] False by (simp add: SPLAY_FIND_def)
qed (use assms(1) splay_tree_empty [OF assms(1)] in \<open>simp add: SPLAY_FIND_def\<close>)

section \<open>Insertion and removal\<close>

lemma splay_insert_less:
  assumes "splayed h us x vs" "e \<notin> set (us @ x # vs)"
  shows "splay_tree (h\<lparr>spe_right := (spe_right h)(e := Some x), spe_left := (spe_left h)(e := spe_left h x, x := None), sph_root := Some e\<rparr>)
    (us @ e # x # vs)"
proof -
  obtain l r where lr: "splay_at (spe_left h) (spe_right h) (spe_left h x) l" "splay_at (spe_left h) (spe_right h) (spe_right h x) r"
    "inorder l = us" "inorder r = vs" "distinct (us @ x # vs)" using assms(1) by (auto simp: splayed_def)
  have "x \<notin> set_tree l" "x \<notin> set_tree r" "e \<notin> set_tree l" "e \<notin> set_tree r" "e \<noteq> x" using lr(3-) assms(2) by auto
  then have "splay_at ((spe_left h)(e := spe_left h x, x := None)) ((spe_right h)(e := Some x)) (Some e) (Node l e (Node Leaf x r))"
    using lr(1,2) by simp
  moreover have "inorder (Node l e (Node Leaf x r)) = us @ e # x # vs" using lr by simp
  ultimately show ?thesis using lr(5) assms(2) unfolding splay_tree_def by (intro conjI exI [of _ "Node l e (Node Leaf x r)"]) auto
qed

lemma splay_insert_more:
  assumes "splayed h us x vs" "e \<notin> set (us @ x # vs)"
  shows "splay_tree (h\<lparr>spe_left := (spe_left h)(e := Some x), spe_right := (spe_right h)(e := spe_right h x, x := None), sph_root := Some e\<rparr>)
    (us @ x # e # vs)"
proof -
  obtain l r where lr: "splay_at (spe_left h) (spe_right h) (spe_left h x) l" "splay_at (spe_left h) (spe_right h) (spe_right h x) r"
    "inorder l = us" "inorder r = vs" "distinct (us @ x # vs)" using assms(1) by (auto simp: splayed_def)
  have "x \<notin> set_tree l" "x \<notin> set_tree r" "e \<notin> set_tree l" "e \<notin> set_tree r" "e \<noteq> x" using lr(3-) assms(2) by auto
  then have "splay_at ((spe_left h)(e := Some x)) ((spe_right h)(e := spe_right h x, x := None)) (Some e) (Node (Node l x Leaf) e r)"
    using lr(1,2) by simp
  moreover have "inorder (Node (Node l x Leaf) e r) = us @ x # e # vs" using lr by simp
  ultimately show ?thesis using lr(5) assms(2) unfolding splay_tree_def by (intro conjI exI [of _ "Node (Node l x Leaf) e r"]) auto
qed

text \<open>The new element goes behind the smaller ones.\<close>

definition insert_at :: "(nat \<Rightarrow> int) \<Rightarrow> nat \<Rightarrow> nat list \<Rightarrow> nat list" where
  "insert_at c e xs = takeWhile (\<lambda>y. c y > 0) xs @ e # dropWhile (\<lambda>y. c y > 0) xs"

lemma insert_at_between:
  assumes "\<forall>y \<in> set us. c y > 0" "\<forall>y \<in> set vs. c y < 0"
  shows "insert_at c e (us @ vs) = us @ e # vs"
  using assms unfolding insert_at_def by (cases vs) auto

lemma SPLAY_INSERT_tree:
  assumes "splay_tree h xs" "node \<notin> set xs" "falling c xs" "e \<notin> set xs"
  shows "\<exists>h'. SPLAY_INSERT c node h e = Some (h', List.find (\<lambda>x. c x = 0) xs) \<and>
    splay_tree h' (if \<exists>x \<in> set xs. c x = 0 then xs else insert_at c e xs)"
proof (cases "xs = []")
  case True
  have "splay_at ((spe_left h)(e := None)) ((spe_right h)(e := None)) (Some e) (Node Leaf e Leaf)" by simp
  then show ?thesis
    using splay_tree_empty [OF assms(1)] True
    by (auto simp: SPLAY_INSERT_def splay_access splay_tree_def insert_at_def intro!: exI [of _ "Node Leaf e Leaf"])
next
  case False
  obtain h' us x vs where h': "SPLAY c node h = Some h'" "splayed h' us x vs" "us @ x # vs = xs" "\<forall>y \<in> set us. c y > 0"
    "\<forall>y \<in> set vs. c y < 0" "splay_frame (insert node (set xs)) h h'"
    using SPLAY_splayed [OF assms(1) False assms(2,3)] .
  have x: "sph_root h' = Some x" "\<not> SPLAY_EMPTY h" "e \<noteq> x" "e \<notin> set (us @ x # vs)"
    using splayed_root [OF h'(2)] splay_tree_empty [OF assms(1)] False assms(4) h'(3) by auto
  have f: "List.find (\<lambda>x. c x = 0) xs = (if c x = 0 then Some x else None)" using find_between [OF h'(4,5)] h'(3) by blast
  consider "c x = 0" | "c x < 0" | "c x > 0" by linarith
  then show ?thesis
  proof cases
    case 1
    then show ?thesis using h'(1,3) x f splayed_tree [OF h'(2)] by (auto simp: SPLAY_INSERT_def)
  next
    case 2
    then have "insert_at c e xs = us @ e # x # vs" "\<forall>y \<in> set xs. c y \<noteq> 0"
      using insert_at_between [of us c "x # vs" e] h'(3-5) f by (auto simp: find_None_iff)
    then show ?thesis using 2 h'(1) x f splay_insert_less [OF h'(2) x(4)] by (simp add: SPLAY_INSERT_def splay_access)
  next
    case 3
    then have "insert_at c e xs = us @ x # e # vs" "\<forall>y \<in> set xs. c y \<noteq> 0"
      using insert_at_between [of "us @ [x]" c vs e] h'(3-5) f by (auto simp: find_None_iff)
    then show ?thesis using 3 h'(1) x f splay_insert_more [OF h'(2) x(4)] by (simp add: SPLAY_INSERT_def splay_access)
  qed
qed

text \<open>Removal: the part before the root is splayed once more, which brings its last element to the top, and the rest is put behind that.\<close>

lemma splay_join:
  assumes h: "splayed h us x vs" and us: "us \<noteq> []" "node \<notin> set us" "node \<notin> set vs" "\<forall>y \<in> set us. c y > 0"
  obtains h' y where "SPLAY c node (h\<lparr>sph_root := spe_left h x\<rparr>) = Some h'" "sph_root h' = Some y"
    "splay_tree (h'\<lparr>spe_right := (spe_right h')(y := spe_right h x)\<rparr>) (us @ vs)"
proof -
  obtain l r where lr: "splay_at (spe_left h) (spe_right h) (spe_left h x) l" "splay_at (spe_left h) (spe_right h) (spe_right h x) r"
    "inorder l = us" "inorder r = vs" "distinct (us @ x # vs)" using h by (auto simp: splayed_def)
  have t: "splay_tree (h\<lparr>sph_root := spe_left h x\<rparr>) us" using lr by (auto simp: splay_tree_def)
  have c: "falling c us" using us(4) unfolding falling_def by (induction us) auto
  obtain h' us' y vs' where h': "SPLAY c node (h\<lparr>sph_root := spe_left h x\<rparr>) = Some h'" "splayed h' us' y vs'" "us' @ y # vs' = us"
    "\<forall>z \<in> set us'. c z > 0" "\<forall>z \<in> set vs'. c z < 0" "splay_frame (insert node (set us)) h h'"
    using SPLAY_splayed [OF t us(1,2) c, unfolded splay_frame_root] .
  have "set vs' \<subseteq> set us" using h'(3) by auto
  then have v: "vs' = []" using h'(5) us(4) by (cases vs') fastforce+
  obtain l' where l': "splay_at (spe_left h') (spe_right h') (spe_left h' y) l'" "inorder l' = us'" using h'(2) by (auto simp: splayed_def)
  let ?R = "(spe_right h')(y := spe_right h x)"
  have "y \<notin> set_tree l'" "y \<notin> set_tree r" "y \<in> set us" using h'(3) lr(4,5) l'(2) by auto
  moreover have "\<forall>z \<in> set_tree r. z \<notin> insert node (set us)" using lr(4,5) us(3) by auto
  then have "splay_at (spe_left h') (spe_right h') (spe_right h x) r"
    using h'(6) unfolding splay_frame_def by (intro splay_at_cong [OF lr(2)]) blast
  ultimately have "splay_at (spe_left h') ?R (Some y) (Node l' y r)" "inorder (Node l' y r) = us @ vs"
    using l' h'(3) v lr(4) by auto
  then have "splay_tree (h'\<lparr>spe_right := ?R\<rparr>) (us @ vs)"
    using splayed_root [OF h'(2)] lr(5) unfolding splay_tree_def by (intro conjI exI [of _ "Node l' y r"]) auto
  then show thesis using that h'(1) splayed_root [OF h'(2)] by blast
qed

lemma SPLAY_REMOVE_tree:
  assumes "splay_tree h xs" "node \<notin> set xs" "falling c xs"
  shows "\<exists>h'. SPLAY_REMOVE c node h e = Some (h', if \<exists>x \<in> set xs. c x = 0 then Some e else None) \<and>
    splay_tree h' (filter (\<lambda>x. c x \<noteq> 0) xs)"
proof (cases "xs = []")
  case False
  obtain h' us x vs where h': "SPLAY c node h = Some h'" "splayed h' us x vs" "us @ x # vs = xs" "\<forall>y \<in> set us. c y > 0"
    "\<forall>y \<in> set vs. c y < 0" "splay_frame (insert node (set xs)) h h'"
    using SPLAY_splayed [OF assms(1) False assms(2,3)] .
  have x: "sph_root h' = Some x" "\<not> SPLAY_EMPTY h" using splayed_root [OF h'(2)] splay_tree_empty [OF assms(1)] False by auto
  have f: "filter (\<lambda>y. c y \<noteq> 0) us = us" "filter (\<lambda>y. c y \<noteq> 0) vs = vs" using h'(4,5) by (auto simp: filter_id_conv)
  show ?thesis
  proof (cases "c x = 0")
    case True
    obtain l r where lr: "splay_at (spe_left h') (spe_right h') (spe_left h' x) l" "splay_at (spe_left h') (spe_right h') (spe_right h' x) r"
      "inorder l = us" "inorder r = vs" "distinct (us @ x # vs)" using h'(2) by (auto simp: splayed_def)
    have g: "filter (\<lambda>y. c y \<noteq> 0) xs = us @ vs" "\<exists>y \<in> set xs. c y = 0" using f True h'(3) by auto
    show ?thesis
    proof (cases "us = []")
      case us: True
      then have "splay_tree (h'\<lparr>sph_root := spe_right h' x\<rparr>) (us @ vs)" "spe_left h' x = None" using lr by (auto simp: splay_tree_def)
      then show ?thesis using True x h'(1) g by (simp add: SPLAY_REMOVE_def splay_access)
    next
      case us: False
      have n: "node \<notin> set us" "node \<notin> set vs" using assms(2) h'(3) by auto
      obtain h2 y where "SPLAY c node (h'\<lparr>sph_root := spe_left h' x\<rparr>) = Some h2" "sph_root h2 = Some y"
        "splay_tree (h2\<lparr>spe_right := (spe_right h2)(y := spe_right h' x)\<rparr>) (us @ vs)"
        using splay_join [OF h'(2) us n h'(4)] .
      moreover obtain z where "spe_left h' x = Some z" using lr(1,3) us by (cases l) auto
      ultimately show ?thesis using True x h'(1) g by (simp add: SPLAY_REMOVE_def splay_access)
    qed
  next
    case c: False
    then have "\<forall>y \<in> set xs. c y \<noteq> 0" using h'(3-5) by fastforce
    then have "filter (\<lambda>y. c y \<noteq> 0) xs = xs" "\<not> (\<exists>y \<in> set xs. c y = 0)" by (simp_all add: filter_id_conv)
    then show ?thesis using c x h'(1,3) splayed_tree [OF h'(2)] by (simp add: SPLAY_REMOVE_def)
  qed
qed (use assms(1) splay_tree_empty [OF assms(1)] in \<open>simp add: SPLAY_REMOVE_def\<close>)

section \<open>Walking through the tree\<close>

lemma splay_leftmost_at:
  "splay_at (spe_left h) (spe_right h) p t \<Longrightarrow> t \<noteq> Leaf \<Longrightarrow> splay_leftmost h p = Some (first (inorder t))"
proof (induction t arbitrary: p)
  case (Node l x r)
  then show ?case by (cases "l = Leaf") (auto simp: splay_leftmost.simps [of h "Some x"] splay_access first_append)
qed simp

lemma SPLAY_NEXT_tree:
  assumes "splay_tree h (us @ e # vs)" "node \<notin> set (us @ e # vs)" "falling c (us @ e # vs)" "c e = 0"
  shows "\<exists>h'. SPLAY_NEXT c node h (Some e) = Some (first vs, h') \<and> splay_tree h' (us @ e # vs)"
proof -
  have ne: "us @ e # vs \<noteq> []" by simp
  obtain h' us' x vs' where h': "SPLAY c node h = Some h'" "splayed h' us' x vs'" "us' @ x # vs' = us @ e # vs" "\<forall>y \<in> set us'. c y > 0"
    "\<forall>y \<in> set vs'. c y < 0" "splay_frame (insert node (set (us @ e # vs))) h h'"
    using SPLAY_splayed [OF assms(1) ne assms(2,3)] .
  have "e \<in> set (us' @ x # vs')" unfolding h'(3) by simp
  then have e: "x = e" using h'(4,5) assms(4) by auto
  moreover have "e \<notin> set us'" "e \<notin> set vs'" using h'(2) e by (auto simp: splayed_def)
  ultimately have "vs' = vs" using h'(3) append_Cons_eq_iff [of e us' vs' us vs] by blast
  obtain r where r: "splay_at (spe_left h') (spe_right h') (spe_right h' e) r" "inorder r = vs" using h'(2) e \<open>vs' = vs\<close> by (auto simp: splayed_def)
  then have "SPLAY_NEXT c node h (Some e) = Some (first vs, h')"
    using h'(1) splay_leftmost_at [OF r(1)] by (cases r) (auto simp: SPLAY_NEXT_def splay_access)
  then show ?thesis using splayed_tree [OF h'(2)] h'(3) by simp
qed

text \<open>\<^verbatim>\<open>SPLAY_MINMAX\<close> is \<^verbatim>\<open>SPLAY\<close> with a comparison that always goes the same way.\<close>

lemma minmax_loop_splay:
  "splay_loop c h lp rp = Some q \<Longrightarrow> c = (\<lambda>_. d) \<Longrightarrow> d \<noteq> 0 \<Longrightarrow> splay_minmax_loop d h lp rp = Some q"
proof (induction rule: splay_loop.raw_induct [rotated, consumes 1])
  case (1 loop c h lp rp q)
  have c: "c x = d" for x using "1.prems"(1) by simp
  have ih: "loop c h lp rp = Some q \<Longrightarrow> splay_minmax_loop d h lp rp = Some q" for h lp rp q
    using "1.IH" "1.prems" by blast
  show ?case
  proof (cases "d < 0")
    case True
    then obtain z tmp where "sph_root h = Some z" "SPLAY_LEFT h (Some z) = Some tmp"
      "if tmp = None then q = (h, lp, rp)
       else \<exists>h1 l. SPLAY_ROTATE_RIGHT h tmp = Some h1 \<and> SPLAY_LEFT h1 (sph_root h1) = Some l \<and>
         (if l = None then q = (h1, lp, rp) else \<exists>h2 rp2. SPLAY_LINKLEFT h1 rp = Some (h2, rp2) \<and> loop c h2 lp rp2 = Some q)"
      using "1.hyps" by (auto simp: c Option.bind_eq_Some_conv split: if_splits)
    then show ?thesis using True by (subst splay_minmax_loop.simps) (auto simp: ih split: if_splits)
  next
    case False
    then have "d > 0" using "1.prems"(2) by simp
    then obtain z tmp where "sph_root h = Some z" "SPLAY_RIGHT h (Some z) = Some tmp"
      "if tmp = None then q = (h, lp, rp)
       else \<exists>h1 r. SPLAY_ROTATE_LEFT h tmp = Some h1 \<and> SPLAY_RIGHT h1 (sph_root h1) = Some r \<and>
         (if r = None then q = (h1, lp, rp) else \<exists>h2 lp2. SPLAY_LINKRIGHT h1 lp = Some (h2, lp2) \<and> loop c h2 lp2 rp = Some q)"
      using "1.hyps" by (auto simp: c Option.bind_eq_Some_conv split: if_splits)
    then show ?thesis using \<open>d > 0\<close> by (subst splay_minmax_loop.simps) (auto simp: ih split: if_splits)
  qed
qed

lemma SPLAY_MINMAX_splay:
  assumes "SPLAY (\<lambda>_. d) node h = Some h'" "d \<noteq> 0"
  shows "SPLAY_MINMAX node h d = Some h'"
  using assms minmax_loop_splay [OF _ refl assms(2)] unfolding SPLAY_def SPLAY_MINMAX_def
  by (auto split: bind_splits)

lemma falling_const: "d \<noteq> 0 \<Longrightarrow> falling (\<lambda>_. d) xs"
  unfolding falling_def by (induction xs) auto

lemma SPLAY_MIN_tree:
  assumes "splay_tree h xs" "node \<notin> set xs"
  shows "\<exists>h'. SPLAY_MIN node h = Some (first xs, h') \<and> splay_tree h' xs"
proof (cases "xs = []")
  case False
  have f: "falling (\<lambda>_. -1) xs" by (rule falling_const) simp
  obtain h' us x vs where h': "SPLAY (\<lambda>_. -1) node h = Some h'" "splayed h' us x vs" "us @ x # vs = xs" "\<forall>y \<in> set us. (-1 :: int) > 0"
    "\<forall>y \<in> set vs. (-1 :: int) < 0" "splay_frame (insert node (set xs)) h h'"
    using SPLAY_splayed [OF assms(1) False assms(2) f] .
  then have "us = []" by (cases us) auto
  then show ?thesis
    using h'(3) splayed_tree [OF h'(2)] splayed_root [OF h'(2)] SPLAY_MINMAX_splay [OF h'(1)] splay_tree_empty [OF assms(1)] False
    by (auto simp: SPLAY_MIN_def SPLAY_MIN_MAX_def SPLAY_NEGINF_def)
qed (use assms(1) splay_tree_empty [OF assms(1)] in \<open>simp add: SPLAY_MIN_def\<close>)

lemma SPLAY_MAX_tree:
  assumes "splay_tree h xs" "node \<notin> set xs"
  shows "\<exists>h'. SPLAY_MAX node h = Some (final xs, h') \<and> splay_tree h' xs"
proof (cases "xs = []")
  case False
  have f: "falling (\<lambda>_. 1) xs" by (rule falling_const) simp
  obtain h' us x vs where h': "SPLAY (\<lambda>_. 1) node h = Some h'" "splayed h' us x vs" "us @ x # vs = xs" "\<forall>y \<in> set us. (1 :: int) > 0"
    "\<forall>y \<in> set vs. (1 :: int) < 0" "splay_frame (insert node (set xs)) h h'"
    using SPLAY_splayed [OF assms(1) False assms(2) f] .
  then have "vs = []" by (cases vs) auto
  then show ?thesis
    using h'(3) splayed_tree [OF h'(2)] splayed_root [OF h'(2)] SPLAY_MINMAX_splay [OF h'(1)] splay_tree_empty [OF assms(1)] False
    by (auto simp: SPLAY_MAX_def SPLAY_MIN_MAX_def SPLAY_INF_def)
qed (use assms(1) splay_tree_empty [OF assms(1)] in \<open>simp add: SPLAY_MAX_def\<close>)

text \<open>The loop over all elements visits them in order, although every step rearranges the tree.\<close>

lemma splay_foreach_tree:
  assumes "splay_tree h (us @ vs)" "node \<notin> set (us @ vs)" "\<forall>e \<in> set vs. falling (cmp e) (us @ vs) \<and> cmp e e = 0" "fold_opt body vs s = Some s'"
  shows "\<exists>h'. splay_foreach cmp node body (first vs) h s = Some (h', s') \<and> splay_tree h' (us @ vs)"
  using assms
proof (induction vs arbitrary: us h s)
  case Nil
  then show ?case by (simp add: splay_foreach.simps)
next
  case (Cons e vs)
  obtain s1 where s1: "body e s = Some s1" "fold_opt body vs s1 = Some s'" using Cons.prems(4) by (auto split: bind_splits)
  obtain h1 where h1: "SPLAY_NEXT (cmp e) node h (Some e) = Some (first vs, h1)" "splay_tree h1 (us @ e # vs)"
    using SPLAY_NEXT_tree [OF Cons.prems(1,2), of "cmp e"] Cons.prems(3) by auto
  show ?case
    using Cons.IH [of h1 "us @ [e]" s1] Cons.prems(2,3) h1 s1 by (simp add: splay_foreach.simps [of _ _ _ "Some e"])
qed

lemma SPLAY_FOREACH_tree:
  assumes "splay_tree h xs" "node \<notin> set xs" "\<forall>e \<in> set xs. falling (cmp e) xs \<and> cmp e e = 0" "fold_opt body xs s = Some s'"
  shows "\<exists>h'. SPLAY_FOREACH cmp node body h s = Some (h', s') \<and> splay_tree h' xs"
  using SPLAY_MIN_tree [OF assms(1,2)] splay_foreach_tree [of _ "[]" xs node cmp body s s'] assms(2-)
  by (fastforce simp: SPLAY_FOREACH_def)

end
