(* ===== verification/Tree_H.thy ===== *)
theory Tree_H
  imports Splay_Spec
begin

text \<open>
  The two kinds of trees of \<^verbatim>\<open>src/tree.h\<close> side by side. The locale \<open>ordered_tree\<close> is what a user of either relies on; its
  client lemma says that a sequence of operations answers as a finite map from keys to elements does.
\<close>

section \<open>Maps\<close>

datatype tree_op = Insert nat | Erase nat | Find nat | Least | Greatest

text \<open>The answer of an operation and the map after it.\<close>

fun tree_op_spec :: "(nat \<Rightarrow> 'k::linorder) \<Rightarrow> tree_op \<Rightarrow> ('k \<rightharpoonup> nat) \<Rightarrow> ptr \<times> ('k \<rightharpoonup> nat)" where
  "tree_op_spec key (Insert e) M = (M (key e), if M (key e) = None then M(key e \<mapsto> e) else M)"
| "tree_op_spec key (Erase e) M = (Some e, M(key e := None))"
| "tree_op_spec key (Find e) M = (M (key e), M)"
| "tree_op_spec key Least M = (if dom M = {} then None else M (Min (dom M)), M)"
| "tree_op_spec key Greatest M = (if dom M = {} then None else M (Max (dom M)), M)"

fun tree_ops_spec :: "(nat \<Rightarrow> 'k::linorder) \<Rightarrow> tree_op list \<Rightarrow> ('k \<rightharpoonup> nat) \<Rightarrow> ptr list \<times> ('k \<rightharpoonup> nat)" where
  "tree_ops_spec key [] M = ([], M)"
| "tree_ops_spec key (p # ps) M = (let (r, M) = tree_op_spec key p M; (rs, M) = tree_ops_spec key ps M in (r # rs, M))"

text \<open>What the macros expect of the caller: an element to insert is in no tree, one to remove is in the tree.\<close>

fun tree_op_ok :: "(nat \<Rightarrow> bool) \<Rightarrow> (nat \<Rightarrow> 'k::linorder) \<Rightarrow> tree_op \<Rightarrow> ('k \<rightharpoonup> nat) \<Rightarrow> bool" where
  "tree_op_ok ok key (Insert e) M \<longleftrightarrow> ok e \<and> e \<notin> ran M"
| "tree_op_ok ok key (Erase e) M \<longleftrightarrow> M (key e) = Some e"
| "tree_op_ok ok key (Find e) M \<longleftrightarrow> ok e"
| "tree_op_ok ok key Least M \<longleftrightarrow> True"
| "tree_op_ok ok key Greatest M \<longleftrightarrow> True"

fun tree_ops_ok :: "(nat \<Rightarrow> bool) \<Rightarrow> (nat \<Rightarrow> 'k::linorder) \<Rightarrow> tree_op list \<Rightarrow> ('k \<rightharpoonup> nat) \<Rightarrow> bool" where
  "tree_ops_ok ok key [] M \<longleftrightarrow> True"
| "tree_ops_ok ok key (p # ps) M \<longleftrightarrow> tree_op_ok ok key p M \<and> tree_ops_ok ok key ps (snd (tree_op_spec key p M))"

fun run_tree_ops :: "(tree_op \<Rightarrow> 's \<Rightarrow> (ptr \<times> 's) option) \<Rightarrow> tree_op list \<Rightarrow> 's \<Rightarrow> (ptr list \<times> 's) option" where
  "run_tree_ops f [] s = Some ([], s)"
| "run_tree_ops f (p # ps) s = do { (r, s) \<leftarrow> f p s; (rs, s) \<leftarrow> run_tree_ops f ps s; Some (r # rs, s) }"

definition key_map :: "(nat \<Rightarrow> 'k) \<Rightarrow> nat list \<Rightarrow> 'k \<rightharpoonup> nat" where
  "key_map key xs = map_of (map (\<lambda>x. (key x, x)) xs)"

text \<open>The elements of the list in the order of their keys.\<close>

definition holds_map :: "(nat \<Rightarrow> bool) \<Rightarrow> (nat \<Rightarrow> 'k::linorder) \<Rightarrow> ('s \<Rightarrow> nat list \<Rightarrow> bool) \<Rightarrow> 's \<Rightarrow> ('k \<rightharpoonup> nat) \<Rightarrow> bool" where
  "holds_map ok key holds s M \<longleftrightarrow>
     (\<exists>xs. holds s xs \<and> sorted_wrt (\<lambda>x y. key x < key y) xs \<and> (\<forall>x \<in> set xs. ok x) \<and> M = key_map key xs)"

lemma key_map_find: "key_map key xs k = List.find (\<lambda>x. key x = k) xs"
  by (induction xs) (auto simp: key_map_def)

lemma dom_key_map [simp]: "dom (key_map key xs) = key ` set xs"
  by (simp add: key_map_def dom_map_of_conv_image_fst image_image)

lemma key_map_mem: "sorted_wrt (\<lambda>x y. key x < (key y :: 'k::linorder)) xs \<Longrightarrow> e \<in> set xs \<Longrightarrow> key_map key xs (key e) = Some e"
  by (induction xs) (auto simp: key_map_def)

lemma ran_key_map:
  assumes "sorted_wrt (\<lambda>x y. key x < (key y :: 'k::linorder)) xs"
  shows "ran (key_map key xs) = set xs"
proof
  show "ran (key_map key xs) \<subseteq> set xs" by (auto simp: ran_def key_map_find find_Some_iff)
  show "set xs \<subseteq> ran (key_map key xs)" using key_map_mem [OF assms] by (auto simp: ran_def)
qed

lemma key_map_insert: "key e \<notin> key ` set us \<Longrightarrow> key_map key (us @ e # vs) = (key_map key (us @ vs))(key e \<mapsto> e)"
  by (induction us) (auto simp: key_map_def fun_upd_twist)

lemma key_map_remove:
  assumes "sorted_wrt (\<lambda>x y. key x < (key y :: 'k::linorder)) (us @ e # vs)"
  shows "key_map key (us @ vs) = (key_map key (us @ e # vs))(key e := None)"
proof -
  have "key e \<notin> key ` set us" "key_map key (us @ vs) (key e) = None"
    using assms by (auto simp: sorted_wrt_append key_map_find find_None_iff)
  then show ?thesis by (simp add: key_map_insert fun_upd_idem)
qed

lemma key_map_ends:
  assumes "sorted_wrt (\<lambda>x y. key x < (key y :: 'k::linorder)) xs" "xs \<noteq> []"
  shows "key_map key xs (Min (key ` set xs)) = first xs" "key_map key xs (Max (key ` set xs)) = final xs"
proof -
  obtain x ys where x: "xs = x # ys" using assms(2) by (cases xs) auto
  then have "Min (key ` set xs) = key x" using assms(1) by (intro Min_eqI) (auto intro: less_imp_le)
  then show "key_map key xs (Min (key ` set xs)) = first xs" using key_map_mem [OF assms(1)] x by simp
  obtain z zs where z: "xs = zs @ [z]" using assms(2) by (cases xs rule: rev_cases) auto
  then have "Max (key ` set xs) = key z" using assms(1) by (intro Max_eqI) (auto simp: sorted_wrt_append intro: less_imp_le)
  then show "key_map key xs (Max (key ` set xs)) = final xs" using key_map_mem [OF assms(1)] z by simp
qed

lemma sorted_insert:
  assumes "sorted_wrt (\<lambda>x y. key x < (key y :: 'k::linorder)) xs" "key e \<notin> key ` set xs"
  shows "sorted_wrt (\<lambda>x y. key x < key y) (takeWhile (\<lambda>y. key y < key e) xs @ e # dropWhile (\<lambda>y. key y < key e) xs)"
  using assms
proof (induction xs)
  case (Cons x xs)
  then show ?case using set_takeWhileD [of _ "\<lambda>y. key y < key e" xs] set_dropWhileD [of _ "\<lambda>y. key y < key e" xs] by fastforce
qed simp

lemma holds_map_insert:
  assumes "sorted_wrt (\<lambda>x y. key x < (key y :: 'k::linorder)) xs" "\<forall>x \<in> set xs. ok x" "ok e" "key_map key xs (key e) = None"
    "holds s (takeWhile (\<lambda>y. key y < key e) xs @ e # dropWhile (\<lambda>y. key y < key e) xs)"
  shows "holds_map ok key holds s ((key_map key xs)(key e \<mapsto> e))"
proof -
  let ?us = "takeWhile (\<lambda>y. key y < key e) xs" and ?vs = "dropWhile (\<lambda>y. key y < key e) xs"
  have n: "key e \<notin> key ` set xs" using assms(4) dom_key_map [of key xs] by blast
  then have "key_map key (?us @ e # ?vs) = (key_map key xs)(key e \<mapsto> e)"
    using key_map_insert [of key e ?us ?vs] by (auto dest: set_takeWhileD)
  moreover have "\<forall>x \<in> set (?us @ e # ?vs). ok x" using assms(2,3) by (auto dest: set_takeWhileD set_dropWhileD)
  ultimately show ?thesis using sorted_insert [OF assms(1) n] assms(5) unfolding holds_map_def by metis
qed

section \<open>The interface\<close>

text \<open>\<open>cmp e\<close> is the comparison function with its first argument, the element \<open>e\<close>.\<close>

fun run_tree_op ::
  "((nat \<Rightarrow> int) \<Rightarrow> nat \<Rightarrow> 's \<Rightarrow> (ptr \<times> 's) option) \<Rightarrow> ((nat \<Rightarrow> int) \<Rightarrow> nat \<Rightarrow> 's \<Rightarrow> (ptr \<times> 's) option) \<Rightarrow>
   ((nat \<Rightarrow> int) \<Rightarrow> 's \<Rightarrow> (ptr \<times> 's) option) \<Rightarrow> ('s \<Rightarrow> (ptr \<times> 's) option) \<Rightarrow> ('s \<Rightarrow> (ptr \<times> 's) option) \<Rightarrow>
   (nat \<Rightarrow> nat \<Rightarrow> int) \<Rightarrow> tree_op \<Rightarrow> 's \<Rightarrow> (ptr \<times> 's) option" where
  "run_tree_op ins del fnd least greatest cmp (Insert e) s = ins (cmp e) e s"
| "run_tree_op ins del fnd least greatest cmp (Erase e) s = del (cmp e) e s"
| "run_tree_op ins del fnd least greatest cmp (Find e) s = fnd (cmp e) s"
| "run_tree_op ins del fnd least greatest cmp Least s = least s"
| "run_tree_op ins del fnd least greatest cmp Greatest s = greatest s"

locale ordered_tree =
  fixes ok :: "nat \<Rightarrow> bool" and holds :: "'s \<Rightarrow> nat list \<Rightarrow> bool"
    and insert_op :: "(nat \<Rightarrow> int) \<Rightarrow> nat \<Rightarrow> 's \<Rightarrow> (ptr \<times> 's) option"
    and erase_op :: "(nat \<Rightarrow> int) \<Rightarrow> nat \<Rightarrow> 's \<Rightarrow> (ptr \<times> 's) option"
    and find_op :: "(nat \<Rightarrow> int) \<Rightarrow> 's \<Rightarrow> (ptr \<times> 's) option"
    and least_op :: "'s \<Rightarrow> (ptr \<times> 's) option" and greatest_op :: "'s \<Rightarrow> (ptr \<times> 's) option"
  assumes insert_law: "holds s xs \<Longrightarrow> \<forall>x \<in> set xs. ok x \<Longrightarrow> falling c xs \<Longrightarrow> ok e \<Longrightarrow> e \<notin> set xs \<Longrightarrow>
      \<exists>s'. insert_op c e s = Some (List.find (\<lambda>x. c x = 0) xs, s') \<and> holds s' (if \<exists>x \<in> set xs. c x = 0 then xs else insert_at c e xs)"
    and erase_law: "holds s (us @ e # vs) \<Longrightarrow> \<forall>x \<in> set (us @ e # vs). ok x \<Longrightarrow> falling c (us @ e # vs) \<Longrightarrow> c e = 0 \<Longrightarrow>
      \<exists>s'. erase_op c e s = Some (Some e, s') \<and> holds s' (us @ vs)"
    and find_law: "holds s xs \<Longrightarrow> \<forall>x \<in> set xs. ok x \<Longrightarrow> falling c xs \<Longrightarrow>
      \<exists>s'. find_op c s = Some (List.find (\<lambda>x. c x = 0) xs, s') \<and> holds s' xs"
    and least_law: "holds s xs \<Longrightarrow> \<forall>x \<in> set xs. ok x \<Longrightarrow> \<exists>s'. least_op s = Some (first xs, s') \<and> holds s' xs"
    and greatest_law: "holds s xs \<Longrightarrow> \<forall>x \<in> set xs. ok x \<Longrightarrow> \<exists>s'. greatest_op s = Some (final xs, s') \<and> holds s' xs"
begin

lemma key_facts:
  assumes "sorted_wrt (\<lambda>x y. key x < key y) xs" "\<forall>x \<in> set xs. ok x" "key_order cmp key ok" "ok e"
  shows "falling (cmp e) xs" "\<forall>x \<in> set xs. cmp e x = 0 \<longleftrightarrow> key x = key e" "List.find (\<lambda>x. cmp e x = 0) xs = key_map key xs (key e)"
proof -
  show "falling (cmp e) xs" using key_order.falling_cmp [OF assms(3), where kf = "\<lambda>x. x", OF assms(1,2,4)] .
  show z: "\<forall>x \<in> set xs. cmp e x = 0 \<longleftrightarrow> key x = key e" using key_order.cmp_zero [OF assms(3,4)] assms(2) by auto
  show "List.find (\<lambda>x. cmp e x = 0) xs = key_map key xs (key e)" using z unfolding key_map_find by (intro find_cong) auto
qed

lemma insert_refines:
  assumes xs: "holds s xs" "sorted_wrt (\<lambda>x y. key x < key y) xs" "\<forall>x \<in> set xs. ok x" and k: "key_order cmp key ok" and e: "ok e" "e \<notin> set xs"
  defines "M \<equiv> key_map key xs"
  obtains s' where "insert_op (cmp e) e s = Some (M (key e), s')" "holds_map ok key holds s' (if M (key e) = None then M(key e \<mapsto> e) else M)"
proof -
  note f = key_facts [OF xs(2,3) k e(1), folded M_def]
  have i: "insert_at (cmp e) e xs = takeWhile (\<lambda>y. key y < key e) xs @ e # dropWhile (\<lambda>y. key y < key e) xs"
    unfolding insert_at_def using xs(3) e(1) key_order.cmp_greater [OF k] by (simp cong: takeWhile_cong dropWhile_cong)
  have m: "(\<exists>x \<in> set xs. cmp e x = 0) \<longleftrightarrow> M (key e) \<noteq> None" using f(2) by (auto simp: M_def key_map_find find_None_iff)
  obtain s' where s': "insert_op (cmp e) e s = Some (M (key e), s')"
    "holds s' (if M (key e) \<noteq> None then xs else takeWhile (\<lambda>y. key y < key e) xs @ e # dropWhile (\<lambda>y. key y < key e) xs)"
    using insert_law [OF xs(1,3) f(1) e] unfolding f(3) m i by blast
  have "holds_map ok key holds s' (if M (key e) = None then M(key e \<mapsto> e) else M)"
  proof (cases "M (key e)")
    case None
    then show ?thesis using holds_map_insert [of key xs ok e holds s'] xs e(1) s'(2) by (simp add: M_def)
  next
    case (Some x)
    then show ?thesis using s'(2) xs unfolding holds_map_def M_def by auto
  qed
  then show thesis using that s'(1) by blast
qed

lemma run_op_refines:
  assumes "holds_map ok key holds s M" "tree_op_ok ok key p M" "key_order cmp key ok"
  shows "\<exists>s'. run_tree_op insert_op erase_op find_op least_op greatest_op cmp p s = Some (fst (tree_op_spec key p M), s') \<and>
    holds_map ok key holds s' (snd (tree_op_spec key p M))"
proof -
  obtain xs where xs: "holds s xs" "sorted_wrt (\<lambda>x y. key x < key y) xs" "\<forall>x \<in> set xs. ok x" "M = key_map key xs"
    using assms(1) unfolding holds_map_def by blast
  note f = key_facts [OF xs(2,3) assms(3), folded xs(4)]
  show ?thesis
  proof (cases p)
    case (Insert e)
    have e: "ok e" "e \<notin> set xs" using assms(2) ran_key_map [OF xs(2)] xs(4) Insert by auto
    obtain s' where "insert_op (cmp e) e s = Some (M (key e), s')" "holds_map ok key holds s' (if M (key e) = None then M(key e \<mapsto> e) else M)"
      unfolding xs(4) by (rule insert_refines [OF xs(1-3) assms(3) e])
    then show ?thesis using Insert by simp
  next
    case (Erase e)
    then have "e \<in> set xs" using assms(2) xs(4) by (auto simp: key_map_find find_Some_iff)
    then obtain us vs where u: "xs = us @ e # vs" by (meson split_list)
    then have e: "ok e" "cmp e e = 0" using xs(3) f(2) [of e] by auto
    have "sorted_wrt (\<lambda>x y. key x < key y) (us @ vs)" "key_map key (us @ vs) = M(key e := None)"
      using xs(2,4) key_map_remove u by (auto simp: sorted_wrt_append)
    then show ?thesis
      using erase_law [OF xs(1) [unfolded u] xs(3) [unfolded u] f(1) [OF e(1), unfolded u] e(2)] xs(3) Erase u
      by (fastforce simp: holds_map_def)
  next
    case (Find e)
    then show ?thesis using find_law [OF xs(1,3) f(1), of e] f(3) [of e] assms(2) xs by (auto simp: holds_map_def)
  next
    case Least
    then show ?thesis using least_law [OF xs(1,3)] key_map_ends(1) [OF xs(2)] xs by (auto simp: holds_map_def)
  next
    case Greatest
    then show ?thesis using greatest_law [OF xs(1,3)] key_map_ends(2) [OF xs(2)] xs by (auto simp: holds_map_def)
  qed
qed

lemma ops_refine:
  assumes "key_order cmp key ok"
  shows "holds_map ok key holds s M \<Longrightarrow> tree_ops_ok ok key ps M \<Longrightarrow>
    \<exists>s'. run_tree_ops (run_tree_op insert_op erase_op find_op least_op greatest_op cmp) ps s = Some (fst (tree_ops_spec key ps M), s') \<and>
      holds_map ok key holds s' (snd (tree_ops_spec key ps M))"
proof (induction ps arbitrary: s M)
  case (Cons p ps)
  obtain r N where p: "tree_op_spec key p M = (r, N)" by force
  obtain s1 where s1: "run_tree_op insert_op erase_op find_op least_op greatest_op cmp p s = Some (r, s1)" "holds_map ok key holds s1 N"
    using run_op_refines [OF Cons.prems(1) _ assms, of p] Cons.prems(2) p by auto
  show ?case using Cons.IH [OF s1(2)] Cons.prems(2) s1(1) p by (auto simp: split_beta)
qed simp

end

section \<open>Both kinds provide it\<close>

text \<open>The elements of a splay tree are not the local variable at address \<open>node\<close>; \<^verbatim>\<open>RB_REMOVE\<close> returns its
  argument, which is not part of its definition and is added here.\<close>

abbreviation "rb_insert_op c e h \<equiv> map_option prod.swap (RB_INSERT c h e)"
abbreviation "rb_erase_op (c :: nat \<Rightarrow> int) e h \<equiv> map_option (Pair (Some e)) (RB_REMOVE h (Some e))"
abbreviation "rb_find_op c h \<equiv> map_option (\<lambda>r. (r, h)) (RB_FIND c h)"
abbreviation "rb_least_op h \<equiv> map_option (\<lambda>r. (r, h)) (RB_MIN h)"
abbreviation "rb_greatest_op h \<equiv> map_option (\<lambda>r. (r, h)) (RB_MAX h)"
abbreviation "splay_insert_op node c e h \<equiv> map_option prod.swap (SPLAY_INSERT c node h e)"
abbreviation "splay_erase_op node c e h \<equiv> map_option prod.swap (SPLAY_REMOVE c node h e)"

interpretation rb: ordered_tree ok rb_tree rb_insert_op rb_erase_op rb_find_op rb_least_op rb_greatest_op for ok
proof
  fix h xs c e
  assume a: "rb_tree h xs" "falling c xs" "e \<notin> set xs"
  show "\<exists>h'. rb_insert_op c e h = Some (List.find (\<lambda>x. c x = 0) xs, h') \<and>
    rb_tree h' (if \<exists>x \<in> set xs. c x = 0 then xs else insert_at c e xs)"
  proof (cases "List.find (\<lambda>x. c x = 0) xs")
    case None
    then have z: "\<forall>x \<in> set xs. c x \<noteq> 0" by (simp add: find_None_iff)
    obtain h' us vs where "RB_INSERT c h e = Some (h', None)" "rb_tree h' (us @ e # vs)" "xs = us @ vs"
      "\<forall>y \<in> set us. c y > 0" "\<forall>y \<in> set vs. c y < 0"
      using rb_tree_insert_miss [OF a(1,2) z a(3)] .
    then show ?thesis using None z insert_at_between [of us c vs e] by auto
  next
    case (Some x)
    then have "x \<in> set xs" "c x = 0" by (auto simp: find_Some_iff)
    then show ?thesis using rb_tree_insert_hit [OF a(1,2)] a(1) Some by auto
  qed
next
  fix h us e vs c
  assume "rb_tree h (us @ e # vs)"
  moreover from this have "remove1 e (us @ e # vs) = us @ vs" using rb_tree_distinct by (fastforce simp: remove1_append)
  ultimately show "\<exists>h'. rb_erase_op c e h = Some (Some e, h') \<and> rb_tree h' (us @ vs)"
    using rb_tree_remove [of h "us @ e # vs" e] by auto
qed (simp_all add: rb_tree_find rb_tree_min rb_tree_max)

interpretation splay: ordered_tree "\<lambda>e. e \<noteq> node" splay_tree "splay_insert_op node" "splay_erase_op node"
  "\<lambda>c. SPLAY_FIND c node" "SPLAY_MIN node" "SPLAY_MAX node" for node
proof
  fix h us e vs c
  assume a: "splay_tree h (us @ e # vs)" "\<forall>x \<in> set (us @ e # vs). x \<noteq> node" "falling c (us @ e # vs)" "c e = 0"
  have "filter (\<lambda>x. c x \<noteq> 0) (us @ e # vs) = us @ vs"
    using a(3,4) by (auto simp: falling_def sorted_wrt_append filter_id_conv less_imp_neq)
  then show "\<exists>h'. splay_erase_op node c e h = Some (Some e, h') \<and> splay_tree h' (us @ vs)"
    using SPLAY_REMOVE_tree [OF a(1) _ a(3), of node e] a(2,4) by auto
next
  fix h xs c e
  assume a: "splay_tree h xs" "\<forall>x \<in> set xs. x \<noteq> node" "falling c xs" "e \<notin> set xs"
  show "\<exists>h'. splay_insert_op node c e h = Some (List.find (\<lambda>x. c x = 0) xs, h') \<and>
    splay_tree h' (if \<exists>x \<in> set xs. c x = 0 then xs else insert_at c e xs)"
  proof -
    obtain h' where "SPLAY_INSERT c node h e = Some (h', List.find (\<lambda>x. c x = 0) xs)"
      "splay_tree h' (if \<exists>x \<in> set xs. c x = 0 then xs else insert_at c e xs)"
      using SPLAY_INSERT_tree [OF a(1) _ a(3,4), of node] a(2) by blast
    then show ?thesis by (intro exI [of _ h']) simp
  qed
next
  fix h xs c
  assume a: "splay_tree h xs" "\<forall>x \<in> set xs. x \<noteq> node"
  then have n: "node \<notin> set xs" by blast
  show "falling c xs \<Longrightarrow> \<exists>h'. SPLAY_FIND c node h = Some (List.find (\<lambda>x. c x = 0) xs, h') \<and> splay_tree h' xs"
    by (rule SPLAY_FIND_tree [OF a(1) n])
  show "\<exists>h'. SPLAY_MIN node h = Some (first xs, h') \<and> splay_tree h' xs" "\<exists>h'. SPLAY_MAX node h = Some (final xs, h') \<and> splay_tree h' xs"
    using SPLAY_MIN_tree [OF a(1) n] SPLAY_MAX_tree [OF a(1) n] by blast+
qed

text \<open>C19: The two kinds of trees answer alike. In any sequence of insertions, removals, lookups and requests for the smallest and the
  largest element, in which a new element is in no tree and an element to remove is in the tree, a red-black tree and a splay tree with
  the same elements, under a comparison that orders their keys, follow no NULL pointer and end their loops, and the answers of both
  are those of a finite map from keys to elements; afterwards both hold what the map holds. The local variable of the splay operation, at address \<open>node\<close>, is not an element.\<close>

theorem trees_answer_alike:
  fixes key :: "nat \<Rightarrow> 'k::linorder"
  assumes "tree_ops_ok (\<lambda>e. e \<noteq> node) key ps M" "\<forall>e x. (cmp e x < 0 \<longleftrightarrow> key e < key x) \<and> (cmp e x > 0 \<longleftrightarrow> key e > key x)"
    "holds_map (\<lambda>e. e \<noteq> node) key rb_tree h M" "holds_map (\<lambda>e. e \<noteq> node) key splay_tree h' M"
  shows "\<exists>g g'. run_tree_ops (run_tree_op rb_insert_op rb_erase_op rb_find_op rb_least_op rb_greatest_op cmp) ps h =
      Some (fst (tree_ops_spec key ps M), g) \<and>
    run_tree_ops (run_tree_op (splay_insert_op node) (splay_erase_op node) (\<lambda>c. SPLAY_FIND c node) (SPLAY_MIN node) (SPLAY_MAX node) cmp) ps h' =
      Some (fst (tree_ops_spec key ps M), g') \<and>
    holds_map (\<lambda>e. e \<noteq> node) key rb_tree g (snd (tree_ops_spec key ps M)) \<and>
    holds_map (\<lambda>e. e \<noteq> node) key splay_tree g' (snd (tree_ops_spec key ps M))"
proof -
  have "key_order cmp key (\<lambda>e. e \<noteq> node)" using assms(2) by unfold_locales auto
  then show ?thesis using rb.ops_refine [OF _ assms(3,1)] splay.ops_refine [OF _ assms(4,1)] by blast
qed

lemma trees_answer_alike_witness:
  "\<exists>g g'. run_tree_ops (run_tree_op rb_insert_op rb_erase_op rb_find_op rb_least_op rb_greatest_op (\<lambda>e x. int e - int x))
      [Insert 5, Insert 3, Insert 8, Find 3, Least, Erase 5, Greatest, Find 5] (RB_INIT \<lparr>rbh_root = None, links = \<lambda>_. rb_entry_zero\<rparr>) =
      Some ([None, None, None, Some 3, Some 3, Some 5, Some 8, None], g) \<and>
    run_tree_ops (run_tree_op (splay_insert_op 99) (splay_erase_op 99) (\<lambda>c. SPLAY_FIND c 99) (SPLAY_MIN 99) (SPLAY_MAX 99) (\<lambda>e x. int e - int x))
      [Insert 5, Insert 3, Insert 8, Find 3, Least, Erase 5, Greatest, Find 5] (SPLAY_INIT \<lparr>sph_root = None, spe_left = \<lambda>_. None, spe_right = \<lambda>_. None\<rparr>) =
      Some ([None, None, None, Some 3, Some 3, Some 5, Some 8, None], g')"
proof -
  let ?ps = "[Insert 5, Insert 3, Insert 8, Find 3, Least, Erase 5, Greatest, Find 5]"
  let ?h = "RB_INIT \<lparr>rbh_root = None, links = \<lambda>_. rb_entry_zero\<rparr>"
  let ?g = "SPLAY_INIT \<lparr>sph_root = None, spe_left = \<lambda>_. None, spe_right = \<lambda>_. None\<rparr>"
  have "tree_ops_ok (\<lambda>e. e \<noteq> 99) (\<lambda>x. x) ?ps Map.empty" by (simp add: ran_def)
  moreover have "holds_map (\<lambda>e. e \<noteq> 99) (\<lambda>x. x) rb_tree ?h Map.empty" "holds_map (\<lambda>e. e \<noteq> 99) (\<lambda>x. x) splay_tree ?g Map.empty"
    using rb_tree_init splay_tree_init by (auto simp: holds_map_def key_map_def intro!: exI [of _ "[]"])
  moreover have "fst (tree_ops_spec (\<lambda>x. x) ?ps Map.empty) = [None, None, None, Some 3, Some 3, Some 5, Some 8, None]" by simp
  ultimately show ?thesis
    using trees_answer_alike [of 99 "\<lambda>x. x" ?ps Map.empty "\<lambda>e x. int e - int x" ?h ?g] by auto
qed

section \<open>The depth of a red-black tree\<close>

text \<open>C26: The height bound of the comment in \<^verbatim>\<open>tree.h\<close>. After any sequence of operations on a red-black tree that was
  initialised as empty, in which a new element is not in the tree and an element to remove is, the parent pointers lead from every
  element of the tree of \<open>n\<close> elements to the root over at most \<open>2 lg (n + 1)\<close> nodes, whatever the order of the operations.\<close>

theorem rb_height_bound:
  fixes key :: "nat \<Rightarrow> 'k::linorder"
  assumes "tree_ops_ok (\<lambda>_. True) key ps Map.empty" "\<forall>e x. (cmp e x < 0 \<longleftrightarrow> key e < key x) \<and> (cmp e x > 0 \<longleftrightarrow> key e > key x)"
  shows "\<exists>rs h' S. run_tree_ops (run_tree_op rb_insert_op rb_erase_op rb_find_op rb_least_op rb_greatest_op cmp) ps (RB_INIT h) = Some (rs, h') \<and>
    S = ran (snd (tree_ops_spec key ps Map.empty)) \<and>
    (\<forall>x \<in> S. \<exists>n. up_steps h' n (Some x) = Some None \<and> 2 ^ n \<le> (Suc (card S)) ^ 2)"
proof -
  have "key_order cmp key (\<lambda>_. True)" using assms(2) by unfold_locales auto
  moreover have "holds_map (\<lambda>_. True) key rb_tree (RB_INIT h) Map.empty"
    using rb_tree_init by (auto simp: holds_map_def key_map_def intro!: exI [of _ "[]"])
  ultimately obtain h' where h': "run_tree_ops (run_tree_op rb_insert_op rb_erase_op rb_find_op rb_least_op rb_greatest_op cmp) ps (RB_INIT h) =
      Some (fst (tree_ops_spec key ps Map.empty), h')" "holds_map (\<lambda>_. True) key rb_tree h' (snd (tree_ops_spec key ps Map.empty))"
    using rb.ops_refine [OF _ _ assms(1)] by blast
  then obtain xs where xs: "rb_tree h' xs" "sorted_wrt (\<lambda>x y. key x < key y) xs" "snd (tree_ops_spec key ps Map.empty) = key_map key xs"
    unfolding holds_map_def by blast
  have "ran (snd (tree_ops_spec key ps Map.empty)) = set xs" "card (set xs) = length xs"
    using ran_key_map [OF xs(2)] xs(3) rb_tree_distinct [OF xs(1)] by (simp_all add: distinct_card)
  then show ?thesis using h'(1) rb_tree_height [OF xs(1)] by auto
qed

lemma rb_height_bound_witness:
  "\<exists>rs h'. run_tree_ops (run_tree_op rb_insert_op rb_erase_op rb_find_op rb_least_op rb_greatest_op (\<lambda>e x. int e - int x))
      [Insert 1, Insert 2, Insert 3, Insert 4, Erase 2] (RB_INIT \<lparr>rbh_root = None, links = \<lambda>_. rb_entry_zero\<rparr>) = Some (rs, h') \<and>
    (\<exists>n. up_steps h' n (Some 4) = Some None \<and> 2 ^ n \<le> (16 :: nat))"
proof -
  let ?ps = "[Insert 1, Insert 2, Insert 3, Insert 4, Erase 2]"
  let ?h = "\<lparr>rbh_root = None, links = \<lambda>_. rb_entry_zero\<rparr>" and ?S = "ran (snd (tree_ops_spec (\<lambda>x. x) ?ps Map.empty))"
  have ok: "tree_ops_ok (\<lambda>_. True) (\<lambda>x. x) ?ps Map.empty" by (simp add: ran_def)
  have cmp: "\<forall>e x. (int e - int x < 0 \<longleftrightarrow> e < x) \<and> (int e - int x > 0 \<longleftrightarrow> e > x)" by simp
  have "snd (tree_ops_spec (\<lambda>x. x) ?ps Map.empty) = [1 \<mapsto> 1, 3 \<mapsto> 3, 4 \<mapsto> 4 :: nat]" by (rule ext) simp
  then have S: "?S = {4, 3, 1}" by simp
  obtain rs h' where h': "run_tree_ops (run_tree_op rb_insert_op rb_erase_op rb_find_op rb_least_op rb_greatest_op (\<lambda>e x. int e - int x)) ?ps (RB_INIT ?h) = Some (rs, h')"
    "\<forall>x \<in> ?S. \<exists>n. up_steps h' n (Some x) = Some None \<and> 2 ^ n \<le> (Suc (card ?S)) ^ 2"
    using rb_height_bound [OF ok cmp, of ?h] by (elim exE conjE) (rule that, assumption, simp only:)
  have "\<exists>n. up_steps h' n (Some 4) = Some None \<and> 2 ^ n \<le> (16 :: nat)" using bspec [OF h'(2) [unfolded S], of 4] by (simp add: eval_nat_numeral)
  then show ?thesis using h'(1) by blast
qed

end
