(* ===== verification/Wire.thy ===== *)
theory Wire
  imports Xs_Prelude
begin

text \<open>
  Bytes and integers in memory. The host is little-endian (the platform directory is
  \<^verbatim>\<open>src/linux\<close>, built for x86-64): an integer field of a packed struct is loaded and stored with the
  low byte first, and \<^verbatim>\<open>htons\<close>, \<^verbatim>\<open>htonl\<close> and their inverses swap the bytes. Buffers are byte lists;
  an access outside a buffer is \<open>None\<close>. The small helpers of \<^verbatim>\<open>include/xstack_util.h\<close> and the error
  numbers the stack returns are here too.
\<close>

section \<open>Loads, stores and byte order\<close>

definition load16 :: "byte \<Rightarrow> byte \<Rightarrow> u16" where
  "load16 a b = ucast a OR push_bit 8 (ucast b)"

definition load32 :: "byte \<Rightarrow> byte \<Rightarrow> byte \<Rightarrow> byte \<Rightarrow> u32" where
  "load32 a b c d = ucast (load16 a b) OR push_bit 16 (ucast (load16 c d))"

definition store16 :: "u16 \<Rightarrow> bytes" where
  "store16 w = [ucast w, ucast (drop_bit 8 w)]"

definition store32 :: "u32 \<Rightarrow> bytes" where
  "store32 w = store16 (ucast w) @ store16 (ucast (drop_bit 16 w))"

definition htons :: "u16 \<Rightarrow> u16" where
  "htons w = push_bit 8 w OR drop_bit 8 w"

definition htonl :: "u32 \<Rightarrow> u32" where
  "htonl w = push_bit 16 (ucast (htons (ucast w))) OR ucast (htons (ucast (drop_bit 16 w)))"

definition ntohs :: "u16 \<Rightarrow> u16" where
  "ntohs w = htons w"

definition ntohl :: "u32 \<Rightarrow> u32" where
  "ntohl w = htonl w"

lemma ntohs_htons [simp]: "ntohs (htons w) = w" "htons (ntohs w) = w" "htons (htons w) = w"
  unfolding ntohs_def htons_def by (rule bit_word_eqI; auto simp: bit_simps)+

definition hi16 :: "u32 \<Rightarrow> u16" where "hi16 w = ucast (drop_bit 16 w)"
definition lo16 :: "u32 \<Rightarrow> u16" where "lo16 w = ucast w"
definition join16 :: "u16 \<Rightarrow> u16 \<Rightarrow> u32" where "join16 h l = push_bit 16 (ucast h) OR ucast l"

lemma join16_halves [simp]: "join16 (hi16 w) (lo16 w) = w"
  unfolding join16_def hi16_def lo16_def by (rule bit_word_eqI) (auto simp: bit_simps)

lemma halves_join16 [simp]: "hi16 (join16 h l) = h" "lo16 (join16 h l) = l"
  unfolding join16_def hi16_def lo16_def
  by (rule bit_word_eqI; auto simp: bit_simps dest: bit_imp_le_length)+

lemma htonl_halves: "htonl w = join16 (htons (lo16 w)) (htons (hi16 w))"
  by (simp add: htonl_def join16_def hi16_def lo16_def)

lemma ntohl_htonl [simp]: "ntohl (htonl w) = w" "htonl (ntohl w) = w" "htonl (htonl w) = w"
  by (simp_all add: ntohl_def htonl_halves)

lemma store_load16 [simp]: "store16 (load16 a b) = [a, b]"
proof -
  have "ucast (load16 a b) = a" "ucast (drop_bit 8 (load16 a b)) = b"
    unfolding load16_def by (rule bit_word_eqI; auto simp: bit_simps dest: bit_imp_le_length)+
  then show ?thesis by (simp add: store16_def)
qed

lemma load16_parts: "load16 (ucast w) (ucast (drop_bit 8 w)) = w"
  unfolding load16_def by (rule bit_word_eqI) (auto simp: bit_simps)

lemma load_store16 [simp]: "load16 (store16 w ! 0) (store16 w ! 1) = w"
  "load16 (store16 w ! 0) (store16 w ! Suc 0) = w"
  by (simp_all add: store16_def load16_parts)

lemma load32_halves: "load32 a b c d = join16 (load16 c d) (load16 a b)"
  by (simp add: load32_def join16_def or.commute)

lemma store32_halves: "store32 w = store16 (lo16 w) @ store16 (hi16 w)"
  by (simp add: store32_def hi16_def lo16_def)

lemma store_load32 [simp]: "store32 (load32 a b c d) = [a, b, c, d]"
  by (simp add: load32_halves store32_halves)

lemma load_store32 [simp]:
  "load32 (store32 w ! 0) (store32 w ! 1) (store32 w ! 2) (store32 w ! 3) = w"
proof -
  have "load16 (store32 w ! 0) (store32 w ! 1) = lo16 w" "load16 (store32 w ! 2) (store32 w ! 3) = hi16 w"
    by (simp_all add: store32_halves store16_def load16_parts)
  then show ?thesis by (simp only: load32_halves join16_halves)
qed

lemma length_store [simp]: "length (store16 v) = 2" "length (store32 w) = 4"
  by (simp_all add: store16_def store32_def)

lemma ucast_of_nat16: "ucast (of_nat n :: size_t) = (of_nat n :: u16)"
  by (rule bit_word_eqI) (simp add: bit_simps)

section \<open>Buffers\<close>

definition mem_read :: "bytes \<Rightarrow> nat \<Rightarrow> nat \<Rightarrow> bytes option" where
  "mem_read buf off n = (if off + n \<le> length buf then Some (take n (drop off buf)) else None)"

definition mem_write :: "bytes \<Rightarrow> nat \<Rightarrow> bytes \<Rightarrow> bytes option" where
  "mem_write buf off xs =
     (if off + length xs \<le> length buf then Some (take off buf @ xs @ drop (off + length xs) buf)
      else None)"

lemma length_mem_read: "mem_read buf off n = Some xs \<Longrightarrow> length xs = n"
  by (auto simp: mem_read_def split: if_splits)

lemma length_mem_write: "mem_write buf off xs = Some buf' \<Longrightarrow> length buf' = length buf"
  by (auto simp: mem_write_def split: if_splits)

lemma mem_read_write:
  "mem_write buf off xs = Some buf' \<Longrightarrow> mem_read buf' off (length xs) = Some xs"
  by (auto simp: mem_write_def mem_read_def split: if_splits)

lemma mem_read_write_other:
  assumes "mem_write buf off xs = Some buf'" "off' + n \<le> off \<or> off + length xs \<le> off'"
  shows "mem_read buf' off' n = mem_read buf off' n"
proof -
  have buf': "buf' = take off buf @ xs @ drop (off + length xs) buf" and len: "off + length xs \<le> length buf"
    using assms(1) by (auto simp: mem_write_def split: if_splits)
  have "buf' ! i = buf ! i" if "i < length buf" "i < off \<or> off + length xs \<le> i" for i
    using that len by (auto simp: buf' nth_append)
  then have "off' + n \<le> length buf \<Longrightarrow> take n (drop off' buf') = take n (drop off' buf)"
    using assms(2) len by (intro nth_equalityI) (auto simp: buf')
  then show ?thesis using len by (auto simp: mem_read_def buf')
qed

section \<open>Error numbers\<close>

definition EAGAIN :: int where "EAGAIN = 11"
definition ENOMEM :: int where "ENOMEM = 12"
definition ENOENT :: int where "ENOENT = 2"
definition ENODEV :: int where "ENODEV = 19"
definition EINVAL :: int where "EINVAL = 22"
definition ENOMSG :: int where "ENOMSG = 42"
definition EBADMSG :: int where "EBADMSG = 74"
definition ENOTSOCK :: int where "ENOTSOCK = 88"
definition EMSGSIZE :: int where "EMSGSIZE = 90"
definition EPROTOTYPE :: int where "EPROTOTYPE = 91"
definition EPROTONOSUPPORT :: int where "EPROTONOSUPPORT = 93"
definition EADDRINUSE :: int where "EADDRINUSE = 98"
definition ENOBUFS :: int where "ENOBUFS = 105"
definition EHOSTUNREACH :: int where "EHOSTUNREACH = 113"
definition EALREADY :: int where "EALREADY = 114"
definition EINPROGRESS :: int where "EINPROGRESS = 115"

lemmas errno_defs = EAGAIN_def ENOMEM_def ENOENT_def ENODEV_def EINVAL_def ENOMSG_def EBADMSG_def
  ENOTSOCK_def EMSGSIZE_def EPROTOTYPE_def EPROTONOSUPPORT_def EADDRINUSE_def ENOBUFS_def
  EHOSTUNREACH_def EALREADY_def EINPROGRESS_def

section \<open>Helpers of \<^verbatim>\<open>xstack_util.h\<close>\<close>

definition imax :: "u32 \<Rightarrow> u32 \<Rightarrow> u32" where
  "imax a b = (if sint a > sint b then a else b)"

definition imin :: "u32 \<Rightarrow> u32 \<Rightarrow> u32" where
  "imin a b = (if sint a < sint b then a else b)"

definition lmax :: "64 word \<Rightarrow> 64 word \<Rightarrow> 64 word" where
  "lmax a b = (if sint a > sint b then a else b)"

definition lmin :: "64 word \<Rightarrow> 64 word \<Rightarrow> 64 word" where
  "lmin a b = (if sint a < sint b then a else b)"

definition ulmax :: "64 word \<Rightarrow> 64 word \<Rightarrow> 64 word" where
  "ulmax a b = (if a > b then a else b)"

definition ulmin :: "64 word \<Rightarrow> 64 word \<Rightarrow> 64 word" where
  "ulmin a b = (if a < b then a else b)"

definition umax :: "u32 \<Rightarrow> u32 \<Rightarrow> u32" where
  "umax a b = (if a > b then a else b)"

definition umin :: "u32 \<Rightarrow> u32 \<Rightarrow> u32" where
  "umin a b = (if a < b then a else b)"

definition smin :: "size_t \<Rightarrow> size_t \<Rightarrow> u32" where
  "smin a b = ucast (if a < b then a else b)"

definition uround_up :: "u32 \<Rightarrow> u32 \<Rightarrow> u32" where
  "uround_up n s = ((n + s - 1) div s) * s"

text \<open>Extrema are extrema, whatever the signs; rounding is right as long as the sum does not wrap around. \<^verbatim>\<open>smin\<close> returns only
  the lower half of the smaller size.\<close>

lemma extrema:
  "sint (imax a b) = max (sint a) (sint b)" "sint (imin a b) = min (sint a) (sint b)"
  "sint (lmax c d) = max (sint c) (sint d)" "sint (lmin c d) = min (sint c) (sint d)"
  "umax a b = max a b" "umin a b = min a b" "ulmax c d = max c d" "ulmin c d = min c d"
  by (auto simp: imax_def imin_def lmax_def lmin_def umax_def umin_def ulmax_def ulmin_def max_def min_def)

lemma smin_small: "unat a < 2 ^ 32 \<or> unat b < 2 ^ 32 \<Longrightarrow> unat (smin a b) = min (unat a) (unat b)"
  by (auto simp: smin_def min_def unsigned_ucast_eq take_bit_nat_eq_self_iff word_less_nat_alt)

lemma uround_up_nat:
  assumes "0 < s" "unat n + unat s < 2 ^ 32"
  shows "unat (uround_up n s) = (unat n + unat s - 1) div unat s * unat s"
proof -
  have "0 < unat s" using assms(1) by (simp add: word_less_nat_alt)
  moreover have "unat (n + s) = unat n + unat s" using assms(2) by (simp add: unat_word_ariths)
  ultimately have "unat (n + s - 1) = unat n + unat s - 1" by (subst unat_sub) (simp_all add: word_le_nat_alt)
  moreover have "(unat n + unat s - 1) div unat s * unat s < 2 ^ 32"
    using assms(2) div_times_less_eq_dividend [of "unat n + unat s - 1" "unat s"] by linarith
  ultimately show ?thesis by (simp add: uround_up_def unat_word_ariths unat_div mod_mult_left_eq)
qed

end
