(* ===== verification/Ether_Fcs.thy ===== *)
theory Ether_Fcs
  imports Wire
begin

text \<open>
  \<^verbatim>\<open>ether_fcs\<close> of \<^verbatim>\<open>src/ether_fcs.c\<close>: the frame check sequence by a table of 16 entries, one nibble at
  a time, from the initial value 0 and without a final complement. The reference is the CRC-32 of
  IEEE 802.3 one bit at a time: initial value all ones, reflected polynomial \<open>0xEDB88320\<close>, result
  complemented. The two are equal because the table holds the complemented values.
\<close>

section \<open>The code\<close>

definition crc_table :: "u32 list" where
  "crc_table =
    [0x4DBDF21C, 0x500AE278, 0x76D3D2D4, 0x6B64C2B0,
     0x3B61B38C, 0x26D6A3E8, 0x000F9344, 0x1DB88320,
     0xA005713C, 0xBDB26158, 0x9B6B51F4, 0x86DC4190,
     0xD6D930AC, 0xCB6E20C8, 0xEDB71064, 0xF0000000]"

definition fcs_nibble :: "u32 \<Rightarrow> u8 \<Rightarrow> u32" where
  "fcs_nibble crc d = drop_bit 4 crc XOR crc_table ! unat ((crc XOR ucast d) AND 0x0F)"

definition fcs_byte :: "u32 \<Rightarrow> u8 \<Rightarrow> u32" where
  "fcs_byte crc d = fcs_nibble (fcs_nibble crc (drop_bit 0 d)) (drop_bit 4 d)"

definition ether_fcs :: "bytes \<Rightarrow> u32" where
  "ether_fcs data = foldl fcs_byte 0 data"

section \<open>The reference\<close>

definition crc_bit :: "u32 \<Rightarrow> u32" where
  "crc_bit s = (if bit s 0 then drop_bit 1 s XOR 0xEDB88320 else drop_bit 1 s)"

definition crc_byte :: "u32 \<Rightarrow> u8 \<Rightarrow> u32" where
  "crc_byte s d = (crc_bit ^^ 8) (s XOR ucast d)"

definition crc32 :: "bytes \<Rightarrow> u32" where
  "crc32 data = NOT (foldl crc_byte (NOT 0) data)"

section \<open>Four bits at a time\<close>

lemma crc_bit_xor: "crc_bit (a XOR b) = crc_bit a XOR crc_bit b"
  by (cases "bit a 0"; cases "bit b 0") (simp_all add: crc_bit_def bit_xor_iff drop_bit_xor xor.assoc xor.left_commute xor.commute)

lemma crc4_xor: "(crc_bit ^^ n) (a XOR b) = (crc_bit ^^ n) a XOR (crc_bit ^^ n) b"
  by (induction n) (simp_all add: crc_bit_xor)

lemma crc4_shift: "(\<And>i. i < n \<Longrightarrow> \<not> bit y i) \<Longrightarrow> (crc_bit ^^ n) y = drop_bit n y"
proof (induction n)
  case (Suc n)
  have "(crc_bit ^^ n) y = drop_bit n y" using Suc by simp
  moreover have "crc_bit (drop_bit n y) = drop_bit (Suc n) y"
    using Suc.prems [of n] by (simp add: crc_bit_def bit_simps)
  ultimately show ?case by simp
qed simp

definition nibble_table :: "u32 list" where
  "nibble_table = map (\<lambda>j. (crc_bit ^^ 4) (of_nat j)) [0..<16]"

lemma nibble_mask: "(15 :: u32) = mask 4"
  by (simp add: mask_eq_exp_minus_1)

lemma unat_nibble: "unat (x AND 15 :: u32) < 16"
  using word_and_le1 [of x 15] by (simp add: word_le_nat_alt)

lemma crc4: "(crc_bit ^^ 4) x = drop_bit 4 x XOR nibble_table ! unat (x AND 15)"
proof -
  have x: "x = (x AND NOT 15) XOR (x AND 15)"
    by (rule bit_word_eqI) (auto simp: bit_simps)
  have "drop_bit 4 (x AND NOT 15) = drop_bit 4 x"
    unfolding nibble_mask by (rule bit_word_eqI) (auto simp: bit_simps dest: bit_imp_le_length)
  moreover have "(crc_bit ^^ 4) (x AND NOT 15) = drop_bit 4 (x AND NOT 15)"
    unfolding nibble_mask by (rule crc4_shift) (auto simp: bit_simps)
  moreover have "nibble_table ! unat (x AND 15) = (crc_bit ^^ 4) (x AND 15)"
    using unat_nibble [of x] by (simp add: nibble_table_def)
  ultimately show ?thesis by (subst x, simp only: crc4_xor)
qed

lemma crc_table_map: "map (\<lambda>j. 0xF0000000 XOR nibble_table ! (15 - j)) [0..<16] = crc_table"
  by code_simp

lemma crc_table_nibble:
  assumes "j < 16"
  shows "crc_table ! j = 0xF0000000 XOR nibble_table ! (15 - j)"
  using assms unfolding crc_table_map [symmetric] by simp

lemma complement_nibble: "unat (NOT x AND 15 :: u32) = 15 - unat (x AND 15)"
proof -
  have "15 - (x AND 15) = 15 AND NOT (x AND 15)"
    by (rule disjunctive_diff) (simp add: bit_and_iff)
  also have "\<dots> = NOT x AND 15"
    by (rule bit_word_eqI) (auto simp: bit_simps)
  finally have "NOT x AND 15 = 15 - (x AND 15)" ..
  then show ?thesis using unat_sub [of "x AND 15" 15] word_and_le1 [of x 15] by simp
qed

text \<open>The code keeps the complement of the reference state.\<close>

lemma fcs_nibble_complement:
  "fcs_nibble (NOT s) d = NOT (drop_bit 4 s XOR nibble_table ! unat ((s XOR ucast d) AND 15))"
proof -
  have "drop_bit 4 (NOT s) = NOT (mask 28) XOR NOT (drop_bit 4 s)"
    by (rule bit_word_eqI) (auto simp: bit_simps dest: bit_imp_le_length)
  moreover have "NOT (mask 28) = (0xF0000000 :: u32)"
    by (simp add: mask_eq_exp_minus_1)
  ultimately have "drop_bit 4 (NOT s) = 0xF0000000 XOR NOT (drop_bit 4 s)" by metis
  then show ?thesis
    using unat_nibble [of "s XOR ucast d"]
    by (simp add: fcs_nibble_def complement_nibble crc_table_nibble xor.assoc xor.left_commute)
qed

lemma crc_byte_nibbles:
  "crc_byte s d = (let s1 = drop_bit 4 s XOR nibble_table ! unat ((s XOR ucast d) AND 15)
     in drop_bit 4 s1 XOR nibble_table ! unat ((s1 XOR ucast (drop_bit 4 d)) AND 15))"
proof -
  have "drop_bit 4 (ucast d :: u32) = ucast (drop_bit 4 d)" "drop_bit 4 (ucast (drop_bit 4 d) :: u32) = 0"
    by (rule bit_word_eqI; auto simp: bit_simps dest: bit_imp_le_length)+
  moreover have "crc_byte s d = (crc_bit ^^ 4) ((crc_bit ^^ 4) (s XOR ucast d))"
    using funpow_add [of 4 4 crc_bit] by (simp add: crc_byte_def)
  ultimately show ?thesis
    by (simp add: crc4 drop_bit_xor Let_def xor.assoc xor.left_commute xor.commute)
qed

lemma fcs_byte_complement: "fcs_byte (NOT s) d = NOT (crc_byte s d)"
  by (simp add: fcs_byte_def fcs_nibble_complement crc_byte_nibbles Let_def)

lemma fcs_fold: "foldl fcs_byte (NOT s) data = NOT (foldl crc_byte s data)"
  by (induction data arbitrary: s) (simp_all add: fcs_byte_complement)

lemma fcs_crc32: "ether_fcs data = crc32 data"
  using fcs_fold [of "NOT 0" data] by (simp add: ether_fcs_def crc32_def)

text \<open>C31: The table-driven \<^verbatim>\<open>ether_fcs\<close> computes the CRC-32 of IEEE 802.3.\<close>

theorem ether_fcs_crc32: "ether_fcs data = crc32 data"
  by (rule fcs_crc32)

end
