(* ===== verification/Ether.thy ===== *)
theory Ether
  imports Ether_Fcs
begin

text \<open>
  The link layer: \<^verbatim>\<open>src/ether.c\<close>, \<^verbatim>\<open>src/xstack_ether.h\<close> and the Linux back end
  \<^verbatim>\<open>src/linux/linux_ether.c\<close>. The state is the table of interfaces, the next handle, \<^verbatim>\<open>errno\<close>, and the
  list \<open>wire\<close> of the frames the kernel took from us, oldest first. The kernel is a parameter:
  \<open>sendto\<close> decides, from the frames sent before and the new frame, on an error number (\<open>Inl\<close>) or the
  return value (\<open>Inr\<close>); what \<^verbatim>\<open>recvfrom\<close> will return is a list of error numbers and frames, and
  reading from the empty list is waiting for ever (\<open>None\<close>). Opening and closing an interface is in the theory
  \<open>Linux_Ether\<close>.
\<close>

type_synonym mac_addr = bytes
type_synonym sendto_fn = "bytes list \<Rightarrow> bytes \<Rightarrow> int + int"

definition LINK_MAC_ALEN :: nat where "LINK_MAC_ALEN = 6"
definition ETHER_ALEN :: nat where "ETHER_ALEN = LINK_MAC_ALEN"
definition ETHER_HEADER_LEN :: nat where "ETHER_HEADER_LEN = 14"
definition ETHER_DATA_LEN :: nat where "ETHER_DATA_LEN = 1500"
definition ETHER_FCS_LEN :: nat where "ETHER_FCS_LEN = 4"
definition ETHER_MINLEN :: nat where "ETHER_MINLEN = 60"
definition ETHER_MAXLEN :: nat where "ETHER_MAXLEN = 1514"
definition ETHER_PROTO_IPV4 :: u16 where "ETHER_PROTO_IPV4 = 0x0800"
definition ETHER_PROTO_ARP :: u16 where "ETHER_PROTO_ARP = 0x0806"

lemmas ether_consts = LINK_MAC_ALEN_def ETHER_ALEN_def ETHER_HEADER_LEN_def ETHER_DATA_LEN_def ETHER_FCS_LEN_def
  ETHER_MINLEN_def ETHER_MAXLEN_def ETHER_PROTO_IPV4_def ETHER_PROTO_ARP_def

definition mac_broadcast_addr :: mac_addr where
  "mac_broadcast_addr = replicate 6 0xff"

record ether_hdr =
  h_dst :: mac_addr
  h_src :: mac_addr
  h_proto :: u16

record ifreq =
  ifr_name :: string
  ifr_ifindex :: int

record ether_linux =
  el_fd :: int
  el_mac :: mac_addr
  el_if_idx :: ifreq

record ether_state =
  ether_if :: ether_linux
  ether_next_handle :: nat
  errno :: int
  wire :: "bytes list"

section \<open>Handles\<close>

text \<open>There is one interface (\<^verbatim>\<open>ETHER_MAX_IF\<close>). A negative handle indexes before the array.\<close>

definition ether_handle2eth :: "ether_state \<Rightarrow> int \<Rightarrow> (ether_linux option \<times> ether_state) option" where
  "ether_handle2eth st handle =
     (if handle \<ge> 1 then Some (None, st\<lparr>errno := ENODEV\<rparr>)
      else if handle < 0 then None
      else Some (Some (ether_if st), st))"

definition ether_handle2addr :: "ether_state \<Rightarrow> int \<Rightarrow> (int \<times> mac_addr option \<times> ether_state) option" where
  "ether_handle2addr st handle = do {
     (eth, st) \<leftarrow> ether_handle2eth st handle;
     case eth of
       None \<Rightarrow> Some (-1, None, st\<lparr>errno := ENODEV\<rparr>)
     | Some eth \<Rightarrow> Some (0, Some (el_mac eth), st)
   }"

definition ether_addr2handle :: "mac_addr \<Rightarrow> int" where
  "ether_addr2handle addr = 0"

section \<open>Sending and receiving frames\<close>

definition frame_size :: "size_t \<Rightarrow> size_t" where
  "frame_size bsize = ucast ((14 :: u32) + umax (ucast bsize) (60 - 4) + 4)"

definition ether_frame :: "mac_addr \<Rightarrow> mac_addr \<Rightarrow> u16 \<Rightarrow> bytes \<Rightarrow> bytes" where
  "ether_frame dst src proto buf =
     (let size = unat (frame_size (of_nat (length buf)));
          body = dst @ src @ store16 (htons proto) @ buf @
                 replicate (size - ETHER_FCS_LEN - ETHER_HEADER_LEN - length buf) 0
      in body @ store32 (ether_fcs body))"

text \<open>A \<open>bsize\<close> of \<open>2 ^ 32\<close> or more is cut by \<^verbatim>\<open>max\<close>, and the copy would leave the frame.\<close>

definition ether_send ::
  "sendto_fn \<Rightarrow> ether_state \<Rightarrow> int \<Rightarrow> mac_addr \<Rightarrow> u16 \<Rightarrow> bytes \<Rightarrow> (int \<times> ether_state) option" where
  "ether_send sendto st handle dst proto buf =
     (let size = frame_size (of_nat (length buf)) in
      if unat size > ETHER_MAXLEN + ETHER_FCS_LEN then Some (- EMSGSIZE, st)
      else do {
        (eth, st) \<leftarrow> ether_handle2eth st handle;
        case eth of
          None \<Rightarrow> Some (- errno st, st)
        | Some eth \<Rightarrow>
            if length buf > ETHER_DATA_LEN then None
            else let frame = ether_frame dst (el_mac eth) proto buf
              in case sendto (wire st) frame of
                Inl e \<Rightarrow> Some (- e, st\<lparr>errno := e\<rparr>)
              | Inr n \<Rightarrow> Some (n, st\<lparr>wire := wire st @ [frame]\<rparr>)
      })"

text \<open>The loop that skips the frames we sent. The kernel cuts a frame to the size of the buffer; a frame
  shorter than a header would make the copy length negative, that is, read outside the buffer.\<close>

fun ether_recv_loop ::
  "mac_addr \<Rightarrow> (int + bytes) list \<Rightarrow> ((int + bytes) \<times> (int + bytes) list) option" where
  "ether_recv_loop mac [] = None"
| "ether_recv_loop mac (Inl e # evs) = Some (Inl e, evs)"
| "ether_recv_loop mac (Inr f # evs) =
     (let f = take ETHER_MAXLEN f in
      if length f < ETHER_HEADER_LEN then None
      else if take 6 (drop 6 f) = mac then ether_recv_loop mac evs
      else Some (Inr f, evs))"

definition ether_receive ::
  "(int + bytes) list \<Rightarrow> ether_state \<Rightarrow> int \<Rightarrow> bytes \<Rightarrow>
   (int \<times> ether_hdr option \<times> bytes \<times> (int + bytes) list \<times> ether_state) option" where
  "ether_receive evs st handle buf = do {
     (eth, st) \<leftarrow> ether_handle2eth st handle;
     case eth of
       None \<Rightarrow> Some (-1, None, buf, evs, st)
     | Some eth \<Rightarrow> do {
         (r, evs) \<leftarrow> ether_recv_loop (el_mac eth) evs;
         case r of
           Inl e \<Rightarrow> Some (if e = EAGAIN \<or> e = EINPROGRESS then 0 else -1, None, buf, evs, st\<lparr>errno := e\<rparr>)
         | Inr f \<Rightarrow> do {
             let hdr = \<lparr>h_dst = take 6 f, h_src = take 6 (drop 6 f),
                        h_proto = ntohs (load16 (f ! 12) (f ! 13))\<rparr>;
             let retval = length f - ETHER_HEADER_LEN;
             buf \<leftarrow> mem_write buf 0
               (take (unat (umin (of_nat retval) (of_nat (length buf)))) (drop ETHER_HEADER_LEN f));
             Some (int retval, Some hdr, buf, evs, st)
           }
       }
   }"

section \<open>The input chain\<close>

text \<open>\<^verbatim>\<open>SET_FOREACH\<close> over the registered handlers: the first one with the protocol. \<open>fn\<close> runs a handler on
  the state of the whole stack, \<open>set_errno\<close> writes the global \<^verbatim>\<open>errno\<close>.\<close>

definition find_handler :: "(u16 \<times> 'h) list \<Rightarrow> u16 \<Rightarrow> 'h option" where
  "find_handler handlers proto = map_option snd (List.find (\<lambda>h. fst h = proto) handlers)"

definition ether_input ::
  "(u16 \<times> 'h) list \<Rightarrow> ('h \<Rightarrow> ether_hdr \<Rightarrow> bytes \<Rightarrow> nat \<Rightarrow> 's \<Rightarrow> (int \<times> bytes \<times> 's) option) \<Rightarrow>
   (int \<Rightarrow> 's \<Rightarrow> 's) \<Rightarrow> ether_hdr \<Rightarrow> bytes \<Rightarrow> nat \<Rightarrow> 's \<Rightarrow> (int \<times> bytes \<times> 's) option" where
  "ether_input handlers fn set_errno hdr payload bsize st =
     (case find_handler handlers (h_proto hdr) of
        Some proto \<Rightarrow> do {
          (retval, payload, st) \<leftarrow> fn proto hdr payload bsize st;
          if retval < 0 then Some (-1, payload, set_errno (- retval) st)
          else Some (retval, payload, st)
        }
      | None \<Rightarrow> Some (-1, payload, set_errno EPROTONOSUPPORT st))"

text \<open>The reply is the first \<open>bsize\<close> bytes of the receive buffer, which has to hold them.\<close>

definition ether_output_reply ::
  "sendto_fn \<Rightarrow> ether_state \<Rightarrow> int \<Rightarrow> ether_hdr \<Rightarrow> bytes \<Rightarrow> nat \<Rightarrow> (int \<times> ether_state) option" where
  "ether_output_reply sendto st handle hdr payload bsize =
     (if unat (frame_size (of_nat bsize)) > ETHER_MAXLEN + ETHER_FCS_LEN
      then Some (-1, st\<lparr>errno := EMSGSIZE\<rparr>)
      else do {
        data \<leftarrow> mem_read payload 0 bsize;
        (retval, st) \<leftarrow> ether_send sendto st handle (h_src hdr) (h_proto hdr) data;
        if retval < 0 then Some (-1, st\<lparr>errno := - retval\<rparr>) else Some (retval, st)
      })"

section \<open>What is on the wire\<close>

lemma frame_size_small:
  assumes "n \<le> 1500"
  shows "unat (frame_size (of_nat n)) = 18 + max n 56"
proof -
  have n: "unat (of_nat n :: size_t) = n" "unat (of_nat n :: u32) = n"
    using assms by (simp_all add: unat_of_nat)
  then have "unat (ucast (of_nat n :: size_t) :: u32) = unat (of_nat n :: u32)"
    using assms by (simp add: unsigned_ucast_eq take_bit_nat_eq_self_iff)
  then have u: "(ucast (of_nat n :: size_t) :: u32) = of_nat n" by (rule word_unat_eq_iff [THEN iffD2])
  have "unat (14 + umax (of_nat n) 56 + 4 :: u32) = 18 + max n 56"
    using assms n(2) by (auto simp: umax_def word_less_nat_alt unat_word_ariths)
  then show ?thesis
    using assms u by (simp add: frame_size_def unsigned_ucast_eq take_bit_nat_eq_self_iff)
qed

lemma frame_size_large:
  assumes "1500 < n" "n < 2 ^ 32 - 18"
  shows "unat (frame_size (of_nat n)) = 18 + n"
proof -
  have n: "unat (of_nat n :: size_t) = n" "unat (of_nat n :: u32) = n"
    using assms by (simp_all add: unat_of_nat)
  then have "unat (ucast (of_nat n :: size_t) :: u32) = unat (of_nat n :: u32)"
    using assms by (simp add: unsigned_ucast_eq take_bit_nat_eq_self_iff)
  then have u: "(ucast (of_nat n :: size_t) :: u32) = of_nat n" by (rule word_unat_eq_iff [THEN iffD2])
  have "unat (14 + umax (of_nat n) 56 + 4 :: u32) = 18 + n"
    using assms n(2) by (auto simp: umax_def word_less_nat_alt unat_word_ariths)
  then show ?thesis
    using assms u by (simp add: frame_size_def unsigned_ucast_eq take_bit_nat_eq_self_iff)
qed

lemma length_ether_frame:
  assumes "length dst = 6" "length src = 6" "length buf \<le> 1500"
  shows "length (ether_frame dst src proto buf) = 18 + max (length buf) 56"
  using assms by (simp add: ether_frame_def frame_size_small Let_def ether_consts)

lemma ether_frame_layout:
  assumes "length buf \<le> 1500"
  shows "ether_frame dst src proto buf =
    (let body = dst @ src @ store16 (htons proto) @ buf @ replicate (56 - length buf) 0
     in body @ store32 (crc32 body))"
proof -
  have "max (length buf) 56 - length buf = 56 - length buf" by (simp add: max_def)
  then show ?thesis
    using assms by (simp add: ether_frame_def frame_size_small Let_def ether_consts fcs_crc32)
qed

lemma ether_send_cases:
  assumes "length buf \<le> 1500"
  shows "ether_send sendto st 0 dst proto buf =
    (let frame = ether_frame dst (el_mac (ether_if st)) proto buf
     in case sendto (wire st) frame of
       Inl e \<Rightarrow> Some (- e, st\<lparr>errno := e\<rparr>)
     | Inr n \<Rightarrow> Some (n, st\<lparr>wire := wire st @ [frame]\<rparr>))"
proof -
  have "\<not> 1500 < max (length buf) 56" using assms by simp
  then show ?thesis
    using assms by (simp add: ether_send_def frame_size_small ether_handle2eth_def ether_consts)
qed

lemma ether_recv_one:
  assumes "14 \<le> length f" "take 6 (drop 6 f) \<noteq> mac"
  shows "ether_recv_loop mac (Inr f # evs) = Some (Inr (take 1514 f), evs)"
  using assms by (simp add: ether_consts Let_def drop_take min_def)

text \<open>C32: A payload of up to 1500 bytes goes out as one frame: destination, own address, protocol in
  network order, the payload, zeros up to 56 bytes, and the CRC-32 of all of it; a longer payload is
  refused with \<^verbatim>\<open>EMSGSIZE\<close> and nothing is sent.\<close>

theorem ether_send_frame:
  assumes "length buf < 2 ^ 32 - 18"
  shows "ether_send sendto st 0 dst proto buf =
    (if length buf \<le> 1500 then
       let body = dst @ el_mac (ether_if st) @ store16 (htons proto) @ buf @ replicate (56 - length buf) 0;
           frame = body @ store32 (crc32 body)
       in case sendto (wire st) frame of
            Inl e \<Rightarrow> Some (- e, st\<lparr>errno := e\<rparr>)
          | Inr n \<Rightarrow> Some (n, st\<lparr>wire := wire st @ [frame]\<rparr>)
     else Some (- EMSGSIZE, st))"
proof (cases "length buf \<le> 1500")
  case True
  then show ?thesis by (simp add: ether_send_cases ether_frame_layout Let_def split: sum.split)
next
  case False
  then have "unat (frame_size (of_nat (length buf))) > 1518"
    using assms by (simp add: frame_size_large)
  then show ?thesis using False by (simp add: ether_send_def ether_consts)
qed

lemma ether_send_frame_witness:
  "ether_send (\<lambda>_ f. Inr (int (length f))) \<lparr>ether_if = \<lparr>el_fd = 3, el_mac = replicate 6 2, el_if_idx = \<lparr>ifr_name = ''eth0'', ifr_ifindex = 2\<rparr>\<rparr>,
      ether_next_handle = 1, errno = 0, wire = []\<rparr> 0 mac_broadcast_addr 0x0806 (replicate 1501 0) =
    Some (- EMSGSIZE, \<lparr>ether_if = \<lparr>el_fd = 3, el_mac = replicate 6 2, el_if_idx = \<lparr>ifr_name = ''eth0'', ifr_ifindex = 2\<rparr>\<rparr>,
      ether_next_handle = 1, errno = 0, wire = []\<rparr>)"
  by (subst ether_send_frame) simp_all

lemma receive_frame:
  assumes "length dst = 6" "length src = 6" "length buf \<le> 1500" "el_mac (ether_if st) \<noteq> src"
    "length rx = 1514"
  shows "\<exists>n rx'. ether_receive [Inr (ether_frame dst src proto buf)] st 0 rx =
      Some (int n, Some \<lparr>h_dst = dst, h_src = src, h_proto = proto\<rparr>, rx', [], st) \<and>
    n = min 1500 (4 + max (length buf) 56) \<and> take (length buf) rx' = buf"
proof -
  define f where "f = ether_frame dst src proto buf"
  define n where "n = min 1500 (4 + max (length buf) 56)"
  obtain tl where f: "f = dst @ src @ store16 (htons proto) @ buf @ tl"
    using assms(3) by (simp add: ether_frame_layout Let_def f_def)
  have len: "length f = 18 + max (length buf) 56"
    using assms by (simp add: length_ether_frame f_def)
  have n: "length buf \<le> n" "n \<le> 1500" "n + 14 \<le> length f" "length (take 1514 f) - 14 = n"
    using assms(3) len by (auto simp: n_def)
  have un: "unat (umin (of_nat n) (of_nat (length rx))) = n"
    using assms(5) n(2) by (simp add: umin_def word_less_nat_alt unat_of_nat)
  have loop: "ether_recv_loop (el_mac (ether_if st)) [Inr f] = Some (Inr (take 1514 f), [])"
    using assms n(3) by (intro ether_recv_one) (simp_all add: f)
  define g where "g = take n (drop 14 (take 1514 f))"
  have g: "length g = n" "take (length buf) g = buf"
    using n(2,3) by (simp add: g_def)
      (use n(1,2) assms(1,2) in \<open>simp add: g_def f drop_take min_absorb1 min_absorb2\<close>)
  have rx: "mem_write rx 0 g = Some (g @ drop n rx)"
    using g(1) n(2) assms(5) by (simp add: mem_write_def)
  moreover have "take (length buf) (g @ drop n rx) = buf" using g n(1) by simp
  moreover have h: "take 1514 f = dst @ src @ store16 (htons proto) @ take 1500 (buf @ tl)"
    using assms(1,2) by (simp add: f)
  have "take 6 (take 1514 f) = dst" "take 6 (drop 6 (take 1514 f)) = src"
    unfolding h using assms(1,2) by simp_all
  moreover have "ntohs (load16 (take 1514 f ! 12) (take 1514 f ! 13)) = proto"
    unfolding h using assms(1,2) by (simp add: nth_append store16_def load16_parts)
  ultimately have "ether_receive [Inr f] st 0 rx =
    Some (int n, Some \<lparr>h_dst = dst, h_src = src, h_proto = proto\<rparr>, g @ drop n rx, [], st)"
    using loop un n(4)
    by (simp add: ether_receive_def ether_handle2eth_def ether_consts flip: g_def del: length_take ether_recv_loop.simps)
  then show ?thesis
    using \<open>take (length buf) (g @ drop n rx) = buf\<close> unfolding f_def n_def by blast
qed

text \<open>What one stack sends another one receives: the header fields and the payload survive the
  trip through the frame, byte order included.\<close>

theorem ether_roundtrip:
  assumes "length dst = 6" "length src = 6" "length buf \<le> 1500" "el_mac (ether_if st) \<noteq> src"
    "length rx = 1514"
  shows "\<exists>n rx'. ether_receive [Inr (ether_frame dst src proto buf)] st 0 rx =
      Some (int n, Some \<lparr>h_dst = dst, h_src = src, h_proto = proto\<rparr>, rx', [], st) \<and>
    n = min 1500 (4 + max (length buf) 56) \<and> take (length buf) rx' = buf"
  by (rule receive_frame [OF assms])

lemma ether_roundtrip_witness:
  "\<exists>n rx'. ether_receive [Inr (ether_frame mac_broadcast_addr (replicate 6 2) 0x0800 [1, 2, 3])]
      \<lparr>ether_if = \<lparr>el_fd = 3, el_mac = replicate 6 4, el_if_idx = \<lparr>ifr_name = ''eth0'', ifr_ifindex = 2\<rparr>\<rparr>, ether_next_handle = 1, errno = 0, wire = []\<rparr>
      0 (replicate 1514 0) =
    Some (int n, Some \<lparr>h_dst = mac_broadcast_addr, h_src = replicate 6 2, h_proto = 0x0800\<rparr>, rx', [],
      \<lparr>ether_if = \<lparr>el_fd = 3, el_mac = replicate 6 4, el_if_idx = \<lparr>ifr_name = ''eth0'', ifr_ifindex = 2\<rparr>\<rparr>, ether_next_handle = 1, errno = 0, wire = []\<rparr>) \<and>
    n = 60 \<and> take (Suc (Suc (Suc 0))) rx' = [1, 2, 3]"
  using ether_roundtrip [of mac_broadcast_addr "replicate 6 2" "[1, 2, 3]"
    "\<lparr>ether_if = \<lparr>el_fd = 3, el_mac = replicate 6 4, el_if_idx = \<lparr>ifr_name = ''eth0'', ifr_ifindex = 2\<rparr>\<rparr>, ether_next_handle = 1, errno = 0, wire = []\<rparr>"
    "replicate 1514 0" "0x0800"]
  by (simp add: mac_broadcast_addr_def)

end
