(* ===== verification/Ip_Route.thy ===== *)
theory Ip_Route
  imports Tree_Order Wire Slist
begin

text \<open>
  The routing table of \<^verbatim>\<open>src/ip_route.c\<close>: a pool of five entries, a free list, and two red-black trees
  over the same entries, one ordered by network and one by interface address. A lookup that fails
  returns \<open>Inl ENOENT\<close>, the value the code puts into \<^verbatim>\<open>errno\<close>. The free list is a singly-linked list of
  \<^verbatim>\<open>src/queue.h\<close> through the entries, with the head 0.

  The comparison functions return the difference of two unsigned addresses as an \<open>int\<close>. That is an
  order only among addresses within half of the address space: the interpretations of \<open>key_order\<close>
  below carry such a window, and \<open>network_cmp_cyclic\<close> shows that the whole space is not ordered.
\<close>

section \<open>The code\<close>

definition XSTACK_IP_RIB_SIZE :: nat where "XSTACK_IP_RIB_SIZE = 5"

record ip_route =
  r_network :: u32
  r_netmask :: u32
  r_gw :: u32
  r_iface :: u32
  r_iface_handle :: int

definition ip_route_zero :: ip_route where
  "ip_route_zero = \<lparr>r_network = 0, r_netmask = 0, r_gw = 0, r_iface = 0, r_iface_handle = 0\<rparr>"

record rib =
  rib_route :: "nat \<Rightarrow> ip_route"
  rib_routetree :: rb_head
  rib_sourcetree :: rb_head
  rib_freelist :: cells

definition route_network_cmp :: "ip_route \<Rightarrow> ip_route \<Rightarrow> int" where
  "route_network_cmp a b = sint (r_network a - r_network b)"

definition route_iface_cmp :: "ip_route \<Rightarrow> ip_route \<Rightarrow> int" where
  "route_iface_cmp a b = sint (r_iface a - r_iface b)"

text \<open>\<^verbatim>\<open>SLIST_REMOVE_HEAD\<close> of an empty list follows the NULL head.\<close>

definition ip_route_entry_alloc :: "rib \<Rightarrow> (nat \<times> rib) option" where
  "ip_route_entry_alloc st = do {
     let entry = SLIST_FIRST 0 (rib_freelist st);
     fl \<leftarrow> SLIST_REMOVE_HEAD 0 (rib_freelist st);
     e \<leftarrow> entry;
     Some (e, st\<lparr>rib_freelist := fl\<rparr>)
   }"

definition ip_route_entry_free :: "nat \<Rightarrow> rib \<Rightarrow> rib" where
  "ip_route_entry_free e st = st\<lparr>rib_freelist := SLIST_INSERT_HEAD 0 e (rib_freelist st)\<rparr>"

definition ip_route_tree_insert :: "nat \<Rightarrow> rib \<Rightarrow> rib option" where
  "ip_route_tree_insert e st = do {
     (rt, _) \<leftarrow> RB_INSERT (\<lambda>x. route_network_cmp (rib_route st e) (rib_route st x)) (rib_routetree st) e;
     (sr, _) \<leftarrow> RB_INSERT (\<lambda>x. route_iface_cmp (rib_route st e) (rib_route st x)) (rib_sourcetree st) e;
     Some (st\<lparr>rib_routetree := rt, rib_sourcetree := sr\<rparr>)
   }"

definition ip_route_tree_remove :: "nat \<Rightarrow> rib \<Rightarrow> rib option" where
  "ip_route_tree_remove e st = do {
     rt \<leftarrow> RB_REMOVE (rib_routetree st) (Some e);
     sr \<leftarrow> RB_REMOVE (rib_sourcetree st) (Some e);
     Some (st\<lparr>rib_routetree := rt, rib_sourcetree := sr\<rparr>)
   }"

definition ip_route_add :: "ip_route \<Rightarrow> rib \<Rightarrow> rib option" where
  "ip_route_add route st = do {
     (e, st) \<leftarrow> ip_route_entry_alloc st;
     ip_route_tree_insert e (st\<lparr>rib_route := (rib_route st)(e := route)\<rparr>)
   }"

definition find_by_network_key :: "ip_route \<Rightarrow> rib \<Rightarrow> ptr option" where
  "find_by_network_key route st = RB_FIND (\<lambda>x. route_network_cmp route (rib_route st x)) (rib_routetree st)"

definition ip_route_update :: "ip_route \<Rightarrow> rib \<Rightarrow> rib option" where
  "ip_route_update route st = do {
     entry \<leftarrow> find_by_network_key route st;
     case entry of
       Some e \<Rightarrow> do {
         st \<leftarrow> ip_route_tree_remove e st;
         ip_route_tree_insert e (st\<lparr>rib_route := (rib_route st)(e := route)\<rparr>)
       }
     | None \<Rightarrow> ip_route_add route st
   }"

definition ip_route_remove :: "ip_route \<Rightarrow> rib \<Rightarrow> ((int + unit) \<times> rib) option" where
  "ip_route_remove route st = do {
     entry \<leftarrow> find_by_network_key route st;
     case entry of
       None \<Rightarrow> Some (Inl ENOENT, st)
     | Some e \<Rightarrow> do {
         st \<leftarrow> ip_route_tree_remove e st;
         let clear = (\<lambda>h. h\<lparr>links := (links h)(e := rb_entry_zero)\<rparr>);
         let st = st\<lparr>rib_route := (rib_route st)(e := ip_route_zero),
                     rib_routetree := clear (rib_routetree st), rib_sourcetree := clear (rib_sourcetree st),
                     rib_freelist := (rib_freelist st)\<lparr>slots := (slots (rib_freelist st))(Next e := None)\<rparr>\<rparr>;
         Some (Inr (), ip_route_entry_free e st)
       }
   }"

text \<open>\<^verbatim>\<open>ip_route_find_by_network\<close>: an exact match, else the first route in network order whose network is
  the masked address, else the default route.\<close>

definition ip_route_find_by_network :: "u32 \<Rightarrow> rib \<Rightarrow> (int + ip_route) option" where
  "ip_route_find_by_network addr st = do {
     exact \<leftarrow> find_by_network_key (ip_route_zero\<lparr>r_network := addr\<rparr>) st;
     entry \<leftarrow> (case exact of
         Some e \<Rightarrow> Some (Some e)
       | None \<Rightarrow> do {
           masked \<leftarrow> RB_FOREACH_find
             (\<lambda>x. r_network (rib_route st x) = addr AND r_netmask (rib_route st x)) (rib_routetree st);
           case masked of
             Some e \<Rightarrow> Some (Some e)
           | None \<Rightarrow> find_by_network_key ip_route_zero st
         });
     case entry of
       None \<Rightarrow> Some (Inl ENOENT)
     | Some e \<Rightarrow> Some (Inr (rib_route st e))
   }"

definition ip_route_find_by_iface :: "u32 \<Rightarrow> rib \<Rightarrow> (int + ip_route) option" where
  "ip_route_find_by_iface addr st = do {
     entry \<leftarrow> RB_FIND (\<lambda>x. route_iface_cmp (ip_route_zero\<lparr>r_iface := addr\<rparr>) (rib_route st x))
       (rib_sourcetree st);
     case entry of
       None \<Rightarrow> Some (Inl ENOENT)
     | Some e \<Rightarrow> Some (Inr (rib_route st e))
   }"

definition ip_route_init :: "rib \<Rightarrow> rib" where
  "ip_route_init st = st\<lparr>rib_routetree := RB_INIT (rib_routetree st),
     rib_sourcetree := RB_INIT (rib_sourcetree st),
     rib_freelist := fold (SLIST_INSERT_HEAD 0) [0..<XSTACK_IP_RIB_SIZE] (SLIST_INIT 0 (rib_freelist st))\<rparr>"

section \<open>The order of the keys\<close>

lemma sint_diff_order:
  fixes a b lo :: u32
  assumes "unat (a - lo) < 2 ^ 31" "unat (b - lo) < 2 ^ 31"
  shows "sint (a - b) < 0 \<longleftrightarrow> unat (a - lo) < unat (b - lo)"
    "sint (a - b) > 0 \<longleftrightarrow> unat (a - lo) > unat (b - lo)"
proof -
  have *: "sint (a - b) = int (unat (a - lo)) - int (unat (b - lo))"
  proof -
    have "a - b = (a - lo) - (b - lo)" by simp
    also have "\<dots> = word_of_int (int (unat (a - lo)) - int (unat (b - lo)))"
      by simp
    finally have "sint (a - b) = signed_take_bit 31 (int (unat (a - lo)) - int (unat (b - lo)))"
      by (simp only: signed_of_int) simp
    moreover have "int (unat (a - lo)) < 2 ^ 31" "int (unat (b - lo)) < 2 ^ 31"
      using assms by (simp_all add: of_nat_less_iff [where 'a = int, symmetric])
    moreover have "- (2 ^ 31) \<le> int (unat (a - lo)) - int (unat (b - lo))"
      using calculation(3) by linarith
    ultimately show ?thesis by (simp only: signed_take_bit_int_eq_self)
  qed
  show "sint (a - b) < 0 \<longleftrightarrow> unat (a - lo) < unat (b - lo)"
    "sint (a - b) > 0 \<longleftrightarrow> unat (a - lo) > unat (b - lo)"
    unfolding * by linarith+
qed

definition in_window :: "u32 \<Rightarrow> u32 \<Rightarrow> bool" where
  "in_window lo a \<longleftrightarrow> unat (a - lo) < 2 ^ 31"

interpretation by_network: key_order route_network_cmp
  "\<lambda>r. unat (r_network r - lo)" "\<lambda>r. in_window lo (r_network r)" for lo
  by unfold_locales (simp_all add: route_network_cmp_def in_window_def sint_diff_order)

interpretation by_iface: key_order route_iface_cmp
  "\<lambda>r. unat (r_iface r - lo)" "\<lambda>r. in_window lo (r_iface r)" for lo
  by unfold_locales (simp_all add: route_iface_cmp_def in_window_def sint_diff_order)

lemma network_cmp_cyclic:
  "\<exists>a b c. route_network_cmp a b < 0 \<and> route_network_cmp b c < 0 \<and> route_network_cmp c a < 0"
proof -
  let ?r = "\<lambda>n. ip_route_zero\<lparr>r_network := n\<rparr>"
  have "route_network_cmp (?r 0) (?r 0x60000000) < 0 \<and> route_network_cmp (?r 0x60000000) (?r 0xC0000000) < 0 \<and>
    route_network_cmp (?r 0xC0000000) (?r 0) < 0"
    by (simp add: route_network_cmp_def ip_route_zero_def)
  then show ?thesis by blast
qed

section \<open>The table as a set of routes\<close>

text \<open>\<open>rib_holds lo st R\<close>: the trees, the pool and the free list are consistent and hold exactly the routes
  \<open>R\<close>, whose addresses lie in the window from \<open>lo\<close>.\<close>

text \<open>The free list holds the entries \<open>F\<close>.\<close>

definition free_entries :: "cells \<Rightarrow> nat set \<Rightarrow> bool" where
  "free_entries fl F \<longleftrightarrow> (\<exists>xs. slist fl 0 xs \<and> set xs = F)"

lemma free_entries_alloc:
  assumes "free_entries (rib_freelist st) F" "F \<noteq> {}"
  obtains e fl where "ip_route_entry_alloc st = Some (e, st\<lparr>rib_freelist := fl\<rparr>)" "e \<in> F" "free_entries fl (F - {e})"
proof -
  obtain xs where xs: "slist (rib_freelist st) 0 xs" "set xs = F" using assms(1) by (auto simp: free_entries_def)
  then obtain e ys where e: "xs = e # ys" using assms(2) by (cases xs) auto
  then obtain fl where "SLIST_REMOVE_HEAD 0 (rib_freelist st) = Some fl" "slist fl 0 ys" using slist_remove_head xs(1) by metis
  moreover have "set ys = F - {e}" using xs e by (auto simp: slist_def)
  ultimately show thesis
    using that [of e fl] xs e slist_first [OF xs(1)] by (auto simp: ip_route_entry_alloc_def free_entries_def)
qed

lemma free_entries_free:
  "free_entries fl F \<Longrightarrow> e \<notin> F \<Longrightarrow> free_entries (SLIST_INSERT_HEAD 0 e (fl\<lparr>slots := (slots fl)(Next e := None)\<rparr>)) (insert e F)"
proof -
  assume a: "free_entries fl F" "e \<notin> F"
  then obtain xs where xs: "slist fl 0 xs" "set xs = F" by (auto simp: free_entries_def)
  have "slist (fl\<lparr>slots := (slots fl)(Next e := None)\<rparr>) 0 xs" by (rule slist_frame [OF xs(1)]) (use a(2) xs(2) in auto)
  from slist_insert_head [OF this, of e] show ?thesis unfolding free_entries_def using a(2) xs(2) by (intro exI [of _ "e # xs"]) auto
qed

lemma free_entries_init: "free_entries (fold (SLIST_INSERT_HEAD 0) [0..<n] (SLIST_INIT 0 fl)) {0..<n}"
proof (induction n)
  case (Suc n)
  then obtain xs where "slist (fold (SLIST_INSERT_HEAD 0) [0..<n] (SLIST_INIT 0 fl)) 0 xs" "set xs = {0..<n}" by (auto simp: free_entries_def)
  then show ?case using slist_insert_head [of _ 0 xs n] unfolding free_entries_def by (intro exI [of _ "n # xs"]) auto
qed (auto simp: free_entries_def)

definition rib_inv :: "u32 \<Rightarrow> rib \<Rightarrow> nat set \<Rightarrow> bool" where
  "rib_inv lo st S \<longleftrightarrow>
     rb_set (\<lambda>r. unat (r_network r - lo)) (rib_route st) (rib_routetree st) S \<and>
     rb_set (\<lambda>r. unat (r_iface r - lo)) (rib_route st) (rib_sourcetree st) S \<and>
     (\<forall>x \<in> S. in_window lo (r_network (rib_route st x)) \<and> in_window lo (r_iface (rib_route st x))) \<and>
     free_entries (rib_freelist st) ({0..<XSTACK_IP_RIB_SIZE} - S) \<and>
     S \<subseteq> {0..<XSTACK_IP_RIB_SIZE}"

definition rib_holds :: "u32 \<Rightarrow> rib \<Rightarrow> ip_route set \<Rightarrow> bool" where
  "rib_holds lo st R \<longleftrightarrow> (\<exists>S. rib_inv lo st S \<and> R = rib_route st ` S)"

lemma rank_inj: "unat (a - lo) = unat (b - lo) \<longleftrightarrow> a = (b :: u32)"
  by (metis diff_add_cancel word_unat_eq_iff)

lemma rib_inv_inj:
  assumes "rib_inv lo st S" "x \<in> S" "y \<in> S"
  shows "r_network (rib_route st x) = r_network (rib_route st y) \<Longrightarrow> x = y"
    "r_iface (rib_route st x) = r_iface (rib_route st y) \<Longrightarrow> x = y"
  using assms rb_set_inj [of "\<lambda>r. unat (r_network r - lo)" "rib_route st" _ S x y]
    rb_set_inj [of "\<lambda>r. unat (r_iface r - lo)" "rib_route st" _ S x y]
  unfolding rib_inv_def by auto

lemma find_key_hit:
  assumes "rib_inv lo st S" "x \<in> S" "r_network (rib_route st x) = r_network r"
  shows "find_by_network_key r st = Some (Some x)"
  unfolding find_by_network_key_def
  by (rule by_network.find_some [where lo = lo and S = S])
    (use assms in \<open>auto simp: rib_inv_def\<close>)

lemma find_key_miss:
  assumes "rib_inv lo st S" "in_window lo (r_network r)" "\<forall>x \<in> S. r_network (rib_route st x) \<noteq> r_network r"
  shows "find_by_network_key r st = Some None"
  unfolding find_by_network_key_def
  by (rule by_network.find_none [where lo = lo and S = S])
    (use assms in \<open>auto simp: rib_inv_def rank_inj\<close>)

lemma tree_remove_ok:
  assumes "rib_inv lo st S" "e \<in> S"
  obtains st' where "ip_route_tree_remove e st = Some st'"
    "rib_route st' = rib_route st" "rib_freelist st' = rib_freelist st"
    "rb_set (\<lambda>r. unat (r_network r - lo)) (rib_route st) (rib_routetree st') (S - {e})"
    "rb_set (\<lambda>r. unat (r_iface r - lo)) (rib_route st) (rib_sourcetree st') (S - {e})"
proof -
  obtain rt where "RB_REMOVE (rib_routetree st) (Some e) = Some rt"
    "rb_set (\<lambda>r. unat (r_network r - lo)) (rib_route st) rt (S - {e})"
    using rb_set_remove assms unfolding rib_inv_def by blast
  moreover obtain sr where "RB_REMOVE (rib_sourcetree st) (Some e) = Some sr"
    "rb_set (\<lambda>r. unat (r_iface r - lo)) (rib_route st) sr (S - {e})"
    using rb_set_remove assms unfolding rib_inv_def by blast
  ultimately show thesis using that [of "st\<lparr>rib_routetree := rt, rib_sourcetree := sr\<rparr>"]
    by (simp add: ip_route_tree_remove_def)
qed

text \<open>Inserting an entry that is in neither tree, once its route has been written.\<close>

lemma trees_insert_ok:
  assumes "rb_set (\<lambda>r. unat (r_network r - lo)) (rib_route st) (rib_routetree st) S"
    "rb_set (\<lambda>r. unat (r_iface r - lo)) (rib_route st) (rib_sourcetree st) S"
    "\<forall>x \<in> insert e S. in_window lo (r_network (rib_route st x)) \<and> in_window lo (r_iface (rib_route st x))"
    "e \<notin> S" "\<forall>x \<in> S. r_network (rib_route st x) \<noteq> r_network (rib_route st e)"
    "\<forall>x \<in> S. r_iface (rib_route st x) \<noteq> r_iface (rib_route st e)"
  obtains rt sr where
    "ip_route_tree_insert e st = Some (st\<lparr>rib_routetree := rt, rib_sourcetree := sr\<rparr>)"
    "rb_set (\<lambda>r. unat (r_network r - lo)) (rib_route st) rt (insert e S)"
    "rb_set (\<lambda>r. unat (r_iface r - lo)) (rib_route st) sr (insert e S)"
proof -
  obtain rt where
    "RB_INSERT (\<lambda>x. route_network_cmp (rib_route st e) (rib_route st x)) (rib_routetree st) e = Some (rt, None)"
    "rb_set (\<lambda>r. unat (r_network r - lo)) (rib_route st) rt (insert e S)"
    using by_network.insert_new [OF assms(1), of e] assms(3-5) by (auto simp: rank_inj)
  moreover obtain sr where
    "RB_INSERT (\<lambda>x. route_iface_cmp (rib_route st e) (rib_route st x)) (rib_sourcetree st) e = Some (sr, None)"
    "rb_set (\<lambda>r. unat (r_iface r - lo)) (rib_route st) sr (insert e S)"
    using by_iface.insert_new [OF assms(2), of e] assms(3,4,6) by (auto simp: rank_inj)
  ultimately show thesis using that by (simp add: ip_route_tree_insert_def)
qed

lemma rb_set_upd:
  "rb_set rank kf h S \<Longrightarrow> e \<notin> S \<Longrightarrow> rb_set rank (kf(e := k)) h S"
  by (erule rb_set_cong) auto

text \<open>The last steps of an update, when the entry \<open>e\<close> is in neither tree and no longer free.\<close>

lemma write_and_insert:
  assumes "rb_set (\<lambda>r. unat (r_network r - lo)) (rib_route st) (rib_routetree st) S"
    "rb_set (\<lambda>r. unat (r_iface r - lo)) (rib_route st) (rib_sourcetree st) S" "e \<notin> S"
    "\<forall>x \<in> S. in_window lo (r_network (rib_route st x)) \<and> in_window lo (r_iface (rib_route st x))"
    "in_window lo (r_network r)" "in_window lo (r_iface r)"
    "\<forall>x \<in> S. r_network (rib_route st x) \<noteq> r_network r \<and> r_iface (rib_route st x) \<noteq> r_iface r"
    "free_entries (rib_freelist st) ({0..<XSTACK_IP_RIB_SIZE} - insert e S)"
    "insert e S \<subseteq> {0..<XSTACK_IP_RIB_SIZE}"
  obtains st' where "ip_route_tree_insert e (st\<lparr>rib_route := (rib_route st)(e := r)\<rparr>) = Some st'"
    "rib_inv lo st' (insert e S)" "rib_route st' = (rib_route st)(e := r)"
proof -
  let ?st = "st\<lparr>rib_route := (rib_route st)(e := r)\<rparr>"
  have *: "rb_set (\<lambda>r. unat (r_network r - lo)) (rib_route ?st) (rib_routetree ?st) S"
    "rb_set (\<lambda>r. unat (r_iface r - lo)) (rib_route ?st) (rib_sourcetree ?st) S"
    using assms(1-3) by (simp_all add: rb_set_upd)
  have w: "\<forall>x \<in> insert e S. in_window lo (r_network (rib_route ?st x)) \<and> in_window lo (r_iface (rib_route ?st x))"
    using assms(4-6) by auto
  have d: "\<forall>x \<in> S. r_network (rib_route ?st x) \<noteq> r_network (rib_route ?st e)"
    "\<forall>x \<in> S. r_iface (rib_route ?st x) \<noteq> r_iface (rib_route ?st e)"
    using assms(3,7) by auto
  obtain rt sr where
    "ip_route_tree_insert e ?st = Some (?st\<lparr>rib_routetree := rt, rib_sourcetree := sr\<rparr>)"
    "rb_set (\<lambda>r. unat (r_network r - lo)) (rib_route ?st) rt (insert e S)"
    "rb_set (\<lambda>r. unat (r_iface r - lo)) (rib_route ?st) sr (insert e S)"
    using trees_insert_ok [OF * w assms(3) d] .
  then show thesis
    using that [of "?st\<lparr>rib_routetree := rt, rib_sourcetree := sr\<rparr>"] w assms(8,9)
    by (simp add: rib_inv_def)
qed

lemma image_upd: "e \<notin> S \<Longrightarrow> (f(e := r)) ` insert e S = insert r (f ` S)"
  by auto

lemma update_existing:
  assumes I: "rib_inv lo st S" and e: "e \<in> S" "r_network (rib_route st e) = r_network r"
    and w: "in_window lo (r_network r)" "in_window lo (r_iface r)"
    and f: "\<forall>x \<in> S. r_network (rib_route st x) \<noteq> r_network r \<longrightarrow> r_iface (rib_route st x) \<noteq> r_iface r"
  obtains st' where "ip_route_update r st = Some st'" "rib_inv lo st' S"
    "rib_route st' = (rib_route st)(e := r)"
proof -
  obtain st1 where 1: "ip_route_tree_remove e st = Some st1"
    "rib_route st1 = rib_route st" "rib_freelist st1 = rib_freelist st"
    "rb_set (\<lambda>r. unat (r_network r - lo)) (rib_route st) (rib_routetree st1) (S - {e})"
    "rb_set (\<lambda>r. unat (r_iface r - lo)) (rib_route st) (rib_sourcetree st1) (S - {e})"
    using tree_remove_ok [OF I e(1)] .
  have n: "r_network (rib_route st x) \<noteq> r_network r" if "x \<in> S" "x \<noteq> e" for x
    using rib_inv_inj(1) [OF I that(1) e(1)] that(2) e(2) by auto
  have S: "insert e (S - {e}) = S" using e(1) by auto
  obtain st' where "ip_route_tree_insert e (st1\<lparr>rib_route := (rib_route st1)(e := r)\<rparr>) = Some st'"
    "rib_inv lo st' (insert e (S - {e}))" "rib_route st' = (rib_route st1)(e := r)"
    by (rule write_and_insert [of lo st1 "S - {e}" e r])
      (use 1 I w f n S in \<open>auto simp: rib_inv_def\<close>)
  then show thesis
    using that 1 S find_key_hit [OF I e] by (simp add: ip_route_update_def)
qed

lemma update_new:
  assumes I: "rib_inv lo st S" and n: "\<forall>x \<in> S. r_network (rib_route st x) \<noteq> r_network r"
    and w: "in_window lo (r_network r)" "in_window lo (r_iface r)"
    and f: "\<forall>x \<in> S. r_iface (rib_route st x) \<noteq> r_iface r"
    and S: "card S < XSTACK_IP_RIB_SIZE"
  obtains st' e where "ip_route_update r st = Some st'" "e \<notin> S" "rib_inv lo st' (insert e S)"
    "rib_route st' = (rib_route st)(e := r)"
proof -
  have F: "free_entries (rib_freelist st) ({0..<XSTACK_IP_RIB_SIZE} - S)" using I by (simp add: rib_inv_def)
  have "{0..<XSTACK_IP_RIB_SIZE} - S \<noteq> {}"
  proof
    assume "{0..<XSTACK_IP_RIB_SIZE} - S = {}"
    then have "S = {0..<XSTACK_IP_RIB_SIZE}" using I by (auto simp: rib_inv_def)
    then show False using S by simp
  qed
  then obtain e fl where fl: "ip_route_entry_alloc st = Some (e, st\<lparr>rib_freelist := fl\<rparr>)" "e \<in> {0..<XSTACK_IP_RIB_SIZE} - S"
    "free_entries fl ({0..<XSTACK_IP_RIB_SIZE} - S - {e})" using free_entries_alloc [OF F] by metis
  have e: "e \<notin> S" "e < XSTACK_IP_RIB_SIZE" "{0..<XSTACK_IP_RIB_SIZE} - S - {e} = {0..<XSTACK_IP_RIB_SIZE} - insert e S" using fl(2) by auto
  let ?st = "st\<lparr>rib_freelist := fl\<rparr>"
  obtain st' where "ip_route_tree_insert e (?st\<lparr>rib_route := (rib_route ?st)(e := r)\<rparr>) = Some st'"
    "rib_inv lo st' (insert e S)" "rib_route st' = (rib_route ?st)(e := r)"
    by (rule write_and_insert [of lo ?st S e r]) (use I e fl w f n in \<open>auto simp: rib_inv_def\<close>)
  then show thesis
    using that e(1) fl(1) find_key_miss [OF I w(1) n] by (simp add: ip_route_update_def ip_route_add_def)
qed

lemma route_image: "rib_inv lo st S \<Longrightarrow> e \<in> S \<Longrightarrow>
    ((rib_route st)(e := r)) ` S = insert r {q \<in> rib_route st ` S. r_network q \<noteq> r_network (rib_route st e)}"
  using rib_inv_inj(1) [of lo st S _ e] by (auto simp: image_iff)

section \<open>The contract of the routing table\<close>

lemma rib_init_inv: "rib_inv lo (ip_route_init st) {}"
  by (simp add: rib_inv_def ip_route_init_def rb_set_init free_entries_init)

lemma rib_update_ok:
  assumes "rib_holds lo st R" "in_window lo (r_network r)" "in_window lo (r_iface r)"
    "\<forall>q \<in> R. r_network q \<noteq> r_network r \<longrightarrow> r_iface q \<noteq> r_iface r"
    "(\<exists>q \<in> R. r_network q = r_network r) \<or> card R < XSTACK_IP_RIB_SIZE"
  shows "\<exists>st'. ip_route_update r st = Some st' \<and>
    rib_holds lo st' (insert r {q \<in> R. r_network q \<noteq> r_network r}) \<and>
    ip_route_find_by_network (r_network r) st' = Some (Inr r) \<and>
    ip_route_find_by_iface (r_iface r) st' = Some (Inr r)"
proof -
  obtain S where S: "rib_inv lo st S" "R = rib_route st ` S" using assms(1) by (auto simp: rib_holds_def)
  have "\<exists>st' S' e. ip_route_update r st = Some st' \<and> rib_inv lo st' S' \<and> e \<in> S' \<and> rib_route st' e = r \<and>
    rib_route st' ` S' = insert r {q \<in> R. r_network q \<noteq> r_network r}"
  proof (cases "\<exists>e \<in> S. r_network (rib_route st e) = r_network r")
    case True
    then obtain e where e: "e \<in> S" "r_network (rib_route st e) = r_network r" by blast
    have f: "\<forall>x \<in> S. r_network (rib_route st x) \<noteq> r_network r \<longrightarrow> r_iface (rib_route st x) \<noteq> r_iface r"
      using assms(4) S(2) by auto
    obtain st' where st': "ip_route_update r st = Some st'" "rib_inv lo st' S"
      "rib_route st' = (rib_route st)(e := r)"
      using update_existing [OF S(1) e assms(2,3) f] .
    have "rib_route st' ` S = insert r {q \<in> R. r_network q \<noteq> r_network r}"
      unfolding st'(3) route_image [OF S(1) e(1)] e(2) S(2) ..
    moreover have "rib_route st' e = r" by (simp add: st'(3))
    ultimately show ?thesis using st'(1,2) e(1) by blast
  next
    case False
    have "inj_on (rib_route st) S" using rib_inv_inj(1) [OF S(1)] by (auto simp: inj_on_def)
    then have card: "card S < XSTACK_IP_RIB_SIZE"
      using assms(5) False S(2) by (auto simp: card_image)
    have n: "\<forall>x \<in> S. r_network (rib_route st x) \<noteq> r_network r" using False by blast
    have f: "\<forall>x \<in> S. r_iface (rib_route st x) \<noteq> r_iface r" using n assms(4) S(2) by auto
    obtain st' e where st': "ip_route_update r st = Some st'" "e \<notin> S" "rib_inv lo st' (insert e S)"
      "rib_route st' = (rib_route st)(e := r)"
      using update_new [OF S(1) n assms(2,3) f card] .
    have "{q \<in> R. r_network q \<noteq> r_network r} = R" using n S(2) by auto
    then have "rib_route st' ` insert e S = insert r {q \<in> R. r_network q \<noteq> r_network r}"
      unfolding st'(4) image_upd [OF st'(2)] S(2) by simp
    moreover have "rib_route st' e = r" by (simp add: st'(4))
    ultimately show ?thesis using st'(1,3) by blast
  qed
  then obtain st' S' e where st': "ip_route_update r st = Some st'" "rib_inv lo st' S'" "e \<in> S'"
    "rib_route st' e = r" "rib_route st' ` S' = insert r {q \<in> R. r_network q \<noteq> r_network r}"
    by blast
  have "find_by_network_key (ip_route_zero\<lparr>r_network := r_network r\<rparr>) st' = Some (Some e)"
    by (rule find_key_hit [OF st'(2,3)]) (simp add: st'(4))
  moreover have "RB_FIND (\<lambda>x. route_iface_cmp (ip_route_zero\<lparr>r_iface := r_iface r\<rparr>) (rib_route st' x))
      (rib_sourcetree st') = Some (Some e)"
    by (rule by_iface.find_some [where lo = lo and S = S'])
      (use st' assms(3) in \<open>auto simp: rib_inv_def\<close>)
  ultimately show ?thesis
    using st' by (auto simp: rib_holds_def ip_route_find_by_network_def ip_route_find_by_iface_def)
qed

text \<open>C17: \<^verbatim>\<open>ip_route_update\<close> replaces the route of that network or adds it, while an entry is free and no
  other route uses the interface address. The trees and the free list stay consistent, and afterwards
  the route is found by its network and by its interface.\<close>

theorem ip_route_update_correct:
  assumes "rib_holds lo st R" "in_window lo (r_network r)" "in_window lo (r_iface r)"
    "\<forall>q \<in> R. r_network q \<noteq> r_network r \<longrightarrow> r_iface q \<noteq> r_iface r"
    "(\<exists>q \<in> R. r_network q = r_network r) \<or> card R < XSTACK_IP_RIB_SIZE"
  shows "\<exists>st'. ip_route_update r st = Some st' \<and>
    rib_holds lo st' (insert r {q \<in> R. r_network q \<noteq> r_network r}) \<and>
    ip_route_find_by_network (r_network r) st' = Some (Inr r) \<and>
    ip_route_find_by_iface (r_iface r) st' = Some (Inr r)"
  by (rule rib_update_ok [OF assms])

lemma ip_route_update_correct_witness:
  "\<exists>st'. ip_route_update \<lparr>r_network = 0x0a000000, r_netmask = 0xffffff00, r_gw = 0,
      r_iface = 0x0a000002, r_iface_handle = 0\<rparr>
      (ip_route_init \<lparr>rib_route = \<lambda>_. ip_route_zero, rib_routetree = example_head,
        rib_sourcetree = example_head, rib_freelist = \<lparr>slots = \<lambda>_. None\<rparr>\<rparr>) = Some st' \<and>
    rib_holds 0 st' {\<lparr>r_network = 0x0a000000, r_netmask = 0xffffff00, r_gw = 0,
      r_iface = 0x0a000002, r_iface_handle = 0\<rparr>}"
proof -
  let ?st = "ip_route_init \<lparr>rib_route = \<lambda>_. ip_route_zero, rib_routetree = example_head,
        rib_sourcetree = example_head, rib_freelist = \<lparr>slots = \<lambda>_. None\<rparr>\<rparr>"
  have "rib_holds 0 ?st {}" using rib_init_inv by (auto simp: rib_holds_def)
  then show ?thesis
    using ip_route_update_correct [of 0 ?st "{}" "\<lparr>r_network = 0x0a000000, r_netmask = 0xffffff00, r_gw = 0,
      r_iface = 0x0a000002, r_iface_handle = 0\<rparr>"]
    by (auto simp: in_window_def XSTACK_IP_RIB_SIZE_def)
qed

lemma key_cases:
  assumes "rib_inv lo st S" "in_window lo (r_network r)"
  obtains (hit) x where "find_by_network_key r st = Some (Some x)" "x \<in> S" "r_network (rib_route st x) = r_network r"
    | (miss) "find_by_network_key r st = Some None" "\<forall>x \<in> S. r_network (rib_route st x) \<noteq> r_network r"
  using find_key_hit [OF assms(1)] find_key_miss [OF assms] by metis

lemma find_by_network_cases:
  assumes I: "rib_inv lo st S" and w: "in_window lo addr" "in_window lo 0"
  obtains (exact) x where "ip_route_find_by_network addr st = Some (Inr (rib_route st x))" "x \<in> S"
      "r_network (rib_route st x) = addr"
    | (masked) x where "ip_route_find_by_network addr st = Some (Inr (rib_route st x))" "x \<in> S"
      "\<forall>y \<in> S. r_network (rib_route st y) \<noteq> addr"
      "r_network (rib_route st x) = addr AND r_netmask (rib_route st x)"
      "\<forall>y \<in> S. r_network (rib_route st y) = addr AND r_netmask (rib_route st y) \<longrightarrow>
        unat (r_network (rib_route st x) - lo) \<le> unat (r_network (rib_route st y) - lo)"
    | (default) x where "ip_route_find_by_network addr st = Some (Inr (rib_route st x))" "x \<in> S"
      "\<forall>y \<in> S. r_network (rib_route st y) \<noteq> addr"
      "\<forall>y \<in> S. r_network (rib_route st y) \<noteq> addr AND r_netmask (rib_route st y)"
      "r_network (rib_route st x) = 0"
    | (none) "ip_route_find_by_network addr st = Some (Inl ENOENT)"
      "\<forall>y \<in> S. r_network (rib_route st y) \<noteq> addr \<and> r_network (rib_route st y) \<noteq> 0 \<and>
        r_network (rib_route st y) \<noteq> addr AND r_netmask (rib_route st y)"
proof -
  let ?z = "ip_route_zero\<lparr>r_network := addr\<rparr>"
  let ?f = "\<lambda>x. r_network (rib_route st x) = addr AND r_netmask (rib_route st x)"
  have T: "rb_set (\<lambda>r. unat (r_network r - lo)) (rib_route st) (rib_routetree st) S"
    using I by (simp add: rib_inv_def)
  have z: "in_window lo (r_network ?z)" "in_window lo (r_network ip_route_zero)"
    using w by (simp_all add: ip_route_zero_def)
  show thesis
  proof (cases rule: key_cases [OF I z(1)])
    case (1 x)
    then show thesis using exact [of x] by (simp add: ip_route_find_by_network_def)
  next
    case 2
    show thesis
    proof (cases rule: rb_set_foreach [OF T, of ?f])
      case (1 x)
      then show thesis using masked [of x] 2 by (simp add: ip_route_find_by_network_def)
    next
      case m: 2
      show thesis
      proof (cases rule: key_cases [OF I z(2)])
        case (1 x)
        then show thesis using default [of x] 2 m
          by (simp add: ip_route_find_by_network_def) (simp add: ip_route_zero_def)
      next
        case n: 2
        have "r_network ip_route_zero = 0" by (simp add: ip_route_zero_def)
        then show thesis using none 2 m n by (simp add: ip_route_find_by_network_def)
      qed
    qed
  qed
qed

text \<open>C27: \<^verbatim>\<open>ip_route_find_by_network\<close> returns the route of exactly that network; without one, the first
  route in network order whose network is the masked address; without one, the default route; and
  \<^verbatim>\<open>ENOENT\<close> only when there is none of these. It always returns.\<close>

theorem ip_route_find_by_network_correct:
  assumes "rib_holds lo st R" "in_window lo addr" "in_window lo 0"
  shows "\<exists>res. ip_route_find_by_network addr st = Some res \<and>
    (case res of
       Inr q \<Rightarrow> q \<in> R \<and> (r_network q = addr \<or> (\<forall>p \<in> R. r_network p \<noteq> addr) \<and>
         (r_network q = addr AND r_netmask q \<and>
            (\<forall>p \<in> R. r_network p = addr AND r_netmask p \<longrightarrow> unat (r_network q - lo) \<le> unat (r_network p - lo)) \<or>
          (\<forall>p \<in> R. r_network p \<noteq> addr AND r_netmask p) \<and> r_network q = 0))
     | Inl e \<Rightarrow> e = ENOENT \<and> (\<forall>p \<in> R. r_network p \<noteq> addr \<and> r_network p \<noteq> 0 \<and>
         r_network p \<noteq> addr AND r_netmask p))"
proof -
  obtain S where S: "rib_inv lo st S" "R = rib_route st ` S" using assms(1) by (auto simp: rib_holds_def)
  show ?thesis
    by (cases rule: find_by_network_cases [OF S(1) assms(2,3)]) (simp_all add: S(2))
qed

lemma ip_route_find_by_network_correct_witness:
  "\<exists>res. ip_route_find_by_network 0x0a000005 (ip_route_init \<lparr>rib_route = \<lambda>_. ip_route_zero,
      rib_routetree = example_head, rib_sourcetree = example_head, rib_freelist = \<lparr>slots = \<lambda>_. None\<rparr>\<rparr>) = Some res \<and>
    res = Inl ENOENT"
proof -
  let ?st = "ip_route_init \<lparr>rib_route = \<lambda>_. ip_route_zero, rib_routetree = example_head,
        rib_sourcetree = example_head, rib_freelist = \<lparr>slots = \<lambda>_. None\<rparr>\<rparr>"
  have "rib_holds 0 ?st {}" using rib_init_inv by (auto simp: rib_holds_def)
  then obtain res where "ip_route_find_by_network 0x0a000005 ?st = Some res"
    "case res of Inr q \<Rightarrow> False | Inl e \<Rightarrow> e = ENOENT"
    using ip_route_find_by_network_correct [of 0 ?st "{}" "0x0a000005"]
    by (auto simp: in_window_def cong: sum.case_cong)
  then show ?thesis by (cases res) auto
qed

lemma find_by_iface_ok:
  assumes I: "rib_inv lo st S" and w: "in_window lo addr"
  shows "\<exists>res. ip_route_find_by_iface addr st = Some res \<and>
    (case res of Inr q \<Rightarrow> q \<in> rib_route st ` S \<and> r_iface q = addr
     | Inl e \<Rightarrow> e = ENOENT \<and> (\<forall>p \<in> rib_route st ` S. r_iface p \<noteq> addr))"
proof (cases "\<exists>x \<in> S. r_iface (rib_route st x) = addr")
  case True
  then obtain x where x: "x \<in> S" "r_iface (rib_route st x) = addr" by blast
  have "RB_FIND (\<lambda>x. route_iface_cmp (ip_route_zero\<lparr>r_iface := addr\<rparr>) (rib_route st x))
      (rib_sourcetree st) = Some (Some x)"
    by (rule by_iface.find_some [where lo = lo and S = S]) (use I w x in \<open>auto simp: rib_inv_def\<close>)
  then show ?thesis using x by (simp add: ip_route_find_by_iface_def)
next
  case False
  have "RB_FIND (\<lambda>x. route_iface_cmp (ip_route_zero\<lparr>r_iface := addr\<rparr>) (rib_route st x))
      (rib_sourcetree st) = Some None"
    by (rule by_iface.find_none [where lo = lo and S = S]) (use I w False in \<open>auto simp: rib_inv_def rank_inj\<close>)
  then show ?thesis using False by (auto simp: ip_route_find_by_iface_def)
qed

lemma remove_hit:
  assumes I: "rib_inv lo st S" and x: "x \<in> S" "r_network (rib_route st x) = r_network r"
  obtains st' where "ip_route_remove r st = Some (Inr (), st')" "rib_inv lo st' (S - {x})"
    "rib_route st' = (rib_route st)(x := ip_route_zero)"
proof -
  obtain st1 where 1: "ip_route_tree_remove x st = Some st1"
    "rib_route st1 = rib_route st" "rib_freelist st1 = rib_freelist st"
    "rb_set (\<lambda>r. unat (r_network r - lo)) (rib_route st) (rib_routetree st1) (S - {x})"
    "rb_set (\<lambda>r. unat (r_iface r - lo)) (rib_route st) (rib_sourcetree st1) (S - {x})"
    using tree_remove_ok [OF I x(1)] .
  let ?st = "ip_route_entry_free x (st1\<lparr>rib_route := (rib_route st1)(x := ip_route_zero),
    rib_routetree := (rib_routetree st1)\<lparr>links := (links (rib_routetree st1))(x := rb_entry_zero)\<rparr>,
    rib_sourcetree := (rib_sourcetree st1)\<lparr>links := (links (rib_sourcetree st1))(x := rb_entry_zero)\<rparr>,
    rib_freelist := (rib_freelist st1)\<lparr>slots := (slots (rib_freelist st1))(Next x := None)\<rparr>\<rparr>)"
  have "x < XSTACK_IP_RIB_SIZE" using I x(1) by (auto simp: rib_inv_def)
  then have F: "insert x ({0..<XSTACK_IP_RIB_SIZE} - S) = {0..<XSTACK_IP_RIB_SIZE} - (S - {x})" by auto
  have "free_entries (rib_freelist st1) ({0..<XSTACK_IP_RIB_SIZE} - S)" using I 1(3) by (simp add: rib_inv_def)
  from free_entries_free [OF this, of x] have fr: "free_entries (rib_freelist ?st) ({0..<XSTACK_IP_RIB_SIZE} - (S - {x}))"
    using x(1) unfolding F by (simp add: ip_route_entry_free_def)
  have "ip_route_remove r st = Some (Inr (), ?st)"
    using find_key_hit [OF I x] 1(1) by (simp add: ip_route_remove_def)
  moreover have "rib_inv lo ?st (S - {x})"
    using 1 I x(1) fr by (auto simp: rib_inv_def ip_route_entry_free_def intro!: rb_set_links rb_set_upd)
  ultimately show thesis using that 1(2) by (simp add: ip_route_entry_free_def)
qed

lemma remove_ok:
  assumes I: "rib_inv lo st S" and w: "in_window lo (r_network r)"
  shows "\<exists>res st'. ip_route_remove r st = Some (res, st') \<and>
    rib_holds lo st' {q \<in> rib_route st ` S. r_network q \<noteq> r_network r} \<and>
    res = (if \<exists>q \<in> rib_route st ` S. r_network q = r_network r then Inr () else Inl ENOENT)"
proof (cases rule: key_cases [OF I w])
  case (1 x)
  obtain st' where st': "ip_route_remove r st = Some (Inr (), st')" "rib_inv lo st' (S - {x})"
    "rib_route st' = (rib_route st)(x := ip_route_zero)"
    using remove_hit [OF I 1(2,3)] .
  have "rib_route st' ` (S - {x}) = {q \<in> rib_route st ` S. r_network q \<noteq> r_network r}"
    using rib_inv_inj(1) [OF I _ 1(2)] 1(3) by (auto simp: st'(3) image_iff)
  then show ?thesis using st'(1,2) 1(2,3) unfolding rib_holds_def by (metis (mono_tags, lifting) imageI)
next
  case 2
  then have "{q \<in> rib_route st ` S. r_network q \<noteq> r_network r} = rib_route st ` S" by auto
  then show ?thesis using 2 I by (auto simp: ip_route_remove_def rib_holds_def)
qed

text \<open>C28: \<^verbatim>\<open>ip_route_find_by_iface\<close> returns the route with that interface address, \<^verbatim>\<open>ENOENT\<close> when there is
  none; \<^verbatim>\<open>ip_route_remove\<close> takes the route of the network out and puts its entry back on the free
  list, or returns \<^verbatim>\<open>ENOENT\<close> and changes nothing.\<close>

theorem ip_route_iface_remove_correct:
  assumes "rib_holds lo st R" "in_window lo addr" "in_window lo (r_network r)"
  shows "(\<exists>res. ip_route_find_by_iface addr st = Some res \<and>
      (case res of Inr q \<Rightarrow> q \<in> R \<and> r_iface q = addr | Inl e \<Rightarrow> e = ENOENT \<and> (\<forall>p \<in> R. r_iface p \<noteq> addr))) \<and>
    (\<exists>res st'. ip_route_remove r st = Some (res, st') \<and>
      rib_holds lo st' {q \<in> R. r_network q \<noteq> r_network r} \<and>
      res = (if \<exists>q \<in> R. r_network q = r_network r then Inr () else Inl ENOENT))"
proof -
  obtain S where S: "rib_inv lo st S" "R = rib_route st ` S" using assms(1) by (auto simp: rib_holds_def)
  show ?thesis
    using find_by_iface_ok [OF S(1) assms(2)] remove_ok [OF S(1) assms(3)] unfolding S(2) by blast
qed

lemma ip_route_iface_remove_correct_witness:
  "\<exists>st'. ip_route_remove ip_route_zero (ip_route_init \<lparr>rib_route = \<lambda>_. ip_route_zero,
      rib_routetree = example_head, rib_sourcetree = example_head, rib_freelist = \<lparr>slots = \<lambda>_. None\<rparr>\<rparr>) = Some (Inl ENOENT, st')"
proof -
  let ?st = "ip_route_init \<lparr>rib_route = \<lambda>_. ip_route_zero, rib_routetree = example_head,
        rib_sourcetree = example_head, rib_freelist = \<lparr>slots = \<lambda>_. None\<rparr>\<rparr>"
  have "rib_holds 0 ?st {}" using rib_init_inv by (auto simp: rib_holds_def)
  then show ?thesis
    using ip_route_iface_remove_correct [of 0 ?st "{}" 1 ip_route_zero]
    by (auto simp: in_window_def ip_route_zero_def)
qed

end
