(* ===== verification/Arp.thy ===== *)
theory Arp
  imports Tree_Order Ether Ip_Route
begin

text \<open>
  The address resolution of \<^verbatim>\<open>src/arp.c\<close>: the cache, an array of 50 entries with a red-black tree over
  those in use, and the messages. \<^verbatim>\<open>arp_input\<close>, which also runs the deferred transmissions, is in
  the theory \<open>Ip_Net\<close>.

  The age of an entry is \<^verbatim>\<open>ARP_CACHE_FREE\<close> (-2), \<^verbatim>\<open>ARP_CACHE_STATIC\<close> (-1), or the seconds since the
  entry was learned. Static storage starts with all ages 0, that is, as if every entry were a learned
  one and in the tree: \<open>arp_boot_loses_first\<close> shows what follows.
\<close>

section \<open>The cache\<close>

definition XSTACK_ARP_CACHE_SIZE :: nat where "XSTACK_ARP_CACHE_SIZE = 50"
definition ARP_CACHE_FREE :: int where "ARP_CACHE_FREE = -2"
definition ARP_CACHE_STATIC :: int where "ARP_CACHE_STATIC = -1"
definition ARP_CACHE_DYN :: int where "ARP_CACHE_DYN = 0"
definition ARP_CACHE_AGE_MAX :: int where "ARP_CACHE_AGE_MAX = 20 * 60 * 60"

lemmas arp_consts = XSTACK_ARP_CACHE_SIZE_def ARP_CACHE_FREE_def ARP_CACHE_STATIC_def
  ARP_CACHE_DYN_def ARP_CACHE_AGE_MAX_def

record arp_cache_entry =
  ip_addr :: u32
  haddr :: mac_addr
  age :: int

record arp_state =
  arp_cache :: "nat \<Rightarrow> arp_cache_entry"
  arp_cache_head :: rb_head

definition arp_cache_cmp :: "arp_cache_entry \<Rightarrow> arp_cache_entry \<Rightarrow> int" where
  "arp_cache_cmp a b = sint (ip_addr a - ip_addr b)"

text \<open>The loop of \<^verbatim>\<open>arp_cache_insert\<close>: the candidate so far and the indices that are left.\<close>

fun arp_pick :: "(nat \<Rightarrow> arp_cache_entry) \<Rightarrow> u32 \<Rightarrow> nat list \<Rightarrow> ptr \<Rightarrow> ptr" where
  "arp_pick cache ip [] entry = entry"
| "arp_pick cache ip (i # is) entry =
     (if ip_addr (cache i) = ip then Some i
      else arp_pick cache ip is
        (if age (cache i) = ARP_CACHE_FREE then Some i
         else if (case entry of Some e \<Rightarrow> age (cache e) > age (cache i) | None \<Rightarrow> age (cache i) \<ge> 0)
         then Some i else entry))"

definition arp_cache_insert :: "u32 \<Rightarrow> mac_addr \<Rightarrow> int \<Rightarrow> arp_state \<Rightarrow> ((int + unit) \<times> arp_state) option" where
  "arp_cache_insert ip mac type st =
     (if ip = 0 then Some (Inr (), st)
      else case arp_pick (arp_cache st) ip [0..<XSTACK_ARP_CACHE_SIZE] None of
        None \<Rightarrow> Some (Inl ENOMEM, st)
      | Some e \<Rightarrow> do {
          head \<leftarrow> (if age (arp_cache st e) \<ge> 0 then RB_REMOVE (arp_cache_head st) (Some e)
                   else Some (arp_cache_head st));
          let cache = (arp_cache st)(e := \<lparr>ip_addr = ip, haddr = mac, age = type\<rparr>);
          (head, _) \<leftarrow> RB_INSERT (\<lambda>x. arp_cache_cmp (cache e) (cache x)) head e;
          Some (Inr (), st\<lparr>arp_cache := cache, arp_cache_head := head\<rparr>)
        })"

definition arp_cache_get_entry :: "u32 \<Rightarrow> arp_state \<Rightarrow> ptr option" where
  "arp_cache_get_entry ip st =
     RB_FIND (\<lambda>x. arp_cache_cmp \<lparr>ip_addr = ip, haddr = replicate 6 0, age = 0\<rparr> (arp_cache st x))
       (arp_cache_head st)"

text \<open>\<^verbatim>\<open>arp_cache_remove\<close> hands the result of the lookup to \<^verbatim>\<open>RB_REMOVE\<close> before it tests it for NULL.\<close>

definition arp_cache_remove :: "u32 \<Rightarrow> arp_state \<Rightarrow> arp_state option" where
  "arp_cache_remove ip st = do {
     entry \<leftarrow> arp_cache_get_entry ip st;
     head \<leftarrow> RB_REMOVE (arp_cache_head st) entry;
     let st = st\<lparr>arp_cache_head := head\<rparr>;
     Some (case entry of
         None \<Rightarrow> st
       | Some e \<Rightarrow> st\<lparr>arp_cache := (arp_cache st)(e := (arp_cache st e)\<lparr>age := ARP_CACHE_FREE\<rparr>)\<rparr>)
   }"

definition arp_cache_update_fn :: "int \<Rightarrow> arp_state \<Rightarrow> arp_state" where
  "arp_cache_update_fn delta_time st = st\<lparr>arp_cache := (\<lambda>i.
     if i < XSTACK_ARP_CACHE_SIZE then
       let entry = arp_cache st i in
       if age entry > ARP_CACHE_AGE_MAX then entry\<lparr>age := ARP_CACHE_FREE\<rparr>
       else if age entry \<ge> 0 then entry\<lparr>age := age entry + delta_time\<rparr>
       else entry
     else arp_cache st i)\<rparr>"

section \<open>Messages\<close>

definition ARP_HTYPE_ETHER :: u16 where "ARP_HTYPE_ETHER = 1"
definition ARP_OPER_REQUEST :: u16 where "ARP_OPER_REQUEST = 1"
definition ARP_OPER_REPLY :: u16 where "ARP_OPER_REPLY = 2"

record arp_ip =
  arp_htype :: u16
  arp_ptype :: u16
  arp_hlen :: u8
  arp_plen :: u8
  arp_oper :: u16
  arp_sha :: mac_addr
  arp_spa :: u32
  arp_tha :: mac_addr
  arp_tpa :: u32

definition arp_store :: "arp_ip \<Rightarrow> bytes" where
  "arp_store m = store16 (arp_htype m) @ store16 (arp_ptype m) @ [arp_hlen m, arp_plen m] @
     store16 (arp_oper m) @ arp_sha m @ store32 (arp_spa m) @ arp_tha m @ store32 (arp_tpa m)"

definition arp_load :: "bytes \<Rightarrow> arp_ip option" where
  "arp_load b = (if length b < 28 then None else Some
     \<lparr>arp_htype = load16 (b ! 0) (b ! 1), arp_ptype = load16 (b ! 2) (b ! 3), arp_hlen = b ! 4,
      arp_plen = b ! 5, arp_oper = load16 (b ! 6) (b ! 7), arp_sha = take 6 (drop 8 b),
      arp_spa = load32 (b ! 14) (b ! 15) (b ! 16) (b ! 17), arp_tha = take 6 (drop 18 b),
      arp_tpa = load32 (b ! 24) (b ! 25) (b ! 26) (b ! 27)\<rparr>)"

definition arp_hton :: "arp_ip \<Rightarrow> arp_ip" where
  "arp_hton host = \<lparr>arp_htype = htons (arp_htype host), arp_ptype = htons (arp_ptype host),
     arp_hlen = arp_hlen host, arp_plen = arp_plen host, arp_oper = htons (arp_oper host),
     arp_sha = arp_sha host, arp_spa = ntohl (arp_spa host),
     arp_tha = arp_tha host, arp_tpa = ntohl (arp_tpa host)\<rparr>"

definition arp_ntoh :: "arp_ip \<Rightarrow> arp_ip" where
  "arp_ntoh net = \<lparr>arp_htype = htons (arp_htype net), arp_ptype = htons (arp_ptype net),
     arp_hlen = arp_hlen net, arp_plen = arp_plen net, arp_oper = htons (arp_oper net),
     arp_sha = arp_sha net, arp_spa = ntohl (arp_spa net),
     arp_tha = arp_tha net, arp_tpa = ntohl (arp_tpa net)\<rparr>"

text \<open>A request, and the announcement of an own address (a request for it).\<close>

definition arp_message :: "mac_addr \<Rightarrow> u32 \<Rightarrow> u32 \<Rightarrow> arp_ip" where
  "arp_message sha spa tpa =
     \<lparr>arp_htype = ARP_HTYPE_ETHER, arp_ptype = ETHER_PROTO_IPV4, arp_hlen = 6, arp_plen = 4,
      arp_oper = ARP_OPER_REQUEST, arp_sha = sha, arp_spa = spa, arp_tha = replicate 6 0, arp_tpa = tpa\<rparr>"

definition arp_request ::
  "sendto_fn \<Rightarrow> int \<Rightarrow> u32 \<Rightarrow> u32 \<Rightarrow> ether_state \<Rightarrow> (int \<times> ether_state) option" where
  "arp_request sendto handle spa tpa est = do {
     (_, sha, est) \<leftarrow> ether_handle2addr est handle;
     let msg = arp_message (case sha of Some mac \<Rightarrow> mac | None \<Rightarrow> replicate 6 0) spa tpa;
     (retval, est) \<leftarrow> ether_send sendto est handle mac_broadcast_addr ETHER_PROTO_ARP (arp_store (arp_hton msg));
     Some (if retval < 0 then retval else 0, est)
   }"

definition arp_gratuitous :: "sendto_fn \<Rightarrow> int \<Rightarrow> u32 \<Rightarrow> ether_state \<Rightarrow> (int \<times> ether_state) option" where
  "arp_gratuitous sendto handle spa est = do {
     (_, sha, est) \<leftarrow> ether_handle2addr est handle;
     let msg = arp_message (case sha of Some mac \<Rightarrow> mac | None \<Rightarrow> replicate 6 0) spa spa;
     (retval, est) \<leftarrow> ether_send sendto est handle mac_broadcast_addr ETHER_PROTO_ARP (arp_store (arp_hton msg));
     Some (0, est)
   }"

text \<open>\<^verbatim>\<open>arp_cache_get_haddr\<close>: the address of a learned entry (\<open>Inr\<close>), or -1. Without an entry a request goes
  out, and when that succeeded \<^verbatim>\<open>errno\<close> becomes \<^verbatim>\<open>EHOSTUNREACH\<close>. A static entry is not used.\<close>

definition arp_resolve ::
  "sendto_fn \<Rightarrow> u32 \<Rightarrow> u32 \<Rightarrow> rib \<Rightarrow> ether_state \<Rightarrow> (mac_addr option \<times> ether_state) option" where
  "arp_resolve sendto iface ip rt est = do {
     r \<leftarrow> ip_route_find_by_iface iface rt;
     case r of
       Inl e \<Rightarrow> Some (None, est\<lparr>errno := e\<rparr>)
     | Inr route \<Rightarrow> do {
         (retval, est) \<leftarrow> arp_request sendto (r_iface_handle route) (r_iface route) ip est;
         Some (None, if retval = 0 then est\<lparr>errno := EHOSTUNREACH\<rparr> else est)
       }
   }"

definition arp_cache_get_haddr ::
  "sendto_fn \<Rightarrow> u32 \<Rightarrow> u32 \<Rightarrow> arp_state \<Rightarrow> rib \<Rightarrow> ether_state \<Rightarrow> (mac_addr option \<times> ether_state) option" where
  "arp_cache_get_haddr sendto iface ip st rt est = do {
     entry \<leftarrow> arp_cache_get_entry ip st;
     case entry of
       Some e \<Rightarrow>
         if age (arp_cache st e) \<ge> 0 then Some (Some (haddr (arp_cache st e)), est)
         else arp_resolve sendto iface ip rt est
     | None \<Rightarrow> arp_resolve sendto iface ip rt est
   }"

section \<open>The cache as a map\<close>

interpretation by_ip: key_order arp_cache_cmp "\<lambda>e. unat (ip_addr e - lo)" "\<lambda>e. in_window lo (ip_addr e)" for lo
  by unfold_locales (simp_all add: arp_cache_cmp_def in_window_def sint_diff_order)

definition arp_live :: "arp_state \<Rightarrow> nat \<Rightarrow> bool" where
  "arp_live st i \<longleftrightarrow> i < XSTACK_ARP_CACHE_SIZE \<and> age (arp_cache st i) \<noteq> ARP_CACHE_FREE"

text \<open>The tree holds exactly the entries that are not free, and no address occurs twice in the array.\<close>

definition arp_inv :: "u32 \<Rightarrow> arp_state \<Rightarrow> bool" where
  "arp_inv lo st \<longleftrightarrow>
     rb_set (\<lambda>e. unat (ip_addr e - lo)) (arp_cache st) (arp_cache_head st) {i. arp_live st i} \<and>
     (\<forall>i. arp_live st i \<longrightarrow> in_window lo (ip_addr (arp_cache st i)) \<and> ip_addr (arp_cache st i) \<noteq> 0 \<and>
        age (arp_cache st i) \<ge> ARP_CACHE_STATIC) \<and>
     (\<forall>i < XSTACK_ARP_CACHE_SIZE. \<forall>j < XSTACK_ARP_CACHE_SIZE.
        ip_addr (arp_cache st i) = ip_addr (arp_cache st j) \<longrightarrow> ip_addr (arp_cache st i) \<noteq> 0 \<longrightarrow> i = j)"

lemma arp_inv_distinct:
  assumes "arp_inv lo st" "i < XSTACK_ARP_CACHE_SIZE" "j < XSTACK_ARP_CACHE_SIZE"
    "ip_addr (arp_cache st i) = ip_addr (arp_cache st j)" "ip_addr (arp_cache st i) \<noteq> 0"
  shows "i = j"
  using assms unfolding arp_inv_def by blast

definition arp_slot :: "arp_state \<Rightarrow> u32 \<Rightarrow> nat option" where
  "arp_slot st ip = List.find (\<lambda>i. ip_addr (arp_cache st i) = ip \<and> age (arp_cache st i) \<noteq> ARP_CACHE_FREE)
     [0..<XSTACK_ARP_CACHE_SIZE]"

definition arp_map :: "arp_state \<Rightarrow> u32 \<rightharpoonup> mac_addr \<times> int" where
  "arp_map st ip = map_option (\<lambda>i. (haddr (arp_cache st i), age (arp_cache st i))) (arp_slot st ip)"

lemma arp_slot_Some:
  assumes "arp_inv lo st"
  shows "arp_slot st ip = Some i \<longleftrightarrow> arp_live st i \<and> ip_addr (arp_cache st i) = ip"
proof
  assume "arp_slot st ip = Some i"
  then show "arp_live st i \<and> ip_addr (arp_cache st i) = ip"
    by (auto simp: arp_slot_def find_Some_iff arp_live_def)
next
  assume i: "arp_live st i \<and> ip_addr (arp_cache st i) = ip"
  then have "ip \<noteq> 0" using assms by (auto simp: arp_inv_def)
  show "arp_slot st ip = Some i" unfolding arp_slot_def
    by (rule find_unique) (use i assms \<open>ip \<noteq> 0\<close> in \<open>auto simp: arp_live_def arp_inv_def\<close>)
qed

lemma arp_slot_None: "arp_slot st ip = None \<longleftrightarrow> (\<forall>i. arp_live st i \<longrightarrow> ip_addr (arp_cache st i) \<noteq> ip)"
  by (auto simp: arp_slot_def find_None_iff arp_live_def)

lemma arp_get_entry:
  assumes "arp_inv lo st" "in_window lo ip"
  shows "arp_cache_get_entry ip st = Some (arp_slot st ip)"
proof (cases "arp_slot st ip")
  case (Some i)
  then have i: "arp_live st i" "ip_addr (arp_cache st i) = ip" using arp_slot_Some [OF assms(1)] by auto
  show ?thesis
    unfolding arp_cache_get_entry_def Some using i assms
    by (intro by_ip.find_some [where lo = lo and S = "{i. arp_live st i}"]) (auto simp: arp_inv_def)
next
  case None
  then have n: "\<forall>i. arp_live st i \<longrightarrow> ip_addr (arp_cache st i) \<noteq> ip" by (simp add: arp_slot_None)
  show ?thesis
    unfolding arp_cache_get_entry_def None using assms n
    by (intro by_ip.find_none [where lo = lo and S = "{i. arp_live st i}"])
      (auto simp: arp_inv_def rank_inj)
qed

section \<open>Choosing an entry\<close>

lemma arp_pick_hit:
  "i \<in> set is \<Longrightarrow> ip_addr (cache i) = ip \<Longrightarrow> \<forall>j \<in> set is. ip_addr (cache j) = ip \<longrightarrow> j = i \<Longrightarrow>
   arp_pick cache ip is entry = Some i"
proof (induction "is" arbitrary: entry)
  case (Cons j "is")
  show ?case
  proof (cases "j = i")
    case False
    then have "ip_addr (cache j) \<noteq> ip" using Cons.prems(3) by (metis list.set_intros(1))
    moreover have "i \<in> set is" using Cons.prems(1) False by simp
    moreover have "\<forall>j \<in> set is. ip_addr (cache j) = ip \<longrightarrow> j = i"
      using Cons.prems(3) by (metis list.set_intros(2))
    ultimately show ?thesis using Cons.IH [OF _ Cons.prems(2)] by (simp only: arp_pick.simps if_False)
  qed (simp add: Cons.prems(2))
qed simp

lemma arp_pick_free:
  "\<forall>j \<in> set is. ip_addr (cache j) \<noteq> ip \<Longrightarrow> \<forall>j \<in> set is. age (cache j) \<ge> ARP_CACHE_FREE \<Longrightarrow>
   (\<exists>e. entry = Some e \<and> age (cache e) = ARP_CACHE_FREE) \<or> (\<exists>j \<in> set is. age (cache j) = ARP_CACHE_FREE) \<Longrightarrow>
   \<exists>e. arp_pick cache ip is entry = Some e \<and> age (cache e) = ARP_CACHE_FREE \<and> (e \<in> set is \<or> entry = Some e)"
proof (induction "is" arbitrary: entry)
  case (Cons i "is")
  show ?case
  proof (cases "age (cache i) = ARP_CACHE_FREE")
    case True
    then show ?thesis using Cons.IH [of "Some i"] Cons.prems by auto
  next
    case False
    have "\<not> (case entry of Some e \<Rightarrow> age (cache e) > age (cache i) | None \<Rightarrow> age (cache i) \<ge> 0) \<or>
        (\<exists>j \<in> set is. age (cache j) = ARP_CACHE_FREE)"
      using Cons.prems(2,3) False by (auto simp: arp_consts)
    then show ?thesis
      using Cons.IH [of entry] Cons.IH [of "Some i"] Cons.prems False by (auto split: if_splits)
  qed
qed auto

section \<open>Insertion\<close>

text \<open>Overwriting the entry \<open>e\<close> with the address \<open>ip\<close> that no other entry has.\<close>

definition arp_put :: "nat \<Rightarrow> u32 \<Rightarrow> mac_addr \<Rightarrow> int \<Rightarrow> arp_state \<Rightarrow> rb_head \<Rightarrow> arp_state" where
  "arp_put e ip mac type st head =
     st\<lparr>arp_cache := (arp_cache st)(e := \<lparr>ip_addr = ip, haddr = mac, age = type\<rparr>), arp_cache_head := head\<rparr>"

lemma arp_put_live:
  "e < XSTACK_ARP_CACHE_SIZE \<Longrightarrow> type \<noteq> ARP_CACHE_FREE \<Longrightarrow>
   {i. arp_live (arp_put e ip mac type st head) i} = insert e {i. arp_live st i}"
  by (auto simp: arp_live_def arp_put_def)

lemma arp_put_inv:
  assumes I: "arp_inv lo st" and e: "e < XSTACK_ARP_CACHE_SIZE" "in_window lo ip" "ip \<noteq> 0" "type \<ge> ARP_CACHE_STATIC"
    and u: "\<forall>i < XSTACK_ARP_CACHE_SIZE. ip_addr (arp_cache st i) = ip \<longrightarrow> i = e"
    and T: "rb_set (\<lambda>e. unat (ip_addr e - lo)) ((arp_cache st)(e := \<lparr>ip_addr = ip, haddr = mac, age = type\<rparr>))
        head (insert e {i. arp_live st i})"
  shows "arp_inv lo (arp_put e ip mac type st head)"
proof -
  have t: "type \<noteq> ARP_CACHE_FREE" using e(4) by (simp add: arp_consts)
  let ?st = "arp_put e ip mac type st head"
  have "rb_set (\<lambda>e. unat (ip_addr e - lo)) (arp_cache ?st) (arp_cache_head ?st) {i. arp_live ?st i}"
    using T unfolding arp_put_live [OF e(1) t] by (simp add: arp_put_def)
  moreover have "in_window lo (ip_addr (arp_cache ?st i)) \<and> ip_addr (arp_cache ?st i) \<noteq> 0 \<and>
      age (arp_cache ?st i) \<ge> ARP_CACHE_STATIC" if "arp_live ?st i" for i
    using that I e by (cases "i = e") (auto simp: arp_inv_def arp_live_def arp_put_def)
  moreover have "i = j" if "i < XSTACK_ARP_CACHE_SIZE" "j < XSTACK_ARP_CACHE_SIZE"
    "ip_addr (arp_cache ?st i) = ip_addr (arp_cache ?st j)" "ip_addr (arp_cache ?st i) \<noteq> 0" for i j
  proof (cases "i = e \<or> j = e")
    case True
    have "ip_addr (arp_cache ?st e) = ip" "\<And>k. k \<noteq> e \<Longrightarrow> arp_cache ?st k = arp_cache st k"
      by (simp_all add: arp_put_def)
    then show ?thesis using True that(1-3) u by metis
  next
    case False
    then show ?thesis using that arp_inv_distinct [OF I, of i j] by (simp add: arp_put_def)
  qed
  ultimately show ?thesis unfolding arp_inv_def by blast
qed

lemma arp_put_map:
  assumes I: "arp_inv lo st" and J: "arp_inv lo (arp_put e ip mac type st head)"
    and e: "e < XSTACK_ARP_CACHE_SIZE" "type \<noteq> ARP_CACHE_FREE"
    and s: "\<not> arp_live st e \<or> ip_addr (arp_cache st e) = ip"
  shows "arp_map (arp_put e ip mac type st head) = (arp_map st)(ip \<mapsto> (mac, type))"
proof
  fix a
  let ?st = "arp_put e ip mac type st head"
  show "arp_map ?st a = ((arp_map st)(ip \<mapsto> (mac, type))) a"
  proof (cases "a = ip")
    case True
    have "arp_slot ?st ip = Some e"
      using arp_slot_Some [OF J] e by (simp add: arp_live_def arp_put_def)
    then show ?thesis using True by (simp add: arp_map_def arp_put_def)
  next
    case False
    have "arp_slot ?st a = arp_slot st a"
    proof (cases "arp_slot st a")
      case (Some i)
      then have i: "arp_live st i" "ip_addr (arp_cache st i) = a" using arp_slot_Some [OF I] by auto
      then have "i \<noteq> e" using s False by auto
      then show ?thesis using i arp_slot_Some [OF J, of a i] Some by (simp add: arp_live_def arp_put_def)
    next
      case None
      then have "\<forall>i. arp_live st i \<longrightarrow> ip_addr (arp_cache st i) \<noteq> a" by (simp add: arp_slot_None)
      then have "arp_slot ?st a = None"
        using False by (auto simp: arp_slot_None arp_live_def arp_put_def)
      then show ?thesis using None by simp
    qed
    moreover have "arp_slot st a = Some i \<Longrightarrow> i \<noteq> e" for i using arp_slot_Some [OF I, of a i] s False by auto
    ultimately show ?thesis using False by (cases "arp_slot st a") (auto simp: arp_map_def arp_put_def)
  qed
qed

text \<open>What the code does with the entry it picked, in the three cases: a learned entry is taken out of the
  tree first, a static one is found again by \<^verbatim>\<open>RB_INSERT\<close>, a free one is new.\<close>

lemma arp_relink:
  assumes I: "arp_inv lo st" and e: "e < XSTACK_ARP_CACHE_SIZE" "in_window lo ip"
    and u: "\<forall>i < XSTACK_ARP_CACHE_SIZE. ip_addr (arp_cache st i) = ip \<longrightarrow> i = e"
    and s: "\<not> arp_live st e \<or> ip_addr (arp_cache st e) = ip"
    and cache: "cache = (arp_cache st)(e := \<lparr>ip_addr = ip, haddr = mac, age = type\<rparr>)"
  obtains h1 h2 p where
    "(if age (arp_cache st e) \<ge> 0 then RB_REMOVE (arp_cache_head st) (Some e) else Some (arp_cache_head st)) = Some h1"
    "RB_INSERT (\<lambda>x. arp_cache_cmp (cache e) (cache x)) h1 e = Some (h2, p)"
    "rb_set (\<lambda>e. unat (ip_addr e - lo)) cache h2 (insert e {i. arp_live st i})"
proof -
  let ?S = "{i. arp_live st i}" and ?r = "\<lambda>e. unat (ip_addr e - lo)"
  have T: "rb_set ?r (arp_cache st) (arp_cache_head st) ?S"
    and w: "\<And>i. arp_live st i \<Longrightarrow> in_window lo (ip_addr (arp_cache st i)) \<and> age (arp_cache st i) \<ge> -1"
    using I by (auto simp: arp_inv_def arp_consts)
  have v: "in_window lo (ip_addr (cache x))" if "x = e \<or> arp_live st x" for x
    using that w e(2) by (auto simp: cache)
  have ne: "ip_addr (cache x) \<noteq> ip" if "arp_live st x" "x \<noteq> e" for x
    using that u by (auto simp: cache arp_live_def)
  have ip: "ip_addr (cache e) = ip" by (simp add: cache)
  obtain h1 where h1:
    "(if age (arp_cache st e) \<ge> 0 then RB_REMOVE (arp_cache_head st) (Some e) else Some (arp_cache_head st)) = Some h1"
    "rb_set ?r (arp_cache st) h1 (if age (arp_cache st e) \<ge> 0 then ?S - {e} else ?S)"
  proof (cases "age (arp_cache st e) \<ge> 0")
    case True
    then have "e \<in> ?S" using e(1) by (simp add: arp_live_def arp_consts)
    then show thesis using rb_set_remove [OF T] that True by auto
  qed (use that T in auto)
  show thesis
  proof (cases "arp_live st e \<and> age (arp_cache st e) < 0")
    case True
    have "rb_set ?r cache h1 ?S"
      by (rule rb_set_cong [of ?r "arp_cache st"]) (use h1(2) True s in \<open>auto simp: cache\<close>)
    moreover have "insert e ?S = ?S" using True by auto
    moreover have "RB_INSERT (\<lambda>x. arp_cache_cmp (cache e) (cache x)) h1 e = Some (h1, Some e)"
      by (rule by_ip.insert_dup [OF \<open>rb_set ?r cache h1 ?S\<close>]) (use True v in auto)
    ultimately show thesis using that h1(1) by simp
  next
    case False
    have r: "rb_set ?r cache h1 (?S - {e})"
    proof (rule rb_set_cong [of ?r "arp_cache st"])
      have "(if age (arp_cache st e) \<ge> 0 then ?S - {e} else ?S) = ?S - {e}" using False by auto
      then show "rb_set ?r (arp_cache st) h1 (?S - {e})" using h1(2) by simp
    qed (auto simp: cache)
    obtain h2 where "RB_INSERT (\<lambda>x. arp_cache_cmp (cache e) (cache x)) h1 e = Some (h2, None)"
      "rb_set ?r cache h2 (insert e (?S - {e}))"
      by (rule by_ip.insert_new [OF r]) (use v ne ip in \<open>auto simp: rank_inj\<close>)
    then show thesis using that h1(1) by simp
  qed
qed

lemma arp_insert_ok:
  assumes I: "arp_inv lo st" and w: "in_window lo ip" "ip \<noteq> 0" "type \<ge> ARP_CACHE_STATIC"
    and pick: "arp_pick (arp_cache st) ip [0..<XSTACK_ARP_CACHE_SIZE] None = Some e" "e < XSTACK_ARP_CACHE_SIZE"
    and u: "\<forall>i < XSTACK_ARP_CACHE_SIZE. ip_addr (arp_cache st i) = ip \<longrightarrow> i = e"
    and s: "\<not> arp_live st e \<or> ip_addr (arp_cache st e) = ip"
  shows "\<exists>st'. arp_cache_insert ip mac type st = Some (Inr (), st') \<and> arp_inv lo st' \<and>
    arp_map st' = (arp_map st)(ip \<mapsto> (mac, type))"
proof -
  define cache where "cache = (arp_cache st)(e := \<lparr>ip_addr = ip, haddr = mac, age = type\<rparr>)"
  obtain h1 h2 p where h:
    "(if age (arp_cache st e) \<ge> 0 then RB_REMOVE (arp_cache_head st) (Some e) else Some (arp_cache_head st)) = Some h1"
    "RB_INSERT (\<lambda>x. arp_cache_cmp (cache e) (cache x)) h1 e = Some (h2, p)"
    "rb_set (\<lambda>e. unat (ip_addr e - lo)) cache h2 (insert e {i. arp_live st i})"
    using arp_relink [OF I pick(2) w(1) u s cache_def] .
  have J: "arp_inv lo (arp_put e ip mac type st h2)"
    using arp_put_inv [OF I pick(2) w u] h(3) by (simp add: cache_def)
  have "type \<noteq> ARP_CACHE_FREE" using w(3) by (simp add: arp_consts)
  note m = arp_put_map [OF I J pick(2) this s]
  have "arp_cache_insert ip mac type st = Some (Inr (), arp_put e ip mac type st h2)"
    using w(2) pick(1) h(1,2) by (simp add: arp_cache_insert_def arp_put_def cache_def)
  then show ?thesis using J m by blast
qed

lemma arp_insert_room:
  assumes "arp_inv lo st" "in_window lo ip" "ip \<noteq> 0" "type = ARP_CACHE_STATIC \<or> type = ARP_CACHE_DYN"
    "\<exists>i < XSTACK_ARP_CACHE_SIZE. ip_addr (arp_cache st i) = ip \<or> age (arp_cache st i) = ARP_CACHE_FREE"
  shows "\<exists>st' e. arp_cache_insert ip mac type st = Some (Inr (), st') \<and> arp_inv lo st' \<and>
    arp_map st' = (arp_map st)(ip \<mapsto> (mac, type)) \<and>
    arp_cache_get_entry ip st' = Some (Some e) \<and> haddr (arp_cache st' e) = mac"
proof -
  have t: "type \<ge> ARP_CACHE_STATIC" using assms(4) by (auto simp: arp_consts)
  have d: "i = j" if "i < XSTACK_ARP_CACHE_SIZE" "j < XSTACK_ARP_CACHE_SIZE"
    "ip_addr (arp_cache st i) = ip" "ip_addr (arp_cache st j) = ip" for i j
    using that assms(3) arp_inv_distinct [OF assms(1), of i j] by simp
  obtain e where e: "arp_pick (arp_cache st) ip [0..<XSTACK_ARP_CACHE_SIZE] None = Some e" "e < XSTACK_ARP_CACHE_SIZE"
    "\<forall>i < XSTACK_ARP_CACHE_SIZE. ip_addr (arp_cache st i) = ip \<longrightarrow> i = e"
    "\<not> arp_live st e \<or> ip_addr (arp_cache st e) = ip"
  proof (cases "\<exists>i < XSTACK_ARP_CACHE_SIZE. ip_addr (arp_cache st i) = ip")
    case True
    then obtain i where i: "i < XSTACK_ARP_CACHE_SIZE" "ip_addr (arp_cache st i) = ip" by blast
    have "arp_pick (arp_cache st) ip [0..<XSTACK_ARP_CACHE_SIZE] None = Some i"
      by (rule arp_pick_hit) (use i d in auto)
    then show thesis using that i d by blast
  next
    case False
    have "age (arp_cache st i) \<ge> ARP_CACHE_FREE" if "i < XSTACK_ARP_CACHE_SIZE" for i
      using assms(1) that by (cases "arp_live st i") (auto simp: arp_inv_def arp_live_def arp_consts)
    then have "\<exists>e. arp_pick (arp_cache st) ip [0..<XSTACK_ARP_CACHE_SIZE] None = Some e \<and>
        age (arp_cache st e) = ARP_CACHE_FREE \<and> (e \<in> set [0..<XSTACK_ARP_CACHE_SIZE] \<or> None = Some e)"
      using False assms(5) by (intro arp_pick_free) auto
    then obtain e where e: "arp_pick (arp_cache st) ip [0..<XSTACK_ARP_CACHE_SIZE] None = Some e"
      "e < XSTACK_ARP_CACHE_SIZE" "\<not> arp_live st e"
      by (auto simp: arp_live_def)
    moreover have "\<forall>i < XSTACK_ARP_CACHE_SIZE. ip_addr (arp_cache st i) = ip \<longrightarrow> i = e"
      using False by blast
    ultimately show thesis using that by blast
  qed
  obtain st' where st': "arp_cache_insert ip mac type st = Some (Inr (), st')" "arp_inv lo st'"
    "arp_map st' = (arp_map st)(ip \<mapsto> (mac, type))"
    using arp_insert_ok [OF assms(1-3) t e] by blast
  then have "arp_map st' ip = Some (mac, type)" by simp
  then obtain e' where "arp_slot st' ip = Some e'" "haddr (arp_cache st' e') = mac"
    by (auto simp: arp_map_def)
  then show ?thesis using st' arp_get_entry [OF st'(2) assms(2)] by auto
qed

text \<open>C20: In a consistent cache, \<^verbatim>\<open>arp_cache_insert\<close> of an address that has an entry already, or while there is
  a free entry, maps the address to the hardware address and changes nothing else; the tree stays a
  red-black tree of the entries in use, so that the next lookup finds the entry.\<close>

theorem arp_cache_insert_correct:
  assumes "arp_inv lo st" "in_window lo ip" "ip \<noteq> 0" "type = ARP_CACHE_STATIC \<or> type = ARP_CACHE_DYN"
    "\<exists>i < XSTACK_ARP_CACHE_SIZE. ip_addr (arp_cache st i) = ip \<or> age (arp_cache st i) = ARP_CACHE_FREE"
  shows "\<exists>st' e. arp_cache_insert ip mac type st = Some (Inr (), st') \<and> arp_inv lo st' \<and>
    arp_map st' = (arp_map st)(ip \<mapsto> (mac, type)) \<and>
    arp_cache_get_entry ip st' = Some (Some e) \<and> haddr (arp_cache st' e) = mac"
  by (rule arp_insert_room [OF assms])

definition arp_fresh :: arp_state where
  "arp_fresh = \<lparr>arp_cache = (\<lambda>_. \<lparr>ip_addr = 0, haddr = replicate 6 0, age = ARP_CACHE_FREE\<rparr>),
     arp_cache_head = \<lparr>rbh_root = None, links = (\<lambda>_. rb_entry_zero)\<rparr>\<rparr>"

lemma arp_fresh_inv: "arp_inv lo arp_fresh"
proof -
  have "{i. arp_live arp_fresh i} = {}" by (simp add: arp_live_def arp_fresh_def)
  moreover have "arp_cache_head arp_fresh = RB_INIT (arp_cache_head arp_fresh)"
    by (simp add: arp_fresh_def RB_INIT_def)
  ultimately show ?thesis
    unfolding arp_inv_def by (metis arp_fresh_def arp_state.select_convs(1) empty_Collect_eq
        arp_cache_entry.select_convs(1) rb_set_init)
qed

lemma arp_cache_insert_correct_witness:
  "arp_inv 0 arp_fresh \<and> (\<exists>st' e. arp_cache_insert 0x0a000001 (replicate 6 1) ARP_CACHE_DYN arp_fresh = Some (Inr (), st') \<and>
    arp_inv 0 st' \<and> arp_cache_get_entry 0x0a000001 st' = Some (Some e) \<and> haddr (arp_cache st' e) = replicate 6 1)"
proof -
  have "\<exists>i < XSTACK_ARP_CACHE_SIZE. ip_addr (arp_cache arp_fresh i) = 0x0a000001 \<or>
      age (arp_cache arp_fresh i) = ARP_CACHE_FREE"
    by (rule exI [of _ 0]) (simp add: arp_fresh_def XSTACK_ARP_CACHE_SIZE_def)
  then show ?thesis
    using arp_cache_insert_correct [OF arp_fresh_inv, of 0 "0x0a000001" ARP_CACHE_DYN "replicate 6 1"] arp_fresh_inv
    by (simp add: in_window_def) blast
qed

section \<open>Removal\<close>

definition arp_unlink :: "nat \<Rightarrow> rb_head \<Rightarrow> arp_state \<Rightarrow> arp_state" where
  "arp_unlink e h st = st\<lparr>arp_cache_head := h,
     arp_cache := (arp_cache st)(e := (arp_cache st e)\<lparr>age := ARP_CACHE_FREE\<rparr>)\<rparr>"

lemma arp_unlink_simps:
  "arp_live (arp_unlink e h st) i \<longleftrightarrow> arp_live st i \<and> i \<noteq> e"
  "ip_addr (arp_cache (arp_unlink e h st) i) = ip_addr (arp_cache st i)"
  "i \<noteq> e \<Longrightarrow> arp_cache (arp_unlink e h st) i = arp_cache st i" "arp_cache_head (arp_unlink e h st) = h"
  by (auto simp: arp_live_def arp_unlink_def)

lemma arp_unlink_inv:
  assumes "arp_inv lo st"
    "rb_set (\<lambda>e. unat (ip_addr e - lo)) (arp_cache st) h ({i. arp_live st i} - {e})"
  shows "arp_inv lo (arp_unlink e h st)"
proof -
  have "{i. arp_live (arp_unlink e h st) i} = {i. arp_live st i} - {e}" by (auto simp: arp_unlink_simps)
  then have "rb_set (\<lambda>e. unat (ip_addr e - lo)) (arp_cache (arp_unlink e h st)) h
      {i. arp_live (arp_unlink e h st) i}"
    using rb_set_cong [OF assms(2), of "arp_cache (arp_unlink e h st)"] by (simp add: arp_unlink_simps)
  then show ?thesis
    using assms(1) unfolding arp_inv_def arp_unlink_simps(1,2,4) by (simp add: arp_unlink_simps(3))
qed

lemma arp_unlink_map:
  assumes I: "arp_inv lo st" and J: "arp_inv lo (arp_unlink e h st)"
    and e: "arp_live st e" "ip_addr (arp_cache st e) = ip"
  shows "arp_map (arp_unlink e h st) = (arp_map st)(ip := None)"
proof
  fix a
  show "arp_map (arp_unlink e h st) a = ((arp_map st)(ip := None)) a"
  proof (cases "a = ip")
    case True
    have "arp_live st i \<Longrightarrow> ip_addr (arp_cache st i) = ip \<Longrightarrow> i = e" for i
      using arp_slot_Some [OF I, of ip i] arp_slot_Some [OF I, of ip e] e by simp
    then have "arp_slot (arp_unlink e h st) a = None"
      unfolding arp_slot_None arp_unlink_simps True by blast
    then show ?thesis using True by (simp add: arp_map_def)
  next
    case False
    show ?thesis
    proof (cases "arp_slot st a")
      case None
      then have "arp_slot (arp_unlink e h st) a = None" unfolding arp_slot_None arp_unlink_simps by blast
      then show ?thesis using False None by (simp add: arp_map_def)
    next
      case (Some i)
      then have i: "arp_live st i" "ip_addr (arp_cache st i) = a" using arp_slot_Some [OF I] by auto
      then have "i \<noteq> e" using False e(2) by auto
      moreover have "arp_slot (arp_unlink e h st) a = Some i"
        using arp_slot_Some [OF J, of a i] i \<open>i \<noteq> e\<close> by (simp add: arp_unlink_simps)
      ultimately show ?thesis using False Some by (simp add: arp_map_def arp_unlink_simps(3))
    qed
  qed
qed

text \<open>\<^verbatim>\<open>arp_cache_remove\<close> of a cached address frees its entry and keeps the others; for an address
  that is not in the cache the NULL entry is handed to \<^verbatim>\<open>RB_REMOVE\<close>, which dereferences it.\<close>

theorem arp_cache_remove_correct:
  assumes "arp_inv lo st" "in_window lo ip"
  shows "(case arp_map st ip of
      None \<Rightarrow> arp_cache_remove ip st = None
    | Some _ \<Rightarrow> \<exists>st'. arp_cache_remove ip st = Some st' \<and> arp_inv lo st' \<and> arp_map st' = (arp_map st)(ip := None))"
proof (cases "arp_slot st ip")
  case None
  then show ?thesis
    using arp_get_entry [OF assms] by (simp add: arp_map_def arp_cache_remove_def RB_REMOVE_def RB_LEFT_def)
next
  case (Some e)
  then have e: "arp_live st e" "ip_addr (arp_cache st e) = ip" using arp_slot_Some [OF assms(1)] by auto
  have T: "rb_set (\<lambda>e. unat (ip_addr e - lo)) (arp_cache st) (arp_cache_head st) {i. arp_live st i}"
    using assms(1) by (simp add: arp_inv_def)
  obtain h where h: "RB_REMOVE (arp_cache_head st) (Some e) = Some h"
    "rb_set (\<lambda>e. unat (ip_addr e - lo)) (arp_cache st) h ({i. arp_live st i} - {e})"
    using rb_set_remove [OF T, of e] e(1) by auto
  have "arp_cache_remove ip st = Some (arp_unlink e h st)"
    using arp_get_entry [OF assms] Some h(1) by (simp add: arp_cache_remove_def arp_unlink_def)
  moreover note J = arp_unlink_inv [OF assms(1) h(2)]
  ultimately show ?thesis using arp_unlink_map [OF assms(1) J e] J Some by (simp add: arp_map_def)
qed

lemma arp_cache_remove_correct_witness:
  "arp_inv 0 arp_fresh \<and> in_window 0 5 \<and> arp_cache_remove 5 arp_fresh = None"
proof -
  have "arp_map arp_fresh 5 = None" by (simp add: arp_map_def arp_slot_None arp_live_def arp_fresh_def)
  then show ?thesis
    using arp_cache_remove_correct [OF arp_fresh_inv, of 0 5] arp_fresh_inv by (simp add: in_window_def)
qed

section \<open>Messages on the wire\<close>

text \<open>An ARP message survives conversion to network order, the packed layout of 28 bytes, and the
  conversion back.\<close>

lemma arp_message_roundtrip:
  assumes "length (arp_sha m) = 6" "length (arp_tha m) = 6"
  shows "length (arp_store (arp_hton m)) = 28 \<and>
    map_option arp_ntoh (arp_load (arp_store (arp_hton m) @ rest)) = Some m"
proof -
  have l: "length (arp_store (arp_hton m)) = 28" using assms by (simp add: arp_store_def arp_hton_def)
  have "arp_load (arp_store (arp_hton m) @ rest) = Some (arp_hton m)"
    using assms unfolding arp_load_def arp_store_def
    by (simp add: arp_hton_def nth_append store16_def store32_halves load16_parts load32_halves)
  then show ?thesis using l by (simp add: arp_hton_def arp_ntoh_def ntohl_def)
qed

section \<open>The cache as it starts\<close>

text \<open>The state after static initialisation: every age is 0, so every entry counts as learned.\<close>

definition arp_boot :: arp_state where
  "arp_boot = \<lparr>arp_cache = (\<lambda>_. \<lparr>ip_addr = 0, haddr = replicate 6 0, age = 0\<rparr>),
     arp_cache_head = \<lparr>rbh_root = None, links = (\<lambda>_. rb_entry_zero)\<rparr>\<rparr>"

text \<open>The second insertion removes an entry that is not in the tree, which empties the tree: the first
  address, here the one \<^verbatim>\<open>ip_config\<close> enters, is lost.\<close>

lemma arp_boot_loses_first:
  "do { (_, st) \<leftarrow> arp_cache_insert 0x0a000002 (replicate 6 1) ARP_CACHE_STATIC arp_boot;
        (_, st) \<leftarrow> arp_cache_insert 0x0a000001 (replicate 6 2) ARP_CACHE_DYN st;
        first \<leftarrow> arp_cache_get_entry 0x0a000002 st;
        second \<leftarrow> arp_cache_get_entry 0x0a000001 st;
        Some (first, second) } = Some (None, Some 1)"
  by code_simp

text \<open>When no entry is free, the entry taken over is the youngest, not the oldest.\<close>

lemma arp_pick_youngest:
  "\<forall>j \<in> set is. ip_addr (cache j) \<noteq> ip \<and> age (cache j) \<ge> 0 \<Longrightarrow> arp_pick cache ip is entry = Some e \<Longrightarrow>
   (\<forall>j \<in> set is. age (cache e) \<le> age (cache j)) \<and> (\<forall>d. entry = Some d \<longrightarrow> age (cache e) \<le> age (cache d))"
proof (induction "is" arbitrary: entry)
  case (Cons i "is")
  have "age (cache i) \<noteq> ARP_CACHE_FREE" using Cons.prems(1) by (auto simp: arp_consts)
  then have "arp_pick cache ip is
      (if (case entry of Some e \<Rightarrow> age (cache e) > age (cache i) | None \<Rightarrow> age (cache i) \<ge> 0) then Some i else entry) = Some e"
    using Cons.prems by simp
  then show ?case
    using Cons.IH Cons.prems(1) by (cases entry) (force split: if_splits)+
qed simp

end
