(* ===== verification/Ip_Defer.thy ===== *)
theory Ip_Defer
  imports Fifo_Spec Ether
begin

text \<open>
  The ring of deferred transmissions of \<^verbatim>\<open>src/ip_defer.c\<close>: 20 slots, of which 19 can be in use. The
  handler that empties it calls \<^verbatim>\<open>ip_send\<close> and is in the theory \<open>Ip_Send\<close>.

  The data of a slot is an array of \<^verbatim>\<open>ETHER_ALEN\<close> = 6 bytes, and the field \<^verbatim>\<open>buf_size\<close> is never written.
\<close>

definition XSTACK_IP_DEFER_MAX :: nat where "XSTACK_IP_DEFER_MAX = 20"

record ip_defer =
  tries :: int
  d_dst :: u32
  d_proto :: u8
  buf_size :: nat
  d_buf :: bytes

record defer_state =
  defer_inhibit :: bool
  ip_defer_queue :: "nat \<Rightarrow> ip_defer"
  q_rd :: nat
  q_wr :: nat

definition ip_defer_push :: "u32 \<Rightarrow> u8 \<Rightarrow> bytes \<Rightarrow> defer_state \<Rightarrow> int \<times> defer_state" where
  "ip_defer_push dst proto buf st =
     (let next = (q_wr st + 1) mod XSTACK_IP_DEFER_MAX in
      if defer_inhibit st then (- EALREADY, st)
      else if next = q_rd st then (- ENOBUFS, st)
      else if length buf > ETHER_ALEN then (- EMSGSIZE, st)
      else let slot = ip_defer_queue st (q_wr st);
               slot = slot\<lparr>tries := 0, d_dst := dst, d_proto := proto,
                           d_buf := buf @ drop (length buf) (d_buf slot)\<rparr>
        in (0, st\<lparr>ip_defer_queue := (ip_defer_queue st)(q_wr st := slot), q_wr := next\<rparr>))"

definition ip_defer_peek :: "defer_state \<Rightarrow> nat option" where
  "ip_defer_peek st = (if q_rd st = q_wr st then None else Some (q_rd st))"

definition ip_defer_drop :: "defer_state \<Rightarrow> defer_state" where
  "ip_defer_drop st =
     (if q_rd st = q_wr st then st else st\<lparr>q_rd := (q_rd st + 1) mod XSTACK_IP_DEFER_MAX\<rparr>)"

section \<open>The ring is a bounded queue\<close>

definition defer_wf :: "defer_state \<Rightarrow> bool" where
  "defer_wf st \<longleftrightarrow> q_rd st < XSTACK_IP_DEFER_MAX \<and> q_wr st < XSTACK_IP_DEFER_MAX"

definition defer_count :: "defer_state \<Rightarrow> nat" where
  "defer_count st = (q_wr st + XSTACK_IP_DEFER_MAX - q_rd st) mod XSTACK_IP_DEFER_MAX"

definition defer_slots :: "defer_state \<Rightarrow> nat list" where
  "defer_slots st = map (\<lambda>i. (q_rd st + i) mod XSTACK_IP_DEFER_MAX) [0..<defer_count st]"

lemma defer_count_wr: "defer_wf st \<Longrightarrow> (q_rd st + defer_count st) mod XSTACK_IP_DEFER_MAX = q_wr st"
  by (simp add: defer_wf_def defer_count_def mod_simps)

lemma defer_count_0: "defer_wf st \<Longrightarrow> defer_count st = 0 \<longleftrightarrow> q_rd st = q_wr st"
  unfolding defer_wf_def defer_count_def XSTACK_IP_DEFER_MAX_def
  by (cases "q_rd st \<le> q_wr st") (auto simp: mod_if)

lemma defer_count_full:
  "defer_wf st \<Longrightarrow> (q_wr st + 1) mod XSTACK_IP_DEFER_MAX = q_rd st \<longleftrightarrow> defer_count st = 19"
  unfolding defer_wf_def defer_count_def XSTACK_IP_DEFER_MAX_def
  by (cases "q_rd st \<le> q_wr st") (auto simp: mod_if)

lemma defer_count_less: "defer_count st < 20"
  by (simp add: defer_count_def XSTACK_IP_DEFER_MAX_def)

lemma mod20: "(a :: nat) < 40 \<Longrightarrow> a mod 20 = (if a < 20 then a else a - 20)"
  by (simp add: le_mod_geq)

lemma defer_slots_fresh: "defer_wf st \<Longrightarrow> q_wr st \<notin> set (defer_slots st)"
proof
  assume wf: "defer_wf st" and "q_wr st \<in> set (defer_slots st)"
  then obtain i where i: "i < defer_count st" "(q_rd st + i) mod 20 = q_wr st"
    by (auto simp: defer_slots_def XSTACK_IP_DEFER_MAX_def)
  then have "(q_rd st + i) mod 20 = (q_rd st + defer_count st) mod 20"
    using defer_count_wr [OF wf] by (simp add: XSTACK_IP_DEFER_MAX_def)
  moreover have "q_rd st < 20" using wf by (simp add: defer_wf_def XSTACK_IP_DEFER_MAX_def)
  ultimately show False
    using i(1) defer_count_less [of st] mod20 [of "q_rd st + i"] mod20 [of "q_rd st + defer_count st"]
    by (auto split: if_splits)
qed

text \<open>The steps of the ring on its list of slots.\<close>

lemma defer_push_slots:
  assumes "defer_wf st" "defer_count st < 19"
  shows "defer_slots (st\<lparr>ip_defer_queue := Q, q_wr := (q_wr st + 1) mod XSTACK_IP_DEFER_MAX\<rparr>) =
    defer_slots st @ [q_wr st]"
proof -
  let ?st = "st\<lparr>ip_defer_queue := Q, q_wr := (q_wr st + 1) mod XSTACK_IP_DEFER_MAX\<rparr>"
  have "defer_count ?st = Suc (defer_count st)"
    using assms unfolding defer_wf_def defer_count_def XSTACK_IP_DEFER_MAX_def
    by (cases "q_rd st \<le> q_wr st") (auto simp: mod_if split: if_splits)
  then show ?thesis using defer_count_wr [OF assms(1)] by (simp add: defer_slots_def)
qed

lemma defer_drop_slots:
  assumes "defer_wf st"
  shows "defer_wf (ip_defer_drop st) \<and> defer_slots (ip_defer_drop st) = tl (defer_slots st)"
proof (cases "q_rd st = q_wr st")
  case True
  then show ?thesis using assms defer_count_0 [OF assms] by (simp add: ip_defer_drop_def defer_slots_def)
next
  case False
  then have "defer_count st \<noteq> 0" using defer_count_0 [OF assms] by simp
  then obtain n where n: "defer_count st = Suc n" by (cases "defer_count st") auto
  have "defer_count (ip_defer_drop st) = n"
    using False n assms unfolding ip_defer_drop_def defer_wf_def defer_count_def XSTACK_IP_DEFER_MAX_def
    by (cases "q_rd st \<le> q_wr st") (auto simp: mod_if split: if_splits)
  moreover have "[0..<Suc n] = 0 # map Suc [0..<n]" by (metis map_Suc_upt upt_rec zero_less_Suc)
  ultimately have "defer_slots (ip_defer_drop st) = tl (defer_slots st)"
    using False n by (simp add: defer_slots_def ip_defer_drop_def mod_simps del: upt_Suc)
  then show ?thesis using assms False by (simp add: defer_wf_def ip_defer_drop_def XSTACK_IP_DEFER_MAX_def)
qed

text \<open>The operations as the interface \<open>bounded_store\<close> sees them: a packet is its destination, its protocol and its
  data, and a slot holds it when its first bytes are the data (the length is not kept). The invariant adds that
  pushing is not inhibited and that the data of a slot is an array of six bytes.\<close>

abbreviation defer_packet :: "u32 \<times> u8 \<times> bytes \<Rightarrow> defer_state \<Rightarrow> int \<times> defer_state" where
  "defer_packet \<equiv> \<lambda>(dst, proto, buf). ip_defer_push dst proto buf"

abbreviation packet_fits :: "u32 \<times> u8 \<times> bytes \<Rightarrow> bool" where
  "packet_fits \<equiv> \<lambda>(dst, proto, buf). length buf \<le> 6"

definition defer_inv :: "defer_state \<Rightarrow> bool" where
  "defer_inv st \<longleftrightarrow> defer_wf st \<and> \<not> defer_inhibit st \<and> (\<forall>i. length (d_buf (ip_defer_queue st i)) = 6)"

definition holds_packet :: "u32 \<times> u8 \<times> bytes \<Rightarrow> ip_defer \<Rightarrow> bool" where
  "holds_packet = (\<lambda>(dst, proto, buf) d. tries d = 0 \<and> d_dst d = dst \<and> d_proto d = proto \<and> take (length buf) (d_buf d) = buf \<and>
     length (d_buf d) = 6)"

definition defer_contents :: "defer_state \<Rightarrow> ip_defer list" where
  "defer_contents st = map (ip_defer_queue st) (defer_slots st)"

definition defer_head :: "defer_state \<Rightarrow> ip_defer option" where
  "defer_head st = map_option (ip_defer_queue st) (ip_defer_peek st)"

lemma defer_push_room:
  assumes "defer_wf st" "\<not> defer_inhibit st" "defer_count st < 19" "length buf \<le> 6"
  shows "\<exists>st'. ip_defer_push dst proto buf st = (0, st') \<and> defer_wf st' \<and> \<not> defer_inhibit st' \<and>
    defer_slots st' = defer_slots st @ [q_wr st] \<and>
    (\<forall>i \<in> set (defer_slots st). ip_defer_queue st' i = ip_defer_queue st i) \<and>
    d_dst (ip_defer_queue st' (q_wr st)) = dst \<and> d_proto (ip_defer_queue st' (q_wr st)) = proto \<and>
    take (length buf) (d_buf (ip_defer_queue st' (q_wr st))) = buf \<and> tries (ip_defer_queue st' (q_wr st)) = 0 \<and>
    (\<forall>i. length (d_buf (ip_defer_queue st i)) = 6 \<longrightarrow> length (d_buf (ip_defer_queue st' i)) = 6)"
proof -
  have "(q_wr st + 1) mod XSTACK_IP_DEFER_MAX \<noteq> q_rd st"
    using defer_count_full [OF assms(1)] assms(3) by simp
  moreover have "(q_wr st + 1) mod XSTACK_IP_DEFER_MAX < XSTACK_IP_DEFER_MAX"
    by (simp add: XSTACK_IP_DEFER_MAX_def)
  ultimately show ?thesis
    using assms defer_push_slots [OF assms(1,3)] defer_slots_fresh [OF assms(1)]
    by (auto simp: ip_defer_push_def Let_def ether_consts defer_wf_def)
qed

lemma length_defer_slots: "length (defer_slots st) = defer_count st"
  by (simp add: defer_slots_def)

interpretation deferred: bounded_store defer_inv "\<lambda>_. 19" defer_contents defer_packet packet_fits holds_packet
  "- ENOBUFS" "- EMSGSIZE" defer_head ip_defer_drop
proof (unfold_locales, goal_cases)
  case (1 q)
  then have "defer_wf q" by (simp add: defer_inv_def)
  from defer_count_0 [OF this] show ?case
    by (cases "defer_count q")
      (simp_all add: defer_head_def ip_defer_peek_def defer_contents_def defer_slots_def upt_rec [of 0] \<open>defer_wf q\<close> [unfolded defer_wf_def])
next
  case (2 q)
  have "ip_defer_queue (ip_defer_drop q) = ip_defer_queue q" "defer_inhibit (ip_defer_drop q) = defer_inhibit q"
    by (simp_all add: ip_defer_drop_def)
  then show ?case using 2 defer_drop_slots [of q] by (simp add: defer_contents_def defer_inv_def map_tl)
next
  case (3 q)
  then show ?case using defer_count_less [of q] by (simp add: defer_contents_def length_defer_slots)
next
  case (4 q x)
  obtain dst proto buf where x: "x = (dst, proto, buf)" by (cases x)
  have q: "defer_wf q" "\<not> defer_inhibit q" "defer_count q < 19" "length buf \<le> 6" "\<forall>i. length (d_buf (ip_defer_queue q i)) = 6"
    using 4 x by (simp_all add: defer_inv_def defer_contents_def length_defer_slots)
  from defer_push_room [OF q(1-4), of dst proto] q(5) show ?case by (auto simp: x defer_inv_def defer_contents_def holds_packet_def)
next
  case (5 q x)
  then have "(q_wr q + 1) mod XSTACK_IP_DEFER_MAX = q_rd q"
    using defer_count_full [of q] defer_count_less [of q] by (simp add: defer_contents_def length_defer_slots defer_inv_def)
  then show ?case using 5 by (cases x) (simp add: ip_defer_push_def defer_inv_def)
next
  case (6 q x)
  then have "(q_wr q + 1) mod XSTACK_IP_DEFER_MAX \<noteq> q_rd q"
    using defer_count_full [of q] by (simp add: defer_contents_def length_defer_slots defer_inv_def)
  then show ?case using 6 by (cases x) (simp add: ip_defer_push_def defer_inv_def Let_def ether_consts)
qed

text \<open>C34: The ring of deferred packets is a bounded queue of 19 packets with their data. Whatever packets are pushed
  into the empty ring while pushing is not inhibited, each push reports what became of it: 0 for a packet of up to six
  bytes while there is room, \<^verbatim>\<open>-EMSGSIZE\<close> for a longer one, \<^verbatim>\<open>-ENOBUFS\<close> once 19 are waiting. A refused packet
  changes nothing, and those that got in come out once each, in their order, with destination, protocol and data, and
  without a try; no slot is written beyond its six bytes.\<close>

theorem ip_defer_fifo:
  assumes "defer_inv st" "q_rd st = q_wr st"
  shows "\<exists>st'. push_each defer_packet xs st = (push_results packet_fits (- ENOBUFS) (- EMSGSIZE) 19 xs, st') \<and>
    list_all2 holds_packet (take 19 (filter packet_fits xs)) (fst (drain defer_head ip_defer_drop (length xs) st'))"
proof -
  have "defer_contents st = []"
    using assms defer_count_0 [of st] by (simp add: defer_inv_def defer_contents_def defer_slots_def)
  then show ?thesis by (rule deferred.store_order [OF assms(1)])
qed

lemma ip_defer_fifo_witness:
  "\<exists>st' a b. push_each defer_packet [(1, 17, [5, 6]), (2, 6, replicate 7 0), (3, 6, [])] \<lparr>defer_inhibit = False,
      ip_defer_queue = (\<lambda>_. \<lparr>tries = 0, d_dst = 0, d_proto = 0, buf_size = 0, d_buf = replicate 6 0\<rparr>),
      q_rd = 0, q_wr = 0\<rparr> = ([0, - EMSGSIZE, 0], st') \<and>
    fst (drain defer_head ip_defer_drop 3 st') = [a, b] \<and> d_dst a = 1 \<and> take 2 (d_buf a) = [5, 6] \<and> d_dst b = 3"
proof -
  let ?st = "\<lparr>defer_inhibit = False,
      ip_defer_queue = (\<lambda>_. \<lparr>tries = 0, d_dst = 0, d_proto = 0, buf_size = 0, d_buf = replicate 6 0\<rparr>), q_rd = 0, q_wr = 0\<rparr>"
  let ?xs = "[(1, 17, [5, 6]), (2, 6, replicate 7 0), (3, 6, [])] :: (u32 \<times> u8 \<times> bytes) list"
  have i: "defer_inv ?st" "q_rd ?st = q_wr ?st" by (simp_all add: defer_inv_def defer_wf_def XSTACK_IP_DEFER_MAX_def)
  obtain st' where st': "push_each defer_packet ?xs ?st = (push_results packet_fits (- ENOBUFS) (- EMSGSIZE) 19 ?xs, st')"
    "list_all2 holds_packet (take 19 (filter packet_fits ?xs)) (fst (drain defer_head ip_defer_drop (length ?xs) st'))"
    using ip_defer_fifo [OF i, of ?xs] by (elim exE conjE) (rule that)
  have "list_all2 holds_packet [(1, 17, [5, 6]), (3, 6, [])] (fst (drain defer_head ip_defer_drop 3 st'))"
    using st'(2) by (simp del: drain.simps flip: numeral_3_eq_3)
  then obtain a b where "fst (drain defer_head ip_defer_drop 3 st') = [a, b]" "holds_packet (1, 17, [5, 6]) a" "holds_packet (3, 6, []) b"
    by (auto simp: list_all2_Cons1 simp del: drain.simps)
  then show ?thesis using st'(1) by (auto simp: holds_packet_def numeral_2_eq_2 simp del: push_each.simps drain.simps)
qed

text \<open>What \<^verbatim>\<open>ip_defer_push\<close> stores, and every way it refuses: the inhibit flag, a full ring, and
  data of more than six bytes.\<close>

theorem ip_defer_push_cases:
  assumes "defer_wf st"
  shows "case ip_defer_push dst proto buf st of (r, st') \<Rightarrow>
    (if defer_inhibit st then r = - EALREADY \<and> st' = st
     else if defer_count st = 19 then r = - ENOBUFS \<and> st' = st
     else if length buf > 6 then r = - EMSGSIZE \<and> st' = st
     else r = 0 \<and> defer_slots st' = defer_slots st @ [q_wr st] \<and>
       d_dst (ip_defer_queue st' (q_wr st)) = dst \<and> d_proto (ip_defer_queue st' (q_wr st)) = proto \<and>
       take (length buf) (d_buf (ip_defer_queue st' (q_wr st))) = buf)"
proof (cases "defer_inhibit st \<or> defer_count st = 19 \<or> length buf > 6")
  case True
  then show ?thesis
    using defer_count_full [OF assms] by (auto simp: ip_defer_push_def Let_def ether_consts)
next
  case False
  then have "defer_count st < 19" using defer_count_less [of st] by simp
  then show ?thesis using False defer_push_room [of st buf dst proto] assms by auto
qed

lemma ip_defer_push_cases_witness:
  "fst (ip_defer_push 5 17 (replicate 7 0) \<lparr>defer_inhibit = False,
      ip_defer_queue = (\<lambda>_. \<lparr>tries = 0, d_dst = 0, d_proto = 0, buf_size = 0, d_buf = replicate 6 0\<rparr>),
      q_rd = 3, q_wr = 3\<rparr>) = - EMSGSIZE"
  using ip_defer_push_cases [of "\<lparr>defer_inhibit = False,
      ip_defer_queue = (\<lambda>_. \<lparr>tries = 0, d_dst = 0, d_proto = 0, buf_size = 0, d_buf = replicate 6 0\<rparr>),
      q_rd = 3, q_wr = 3\<rparr>" "replicate 7 0" 5 17]
  by (simp add: defer_wf_def defer_count_def XSTACK_IP_DEFER_MAX_def split: prod.splits)

end
