(* ===== verification/Memcmp.thy ===== *)
theory Memcmp
  imports Tree_Order Wire
begin

text \<open>
  \<^verbatim>\<open>memcmp\<close>, which orders the sockets, the connections and the reassembly buffers: the difference of the
  first bytes that differ, as common libraries have it; C promises only its sign. Among byte strings of one length it is the order of the numbers they spell
  with the most significant byte first.
\<close>

fun memcmp :: "bytes \<Rightarrow> bytes \<Rightarrow> int" where
  "memcmp (x # xs) (y # ys) = (if x = y then memcmp xs ys else uint x - uint y)"
| "memcmp _ _ = 0"

fun be_value :: "bytes \<Rightarrow> nat" where
  "be_value [] = 0"
| "be_value (x # xs) = unat x * 256 ^ length xs + be_value xs"

lemma be_value_less: "be_value xs < 256 ^ length xs"
proof (induction xs)
  case (Cons x xs)
  have "Suc (unat x) \<le> 256" using unsigned_less [of x, where ?'a = nat] by simp
  then have "Suc (unat x) * 256 ^ length xs \<le> 256 * 256 ^ length xs" by (rule mult_le_mono1)
  moreover have "be_value (x # xs) < Suc (unat x) * 256 ^ length xs" using Cons by simp
  ultimately have "be_value (x # xs) < 256 * 256 ^ length xs" by (rule less_le_trans [rotated])
  then show ?case by (simp only: list.size(4) add_Suc_right add_0_right power_Suc One_nat_def)
qed simp

lemma be_value_head:
  assumes "length xs = length ys" "x < (y :: byte)"
  shows "be_value (x # xs) < be_value (y # ys)"
proof -
  have "be_value (x # xs) < Suc (unat x) * 256 ^ length ys"
    using be_value_less [of xs] assms(1) by simp
  also have "\<dots> \<le> unat y * 256 ^ length ys" using assms(2) by (intro mult_le_mono1) (simp add: word_less_nat_alt)
  finally show ?thesis by simp
qed

lemma memcmp_order:
  assumes "length xs = length ys"
  shows "memcmp xs ys < 0 \<longleftrightarrow> be_value xs < be_value ys"
    "memcmp xs ys > 0 \<longleftrightarrow> be_value xs > be_value ys"
proof -
  have "(memcmp xs ys < 0 \<longleftrightarrow> be_value xs < be_value ys) \<and> (memcmp xs ys > 0 \<longleftrightarrow> be_value xs > be_value ys)"
    using assms
  proof (induction xs ys rule: list_induct2)
    case (Cons x xs y ys)
    show ?case
    proof (cases x y rule: linorder_cases)
      case less
      then have "be_value (x # xs) < be_value (y # ys)" "uint x < uint y" "x \<noteq> y"
        using be_value_head [OF Cons.hyps(1) less] less by (simp_all add: word_less_def [symmetric])
      then show ?thesis by (simp del: be_value.simps)
    next
      case equal
      then show ?thesis using Cons by simp
    next
      case greater
      then have "be_value (y # ys) < be_value (x # xs)" "uint y < uint x" "x \<noteq> y"
        using be_value_head [OF Cons.hyps(1) [symmetric] greater] greater by (simp_all add: word_less_def [symmetric])
      then show ?thesis by (simp del: be_value.simps)
    qed
  qed simp
  then show "memcmp xs ys < 0 \<longleftrightarrow> be_value xs < be_value ys" "memcmp xs ys > 0 \<longleftrightarrow> be_value xs > be_value ys"
    by simp_all
qed

lemma memcmp_zero: "length xs = length ys \<Longrightarrow> memcmp xs ys = 0 \<longleftrightarrow> xs = ys"
  by (induction xs ys rule: list_induct2) (auto simp: word_uint_eq_iff)

lemma be_value_inj: "length xs = length ys \<Longrightarrow> be_value xs = be_value ys \<longleftrightarrow> xs = ys"
  using memcmp_order [of xs ys] memcmp_zero [of xs ys] by force

end
