(* ===== verification/Checksum.thy ===== *)
theory Checksum
  imports Wire
begin

text \<open>
  The Internet checksum: \<^verbatim>\<open>ip_checksum\<close> of \<^verbatim>\<open>src/ip.c\<close> and \<^verbatim>\<open>tcp_checksum\<close> of
  \<^verbatim>\<open>src/tcp.c\<close>, with their 32-bit accumulator. The reference is the one's complement sum of the
  16-bit words, which is the sum modulo \<open>2 ^ 16 - 1\<close> with the non-zero representative.
\<close>

section \<open>The code\<close>

definition csum_add :: "u32 \<Rightarrow> u16 \<Rightarrow> u32" where
  "csum_add acc word =
     (let acc = acc + ucast word in if acc > 0xffff then acc - ucast (ntohs 0xffff) else acc)"

text \<open>The loop over pairs of bytes and the odd last byte.\<close>

fun csum_loop :: "u32 \<Rightarrow> bytes \<Rightarrow> u32" where
  "csum_loop acc (a # b # data) = csum_loop (csum_add acc (load16 a b)) data"
| "csum_loop acc [a] = csum_add acc (load16 a 0)"
| "csum_loop acc [] = acc"

definition ip_checksum :: "bytes \<Rightarrow> u16" where
  "ip_checksum data = ucast (NOT (csum_loop 0xffff data))"

text \<open>\<^verbatim>\<open>tcp_checksum\<close>: the same accumulator runs over the pseudo header first.\<close>

definition tcp_pseudo_header :: "u32 \<Rightarrow> u32 \<Rightarrow> size_t \<Rightarrow> bytes" where
  "tcp_pseudo_header src_addr dst_addr bsize =
     store32 (htonl src_addr) @ store32 (htonl dst_addr) @ [0, 6] @ store16 (htons (ucast bsize))"

definition tcp_checksum :: "u32 \<Rightarrow> u32 \<Rightarrow> bytes \<Rightarrow> u16" where
  "tcp_checksum src_addr dst_addr data =
     ucast (NOT (csum_loop (csum_loop 0xffff
       (tcp_pseudo_header src_addr dst_addr (of_nat (length data)))) data))"

section \<open>The reference\<close>

fun sum16 :: "bytes \<Rightarrow> nat" where
  "sum16 (a # b # data) = unat (load16 a b) + sum16 data"
| "sum16 [a] = unat a"
| "sum16 [] = 0"

text \<open>The one's complement representative in \<open>1 .. 2 ^ 16 - 1\<close> of a positive sum.\<close>

definition ones_rep :: "nat \<Rightarrow> nat" where
  "ones_rep n = (if n mod 65535 = 0 then 65535 else n mod 65535)"

lemma ones_rep_range: "1 \<le> ones_rep n" "ones_rep n \<le> 65535"
  by (auto simp: ones_rep_def intro: less_imp_le)

lemma ones_rep_mod: "ones_rep n mod 65535 = n mod 65535"
  by (simp add: ones_rep_def)

lemma ones_rep_cong: "m mod 65535 = n mod 65535 \<Longrightarrow> ones_rep m = ones_rep n"
  by (simp add: ones_rep_def)

lemma ones_rep_add: "ones_rep (ones_rep m + n) = ones_rep (m + n)"
  by (rule ones_rep_cong) (metis mod_add_left_eq ones_rep_mod)

lemma ones_rep_small: "1 \<le> n \<Longrightarrow> n \<le> 65535 \<Longrightarrow> ones_rep n = n"
  by (cases "n = 65535") (auto simp: ones_rep_def)

lemma unat_u8 [simp]: "unat (a :: u8) < 256"
  using unsigned_less [of a] by simp

lemma unat_u16 [simp]: "unat (w :: u16) < 65536"
  using unsigned_less [of w] by simp

lemma unat_load16: "unat (load16 a b) = unat a + 256 * unat b"
proof -
  have "uint (load16 a b) = uint a OR push_bit 8 (uint b)"
    unfolding load16_def
    by (rule bit_eqI) (auto simp: bit_simps dest: bit_imp_le_length)
  also have "\<dots> = uint a + push_bit 8 (uint b)"
    by (rule disjunctive_add [symmetric]) (auto simp: bit_simps dest: bit_imp_le_length)
  finally show ?thesis
    by (simp add: push_bit_eq_mult nat_add_distrib nat_mult_distrib flip: nat_uint_eq)
qed

lemma csum_add_rep:
  assumes "1 \<le> unat acc" "unat acc \<le> 65535"
  shows "unat (csum_add acc w) = ones_rep (unat acc + unat w)"
proof -
  have w: "unat (ucast w :: u32) = unat w"
    by (simp add: unsigned_ucast_eq take_bit_nat_eq_self_iff less_trans [OF unat_u16])
  have sum: "unat (acc + ucast w) = unat acc + unat w"
    using unat_add_lem [of acc "ucast w"] w assms(2) unat_u16 [of w] by simp
  have ff: "(ucast (ntohs 0xffff) :: u32) = 0xffff" by (simp add: ntohs_def htons_def)
  show ?thesis
  proof (cases "acc + ucast w > 0xffff")
    case True
    then have g: "65535 < unat acc + unat w" using sum by (simp add: word_less_nat_alt)
    have "unat (csum_add acc w) = unat acc + unat w - 65535"
      using True sum ff unat_sub [OF less_imp_le [OF True]] by (simp add: csum_add_def)
    moreover have "ones_rep (unat acc + unat w) = ones_rep (unat acc + unat w - 65535)"
      using g by (intro ones_rep_cong) (simp add: le_mod_geq)
    ultimately show ?thesis using g assms(2) unat_u16 [of w] by (simp add: ones_rep_small)
  next
    case False
    then have "unat acc + unat w \<le> 65535" using sum by (simp add: word_less_nat_alt)
    then show ?thesis using False sum assms(1) by (simp add: csum_add_def ones_rep_small)
  qed
qed

lemma csum_loop_rep:
  "1 \<le> unat acc \<Longrightarrow> unat acc \<le> 65535 \<Longrightarrow> unat (csum_loop acc data) = ones_rep (unat acc + sum16 data)"
proof (induction acc data rule: csum_loop.induct)
  case (1 acc a b data)
  note r = csum_add_rep [OF 1(2,3), of "load16 a b"]
  then show ?case
    using 1(1) ones_rep_range [of "unat acc + unat (load16 a b)"]
    by (simp add: ones_rep_add add.assoc)
qed (simp_all add: csum_add_rep unat_load16 ones_rep_small)

section \<open>The checksum is the one's complement of the one's complement sum\<close>

lemma unat_checksum:
  fixes acc :: u32
  assumes "1 \<le> unat acc" "unat acc \<le> 65535"
  shows "unat (ucast (NOT acc) :: u16) = 65535 - unat acc"
proof -
  have acc: "unat (ucast acc :: u16) = unat acc"
    using assms(2) by (simp add: unsigned_ucast_eq take_bit_nat_eq_self_iff)
  have "(ucast (NOT acc) :: u16) = NOT (ucast acc)"
    by (rule bit_word_eqI) (auto simp: bit_simps)
  also have "\<dots> = - 1 - ucast acc" by (simp add: not_eq_complement)
  finally show ?thesis using acc unat_sub [of "ucast acc" "- 1 :: u16"]
    by (simp add: word_order.extremum unsigned_minus_1_eq_mask mask_eq_exp_minus_1)
qed

lemma unat_ip_checksum: "unat (ip_checksum data) = 65535 - ones_rep (sum16 data)"
proof -
  have "unat (csum_loop 0xffff data) = ones_rep (65535 + sum16 data)"
    using csum_loop_rep [of "0xffff" data] by simp
  also have "\<dots> = ones_rep (sum16 data)" by (rule ones_rep_cong) simp
  finally show ?thesis
    using ones_rep_range [of "sum16 data"] by (simp add: ip_checksum_def unat_checksum)
qed

lemma sum16_append: "even (length xs) \<Longrightarrow> sum16 (xs @ ys) = sum16 xs + sum16 ys"
  by (induction xs rule: sum16.induct) auto

lemma csum_loop_append: "even (length xs) \<Longrightarrow> csum_loop acc (xs @ ys) = csum_loop (csum_loop acc xs) ys"
  by (induction acc xs rule: csum_loop.induct) auto

lemma sum16_store16 [simp]: "sum16 (store16 w) = unat w" "sum16 (store16 w @ ys) = unat w + sum16 ys"
  by (simp_all add: store16_def load16_parts)

lemma tcp_checksum_ip:
  "tcp_checksum src dst data = ip_checksum (tcp_pseudo_header src dst (of_nat (length data)) @ data)"
  by (simp add: tcp_checksum_def ip_checksum_def csum_loop_append tcp_pseudo_header_def)

text \<open>A zero word replaced by the checksum makes the checksum zero, which is how a receiver verifies.\<close>

lemma checksum_fill:
  assumes "even (length pre)"
  shows "ip_checksum (pre @ store16 (ip_checksum (pre @ [0, 0] @ post)) @ post) = 0"
proof -
  let ?S = "sum16 pre + sum16 post"
  have "sum16 (pre @ [0, 0] @ post) = ?S"
    using assms by (simp add: sum16_append load16_def)
  then have c: "unat (ip_checksum (pre @ [0, 0] @ post)) = 65535 - ones_rep ?S"
    by (simp add: unat_ip_checksum)
  have "sum16 (pre @ store16 (ip_checksum (pre @ [0, 0] @ post)) @ post) = ?S + (65535 - ones_rep ?S)"
    using assms c by (simp add: sum16_append)
  moreover have "(?S + (65535 - ones_rep ?S)) mod 65535 = 0"
  proof -
    have "(?S + (65535 - ones_rep ?S)) mod 65535 = (ones_rep ?S + (65535 - ones_rep ?S)) mod 65535"
      by (metis mod_add_left_eq ones_rep_mod)
    then show ?thesis using ones_rep_range [of ?S] by simp
  qed
  ultimately have "unat (ip_checksum (pre @ store16 (ip_checksum (pre @ [0, 0] @ post)) @ post)) = 0"
    by (simp add: unat_ip_checksum ones_rep_def)
  then show ?thesis by (simp add: unat_eq_0)
qed

text \<open>C29: \<^verbatim>\<open>ip_checksum\<close> is the one's complement of the one's complement sum of the 16-bit words of
  the data, an odd last byte padded with zero: the 32-bit accumulator never wraps.\<close>

theorem ip_checksum_correct:
  "unat (ip_checksum data) =
     65535 - (if sum16 data mod 65535 = 0 then 65535 else sum16 data mod 65535)"
  using unat_ip_checksum [of data] by (simp add: ones_rep_def)

lemma tcp_checksum_fill:
  assumes "even (length pre)"
  shows "tcp_checksum src dst (pre @ store16 (tcp_checksum src dst (pre @ [0, 0] @ post)) @ post) = 0"
proof -
  let ?p = "tcp_pseudo_header src dst (of_nat (length (pre @ [0, 0] @ post)))"
  have "tcp_checksum src dst (pre @ [0, 0] @ post) = ip_checksum ((?p @ pre) @ [0, 0] @ post)"
    by (simp add: tcp_checksum_ip)
  then have "tcp_checksum src dst (pre @ store16 (tcp_checksum src dst (pre @ [0, 0] @ post)) @ post) =
    ip_checksum ((?p @ pre) @ store16 (ip_checksum ((?p @ pre) @ [0, 0] @ post)) @ post)"
    by (simp add: tcp_checksum_ip)
  moreover have "even (length (?p @ pre))" using assms by (simp add: tcp_pseudo_header_def)
  ultimately show ?thesis using checksum_fill [of "?p @ pre" post] by metis
qed

text \<open>C30: A sender that puts the checksum into a zeroed, aligned checksum field makes the checksum of
  the whole packet zero, which is the receiver's test; the TCP checksum is the same function over the
  pseudo header and the segment.\<close>

theorem checksum_verifies:
  assumes "even (length pre)"
  shows "ip_checksum (pre @ store16 (ip_checksum (pre @ [0, 0] @ post)) @ post) = 0 \<and>
    tcp_checksum src dst
      (pre @ store16 (tcp_checksum src dst (pre @ [0, 0] @ post)) @ post) = 0"
  using checksum_fill [OF assms] tcp_checksum_fill [OF assms] by blast

lemma checksum_verifies_witness:
  "even (length [0x45, 0 :: byte]) \<and>
   ip_checksum ([0x45, 0] @ store16 (ip_checksum ([0x45, 0] @ [0, 0] @ [1])) @ [1]) = 0"
  using checksum_verifies [of "[0x45, 0]" "[1]"] by simp

end
