(* ===== verification/Ip_Hdr.thy ===== *)
theory Ip_Hdr
  imports Checksum
begin

text \<open>
  The IP header: \<^verbatim>\<open>struct ip_hdr\<close> and its inline helpers of \<^verbatim>\<open>src/xstack_ip.h\<close>, and \<^verbatim>\<open>ip_hton\<close>,
  \<^verbatim>\<open>ip_ntoh\<close> and \<^verbatim>\<open>ip_reply_header\<close> of \<^verbatim>\<open>src/ip.c\<close>. A header is a record of its fields as the C code
  loads them; \<open>ip_load\<close> and \<open>ip_store\<close> are the packed struct in memory. The code converts headers in
  place, in the buffer of the packet.
\<close>

definition IP_VHL_DEFAULT :: u8 where "IP_VHL_DEFAULT = 0x45"
definition IP_TOS_DEFAULT :: u8 where "IP_TOS_DEFAULT = 0"
definition IP_TOFF_DEFAULT :: u16 where "IP_TOFF_DEFAULT = 0x4000"
definition IP_TTL_DEFAULT :: u8 where "IP_TTL_DEFAULT = 64"
definition IP_FLAGS_MF :: u16 where "IP_FLAGS_MF = 0x2000"
definition IP_MAX_BYTES :: nat where "IP_MAX_BYTES = 65535"
definition IP_PROTO_ICMP :: u8 where "IP_PROTO_ICMP = 1"
definition IP_PROTO_TCP :: u8 where "IP_PROTO_TCP = 6"
definition IP_PROTO_UDP :: u8 where "IP_PROTO_UDP = 17"

lemmas ip_consts = IP_VHL_DEFAULT_def IP_TOS_DEFAULT_def IP_TOFF_DEFAULT_def IP_TTL_DEFAULT_def
  IP_FLAGS_MF_def IP_MAX_BYTES_def IP_PROTO_ICMP_def IP_PROTO_TCP_def IP_PROTO_UDP_def

record ip_hdr =
  ip_vhl :: u8
  ip_tos :: u8
  ip_len :: u16
  ip_id :: u16
  ip_foff :: u16
  ip_ttl :: u8
  ip_proto :: u8
  ip_csum :: u16
  ip_src :: u32
  ip_dst :: u32

definition ip_store :: "ip_hdr \<Rightarrow> bytes" where
  "ip_store h = [ip_vhl h, ip_tos h] @ store16 (ip_len h) @ store16 (ip_id h) @ store16 (ip_foff h) @
     [ip_ttl h, ip_proto h] @ store16 (ip_csum h) @ store32 (ip_src h) @ store32 (ip_dst h)"

definition ip_load :: "bytes \<Rightarrow> ip_hdr option" where
  "ip_load b = (if length b < 20 then None else Some
     \<lparr>ip_vhl = b ! 0, ip_tos = b ! 1, ip_len = load16 (b ! 2) (b ! 3), ip_id = load16 (b ! 4) (b ! 5),
      ip_foff = load16 (b ! 6) (b ! 7), ip_ttl = b ! 8, ip_proto = b ! 9,
      ip_csum = load16 (b ! 10) (b ! 11), ip_src = load32 (b ! 12) (b ! 13) (b ! 14) (b ! 15),
      ip_dst = load32 (b ! 16) (b ! 17) (b ! 18) (b ! 19)\<rparr>)"

definition ip_hdr_hlen :: "ip_hdr \<Rightarrow> nat" where
  "ip_hdr_hlen h = unat (ip_vhl h AND 0x0f) * 4"

definition ip_fragment_is_frag :: "ip_hdr \<Rightarrow> bool" where
  "ip_fragment_is_frag h = (ip_foff h AND IP_FLAGS_MF \<noteq> 0 \<or> ip_foff h AND 0x1fff \<noteq> 0)"

section \<open>Conversion between host and network order\<close>

text \<open>\<^verbatim>\<open>ip_hton(host, net)\<close>: \<open>net\<close> is the buffer the network header is written to; the checksum runs over
  the header length, that is, over the options in the buffer too.\<close>

definition ip_swap :: "ip_hdr \<Rightarrow> ip_hdr" where
  "ip_swap h = h\<lparr>ip_len := htons (ip_len h), ip_id := htons (ip_id h), ip_foff := htons (ip_foff h),
     ip_src := htonl (ip_src h), ip_dst := htonl (ip_dst h)\<rparr>"

definition ip_hton :: "ip_hdr \<Rightarrow> bytes \<Rightarrow> bytes option" where
  "ip_hton host net = do {
     let hdr = (ip_swap host)\<lparr>ip_csum := 0\<rparr>;
     net \<leftarrow> mem_write net 0 (ip_store hdr);
     data \<leftarrow> mem_read net 0 (ip_hdr_hlen host);
     mem_write net 0 (ip_store (hdr\<lparr>ip_csum := ip_checksum data\<rparr>))
   }"

definition ip_ntoh :: "ip_hdr \<Rightarrow> ip_hdr \<times> nat" where
  "ip_ntoh net =
     (let host = net\<lparr>ip_len := ntohs (ip_len net), ip_id := ntohs (ip_id net),
            ip_foff := ntohs (ip_foff net), ip_src := ntohl (ip_src net), ip_dst := ntohl (ip_dst net)\<rparr>
      in (host, ip_hdr_hlen host))"

text \<open>\<^verbatim>\<open>ip_reply_header\<close> on the header, in host order, at the start of the buffer. The result is the size
  of the reply packet.\<close>

definition ip_reply_header :: "bytes \<Rightarrow> size_t \<Rightarrow> (size_t \<times> bytes) option" where
  "ip_reply_header buf bsize = do {
     ip \<leftarrow> ip_load buf;
     let ip = ip\<lparr>ip_src := ip_dst ip, ip_dst := ip_src ip, ip_ttl := IP_TTL_DEFAULT\<rparr>;
     let bsize = bsize + of_nat (ip_hdr_hlen ip);
     let ip = ip\<lparr>ip_len := ucast bsize\<rparr>;
     buf \<leftarrow> ip_hton ip buf;
     Some (bsize, buf)
   }"

section \<open>Loading and storing\<close>

lemma length_ip_store [simp]: "length (ip_store h) = 20"
  by (simp add: ip_store_def)

lemma ip_load_store [simp]: "ip_load (ip_store h @ rest) = Some h"
  by (simp add: ip_load_def ip_store_def store16_def store32_halves load16_parts load32_halves nth_append)

lemma ip_swap_swap [simp]: "ip_swap (ip_swap h) = h"
  by (simp add: ip_swap_def)

lemma ip_swap_simps [simp]:
  "ip_vhl (ip_swap h) = ip_vhl h" "ip_swap (h\<lparr>ip_csum := c\<rparr>) = (ip_swap h)\<lparr>ip_csum := c\<rparr>"
  by (simp_all add: ip_swap_def)

lemma ip_ntoh_swap: "ip_ntoh h = (ip_swap h, ip_hdr_hlen h)"
  by (simp add: ip_ntoh_def ip_swap_def ntohs_def ntohl_def ip_hdr_hlen_def)

lemma ip_hlen_csum [simp]: "ip_hdr_hlen (h\<lparr>ip_csum := c\<rparr>) = ip_hdr_hlen h"
  "ip_hdr_hlen (ip_swap h) = ip_hdr_hlen h" "ip_hdr_hlen (h\<lparr>ip_src := a\<rparr>) = ip_hdr_hlen h"
  "ip_hdr_hlen (h\<lparr>ip_dst := a\<rparr>) = ip_hdr_hlen h" "ip_hdr_hlen (h\<lparr>ip_ttl := t\<rparr>) = ip_hdr_hlen h"
  "ip_hdr_hlen (h\<lparr>ip_len := n\<rparr>) = ip_hdr_hlen h" "ip_hdr_hlen (h\<lparr>ip_foff := n\<rparr>) = ip_hdr_hlen h"
  "ip_hdr_hlen (h\<lparr>ip_proto := q\<rparr>) = ip_hdr_hlen h" "ip_hdr_hlen (h\<lparr>ip_id := n\<rparr>) = ip_hdr_hlen h"
  by (simp_all add: ip_hdr_hlen_def)

lemma ip_hdr_hlen_le: "ip_hdr_hlen h \<le> 60"
proof -
  have "ip_vhl h AND 0x0f \<le> 0x0f" by (rule word_and_le1)
  then show ?thesis by (simp add: ip_hdr_hlen_def word_le_nat_alt)
qed

text \<open>The stored header around its checksum field.\<close>

lemma ip_store_csum:
  obtains pre post where "length pre = 10" "\<And>c. ip_store (h\<lparr>ip_csum := c\<rparr>) = pre @ store16 c @ post"
  using that [of "[ip_vhl h, ip_tos h] @ store16 (ip_len h) @ store16 (ip_id h) @ store16 (ip_foff h) @
     [ip_ttl h, ip_proto h]" "store32 (ip_src h) @ store32 (ip_dst h)"]
  by (simp add: ip_store_def)

lemma ip_hton_eq:
  assumes "20 \<le> length net" "ip_hdr_hlen host \<le> length net"
  shows "ip_hton host net =
    (let hdr = ip_swap host;
         data = take (ip_hdr_hlen host) (ip_store (hdr\<lparr>ip_csum := 0\<rparr>) @ drop 20 net)
     in Some (ip_store (hdr\<lparr>ip_csum := ip_checksum data\<rparr>) @ drop 20 net))"
  using assms by (simp add: ip_hton_def mem_write_def mem_read_def Let_def)

lemma ip_hton_checksum:
  assumes "20 \<le> length net" "20 \<le> ip_hdr_hlen host" "ip_hdr_hlen host \<le> length net"
    "ip_hton host net = Some net'"
  shows "ip_checksum (take (ip_hdr_hlen host) net') = 0"
proof -
  let ?n = "ip_hdr_hlen host - 20"
  obtain pre post where p: "length pre = 10"
    "\<And>c. ip_store ((ip_swap host)\<lparr>ip_csum := c\<rparr>) = pre @ store16 c @ post"
    using ip_store_csum [of "ip_swap host"] by blast
  have l: "length post = 8" using p(1) length_ip_store [of "(ip_swap host)\<lparr>ip_csum := 0\<rparr>"] by (simp add: p(2))
  have t: "take (ip_hdr_hlen host) (pre @ store16 c @ post @ drop 20 net) =
      pre @ store16 c @ (post @ take ?n (drop 20 net))" for c
    using assms(2) p(1) l by simp
  have z: "store16 0 = [0, 0]" by (simp add: store16_def)
  have "take (ip_hdr_hlen host) (ip_store ((ip_swap host)\<lparr>ip_csum := 0\<rparr>) @ drop 20 net) =
      pre @ [0, 0] @ post @ take ?n (drop 20 net)"
    using t [of 0] by (simp only: p(2) append_assoc z)
  with assms(4) have "net' = pre @ store16 (ip_checksum (pre @ [0, 0] @ post @ take ?n (drop 20 net))) @
      post @ drop 20 net"
    by (simp only: ip_hton_eq [OF assms(1,3)] Let_def option.inject) (simp add: p(2))
  then have "take (ip_hdr_hlen host) net' =
      pre @ store16 (ip_checksum (pre @ [0, 0] @ post @ take ?n (drop 20 net))) @ post @ take ?n (drop 20 net)"
    by (simp only: t)
  then show ?thesis using checksum_fill [of pre "post @ take ?n (drop 20 net)"] p(1) by simp
qed

text \<open>C33: \<^verbatim>\<open>ip_hton\<close> and \<^verbatim>\<open>ip_ntoh\<close> are inverse up to the checksum field, options and payload stay as they
  are, and the header that goes out has a checksum that verifies.\<close>

theorem ip_hdr_roundtrip:
  assumes "20 \<le> length net" "20 \<le> ip_hdr_hlen host" "ip_hdr_hlen host \<le> length net"
  shows "\<exists>net' n c. ip_hton host net = Some net' \<and> ip_load net' = Some n \<and>
    ip_ntoh n = (host\<lparr>ip_csum := c\<rparr>, ip_hdr_hlen host) \<and> drop 20 net' = drop 20 net \<and>
    ip_checksum (take (ip_hdr_hlen host) net') = 0"
proof -
  obtain c where "ip_hton host net = Some (ip_store ((ip_swap host)\<lparr>ip_csum := c\<rparr>) @ drop 20 net)"
    using ip_hton_eq [OF assms(1,3)] by (auto simp: Let_def)
  then show ?thesis
    using ip_hton_checksum [OF assms] by (auto simp: ip_ntoh_swap)
qed

lemma ip_hdr_roundtrip_witness:
  "\<exists>net' n c. ip_hton \<lparr>ip_vhl = 0x45, ip_tos = 0, ip_len = 20, ip_id = 7, ip_foff = 0, ip_ttl = 64,
      ip_proto = 17, ip_csum = 0, ip_src = 0x0a000001, ip_dst = 0x0a000002\<rparr> (replicate 20 0) = Some net' \<and>
    ip_load net' = Some n \<and>
    ip_ntoh n = (\<lparr>ip_vhl = 0x45, ip_tos = 0, ip_len = 20, ip_id = 7, ip_foff = 0, ip_ttl = 64,
      ip_proto = 17, ip_csum = c, ip_src = 0x0a000001, ip_dst = 0x0a000002\<rparr>, 20) \<and>
    ip_checksum (take 20 net') = 0"
  using ip_hdr_roundtrip [of "replicate 20 0" "\<lparr>ip_vhl = 0x45, ip_tos = 0, ip_len = 20, ip_id = 7,
    ip_foff = 0, ip_ttl = 64, ip_proto = 17, ip_csum = 0, ip_src = 0x0a000001, ip_dst = 0x0a000002\<rparr>"]
  by (simp add: ip_hdr_hlen_def) blast

text \<open>A reply header swaps source and destination, resets the time to live, carries the size of the
  packet, and verifies; the size returned is the header length plus the data.\<close>

lemma reply_header_ok:
  assumes "ip_load buf = Some ip" "20 \<le> ip_hdr_hlen ip" "ip_hdr_hlen ip \<le> length buf"
  shows "\<exists>buf' n c. ip_reply_header buf bsize = Some (bsize + of_nat (ip_hdr_hlen ip), buf') \<and>
    ip_load buf' = Some n \<and>
    fst (ip_ntoh n) = ip\<lparr>ip_src := ip_dst ip, ip_dst := ip_src ip, ip_ttl := 64,
      ip_len := ucast (bsize + of_nat (ip_hdr_hlen ip)), ip_csum := c\<rparr> \<and>
    drop 20 buf' = drop 20 buf \<and> ip_checksum (take (ip_hdr_hlen ip) buf') = 0"
proof -
  have l: "20 \<le> length buf" using assms(1) by (auto simp: ip_load_def split: if_splits)
  let ?ip = "ip\<lparr>ip_src := ip_dst ip, ip_dst := ip_src ip, ip_ttl := 64,
      ip_len := ucast (bsize + of_nat (ip_hdr_hlen ip))\<rparr>"
  have h: "ip_hdr_hlen ?ip = ip_hdr_hlen ip" by simp
  obtain c where t: "ip_hton ?ip buf = Some (ip_store ((ip_swap ?ip)\<lparr>ip_csum := c\<rparr>) @ drop 20 buf)"
    using ip_hton_eq [of buf ?ip] l assms(3) h by (auto simp: Let_def)
  have r: "ip_reply_header buf bsize = Some (bsize + of_nat (ip_hdr_hlen ip),
      ip_store ((ip_swap ?ip)\<lparr>ip_csum := c\<rparr>) @ drop 20 buf)"
    using t assms(1) by (simp add: ip_reply_header_def ip_consts Let_def)
  have "ip_checksum (take (ip_hdr_hlen ip) (ip_store ((ip_swap ?ip)\<lparr>ip_csum := c\<rparr>) @ drop 20 buf)) = 0"
    using ip_hton_checksum [OF l _ _ t] assms(2,3) unfolding h by blast
  moreover have "fst (ip_ntoh ((ip_swap ?ip)\<lparr>ip_csum := c\<rparr>)) = ?ip\<lparr>ip_csum := c\<rparr>"
    by (simp only: ip_ntoh_swap fst_conv ip_swap_simps ip_swap_swap)
  moreover have "drop 20 (ip_store ((ip_swap ?ip)\<lparr>ip_csum := c\<rparr>) @ drop 20 buf) = drop 20 buf"
    by (simp del: drop_drop)
  ultimately show ?thesis using r ip_load_store by blast
qed

end
