(* ===== verification/Ip_Fragment.thy ===== *)
theory Ip_Fragment
  imports Memcmp Ip_Hdr
begin

text \<open>
  The reassembly of fragments, \<^verbatim>\<open>src/ip_fragment.c\<close>: four buffers, a tree over those in use ordered by
  the buffer identifier of RFC 791, and in each a bitmap of the received blocks of eight bytes.
  \<open>frag_collect\<close> is the first half of \<^verbatim>\<open>ip_fragment_input\<close>, up to the update of the header;
  \<open>frag_done\<close> is the test that follows. The second half, which delivers the packet, calls
  \<^verbatim>\<open>ip_input\<close> and \<^verbatim>\<open>ip_send\<close> and is in the theory \<open>Ip_Net\<close>.

  A copy outside the payload or outside the received packet and an access outside the bitmap are
  \<open>None\<close>.
\<close>

section \<open>The bitmap\<close>

definition FRAG_MAX :: nat where "FRAG_MAX = 8192"
definition FRAG_MAP_SIZE :: nat where "FRAG_MAP_SIZE = FRAG_MAX div 32"
definition XSTACK_IP_FRAGMENT_TLB :: int where "XSTACK_IP_FRAGMENT_TLB = 15"
definition PACKET_BUFFERS :: nat where "PACKET_BUFFERS = 4"

lemmas frag_consts = FRAG_MAX_def FRAG_MAP_SIZE_def XSTACK_IP_FRAGMENT_TLB_def PACKET_BUFFERS_def

type_synonym fragment_map = "nat \<Rightarrow> u32"

text \<open>\<^verbatim>\<open>memset(map->fragmap, 0, FRAG_MAP_SIZE)\<close>: the size is counted in bytes, so only a quarter of the
  words is cleared.\<close>

definition fragmap_init :: "fragment_map \<Rightarrow> fragment_map" where
  "fragmap_init m = (\<lambda>w. if 4 * w < FRAG_MAP_SIZE then 0 else m w)"

definition fragmap_set :: "nat \<Rightarrow> fragment_map \<Rightarrow> fragment_map option" where
  "fragmap_set i m = (if i div 32 < FRAG_MAP_SIZE
     then Some (m(i div 32 := m (i div 32) OR push_bit (i mod 32) 1)) else None)"

definition fragmap_clear :: "nat \<Rightarrow> fragment_map \<Rightarrow> fragment_map option" where
  "fragmap_clear i m = (if i div 32 < FRAG_MAP_SIZE
     then Some (m(i div 32 := m (i div 32) AND NOT (push_bit (i mod 32) 1))) else None)"

definition fragmap_tst :: "nat \<Rightarrow> fragment_map \<Rightarrow> bool option" where
  "fragmap_tst i m = (if i div 32 < FRAG_MAP_SIZE
     then Some (m (i div 32) AND push_bit (i mod 32) 1 \<noteq> 0) else None)"

fun fragmap_set_all :: "nat list \<Rightarrow> fragment_map \<Rightarrow> fragment_map option" where
  "fragmap_set_all [] m = Some m"
| "fragmap_set_all (i # is) m = do { m \<leftarrow> fragmap_set i m; fragmap_set_all is m }"

fun fragmap_all :: "nat list \<Rightarrow> fragment_map \<Rightarrow> bool option" where
  "fragmap_all [] m = Some True"
| "fragmap_all (i # is) m = do { b \<leftarrow> fragmap_tst i m; r \<leftarrow> fragmap_all is m; Some (b \<and> r) }"

section \<open>The buffers\<close>

record packet_buf =
  reserved :: bool
  timer :: int
  fragmap :: fragment_map
  p_hdr :: ip_hdr
  p_payload :: "nat \<Rightarrow> byte"

record frag_state =
  packet_buffer :: "nat \<Rightarrow> packet_buf"
  packet_buffer_head :: rb_head

text \<open>The identifier as the comparison lays it out in memory, with the padding byte it clears.\<close>

definition bufid :: "ip_hdr \<Rightarrow> bytes" where
  "bufid h = store32 (ip_src h) @ store32 (ip_dst h) @ [ip_proto h, 0] @ store16 (ip_id h)"

definition packet_buf_cmp :: "packet_buf \<Rightarrow> packet_buf \<Rightarrow> int" where
  "packet_buf_cmp a b = memcmp (bufid (p_hdr a)) (bufid (p_hdr b))"

definition ip_hdr_zero :: ip_hdr where
  "ip_hdr_zero = \<lparr>ip_vhl = 0, ip_tos = 0, ip_len = 0, ip_id = 0, ip_foff = 0, ip_ttl = 0, ip_proto = 0,
     ip_csum = 0, ip_src = 0, ip_dst = 0\<rparr>"

definition packet_buf_zero :: packet_buf where
  "packet_buf_zero = \<lparr>reserved = False, timer = 0, fragmap = (\<lambda>_. 0), p_hdr = ip_hdr_zero, p_payload = (\<lambda>_. 0)\<rparr>"

definition frag_boot :: frag_state where
  "frag_boot = \<lparr>packet_buffer = (\<lambda>_. packet_buf_zero),
     packet_buffer_head = \<lparr>rbh_root = None, links = (\<lambda>_. rb_entry_zero)\<rparr>\<rparr>"

definition set_buf :: "nat \<Rightarrow> packet_buf \<Rightarrow> frag_state \<Rightarrow> frag_state" where
  "set_buf p b st = st\<lparr>packet_buffer := (packet_buffer st)(p := b)\<rparr>"

definition release_packet_buffer :: "nat \<Rightarrow> frag_state \<Rightarrow> frag_state option" where
  "release_packet_buffer p st = do {
     head \<leftarrow> RB_REMOVE (packet_buffer_head st) (Some p);
     Some (set_buf p ((packet_buffer st p)\<lparr>reserved := False\<rparr>) (st\<lparr>packet_buffer_head := head\<rparr>))
   }"

text \<open>The allocation: the first buffer that is not reserved.\<close>

definition packet_alloc :: "ip_hdr \<Rightarrow> frag_state \<Rightarrow> (ptr \<times> frag_state) option" where
  "packet_alloc hdr st =
     (case List.find (\<lambda>i. \<not> reserved (packet_buffer st i)) [0..<PACKET_BUFFERS] of
        None \<Rightarrow> Some (None, st)
      | Some p \<Rightarrow> do {
          let b = packet_buffer st p;
          let b = b\<lparr>reserved := True, fragmap := fragmap_init (fragmap b), timer := XSTACK_IP_FRAGMENT_TLB,
                    p_hdr := hdr\<lparr>ip_foff := 0, ip_len := 0\<rparr>\<rparr>;
          let st = set_buf p b st;
          (head, dup) \<leftarrow> RB_INSERT (\<lambda>x. packet_buf_cmp b (packet_buffer st x)) (packet_buffer_head st) p;
          let st = st\<lparr>packet_buffer_head := head\<rparr>;
          if dup \<noteq> None then do { st \<leftarrow> release_packet_buffer p st; Some (None, st) }
          else Some (Some p, st)
        })"

definition get_packet_buffer :: "ip_hdr \<Rightarrow> frag_state \<Rightarrow> (ptr \<times> frag_state) option" where
  "get_packet_buffer hdr st = do {
     let find = packet_buf_zero\<lparr>p_hdr := ip_hdr_zero\<lparr>ip_id := ip_id hdr, ip_proto := ip_proto hdr,
                  ip_src := ip_src hdr, ip_dst := ip_dst hdr\<rparr>\<rparr>;
     p \<leftarrow> RB_FIND (\<lambda>x. packet_buf_cmp find (packet_buffer st x)) (packet_buffer_head st);
     if p \<noteq> None then Some (p, st) else packet_alloc hdr st
   }"

section \<open>Collecting a fragment\<close>

definition frag_off :: "ip_hdr \<Rightarrow> nat" where
  "frag_off h = unat (ip_foff h AND 0x1fff) * 8"

text \<open>The length of the data, and the copy and the bitmap update of one fragment.\<close>

definition frag_len :: "ip_hdr \<Rightarrow> nat option" where
  "frag_len h = (if ip_hdr_hlen h \<le> unat (ip_len h) then Some (unat (ip_len h) - ip_hdr_hlen h) else None)"

definition frag_copy :: "ip_hdr \<Rightarrow> bytes \<Rightarrow> packet_buf \<Rightarrow> packet_buf option" where
  "frag_copy hdr rx b = do {
     n \<leftarrow> frag_len hdr;
     let off = frag_off hdr;
     data \<leftarrow> mem_read rx 0 n;
     if off + n > IP_MAX_BYTES then None
     else do {
       m \<leftarrow> fragmap_set_all [off div 8..<off div 8 + (n + 7) div 8] (fragmap b);
       Some (b\<lparr>p_payload := (\<lambda>i. if off \<le> i \<and> i < off + n then data ! (i - off) else p_payload b i),
               fragmap := m\<rparr>)
     }
   }"

definition frag_header :: "ip_hdr \<Rightarrow> ip_hdr \<Rightarrow> ip_hdr" where
  "frag_header hdr old =
     (if frag_off hdr = 0 then hdr\<lparr>ip_len := 0, ip_foff := 0\<rparr>
      else if ip_foff hdr AND IP_FLAGS_MF = 0
      then old\<lparr>ip_len := ip_len hdr - of_nat (ip_hdr_hlen hdr) + of_nat (frag_off hdr)\<rparr>
      else old)"

definition frag_collect :: "ip_hdr \<Rightarrow> bytes \<Rightarrow> frag_state \<Rightarrow> ((int + nat) \<times> frag_state) option" where
  "frag_collect hdr rx st =
     (if frag_off hdr > IP_MAX_BYTES then Some (Inl (- EMSGSIZE), st)
      else do {
        (p, st) \<leftarrow> get_packet_buffer hdr st;
        case p of
          None \<Rightarrow> Some (Inl (- ENOBUFS), st)
        | Some p \<Rightarrow> do {
            b \<leftarrow> frag_copy hdr rx (packet_buffer st p);
            Some (Inr p, set_buf p (b\<lparr>p_hdr := frag_header hdr (p_hdr b)\<rparr>) st)
          }
      })"

text \<open>The test whether the packet is complete: its length is known and all its blocks are there.\<close>

definition frag_done :: "packet_buf \<Rightarrow> bool option" where
  "frag_done b =
     (if ip_len (p_hdr b) = 0 then Some False
      else fragmap_all [0..<(unat (ip_len (p_hdr b)) + 7) div 8] (fragmap b))"

text \<open>One tick of the timer, for the buffers from \<open>i\<close> on.\<close>

fun frag_timer_loop :: "nat list \<Rightarrow> int \<Rightarrow> frag_state \<Rightarrow> frag_state option" where
  "frag_timer_loop [] delta_time st = Some st"
| "frag_timer_loop (i # is) delta_time st =
     (if \<not> reserved (packet_buffer st i) then frag_timer_loop is delta_time st
      else do {
        let b = packet_buffer st i;
        let b = b\<lparr>timer := timer b - delta_time\<rparr>;
        let st = set_buf i b st;
        st \<leftarrow> (if timer b \<le> 0 then release_packet_buffer i st else Some st);
        frag_timer_loop is delta_time st
      })"

definition ip_fragment_timer :: "int \<Rightarrow> frag_state \<Rightarrow> frag_state option" where
  "ip_fragment_timer = frag_timer_loop [0..<PACKET_BUFFERS]"

section \<open>The bitmap as a set\<close>

definition blocks :: "fragment_map \<Rightarrow> nat set" where
  "blocks m = {i. i < FRAG_MAX \<and> bit (m (i div 32)) (i mod 32)}"

lemma frag_index: "i < FRAG_MAX \<Longrightarrow> i div 32 < FRAG_MAP_SIZE"
  by (simp add: frag_consts)

lemma block_eq: "(i :: nat) div 32 = j div 32 \<Longrightarrow> i mod 32 = j mod 32 \<Longrightarrow> i = j"
  by (metis div_mult_mod_eq)

lemma fragmap_set_blocks:
  assumes "i < FRAG_MAX"
  obtains m' where "fragmap_set i m = Some m'" "blocks m' = insert i (blocks m)"
proof -
  let ?m = "m(i div 32 := m (i div 32) OR push_bit (i mod 32) 1)"
  have "bit (?m (j div 32)) (j mod 32) \<longleftrightarrow> bit (m (j div 32)) (j mod 32) \<or> i = j" for j
    by (auto simp: bit_simps dest: block_eq)
  then have "blocks ?m = insert i (blocks m)" using assms unfolding blocks_def by blast
  then show thesis using that assms by (simp add: fragmap_set_def frag_index)
qed

lemma fragmap_clear_blocks:
  assumes "i < FRAG_MAX"
  obtains m' where "fragmap_clear i m = Some m'" "blocks m' = blocks m - {i}"
proof -
  let ?m = "m(i div 32 := m (i div 32) AND NOT (push_bit (i mod 32) 1))"
  have "bit (?m (j div 32)) (j mod 32) \<longleftrightarrow> bit (m (j div 32)) (j mod 32) \<and> i \<noteq> j" for j
    by (auto simp: bit_simps dest: block_eq)
  then have "blocks ?m = blocks m - {i}" unfolding blocks_def by blast
  then show thesis using that assms by (simp add: fragmap_clear_def frag_index)
qed

lemma fragmap_tst_blocks: "i < FRAG_MAX \<Longrightarrow> fragmap_tst i m = Some (i \<in> blocks m)"
  using bit_iff_and_push_bit_not_eq_0 [of "m (i div 32)" "i mod 32"]
  by (simp add: fragmap_tst_def frag_index blocks_def)

lemma fragmap_set_all_blocks:
  "\<forall>i \<in> set is. i < FRAG_MAX \<Longrightarrow> \<exists>m'. fragmap_set_all is m = Some m' \<and> blocks m' = set is \<union> blocks m"
proof (induction "is" arbitrary: m)
  case (Cons i "is")
  obtain m' where m': "fragmap_set i m = Some m'" "blocks m' = insert i (blocks m)"
    using fragmap_set_blocks [of i m] Cons.prems by auto
  then show ?case using Cons.IH [of m'] Cons.prems by auto
qed simp

lemma fragmap_all_blocks:
  "\<forall>i \<in> set is. i < FRAG_MAX \<Longrightarrow> fragmap_all is m = Some (set is \<subseteq> blocks m)"
  by (induction "is") (auto simp: fragmap_tst_blocks)

lemma fragmap_init_blocks: "blocks (fragmap_init m) = {i \<in> blocks m. 2048 \<le> i}"
  by (auto simp: blocks_def fragmap_init_def frag_consts)

section \<open>The tree of the buffers in use\<close>

lemma store_inj [simp]: "store16 a = store16 b \<longleftrightarrow> a = b" "store32 c = store32 d \<longleftrightarrow> c = d"
  by (metis load_store16(1)) (metis load_store32)

definition frag_key :: "ip_hdr \<Rightarrow> u32 \<times> u32 \<times> u8 \<times> u16" where
  "frag_key h = (ip_src h, ip_dst h, ip_proto h, ip_id h)"

definition frag_rank :: "packet_buf \<Rightarrow> nat" where
  "frag_rank b = be_value (bufid (p_hdr b))"

lemma length_bufid [simp]: "length (bufid h) = 12"
  by (simp add: bufid_def)

lemma frag_rank_eq: "frag_rank a = frag_rank b \<longleftrightarrow> frag_key (p_hdr a) = frag_key (p_hdr b)"
  by (simp add: frag_rank_def be_value_inj) (auto simp: bufid_def frag_key_def)

interpretation by_bufid: key_order packet_buf_cmp frag_rank "\<lambda>_. True"
  by unfold_locales (simp_all add: packet_buf_cmp_def frag_rank_def memcmp_order)

definition in_use :: "frag_state \<Rightarrow> nat set" where
  "in_use st = {p. p < PACKET_BUFFERS \<and> reserved (packet_buffer st p)}"

definition frag_inv :: "frag_state \<Rightarrow> bool" where
  "frag_inv st \<longleftrightarrow> rb_set frag_rank (packet_buffer st) (packet_buffer_head st) (in_use st) \<and>
     (\<forall>p \<in> in_use st. ip_foff (p_hdr (packet_buffer st p)) = 0)"

lemma frag_inv_boot: "frag_inv frag_boot"
  using rb_set_init [of frag_rank "\<lambda>_. packet_buf_zero" "packet_buffer_head frag_boot"]
  by (simp add: frag_inv_def in_use_def frag_boot_def packet_buf_zero_def RB_INIT_def)

lemma frag_inv_key:
  assumes "frag_inv st" "p \<in> in_use st" "q \<in> in_use st"
    "frag_key (p_hdr (packet_buffer st p)) = frag_key (p_hdr (packet_buffer st q))"
  shows "p = q"
  using assms rb_set_inj unfolding frag_inv_def frag_rank_eq [symmetric] by metis

text \<open>An update of a buffer in use that keeps its identifier.\<close>

lemma frag_inv_set:
  assumes "frag_inv st" "p \<in> in_use st" "reserved b" "ip_foff (p_hdr b) = 0"
    "frag_key (p_hdr b) = frag_key (p_hdr (packet_buffer st p))"
  shows "frag_inv (set_buf p b st)" "in_use (set_buf p b st) = in_use st"
proof -
  show u: "in_use (set_buf p b st) = in_use st"
    using assms(2,3) by (auto simp: in_use_def set_buf_def)
  have "frag_rank (packet_buffer (set_buf p b st) x) = frag_rank (packet_buffer st x)" for x
    using assms(5) by (simp add: set_buf_def frag_rank_eq)
  then have "rb_set frag_rank (packet_buffer (set_buf p b st)) (packet_buffer_head st) (in_use st)"
    using assms(1) rb_set_cong by (metis frag_inv_def)
  then show "frag_inv (set_buf p b st)"
    using assms(1,4) u by (auto simp: frag_inv_def set_buf_def)
qed

lemma release_ok:
  assumes "frag_inv st" "p \<in> in_use st"
  obtains st' where "release_packet_buffer p st = Some st'" "frag_inv st'" "in_use st' = in_use st - {p}"
    "\<And>q. q \<noteq> p \<Longrightarrow> packet_buffer st' q = packet_buffer st q"
proof -
  obtain h where h: "RB_REMOVE (packet_buffer_head st) (Some p) = Some h"
    "rb_set frag_rank (packet_buffer st) h (in_use st - {p})"
    using rb_set_remove [of frag_rank "packet_buffer st" "packet_buffer_head st" "in_use st" p] assms
    by (auto simp: frag_inv_def)
  let ?st = "set_buf p ((packet_buffer st p)\<lparr>reserved := False\<rparr>) (st\<lparr>packet_buffer_head := h\<rparr>)"
  have u: "in_use ?st = in_use st - {p}" by (auto simp: in_use_def set_buf_def)
  have "rb_set frag_rank (packet_buffer ?st) h (in_use ?st)"
    unfolding u using h(2) by (rule rb_set_cong) (simp add: set_buf_def frag_rank_def)
  then have "frag_inv ?st" using assms(1) u by (auto simp: frag_inv_def set_buf_def)
  then show thesis using that [of ?st] h(1) u by (simp add: release_packet_buffer_def set_buf_def)
qed

text \<open>What \<^verbatim>\<open>get_packet_buffer\<close> returns: the buffer of the packet, a fresh one, or none.\<close>

definition fresh_buf :: "ip_hdr \<Rightarrow> packet_buf \<Rightarrow> packet_buf" where
  "fresh_buf hdr b = b\<lparr>reserved := True, fragmap := fragmap_init (fragmap b), timer := XSTACK_IP_FRAGMENT_TLB,
     p_hdr := hdr\<lparr>ip_foff := 0, ip_len := 0\<rparr>\<rparr>"

lemma get_hit:
  assumes "frag_inv st" "p \<in> in_use st" "frag_key (p_hdr (packet_buffer st p)) = frag_key hdr"
  shows "get_packet_buffer hdr st = Some (Some p, st)"
proof -
  let ?find = "packet_buf_zero\<lparr>p_hdr := ip_hdr_zero\<lparr>ip_id := ip_id hdr, ip_proto := ip_proto hdr,
                  ip_src := ip_src hdr, ip_dst := ip_dst hdr\<rparr>\<rparr>"
  have "frag_rank (packet_buffer st p) = frag_rank ?find"
    using assms(3) by (simp add: frag_rank_eq frag_key_def)
  then have "RB_FIND (\<lambda>x. packet_buf_cmp ?find (packet_buffer st x)) (packet_buffer_head st) = Some (Some p)"
    using by_bufid.find_some [where a = ?find and x = p and S = "in_use st"] assms(1,2)
    by (simp add: frag_inv_def)
  then show ?thesis by (simp add: get_packet_buffer_def)
qed

lemma get_miss:
  assumes "frag_inv st" "\<forall>p \<in> in_use st. frag_key (p_hdr (packet_buffer st p)) \<noteq> frag_key hdr"
  shows "get_packet_buffer hdr st = packet_alloc hdr st"
proof -
  let ?find = "packet_buf_zero\<lparr>p_hdr := ip_hdr_zero\<lparr>ip_id := ip_id hdr, ip_proto := ip_proto hdr,
                  ip_src := ip_src hdr, ip_dst := ip_dst hdr\<rparr>\<rparr>"
  have "\<forall>p \<in> in_use st. frag_rank (packet_buffer st p) \<noteq> frag_rank ?find"
    using assms(2) by (simp add: frag_rank_eq frag_key_def)
  then have "RB_FIND (\<lambda>x. packet_buf_cmp ?find (packet_buffer st x)) (packet_buffer_head st) = Some None"
    using by_bufid.find_none [where a = ?find and S = "in_use st"] assms(1)
    by (simp add: frag_inv_def)
  then show ?thesis by (simp add: get_packet_buffer_def)
qed

lemma alloc_full:
  assumes "in_use st = {p. p < PACKET_BUFFERS}"
  shows "packet_alloc hdr st = Some (None, st)"
proof -
  have "List.find (\<lambda>i. \<not> reserved (packet_buffer st i)) [0..<PACKET_BUFFERS] = None"
    using assms by (auto simp: find_None_iff in_use_def)
  then show ?thesis by (simp add: packet_alloc_def)
qed

lemma alloc_ok:
  assumes "frag_inv st" "\<forall>p \<in> in_use st. frag_key (p_hdr (packet_buffer st p)) \<noteq> frag_key hdr"
    "in_use st \<noteq> {p. p < PACKET_BUFFERS}"
  obtains p st' where "packet_alloc hdr st = Some (Some p, st')" "p < PACKET_BUFFERS" "p \<notin> in_use st"
    "frag_inv st'" "in_use st' = insert p (in_use st)"
    "packet_buffer st' = (packet_buffer st)(p := fresh_buf hdr (packet_buffer st p))"
proof -
  obtain p where p: "List.find (\<lambda>i. \<not> reserved (packet_buffer st i)) [0..<PACKET_BUFFERS] = Some p"
    using assms(3) by (cases "List.find (\<lambda>i. \<not> reserved (packet_buffer st i)) [0..<PACKET_BUFFERS]")
      (auto simp: find_None_iff in_use_def)
  then have q: "p < PACKET_BUFFERS" "p \<notin> in_use st" by (auto simp: find_Some_iff in_use_def)
  let ?b = "fresh_buf hdr (packet_buffer st p)"
  let ?kf = "(packet_buffer st)(p := ?b)"
  have kf: "?kf x = packet_buffer st x" if "x \<in> in_use st" for x using that q(2) by auto
  have "rb_set frag_rank ?kf (packet_buffer_head st) (in_use st)"
    by (rule rb_set_cong [of _ "packet_buffer st"]) (use assms(1) kf in \<open>auto simp: frag_inv_def\<close>)
  moreover have "\<forall>x \<in> in_use st. frag_rank (?kf x) \<noteq> frag_rank (?kf p)"
    using kf assms(2) by (simp add: frag_rank_eq fresh_buf_def frag_key_def)
  ultimately obtain h where h: "RB_INSERT (\<lambda>x. packet_buf_cmp (?kf p) (?kf x)) (packet_buffer_head st) p = Some (h, None)"
    "rb_set frag_rank ?kf h (insert p (in_use st))"
    using by_bufid.insert_new [where kf = ?kf and e = p and S = "in_use st"] q(2) by blast
  let ?st = "(set_buf p ?b st)\<lparr>packet_buffer_head := h\<rparr>"
  have u: "in_use ?st = insert p (in_use st)" using q(1) by (auto simp: in_use_def set_buf_def fresh_buf_def)
  have "frag_inv ?st" using h(2) assms(1) u by (auto simp: frag_inv_def set_buf_def fresh_buf_def)
  moreover have "packet_alloc hdr st = Some (Some p, ?st)"
    using p h(1) by (simp add: packet_alloc_def fresh_buf_def set_buf_def Let_def)
  ultimately show thesis using that q u by (simp add: set_buf_def)
qed

section \<open>Reassembly of one packet\<close>

text \<open>\<open>fragment_of k D\<close>: a fragment of the packet with the identifier \<open>k\<close> and the data \<open>D\<close>. All but the last
  one have a length that is a multiple of eight.\<close>

fun fragment_of :: "u32 \<times> u32 \<times> u8 \<times> u16 \<Rightarrow> bytes \<Rightarrow> ip_hdr \<times> bytes \<Rightarrow> bool" where
  "fragment_of k D (hdr, rx) \<longleftrightarrow> frag_key hdr = k \<and> ip_fragment_is_frag hdr \<and>
     (case frag_len hdr of
        None \<Rightarrow> False
      | Some n \<Rightarrow> n \<le> length rx \<and> frag_off hdr + n \<le> length D \<and> take n rx = take n (drop (frag_off hdr) D) \<and>
          (if ip_foff hdr AND IP_FLAGS_MF = 0 then frag_off hdr + n = length D else n mod 8 = 0))"

definition frag_blocks :: "ip_hdr \<Rightarrow> nat set" where
  "frag_blocks hdr = (case frag_len hdr of
     None \<Rightarrow> {} | Some n \<Rightarrow> {frag_off hdr div 8..<frag_off hdr div 8 + (n + 7) div 8})"

definition all_blocks :: "bytes \<Rightarrow> nat set" where
  "all_blocks D = {0..<(length D + 7) div 8}"

text \<open>Fragments arriving one after the other, up to the one that completes a packet.\<close>

fun frag_run :: "(ip_hdr \<times> bytes) list \<Rightarrow> frag_state \<Rightarrow> (ptr \<times> frag_state) option" where
  "frag_run [] st = Some (None, st)"
| "frag_run ((hdr, rx) # fs) st = do {
     (r, st) \<leftarrow> frag_collect hdr rx st;
     case r of
       Inl e \<Rightarrow> frag_run fs st
     | Inr p \<Rightarrow> do {
         d \<leftarrow> frag_done (packet_buffer st p);
         if d then Some (Some p, st) else frag_run fs st
       }
   }"

text \<open>The blocks marked as received hold the data of the packet.\<close>

definition agrees :: "bytes \<Rightarrow> packet_buf \<Rightarrow> bool" where
  "agrees D b \<longleftrightarrow> (\<forall>j < length D. j div 8 \<in> blocks (fragmap b) \<longrightarrow> p_payload b j = D ! j)"

definition session :: "u32 \<times> u32 \<times> u8 \<times> u16 \<Rightarrow> bytes \<Rightarrow> nat \<Rightarrow> nat set \<Rightarrow> frag_state \<Rightarrow> bool" where
  "session k D p B st \<longleftrightarrow> frag_inv st \<and> p \<in> in_use st \<and> frag_key (p_hdr (packet_buffer st p)) = k \<and>
     agrees D (packet_buffer st p) \<and> B \<subseteq> blocks (fragmap (packet_buffer st p)) \<and>
     unat (ip_len (p_hdr (packet_buffer st p))) \<in> {0, length D}"

lemma frag_off_8: "frag_off hdr = 8 * (frag_off hdr div 8)"
  by (simp add: frag_off_def)

lemma frag_copy_ok:
  assumes f: "fragment_of k D (hdr, rx)" and D: "length D \<le> 65535" and A: "agrees D b"
  obtains b' where "frag_copy hdr rx b = Some b'" "agrees D b'"
    "blocks (fragmap b') = frag_blocks hdr \<union> blocks (fragmap b)" "p_hdr b' = p_hdr b" "reserved b' = reserved b"
proof -
  obtain n where n: "frag_len hdr = Some n" "n \<le> length rx" "frag_off hdr + n \<le> length D"
    "take n rx = take n (drop (frag_off hdr) D)"
    "if ip_foff hdr AND IP_FLAGS_MF = 0 then frag_off hdr + n = length D else n mod 8 = 0"
    using f by (auto split: option.splits)
  let ?o = "frag_off hdr"
  have o: "?o = 8 * (?o div 8)" by (rule frag_off_8)
  have "?o div 8 + (n + 7) div 8 \<le> FRAG_MAX" using n(3) D o by (simp add: frag_consts)
  then obtain m where m: "fragmap_set_all [?o div 8..<?o div 8 + (n + 7) div 8] (fragmap b) = Some m"
    "blocks m = frag_blocks hdr \<union> blocks (fragmap b)"
    using fragmap_set_all_blocks [of "[?o div 8..<?o div 8 + (n + 7) div 8]" "fragmap b"] n(1)
    by (auto simp: frag_blocks_def)
  let ?b = "b\<lparr>p_payload := (\<lambda>i. if ?o \<le> i \<and> i < ?o + n then take n rx ! (i - ?o) else p_payload b i), fragmap := m\<rparr>"
  have "agrees D ?b"
  proof (unfold agrees_def, intro allI impI)
    fix j
    assume j: "j < length D" "j div 8 \<in> blocks (fragmap ?b)"
    show "p_payload ?b j = D ! j"
    proof (cases "?o \<le> j \<and> j < ?o + n")
      case True
      then have "take n rx ! (j - ?o) = D ! j" unfolding n(4) using n(3) by auto
      then show ?thesis using True by simp
    next
      case False
      then have "j div 8 \<notin> frag_blocks hdr"
        using n(1,5) j(1) o by (auto simp: frag_blocks_def split: if_splits)
      then show ?thesis using A j m(2) False by (auto simp: agrees_def)
    qed
  qed
  moreover have "frag_copy hdr rx b = Some ?b"
    using n(1-3) m(1) D by (simp add: frag_copy_def mem_read_def IP_MAX_BYTES_def Let_def)
  ultimately show thesis using that m(2) by simp
qed

lemma frag_total_len:
  assumes "frag_len hdr = Some n" "frag_off hdr + n < 2 ^ 16"
  shows "unat (ip_len hdr - of_nat (ip_hdr_hlen hdr) + of_nat (frag_off hdr)) = frag_off hdr + n"
proof -
  have "unat (ip_len hdr) = ip_hdr_hlen hdr + n" using assms(1) by (auto simp: frag_len_def split: if_splits)
  then have "ip_len hdr = of_nat (ip_hdr_hlen hdr + n)" by (metis of_nat_unat ucast_id)
  then have "ip_len hdr - of_nat (ip_hdr_hlen hdr) + of_nat (frag_off hdr) = of_nat (frag_off hdr + n)"
    by simp
  then show ?thesis using assms(2) by (simp only: unat_of_nat) simp
qed

lemma frag_header_len:
  assumes "fragment_of k D (hdr, rx)" "length D < 2 ^ 16"
  shows "unat (ip_len (frag_header hdr old)) =
    (if frag_off hdr = 0 then 0 else if ip_foff hdr AND IP_FLAGS_MF = 0 then length D else unat (ip_len old))"
  using assms frag_total_len [of hdr] by (auto simp: frag_header_def split: option.splits)

text \<open>One more fragment of a packet whose buffer exists.\<close>

lemma session_step:
  assumes S: "session k D p B st" and f: "fragment_of k D (hdr, rx)" and D: "length D < 2 ^ 16"
  obtains st' where "frag_collect hdr rx st = Some (Inr p, st')" "session k D p (frag_blocks hdr \<union> B) st'"
    "in_use st' = in_use st"
    "ip_len (p_hdr (packet_buffer st' p)) = ip_len (frag_header hdr (p_hdr (packet_buffer st p)))"
proof -
  let ?b = "packet_buffer st p"
  have k: "frag_key hdr = k" and s: "frag_inv st" "p \<in> in_use st" "frag_key (p_hdr ?b) = k" "agrees D ?b"
    "B \<subseteq> blocks (fragmap ?b)" "unat (ip_len (p_hdr ?b)) \<in> {0, length D}"
    using S f by (auto simp: session_def)
  have g: "get_packet_buffer hdr st = Some (Some p, st)" by (rule get_hit [OF s(1,2)]) (simp add: k s(3))
  obtain b where b: "frag_copy hdr rx ?b = Some b" "agrees D b"
    "blocks (fragmap b) = frag_blocks hdr \<union> blocks (fragmap ?b)" "p_hdr b = p_hdr ?b" "reserved b = reserved ?b"
    by (rule frag_copy_ok [OF f _ s(4)]) (use D in simp)
  let ?b' = "b\<lparr>p_hdr := frag_header hdr (p_hdr b)\<rparr>"
  have h: "frag_key (p_hdr ?b') = k" "ip_foff (p_hdr ?b') = 0" "reserved ?b'"
    using k s(1-3) b(4,5) by (auto simp: frag_header_def frag_key_def frag_inv_def in_use_def)
  have "frag_off hdr \<le> IP_MAX_BYTES" using f D by (auto simp: IP_MAX_BYTES_def split: option.splits)
  then have "frag_collect hdr rx st = Some (Inr p, set_buf p ?b' st)"
    using g b(1) by (simp add: frag_collect_def)
  moreover have "frag_inv (set_buf p ?b' st)" "in_use (set_buf p ?b' st) = in_use st"
    using frag_inv_set [OF s(1,2) h(3,2)] h(1) s(3) by simp_all
  moreover have "session k D p (frag_blocks hdr \<union> B) (set_buf p ?b' st)"
    unfolding session_def using calculation(2,3) s(2,5,6) b h(1) frag_header_len [OF f D]
    by (auto simp: set_buf_def agrees_def)
  ultimately show thesis using that b(4) by (simp add: set_buf_def)
qed

lemma session_start:
  assumes I: "frag_inv st" and free: "in_use st \<noteq> {p. p < PACKET_BUFFERS}"
    and new: "\<forall>p \<in> in_use st. frag_key (p_hdr (packet_buffer st p)) \<noteq> k"
    and f: "fragment_of k D (hdr, rx)" and D: "length D \<le> 16384"
  obtains p st' where "get_packet_buffer hdr st = Some (Some p, st')" "session k D p {} st'"
    "get_packet_buffer hdr st' = Some (Some p, st')"
proof -
  have k: "frag_key hdr = k" using f by simp
  have new': "\<forall>p \<in> in_use st. frag_key (p_hdr (packet_buffer st p)) \<noteq> frag_key hdr" using new k by simp
  obtain p st' where p: "packet_alloc hdr st = Some (Some p, st')" "p < PACKET_BUFFERS" "p \<notin> in_use st"
    "frag_inv st'" "in_use st' = insert p (in_use st)"
    "packet_buffer st' = (packet_buffer st)(p := fresh_buf hdr (packet_buffer st p))"
    using alloc_ok [OF I new' free] .
  have "agrees D (packet_buffer st' p)"
    using D by (auto simp: agrees_def p(6) fresh_buf_def fragmap_init_blocks)
  then have S: "session k D p {} st'"
    using p(4-6) k by (auto simp: session_def fresh_buf_def frag_key_def)
  moreover have "get_packet_buffer hdr st = Some (Some p, st')"
    using get_miss [OF I, of hdr] new k p(1) by simp
  moreover have "get_packet_buffer hdr st' = Some (Some p, st')"
    by (rule get_hit) (use S k in \<open>auto simp: session_def\<close>)
  ultimately show thesis using that by blast
qed

lemma frag_collect_fresh:
  "get_packet_buffer hdr st = Some (Some p, st') \<Longrightarrow> get_packet_buffer hdr st' = Some (Some p, st') \<Longrightarrow>
   frag_collect hdr rx st = frag_collect hdr rx st' \<or> frag_off hdr > IP_MAX_BYTES"
  by (simp add: frag_collect_def)

lemma frag_done_eq:
  "frag_done b = Some (ip_len (p_hdr b) \<noteq> 0 \<and> {0..<(unat (ip_len (p_hdr b)) + 7) div 8} \<subseteq> blocks (fragmap b))"
proof -
  have "unat (ip_len (p_hdr b)) < 65536" using unsigned_less [of "ip_len (p_hdr b)", where ?'a = nat] by simp
  then have "(unat (ip_len (p_hdr b)) + 7) div 8 \<le> FRAG_MAX" unfolding FRAG_MAX_def by linarith
  then have "\<forall>i \<in> set [0..<(unat (ip_len (p_hdr b)) + 7) div 8]. i < FRAG_MAX" by auto
  from fragmap_all_blocks [OF this] show ?thesis by (auto simp: frag_done_def)
qed

lemma session_done:
  assumes "session k D p B st" "frag_done (packet_buffer st p) = Some True"
  shows "unat (ip_len (p_hdr (packet_buffer st p))) = length D"
    "map (p_payload (packet_buffer st p)) [0..<length D] = D"
proof -
  let ?b = "packet_buffer st p"
  have d: "ip_len (p_hdr ?b) \<noteq> 0" "{0..<(unat (ip_len (p_hdr ?b)) + 7) div 8} \<subseteq> blocks (fragmap ?b)"
    using assms(2) by (simp_all add: frag_done_eq)
  show l: "unat (ip_len (p_hdr ?b)) = length D"
    using assms(1) d(1) by (auto simp: session_def unat_eq_zero)
  have "p_payload ?b j = D ! j" if "j < length D" for j
  proof -
    have "j div 8 \<in> blocks (fragmap ?b)" using d(2) l that by auto
    then show ?thesis using assms(1) that by (simp add: session_def agrees_def)
  qed
  then show "map (p_payload ?b) [0..<length D] = D" by (intro nth_equalityI) simp_all
qed

lemma frag_run_session:
  assumes "session k D p B st" "\<forall>f \<in> set fs. fragment_of k D f" "length D < 2 ^ 16"
  shows "\<exists>r st' B'. frag_run fs st = Some (r, st') \<and> session k D p B' st' \<and> in_use st' = in_use st \<and>
    (r = None \<or> r = Some p \<and> frag_done (packet_buffer st' p) = Some True)"
  using assms(1,2)
proof (induction fs arbitrary: B st)
  case (Cons f fs)
  obtain hdr rx where f: "f = (hdr, rx)" "fragment_of k D (hdr, rx)" using Cons.prems(2) by (cases f) auto
  obtain st' where st': "frag_collect hdr rx st = Some (Inr p, st')" "session k D p (frag_blocks hdr \<union> B) st'"
    "in_use st' = in_use st" using session_step [OF Cons.prems(1) f(2) assms(3)] .
  show ?case
  proof (cases "frag_done (packet_buffer st' p) = Some True")
    case True
    then show ?thesis using st' f(1) by auto
  next
    case False
    then have "frag_run (f # fs) st = frag_run fs st'"
      using st'(1) f(1) frag_done_eq [of "packet_buffer st' p"] by (auto split: if_splits)
    then show ?thesis using Cons.IH [OF st'(2)] Cons.prems(2) st'(3) by simp
  qed
qed auto

text \<open>When no fragment with offset 0 is left and the last fragment has been or will be seen, the packet is
  completed.\<close>

lemma frag_run_completes:
  assumes "session k D p B st" "\<forall>f \<in> set fs. fragment_of k D f \<and> frag_off (fst f) \<noteq> 0" "length D < 2 ^ 16" "D \<noteq> []"
    "frag_done (packet_buffer st p) = Some False"
    "ip_len (p_hdr (packet_buffer st p)) \<noteq> 0 \<or> (\<exists>f \<in> set fs. ip_foff (fst f) AND IP_FLAGS_MF = 0)"
    "all_blocks D \<subseteq> B \<union> (\<Union>f \<in> set fs. frag_blocks (fst f))"
  shows "\<exists>st'. frag_run fs st = Some (Some p, st')"
  using assms(1,2,5-)
proof (induction fs arbitrary: B st)
  case Nil
  then have "unat (ip_len (p_hdr (packet_buffer st p))) = length D" "all_blocks D \<subseteq> blocks (fragmap (packet_buffer st p))"
    by (auto simp: session_def unat_eq_zero)
  then show ?case using Nil.prems(3,4) by (simp add: frag_done_eq all_blocks_def)
next
  case (Cons f fs)
  obtain hdr rx where f: "f = (hdr, rx)" "fragment_of k D (hdr, rx)" "frag_off hdr \<noteq> 0"
    using Cons.prems(2) by (cases f) auto
  obtain st' where st': "frag_collect hdr rx st = Some (Inr p, st')" "session k D p (frag_blocks hdr \<union> B) st'"
    "in_use st' = in_use st" "ip_len (p_hdr (packet_buffer st' p)) = ip_len (frag_header hdr (p_hdr (packet_buffer st p)))"
    using session_step [OF Cons.prems(1) f(2) assms(3)] .
  have "unat (ip_len (p_hdr (packet_buffer st' p))) =
      (if ip_foff hdr AND IP_FLAGS_MF = 0 then length D else unat (ip_len (p_hdr (packet_buffer st p))))"
    using frag_header_len [OF f(2) assms(3)] f(3) st'(4) by simp
  then have l: "ip_len (p_hdr (packet_buffer st' p)) \<noteq> 0 \<or> (\<exists>f \<in> set fs. ip_foff (fst f) AND IP_FLAGS_MF = 0)"
    using Cons.prems(4) f(1) assms(4) by (auto simp: unat_eq_zero [symmetric] split: if_splits)
  have c: "all_blocks D \<subseteq> (frag_blocks hdr \<union> B) \<union> (\<Union>f \<in> set fs. frag_blocks (fst f))"
    using Cons.prems(5) f(1) by auto
  show ?case
  proof (cases "frag_done (packet_buffer st' p) = Some True")
    case True
    then show ?thesis using st' f(1) by auto
  next
    case False
    then have d: "frag_done (packet_buffer st' p) = Some False" by (simp add: frag_done_eq)
    then have "frag_run (f # fs) st = frag_run fs st'" using st'(1) f(1) by simp
    then show ?thesis using Cons.IH [OF st'(2) _ d l c] Cons.prems(2) by simp
  qed
qed

lemma frag_run_fresh:
  assumes I: "frag_inv st" and free: "in_use st \<noteq> {p. p < PACKET_BUFFERS}"
    and new: "\<forall>p \<in> in_use st. frag_key (p_hdr (packet_buffer st p)) \<noteq> k"
    and f: "fragment_of k D (hdr, rx)" and D: "length D \<le> 16384"
  obtains p st' where "session k D p {} st'" "frag_run ((hdr, rx) # fs) st = frag_run ((hdr, rx) # fs) st'"
proof -
  obtain p st' where p: "get_packet_buffer hdr st = Some (Some p, st')" "session k D p {} st'"
    "get_packet_buffer hdr st' = Some (Some p, st')" using session_start [OF I free new f D] .
  have "frag_off hdr \<le> IP_MAX_BYTES" using f D by (auto simp: IP_MAX_BYTES_def split: option.splits)
  then have "frag_collect hdr rx st = frag_collect hdr rx st'" using frag_collect_fresh [OF p(1,3), of rx] by simp
  then show thesis using that p(2) by simp
qed

text \<open>A fragment with offset 0 clears the length, so a packet whose first fragment arrives after its last
  one is not completed by it.\<close>

lemma frag_late_first:
  assumes "session k D p B st" "fragment_of k D (hdr, rx)" "length D < 2 ^ 16" "frag_off hdr = 0"
  shows "\<exists>st'. frag_run [(hdr, rx)] st = Some (None, st') \<and> ip_len (p_hdr (packet_buffer st' p)) = 0"
proof -
  obtain st' where st': "frag_collect hdr rx st = Some (Inr p, st')"
    "ip_len (p_hdr (packet_buffer st' p)) = ip_len (frag_header hdr (p_hdr (packet_buffer st p)))"
    using session_step [OF assms(1-3)] .
  then have "ip_len (p_hdr (packet_buffer st' p)) = 0" using assms(4) by (simp add: frag_header_def)
  then show ?thesis using st'(1) by (simp add: frag_done_def)
qed

section \<open>The timer\<close>

text \<open>One buffer: its time runs, and it is released when it is over.\<close>

lemma timer_one:
  fixes d :: int
  assumes I: "frag_inv st" and i: "i \<in> in_use st"
  defines "b \<equiv> (packet_buffer st i)\<lparr>timer := timer (packet_buffer st i) - d\<rparr>"
  obtains st' where "(if timer b \<le> 0 then release_packet_buffer i (set_buf i b st) else Some (set_buf i b st)) = Some st'"
    "frag_inv st'" "in_use st' = in_use st - {j. j = i \<and> timer (packet_buffer st i) \<le> d}"
    "\<forall>q. q \<noteq> i \<longrightarrow> packet_buffer st' q = packet_buffer st q" "i \<in> in_use st' \<longrightarrow> packet_buffer st' i = b"
proof -
  have J: "frag_inv (set_buf i b st)" "in_use (set_buf i b st) = in_use st"
    using frag_inv_set [OF I i, of b] I i by (auto simp: frag_inv_def in_use_def b_def)
  show thesis
  proof (cases "timer b \<le> 0")
    case t: True
    obtain s where s: "release_packet_buffer i (set_buf i b st) = Some s" "frag_inv s" "in_use s = in_use (set_buf i b st) - {i}"
      "\<And>q. q \<noteq> i \<Longrightarrow> packet_buffer s q = packet_buffer (set_buf i b st) q"
      using release_ok [OF J(1), of i] J(2) i by blast
    show thesis by (rule that [of s]) (use s t J(2) in \<open>auto simp: set_buf_def b_def\<close>)
  next
    case f: False
    show thesis by (rule that [of "set_buf i b st"]) (use J f in \<open>auto simp: set_buf_def b_def\<close>)
  qed
qed

lemma timer_loop_ok:
  assumes "frag_inv st" "set is \<subseteq> {p. p < PACKET_BUFFERS}" "distinct is"
  shows "\<exists>st'. frag_timer_loop is d st = Some st' \<and> frag_inv st' \<and>
    in_use st' = in_use st - {i \<in> set is. timer (packet_buffer st i) \<le> d} \<and>
    (\<forall>p \<in> in_use st'. packet_buffer st' p =
       (if p \<in> set is then (packet_buffer st p)\<lparr>timer := timer (packet_buffer st p) - d\<rparr> else packet_buffer st p)) \<and>
    (\<forall>p. p \<notin> set is \<longrightarrow> packet_buffer st' p = packet_buffer st p)"
  using assms
proof (induction "is" arbitrary: st)
  case (Cons i "is")
  show ?case
  proof (cases "i \<in> in_use st")
    case False
    then have "\<not> reserved (packet_buffer st i)" using Cons.prems(2) by (auto simp: in_use_def)
    then have step: "frag_timer_loop (i # is) d st = frag_timer_loop is d st" by simp
    have u: "in_use st - {j \<in> set (i # is). timer (packet_buffer st j) \<le> d} =
        in_use st - {j \<in> set is. timer (packet_buffer st j) \<le> d}" using False by auto
    show ?thesis unfolding step u using Cons.IH [of st] Cons.prems False by auto
  next
    case True
    let ?b = "(packet_buffer st i)\<lparr>timer := timer (packet_buffer st i) - d\<rparr>"
    have r: "reserved (packet_buffer st i)" using True by (simp add: in_use_def)
    obtain st1 where st1: "(if timer ?b \<le> 0 then release_packet_buffer i (set_buf i ?b st) else Some (set_buf i ?b st)) = Some st1"
      "frag_inv st1" "in_use st1 = in_use st - {j. j = i \<and> timer (packet_buffer st i) \<le> d}"
      "\<forall>q. q \<noteq> i \<longrightarrow> packet_buffer st1 q = packet_buffer st q" "i \<in> in_use st1 \<longrightarrow> packet_buffer st1 i = ?b"
      by (rule timer_one [OF Cons.prems(1) True, where d = d])
    have step: "frag_timer_loop (i # is) d st = frag_timer_loop is d st1" using r st1(1) by (simp add: Let_def)
    have i: "i \<notin> set is" using Cons.prems(3) by simp
    have t: "timer (packet_buffer st1 j) = timer (packet_buffer st j)" if "j \<in> set is" for j
      using st1(4) that i by metis
    obtain st2 where st2: "frag_timer_loop is d st1 = Some st2" "frag_inv st2"
      "in_use st2 = in_use st1 - {j \<in> set is. timer (packet_buffer st1 j) \<le> d}"
      "\<forall>p \<in> in_use st2. packet_buffer st2 p =
        (if p \<in> set is then (packet_buffer st1 p)\<lparr>timer := timer (packet_buffer st1 p) - d\<rparr> else packet_buffer st1 p)"
      "\<forall>p. p \<notin> set is \<longrightarrow> packet_buffer st2 p = packet_buffer st1 p"
      using Cons.IH [OF st1(2)] Cons.prems(2,3) by auto
    have u: "in_use st2 = in_use st - {j \<in> set (i # is). timer (packet_buffer st j) \<le> d}"
      unfolding st2(3) st1(3) using t by auto
    have "packet_buffer st2 p = (if p \<in> set (i # is)
        then (packet_buffer st p)\<lparr>timer := timer (packet_buffer st p) - d\<rparr> else packet_buffer st p)" if "p \<in> in_use st2" for p
      using st2(4) that st1(4,5) i st2(3) by (cases "p = i") auto
    moreover have "packet_buffer st2 p = packet_buffer st p" if "p \<notin> set (i # is)" for p
      using that st2(5) st1(4) by simp
    ultimately show ?thesis unfolding step using st2(1,2) u by blast
  qed
qed auto

section \<open>Properties\<close>

text \<open>C11: Reassembly is safe. While fragments of a packet of at most 16384 bytes arrive, in any order, with
  repetitions and overlaps, no access leaves the buffers; and whenever the packet is reported
  complete, its length and its data are those of the packet.\<close>

theorem reassembly_safe:
  assumes "frag_inv st" "in_use st \<noteq> {p. p < PACKET_BUFFERS}"
    "\<forall>p \<in> in_use st. frag_key (p_hdr (packet_buffer st p)) \<noteq> k"
    "\<forall>f \<in> set fs. fragment_of k D f" "length D \<le> 16384"
  shows "\<exists>r st'. frag_run fs st = Some (r, st') \<and> frag_inv st' \<and>
    (case r of None \<Rightarrow> True
     | Some p \<Rightarrow> p \<in> in_use st' \<and> unat (ip_len (p_hdr (packet_buffer st' p))) = length D \<and>
         map (p_payload (packet_buffer st' p)) [0..<length D] = D)"
proof (cases fs)
  case (Cons f fs')
  obtain hdr rx where f: "f = (hdr, rx)" "fragment_of k D (hdr, rx)" using assms(4) Cons by (cases f) auto
  obtain p st1 where p: "session k D p {} st1" "frag_run fs st = frag_run fs st1"
    using frag_run_fresh [OF assms(1-3) f(2) assms(5), of fs'] Cons f(1) by metis
  obtain r st' B where r: "frag_run fs st1 = Some (r, st')" "session k D p B st'"
    "r = None \<or> r = Some p \<and> frag_done (packet_buffer st' p) = Some True"
    using frag_run_session [OF p(1) assms(4)] assms(5) by auto
  then show ?thesis using p(2) session_done [OF r(2)] by (auto simp: session_def)
qed (use assms(1) in simp)

definition example_frag :: "u16 \<Rightarrow> u16 \<Rightarrow> ip_hdr" where
  "example_frag foff n = ip_hdr_zero\<lparr>ip_vhl := 0x45, ip_foff := foff, ip_len := 20 + n, ip_proto := 17\<rparr>"

lemma example_fragments:
  "fragment_of (0, 0, 17, 0) [1, 2, 3, 4, 5, 6, 7, 8, 9] (example_frag 0x2000 8, [1, 2, 3, 4, 5, 6, 7, 8])"
  "fragment_of (0, 0, 17, 0) [1, 2, 3, 4, 5, 6, 7, 8, 9] (example_frag 1 1, [9])"
  by code_simp+

lemma reassembly_safe_witness:
  "frag_inv frag_boot \<and> fragment_of (0, 0, 17, 0) [1, 2, 3, 4, 5, 6, 7, 8, 9] (example_frag 1 1, [9]) \<and>
   (\<exists>r st'. frag_run [(example_frag 1 1, [9]), (example_frag 1 1, [9])] frag_boot = Some (r, st') \<and> frag_inv st')"
proof -
  have "in_use frag_boot = {}" by (simp add: in_use_def frag_boot_def packet_buf_zero_def)
  then show ?thesis
    using reassembly_safe [OF frag_inv_boot, of "(0, 0, 17, 0)" "[(example_frag 1 1, [9]), (example_frag 1 1, [9])]"
        "[1, 2, 3, 4, 5, 6, 7, 8, 9]"] example_fragments(2) frag_inv_boot
    by (force simp: PACKET_BUFFERS_def)
qed

lemma frag_run_delivers:
  assumes "frag_inv st" "in_use st \<noteq> {p. p < PACKET_BUFFERS}"
    "\<forall>p \<in> in_use st. frag_key (p_hdr (packet_buffer st p)) \<noteq> k"
    "fragment_of k D (hdr, rx)" "frag_off hdr = 0"
    "\<forall>f \<in> set fs. fragment_of k D f \<and> frag_off (fst f) \<noteq> 0"
    "\<exists>f \<in> set fs. ip_foff (fst f) AND IP_FLAGS_MF = 0"
    "all_blocks D \<subseteq> frag_blocks hdr \<union> (\<Union>f \<in> set fs. frag_blocks (fst f))" "length D \<le> 16384" "D \<noteq> []"
  shows "\<exists>p st'. frag_run ((hdr, rx) # fs) st = Some (Some p, st') \<and>
    unat (ip_len (p_hdr (packet_buffer st' p))) = length D \<and>
    map (p_payload (packet_buffer st' p)) [0..<length D] = D"
proof -
  have L: "length D < 2 ^ 16" using assms(9) by simp
  obtain p st1 where p: "session k D p {} st1" "frag_run ((hdr, rx) # fs) st = frag_run ((hdr, rx) # fs) st1"
    using frag_run_fresh [OF assms(1-4,9)] .
  obtain st2 where st2: "frag_collect hdr rx st1 = Some (Inr p, st2)" "session k D p (frag_blocks hdr \<union> {}) st2"
    "ip_len (p_hdr (packet_buffer st2 p)) = ip_len (frag_header hdr (p_hdr (packet_buffer st1 p)))"
    using session_step [OF p(1) assms(4) L] .
  have d: "frag_done (packet_buffer st2 p) = Some False"
    using st2(3) assms(5) by (simp add: frag_done_def frag_header_def)
  have c: "all_blocks D \<subseteq> (frag_blocks hdr \<union> {}) \<union> (\<Union>f \<in> set fs. frag_blocks (fst f))" using assms(8) by simp
  obtain st' where st': "frag_run fs st2 = Some (Some p, st')"
    using frag_run_completes [OF st2(2) assms(6) L assms(10) d _ c] assms(7) by blast
  have "\<forall>f \<in> set fs. fragment_of k D f" using assms(6) by blast
  then obtain B where "session k D p B st'" "frag_done (packet_buffer st' p) = Some True"
    using frag_run_session [OF st2(2) _ L, of fs] st' by auto
  then show ?thesis using p(2) st2(1) d st' session_done by auto
qed

text \<open>C21: Reassembly succeeds. If the fragment with offset 0 arrives first, the others in any order, and
  together they cover the packet, then the packet is reported complete, with its data.\<close>

theorem reassembly_completes:
  assumes "frag_inv st" "in_use st \<noteq> {p. p < PACKET_BUFFERS}"
    "\<forall>p \<in> in_use st. frag_key (p_hdr (packet_buffer st p)) \<noteq> k"
    "fragment_of k D (hdr, rx)" "frag_off hdr = 0"
    "\<forall>f \<in> set fs. fragment_of k D f \<and> frag_off (fst f) \<noteq> 0"
    "\<exists>f \<in> set fs. ip_foff (fst f) AND IP_FLAGS_MF = 0"
    "all_blocks D \<subseteq> frag_blocks hdr \<union> (\<Union>f \<in> set fs. frag_blocks (fst f))" "length D \<le> 16384" "D \<noteq> []"
  shows "\<exists>p st'. frag_run ((hdr, rx) # fs) st = Some (Some p, st') \<and>
    unat (ip_len (p_hdr (packet_buffer st' p))) = length D \<and>
    map (p_payload (packet_buffer st' p)) [0..<length D] = D"
  using frag_run_delivers [OF assms] .

lemma reassembly_completes_witness:
  "\<exists>p st'. frag_run [(example_frag 0x2000 8, [1, 2, 3, 4, 5, 6, 7, 8]), (example_frag 1 1, [9])] frag_boot =
     Some (Some p, st') \<and> map (p_payload (packet_buffer st' p)) [0..<9] = [1, 2, 3, 4, 5, 6, 7, 8, 9]"
proof -
  have u: "in_use frag_boot = {}" by (simp add: in_use_def frag_boot_def packet_buf_zero_def)
  have e: "frag_off (example_frag 0x2000 8) = 0" "frag_off (example_frag 1 1) \<noteq> 0"
    "ip_foff (example_frag 1 1) AND IP_FLAGS_MF = 0" by code_simp+
  have "frag_len (example_frag 0x2000 8) = Some 8" "frag_len (example_frag 1 1) = Some 1"
    "frag_off (example_frag 1 1) = 8" by code_simp+
  then have "frag_blocks (example_frag 0x2000 8) = {0..<1}" "frag_blocks (example_frag 1 1) = {1}"
    using e(1) by (simp_all add: frag_blocks_def)
  moreover have "all_blocks [1, 2, 3, 4, 5, 6, 7, 8, 9 :: byte] = {0..<2}" by (simp add: all_blocks_def)
  ultimately have c: "all_blocks [1, 2, 3, 4, 5, 6, 7, 8, 9 :: byte] \<subseteq>
      frag_blocks (example_frag 0x2000 8) \<union> (\<Union>f \<in> set [(example_frag 1 1, [9 :: byte])]. frag_blocks (fst f))"
    by auto
  have f: "in_use frag_boot \<noteq> {p. p < PACKET_BUFFERS}" using u PACKET_BUFFERS_def by force
  have "\<forall>p \<in> in_use frag_boot. frag_key (p_hdr (packet_buffer frag_boot p)) \<noteq> (0, 0, 17, 0)" using u by simp
  note r = reassembly_completes [OF frag_inv_boot f this example_fragments(1) e(1) _ _ c]
  have a: "\<forall>f \<in> set [(example_frag 1 1, [9 :: byte])].
      fragment_of (0, 0, 17, 0) [1, 2, 3, 4, 5, 6, 7, 8, 9] f \<and> frag_off (fst f) \<noteq> 0"
    using example_fragments(2) e(2) by (simp del: fragment_of.simps)
  have b: "\<exists>f \<in> set [(example_frag 1 1, [9 :: byte])]. ip_foff (fst f) AND IP_FLAGS_MF = 0" using e(3) by simp
  have l: "length [1, 2, 3, 4, 5, 6, 7, 8, 9 :: byte] = 9" by simp
  have "length [1, 2, 3, 4, 5, 6, 7, 8, 9 :: byte] \<le> 16384" by simp
  from r [OF a b this list.distinct(2)] show ?thesis unfolding l by (elim exE conjE) (intro exI conjI)
qed

lemma get_buffer_ok:
  assumes "frag_inv st"
  shows "\<exists>r st'. get_packet_buffer hdr st = Some (r, st') \<and> frag_inv st' \<and>
    (case r of
       None \<Rightarrow> st' = st \<and> in_use st = {p. p < PACKET_BUFFERS}
     | Some p \<Rightarrow> in_use st' = insert p (in_use st) \<and> frag_key (p_hdr (packet_buffer st' p)) = frag_key hdr \<and>
         (if p \<in> in_use st then st' = st
          else packet_buffer st' = (packet_buffer st)(p := fresh_buf hdr (packet_buffer st p))))"
proof (cases "\<exists>p \<in> in_use st. frag_key (p_hdr (packet_buffer st p)) = frag_key hdr")
  case True
  then obtain p where "p \<in> in_use st" "frag_key (p_hdr (packet_buffer st p)) = frag_key hdr" by blast
  then show ?thesis using get_hit [OF assms] assms by (auto simp: insert_absorb)
next
  case False
  then have n: "\<forall>p \<in> in_use st. frag_key (p_hdr (packet_buffer st p)) \<noteq> frag_key hdr" by blast
  show ?thesis
  proof (cases "in_use st = {p. p < PACKET_BUFFERS}")
    case True
    then show ?thesis using get_miss [OF assms n] alloc_full [OF True] assms by simp
  next
    case free: False
    obtain p st' where "packet_alloc hdr st = Some (Some p, st')" "p < PACKET_BUFFERS" "p \<notin> in_use st"
      "frag_inv st'" "in_use st' = insert p (in_use st)"
      "packet_buffer st' = (packet_buffer st)(p := fresh_buf hdr (packet_buffer st p))"
      using alloc_ok [OF assms n free] .
    then show ?thesis using get_miss [OF assms n] by (simp add: fresh_buf_def frag_key_def)
  qed
qed

text \<open>C35: \<^verbatim>\<open>get_packet_buffer\<close> returns the buffer that already collects the packet; otherwise a free one,
  reserved, entered into the tree and with an empty header; NULL only when all four are in use.\<close>

theorem get_packet_buffer_correct:
  assumes "frag_inv st"
  shows "\<exists>r st'. get_packet_buffer hdr st = Some (r, st') \<and> frag_inv st' \<and>
    (case r of
       None \<Rightarrow> st' = st \<and> in_use st = {p. p < PACKET_BUFFERS}
     | Some p \<Rightarrow> in_use st' = insert p (in_use st) \<and> frag_key (p_hdr (packet_buffer st' p)) = frag_key hdr \<and>
         (if p \<in> in_use st then st' = st
          else packet_buffer st' = (packet_buffer st)(p := fresh_buf hdr (packet_buffer st p))))"
  by (rule get_buffer_ok [OF assms])

lemma get_packet_buffer_correct_witness:
  "frag_inv frag_boot \<and> (\<exists>p st'. get_packet_buffer ip_hdr_zero frag_boot = Some (Some p, st') \<and> in_use st' = {p})"
proof -
  have "in_use frag_boot = {}" by (simp add: in_use_def frag_boot_def packet_buf_zero_def)
  moreover have "{} \<noteq> {p. p < PACKET_BUFFERS}" using PACKET_BUFFERS_def by force
  ultimately show ?thesis
    using get_packet_buffer_correct [OF frag_inv_boot, of ip_hdr_zero] frag_inv_boot by (auto split: option.splits)
qed

text \<open>A tick of the timer releases exactly the buffers whose time is up, and counts down the others.\<close>

theorem ip_fragment_timer_correct:
  assumes "frag_inv st"
  shows "\<exists>st'. ip_fragment_timer d st = Some st' \<and> frag_inv st' \<and>
    in_use st' = {p \<in> in_use st. timer (packet_buffer st p) > d} \<and>
    (\<forall>p \<in> in_use st'. packet_buffer st' p = (packet_buffer st p)\<lparr>timer := timer (packet_buffer st p) - d\<rparr>)"
proof -
  obtain st' where st': "frag_timer_loop [0..<PACKET_BUFFERS] d st = Some st'" "frag_inv st'"
    "in_use st' = in_use st - {i \<in> set [0..<PACKET_BUFFERS]. timer (packet_buffer st i) \<le> d}"
    "\<forall>p \<in> in_use st'. packet_buffer st' p = (if p \<in> set [0..<PACKET_BUFFERS]
       then (packet_buffer st p)\<lparr>timer := timer (packet_buffer st p) - d\<rparr> else packet_buffer st p)"
    using timer_loop_ok [OF assms, of "[0..<PACKET_BUFFERS]" d, OF _ distinct_upt] by fastforce
  have "in_use st' = {p \<in> in_use st. timer (packet_buffer st p) > d}"
    unfolding st'(3) by (auto simp: in_use_def)
  moreover have "\<forall>p \<in> in_use st'. p \<in> set [0..<PACKET_BUFFERS]" by (auto simp: in_use_def)
  ultimately show ?thesis using st'(1,2,4) by (simp add: ip_fragment_timer_def)
qed

lemma ip_fragment_timer_correct_witness:
  "frag_inv frag_boot \<and> (\<exists>st'. ip_fragment_timer 10 frag_boot = Some st' \<and> frag_inv st')"
  using ip_fragment_timer_correct [OF frag_inv_boot, of 10] frag_inv_boot by blast

end
