(* ===== verification/Sockaddr.thy ===== *)
theory Sockaddr
  imports Memcmp
begin

text \<open>
  The socket address of \<^verbatim>\<open>include/xstack_socket.h\<close>, an IPv4 address and a port of type \<^verbatim>\<open>int\<close>, and its
  eight bytes in memory, by which sockets and connections are compared.
\<close>

record xstack_sockaddr =
  inet4_addr :: u32
  port :: int

definition sockaddr_store :: "xstack_sockaddr \<Rightarrow> bytes" where
  "sockaddr_store a = store32 (inet4_addr a) @ store32 (word_of_int (port a))"

definition sockaddr_load :: "bytes \<Rightarrow> xstack_sockaddr" where
  "sockaddr_load b = \<lparr>inet4_addr = load32 (b ! 0) (b ! 1) (b ! 2) (b ! 3),
     port = sint (load32 (b ! 4) (b ! 5) (b ! 6) (b ! 7))\<rparr>"

definition port_ok :: "xstack_sockaddr \<Rightarrow> bool" where
  "port_ok a \<longleftrightarrow> 0 \<le> port a \<and> port a < 65536"

lemma length_sockaddr_store [simp]: "length (sockaddr_store a) = 8"
  by (simp add: sockaddr_store_def)

lemma word_port_inj:
  assumes "port_ok a" "port_ok b" "(word_of_int (port a) :: u32) = word_of_int (port b)"
  shows "port a = port b"
proof -
  have "take_bit 32 (port c) = port c" if "port_ok c" for c
    using that by (simp add: port_ok_def take_bit_int_eq_self)
  then show ?thesis using assms by (simp add: word_of_int_eq_iff)
qed

lemma store32_inj: "store32 c = store32 d \<longleftrightarrow> c = d"
  by (metis load_store32)

lemma sockaddr_store_inj:
  assumes "port_ok a" "port_ok b"
  shows "sockaddr_store a = sockaddr_store b \<longleftrightarrow> a = b"
proof
  assume "sockaddr_store a = sockaddr_store b"
  then have "inet4_addr a = inet4_addr b" "(word_of_int (port a) :: u32) = word_of_int (port b)"
    by (simp_all add: sockaddr_store_def store32_inj)
  then show "a = b" using word_port_inj [OF assms] by (cases a; cases b) simp
qed simp

text \<open>A port that fits the type \<^verbatim>\<open>int\<close> is read back.\<close>

lemma sockaddr_load_store:
  assumes "port_ok a"
  shows "sockaddr_load (sockaddr_store a @ rest) = a"
proof -
  let ?p = "word_of_int (port a) :: u32"
  have "port a mod 4294967296 = port a" "signed_take_bit 31 (port a) = port a"
    using assms by (simp_all add: port_ok_def signed_take_bit_int_eq_self)
  then have p: "sint ?p = port a" by (simp add: sint_uint uint_word_of_int)
  have n: "(store32 v @ store32 w @ rest) ! i = store32 v ! i" "(store32 v @ store32 w @ rest) ! (4 + i) = store32 w ! i"
    if "i < 4" for i v w using that by (simp_all add: nth_append)
  have "load32 ((store32 v @ store32 w @ rest) ! 0) ((store32 v @ store32 w @ rest) ! 1)
      ((store32 v @ store32 w @ rest) ! 2) ((store32 v @ store32 w @ rest) ! 3) = v" for v w
    using n(1) [of 0 v w] n(1) [of 1 v w] n(1) [of 2 v w] n(1) [of 3 v w] by (simp add: load_store32 [unfolded One_nat_def])
  moreover have "load32 ((store32 v @ store32 w @ rest) ! 4) ((store32 v @ store32 w @ rest) ! 5)
      ((store32 v @ store32 w @ rest) ! 6) ((store32 v @ store32 w @ rest) ! 7) = w" for v w
    using n(2) [of 0 v w] n(2) [of 1 v w] n(2) [of 2 v w] n(2) [of 3 v w] by (simp add: load_store32 [unfolded One_nat_def])
  ultimately show ?thesis using p by (simp add: sockaddr_load_def sockaddr_store_def)
qed

end
