(* ===== verification/Tcp.thy ===== *)
theory Tcp
  imports Sockaddr Ip_Hdr "HOL-Library.Sublist"
begin

text \<open>
  The transport \<^verbatim>\<open>src/tcp.c\<close>, \<^verbatim>\<open>src/tcp.h\<close>: the header in memory, the table of connections (control
  blocks from \<^verbatim>\<open>calloc\<close>, with a red-black tree over them) and the connection state machine. The fields
  of the control block that the code never touches (timers, window, retransmission, segment lists) are
  left out, and \<^verbatim>\<open>calloc\<close> is taken to succeed.

  A handler of the IP layer gets the header in host order and the memory from the payload on; \<open>bsize\<close> is
  the size of the packet's part of it. It returns the result, the memory and the state.
\<close>

section \<open>The header\<close>

record tcp_hdr =
  tcp_sport :: u16
  tcp_dport :: u16
  tcp_seqno :: u32
  tcp_ack_num :: u32
  tcp_flags :: u16
  tcp_win_size :: u16
  tcp_csum :: u16
  tcp_urg_ptr :: u16

definition tcp_store :: "tcp_hdr \<Rightarrow> bytes" where
  "tcp_store h = store16 (tcp_sport h) @ store16 (tcp_dport h) @ store32 (tcp_seqno h) @
     store32 (tcp_ack_num h) @ store16 (tcp_flags h) @ store16 (tcp_win_size h) @ store16 (tcp_csum h) @
     store16 (tcp_urg_ptr h)"

definition tcp_load :: "bytes \<Rightarrow> tcp_hdr option" where
  "tcp_load b = (if length b < 20 then None else Some
     \<lparr>tcp_sport = load16 (b ! 0) (b ! 1), tcp_dport = load16 (b ! 2) (b ! 3),
      tcp_seqno = load32 (b ! 4) (b ! 5) (b ! 6) (b ! 7),
      tcp_ack_num = load32 (b ! 8) (b ! 9) (b ! 10) (b ! 11),
      tcp_flags = load16 (b ! 12) (b ! 13), tcp_win_size = load16 (b ! 14) (b ! 15),
      tcp_csum = load16 (b ! 16) (b ! 17), tcp_urg_ptr = load16 (b ! 18) (b ! 19)\<rparr>)"

definition TCP_ACK :: u16 where "TCP_ACK = 0x010"
definition TCP_SYN :: u16 where "TCP_SYN = 0x002"
definition TCP_FIN :: u16 where "TCP_FIN = 0x001"
definition TCP_DOFF_MASK :: u16 where "TCP_DOFF_MASK = 0xF000"

lemmas tcp_consts = TCP_ACK_def TCP_SYN_def TCP_FIN_def TCP_DOFF_MASK_def

definition tcp_hdr_size :: "tcp_hdr \<Rightarrow> int" where
  "tcp_hdr_size hdr =
     (let doff = drop_bit 12 (tcp_flags hdr AND TCP_DOFF_MASK)
      in if doff < 5 \<or> doff > 15 then - EINVAL else uint doff * 4)"

definition tcp_swap :: "tcp_hdr \<Rightarrow> tcp_hdr" where
  "tcp_swap h = h\<lparr>tcp_sport := htons (tcp_sport h), tcp_dport := htons (tcp_dport h),
     tcp_seqno := htonl (tcp_seqno h), tcp_ack_num := htonl (tcp_ack_num h), tcp_flags := htons (tcp_flags h),
     tcp_win_size := htons (tcp_win_size h), tcp_urg_ptr := htons (tcp_urg_ptr h)\<rparr>"

text \<open>\<^verbatim>\<open>tcp_hton\<close> into the memory \<open>net\<close>, with the checksum over its first \<open>bsize\<close> bytes.\<close>

definition tcp_hton :: "xstack_sockaddr \<Rightarrow> xstack_sockaddr \<Rightarrow> tcp_hdr \<Rightarrow> bytes \<Rightarrow> nat \<Rightarrow> bytes option" where
  "tcp_hton src dst host net bsize = do {
     let hdr = (tcp_swap host)\<lparr>tcp_csum := 0\<rparr>;
     net \<leftarrow> mem_write net 0 (tcp_store hdr);
     data \<leftarrow> mem_read net 0 bsize;
     mem_write net 0 (tcp_store (hdr\<lparr>tcp_csum := tcp_checksum (inet4_addr src) (inet4_addr dst) data\<rparr>))
   }"

definition tcp_ntoh :: "tcp_hdr \<Rightarrow> tcp_hdr" where
  "tcp_ntoh net = net\<lparr>tcp_sport := ntohs (tcp_sport net), tcp_dport := ntohs (tcp_dport net),
     tcp_seqno := ntohl (tcp_seqno net), tcp_ack_num := ntohl (tcp_ack_num net), tcp_flags := ntohs (tcp_flags net),
     tcp_win_size := ntohs (tcp_win_size net), tcp_urg_ptr := ntohs (tcp_urg_ptr net)\<rparr>"

section \<open>Connections\<close>

datatype tcp_state = TCP_CLOSED | TCP_LISTEN | TCP_SYN_RCVD | TCP_SYN_SENT | TCP_ESTABLISHED
  | TCP_FIN_WAIT_1 | TCP_FIN_WAIT_2 | TCP_CLOSE_WAIT | TCP_CLOSING | TCP_LAST_ACK | TCP_TIME_WAIT

record tcp_conn_tcb =
  local :: xstack_sockaddr
  remote :: xstack_sockaddr
  state :: tcp_state
  recv_next :: u32
  send_next :: u32

record tcp_table =
  tcb :: "nat \<Rightarrow> tcp_conn_tcb"
  tcb_count :: nat
  tcp_conn_map :: rb_head

text \<open>The comparison adds the two results of \<^verbatim>\<open>memcmp\<close>.\<close>

definition tcp_conn_cmp :: "tcp_conn_tcb \<Rightarrow> tcp_conn_tcb \<Rightarrow> int" where
  "tcp_conn_cmp a b = memcmp (sockaddr_store (local a)) (sockaddr_store (local b)) +
     memcmp (sockaddr_store (remote a)) (sockaddr_store (remote b))"

definition tcp_calloc :: "xstack_sockaddr \<Rightarrow> xstack_sockaddr \<Rightarrow> tcp_conn_tcb" where
  "tcp_calloc loc rem = \<lparr>local = loc, remote = rem, state = TCP_CLOSED, recv_next = 0, send_next = 0\<rparr>"

definition tcp_find_connection :: "xstack_sockaddr \<Rightarrow> xstack_sockaddr \<Rightarrow> tcp_table \<Rightarrow> ptr option" where
  "tcp_find_connection loc rem st =
     RB_FIND (\<lambda>x. tcp_conn_cmp (tcp_calloc loc rem) (tcb st x)) (tcp_conn_map st)"

definition tcp_new_connection ::
  "xstack_sockaddr \<Rightarrow> xstack_sockaddr \<Rightarrow> tcp_table \<Rightarrow> (nat \<times> tcp_table) option" where
  "tcp_new_connection loc rem st = do {
     let conn = tcb_count st;
     let blocks = (tcb st)(conn := tcp_calloc loc rem);
     (head, _) \<leftarrow> RB_INSERT (\<lambda>x. tcp_conn_cmp (blocks conn) (blocks x)) (tcp_conn_map st) conn;
     Some (conn, st\<lparr>tcb := blocks, tcb_count := conn + 1, tcp_conn_map := head\<rparr>)
   }"

section \<open>The state machine\<close>

definition has_flag :: "tcp_hdr \<Rightarrow> u16 \<Rightarrow> bool" where
  "has_flag rs f \<longleftrightarrow> tcp_flags rs AND f \<noteq> 0"

definition tcp_fsm :: "tcp_conn_tcb \<Rightarrow> tcp_hdr \<Rightarrow> int \<times> tcp_conn_tcb \<times> tcp_hdr" where
  "tcp_fsm conn rs =
     (case state conn of
        TCP_CLOSED \<Rightarrow> (0, conn, rs)
      | TCP_LISTEN \<Rightarrow>
          if has_flag rs TCP_SYN then
            let rs = rs\<lparr>tcp_flags := tcp_flags rs OR TCP_ACK, tcp_ack_num := tcp_seqno rs + 1, tcp_seqno := 0\<rparr>;
                conn = conn\<lparr>state := TCP_SYN_RCVD, recv_next := tcp_ack_num rs, send_next := tcp_seqno rs + 1\<rparr>
            in (tcp_hdr_size rs, conn, rs)
          else (0, conn, rs)
      | TCP_SYN_RCVD \<Rightarrow>
          if has_flag rs TCP_ACK \<and> tcp_seqno rs = recv_next conn \<and> tcp_ack_num rs = send_next conn
          then (0, conn\<lparr>state := TCP_ESTABLISHED\<rparr>, rs)
          else
            let rs = rs\<lparr>tcp_flags := tcp_flags rs AND NOT TCP_ACK, tcp_ack_num := tcp_seqno rs,
                        tcp_seqno := send_next conn\<rparr>;
                conn = conn\<lparr>recv_next := tcp_ack_num rs, send_next := tcp_seqno rs + 1\<rparr>
            in (tcp_hdr_size rs, conn, rs)
      | TCP_ESTABLISHED \<Rightarrow>
          if has_flag rs TCP_FIN then
            let rs = rs\<lparr>tcp_flags := tcp_flags rs OR TCP_ACK, tcp_ack_num := tcp_seqno rs + 1,
                        tcp_seqno := send_next conn\<rparr>;
                conn = conn\<lparr>state := TCP_LAST_ACK, recv_next := tcp_ack_num rs, send_next := tcp_seqno rs + 1\<rparr>
            in (tcp_hdr_size rs, conn, rs)
          else (0, conn, rs)
      | TCP_FIN_WAIT_1 \<Rightarrow> (0, conn, rs)
      | TCP_FIN_WAIT_2 \<Rightarrow> (0, conn, rs)
      | TCP_CLOSE_WAIT \<Rightarrow> (0, conn, rs)
      | TCP_CLOSING \<Rightarrow> (0, conn, rs)
      | TCP_LAST_ACK \<Rightarrow>
          if has_flag rs TCP_ACK then (0, conn\<lparr>state := TCP_CLOSED\<rparr>, rs) else (- EINVAL, conn, rs)
      | TCP_TIME_WAIT \<Rightarrow> (- EINVAL, conn, rs)
      | TCP_SYN_SENT \<Rightarrow> (- EINVAL, conn, rs))"

text \<open>The connection a segment belongs to: an existing one, or a new one for a SYN. \<open>None\<close> inside is the
  return of \<^verbatim>\<open>-EINVAL\<close>.\<close>

definition tcp_lookup ::
  "xstack_sockaddr \<Rightarrow> xstack_sockaddr \<Rightarrow> tcp_hdr \<Rightarrow> tcp_table \<Rightarrow> (ptr \<times> tcp_table) option" where
  "tcp_lookup loc rem tcp st = do {
     conn \<leftarrow> tcp_find_connection loc rem st;
     case conn of
       None \<Rightarrow>
         if has_flag tcp TCP_SYN then do {
           (c, st) \<leftarrow> tcp_new_connection loc rem st;
           Some (Some c, st\<lparr>tcb := (tcb st)(c := (tcb st c)\<lparr>state := TCP_LISTEN\<rparr>)\<rparr>)
         } else Some (None, st)
     | Some c \<Rightarrow>
         if has_flag tcp TCP_SYN \<or> tcp_hdr_size tcp < 0 then Some (None, st) else Some (Some c, st)
   }"

definition tcp_input :: "ip_hdr \<Rightarrow> bytes \<Rightarrow> nat \<Rightarrow> tcp_table \<Rightarrow> (int \<times> bytes \<times> tcp_table) option" where
  "tcp_input ip payload bsize st =
     (if bsize < 20 then Some (- EBADMSG, payload, st)
      else do {
        net \<leftarrow> tcp_load payload;
        let loc = \<lparr>inet4_addr = ip_dst ip, port = uint (ntohs (tcp_dport net))\<rparr>;
        let rem = \<lparr>inet4_addr = ip_src ip, port = uint (ntohs (tcp_sport net))\<rparr>;
        let tcp = tcp_ntoh net;
        payload \<leftarrow> mem_write payload 0 (tcp_store tcp);
        (conn, st) \<leftarrow> tcp_lookup loc rem tcp st;
        case conn of
          None \<Rightarrow> Some (- EINVAL, payload, st)
        | Some c \<Rightarrow> do {
            let (retval, conn, tcp) = tcp_fsm (tcb st c) tcp;
            let st = st\<lparr>tcb := (tcb st)(c := conn)\<rparr>;
            payload \<leftarrow> (if retval > 0
              then tcp_hton loc rem (tcp\<lparr>tcp_sport := word_of_int (port loc), tcp_dport := word_of_int (port rem)\<rparr>)
                     payload (nat retval)
              else mem_write payload 0 (tcp_store tcp));
            Some (retval, payload, st)
          }
      })"

definition xstack_tcp_send :: int where
  "xstack_tcp_send = -1"

section \<open>The header in memory\<close>

lemma length_tcp_store [simp]: "length (tcp_store h) = 20"
  by (simp add: tcp_store_def)

lemma tcp_load_store [simp]: "tcp_load (tcp_store h @ rest) = Some h"
  by (simp add: tcp_load_def tcp_store_def store16_def store32_halves load16_parts load32_halves nth_append)

lemma tcp_ntoh_swap: "tcp_ntoh h = tcp_swap h"
  by (simp add: tcp_ntoh_def tcp_swap_def ntohs_def ntohl_def)

lemma tcp_swap_swap [simp]: "tcp_swap (tcp_swap h) = h"
  by (simp add: tcp_swap_def)

lemma tcp_swap_csum [simp]: "tcp_swap (h\<lparr>tcp_csum := c\<rparr>) = (tcp_swap h)\<lparr>tcp_csum := c\<rparr>"
  by (simp add: tcp_swap_def)

lemma tcp_store_csum:
  obtains pre post where "length pre = 16" "\<And>c. tcp_store (h\<lparr>tcp_csum := c\<rparr>) = pre @ store16 c @ post"
  using that [of "store16 (tcp_sport h) @ store16 (tcp_dport h) @ store32 (tcp_seqno h) @
     store32 (tcp_ack_num h) @ store16 (tcp_flags h) @ store16 (tcp_win_size h)" "store16 (tcp_urg_ptr h)"]
  by (simp add: tcp_store_def)

text \<open>The segment that \<^verbatim>\<open>tcp_hton\<close> builds has a checksum that verifies.\<close>

lemma tcp_hton_ok:
  assumes "20 \<le> bsize" "bsize \<le> length net"
  obtains c where "tcp_hton src dst host net bsize =
      Some (tcp_store ((tcp_swap host)\<lparr>tcp_csum := c\<rparr>) @ drop 20 net)"
    "tcp_checksum (inet4_addr src) (inet4_addr dst)
      (take bsize (tcp_store ((tcp_swap host)\<lparr>tcp_csum := c\<rparr>) @ drop 20 net)) = 0"
proof -
  let ?s = "inet4_addr src" and ?d = "inet4_addr dst" and ?rest = "take (bsize - 20) (drop 20 net)"
  obtain pre post where p: "length pre = 16"
    "\<And>c. tcp_store ((tcp_swap host)\<lparr>tcp_csum := c\<rparr>) = pre @ store16 c @ post"
    using tcp_store_csum [of "tcp_swap host"] by blast
  have l: "length post = 2" using p(1) length_tcp_store [of "(tcp_swap host)\<lparr>tcp_csum := 0\<rparr>"] by (simp add: p(2))
  have t: "take bsize (tcp_store ((tcp_swap host)\<lparr>tcp_csum := c\<rparr>) @ drop 20 net) = pre @ store16 c @ (post @ ?rest)" for c
    using assms(1) p(1) l by (simp add: p(2))
  have z: "store16 0 = [0, 0]" by (simp add: store16_def)
  let ?c = "tcp_checksum ?s ?d (pre @ [0, 0] @ (post @ ?rest))"
  have "tcp_hton src dst host net bsize = Some (tcp_store ((tcp_swap host)\<lparr>tcp_csum := ?c\<rparr>) @ drop 20 net)"
    using assms t [of 0] by (simp add: tcp_hton_def mem_write_def mem_read_def Let_def z del: take_append)
  moreover have "tcp_checksum ?s ?d (take bsize (tcp_store ((tcp_swap host)\<lparr>tcp_csum := ?c\<rparr>) @ drop 20 net)) = 0"
    unfolding t using tcp_checksum_fill [of pre ?s ?d "post @ ?rest"] p(1) by simp
  ultimately show thesis using that by blast
qed

section \<open>The table of connections\<close>

text \<open>The pair of addresses a connection is found by, as a number: the local address first.\<close>

definition conn_key :: "tcp_conn_tcb \<Rightarrow> xstack_sockaddr \<times> xstack_sockaddr" where
  "conn_key c = (local c, remote c)"

definition tcp_rank :: "tcp_conn_tcb \<Rightarrow> nat" where
  "tcp_rank c = be_value (sockaddr_store (local c)) * 256 ^ 8 + be_value (sockaddr_store (remote c))"

text \<open>The sum of two results of \<^verbatim>\<open>memcmp\<close> is no order on pairs of addresses: a smaller local and a larger remote
  address may cancel (\<open>tcp_conn_cmp_confuses\<close>). It is one on a set of pairs of which any two have local and remote
  addresses in the same order, and there only the signs of the two results matter. All connections of
  one local address are such a set, and so are those of one remote address.\<close>

definition sockaddr_le :: "xstack_sockaddr \<Rightarrow> xstack_sockaddr \<Rightarrow> bool" where
  "sockaddr_le a b \<longleftrightarrow> be_value (sockaddr_store a) \<le> be_value (sockaddr_store b)"

definition addr_chain :: "(xstack_sockaddr \<times> xstack_sockaddr) set \<Rightarrow> bool" where
  "addr_chain K \<longleftrightarrow> (\<forall>x \<in> K. port_ok (fst x) \<and> port_ok (snd x)) \<and>
     (\<forall>x \<in> K. \<forall>y \<in> K. sockaddr_le (fst x) (fst y) \<and> sockaddr_le (snd x) (snd y) \<or>
        sockaddr_le (fst y) (fst x) \<and> sockaddr_le (snd y) (snd x))"

lemma addr_chain_service:
  assumes "port_ok a"
  shows "addr_chain ({a} \<times> {rem. port_ok rem})" "addr_chain ({loc. port_ok loc} \<times> {a})"
  using assms by (auto simp: addr_chain_def sockaddr_le_def)

lemma sockaddr_value: "be_value (sockaddr_store a) < 256 ^ 8"
  using be_value_less [of "sockaddr_store a"] by simp

lemma lex_less:
  assumes "(x :: nat) < B" "y < B"
  shows "a * B + x < b * B + y \<longleftrightarrow> a < b \<or> a = b \<and> x < y"
proof -
  have "c * B + u < d * B + v" if "c < d" "u < B" for c d u v :: nat
  proof -
    have "c * B + u < Suc c * B" using that(2) by simp
    also have "\<dots> \<le> d * B" using that(1) by (intro mult_le_mono1) simp
    finally show ?thesis by simp
  qed
  then show ?thesis using assms by (cases a b rule: linorder_cases) (force dest: less_imp_not_less)+
qed

interpretation by_addr: key_order tcp_conn_cmp tcp_rank "\<lambda>c. addr_chain K \<and> conn_key c \<in> K" for K
proof
  fix a b
  assume "addr_chain K \<and> conn_key a \<in> K" "addr_chain K \<and> conn_key b \<in> K"
  then have c: "sockaddr_le (local a) (local b) \<and> sockaddr_le (remote a) (remote b) \<or>
      sockaddr_le (local b) (local a) \<and> sockaddr_le (remote b) (remote a)"
    unfolding addr_chain_def conn_key_def by (metis fst_conv snd_conv)
  note m = memcmp_order [of "sockaddr_store x" "sockaddr_store y" for x y, simplified]
  note l = lex_less [OF sockaddr_value sockaddr_value]
  show "tcp_conn_cmp a b < 0 \<longleftrightarrow> tcp_rank a < tcp_rank b" "tcp_conn_cmp a b > 0 \<longleftrightarrow> tcp_rank a > tcp_rank b"
    using c m [of "local a" "local b"] m [of "remote a" "remote b"] unfolding tcp_conn_cmp_def tcp_rank_def l sockaddr_le_def by linarith+
qed

lemma tcp_rank_inj:
  assumes "addr_chain K" "conn_key a \<in> K" "conn_key b \<in> K"
  shows "tcp_rank a = tcp_rank b \<longleftrightarrow> conn_key a = conn_key b"
proof -
  have p: "port_ok (local a)" "port_ok (remote a)" "port_ok (local b)" "port_ok (remote b)"
    using assms by (auto simp: addr_chain_def conn_key_def)
  have "tcp_rank a = tcp_rank b \<longleftrightarrow> be_value (sockaddr_store (local a)) = be_value (sockaddr_store (local b)) \<and>
      be_value (sockaddr_store (remote a)) = be_value (sockaddr_store (remote b))"
    using lex_less [OF sockaddr_value sockaddr_value, of "be_value (sockaddr_store (local x))" "remote x" "be_value (sockaddr_store (local y))" "remote y" for x y]
    unfolding tcp_rank_def by (metis linorder_neq_iff)
  then show ?thesis using p by (simp add: be_value_inj sockaddr_store_inj conn_key_def)
qed

definition tcp_inv :: "(xstack_sockaddr \<times> xstack_sockaddr) set \<Rightarrow> tcp_table \<Rightarrow> bool" where
  "tcp_inv K st \<longleftrightarrow> addr_chain K \<and> rb_set tcp_rank (tcb st) (tcp_conn_map st) {..<tcb_count st} \<and>
     (\<forall>c < tcb_count st. conn_key (tcb st c) \<in> K)"

definition tcp_abs :: "tcp_table \<Rightarrow> xstack_sockaddr \<times> xstack_sockaddr \<rightharpoonup> tcp_conn_tcb" where
  "tcp_abs st k = map_option (tcb st) (List.find (\<lambda>c. conn_key (tcb st c) = k) [0..<tcb_count st])"

lemma conn_key_calloc [simp]: "conn_key (tcp_calloc loc rem) = (loc, rem)"
  by (simp add: conn_key_def tcp_calloc_def)

lemma tcp_rank_cong: "conn_key a = conn_key b \<Longrightarrow> tcp_rank a = tcp_rank b"
  by (simp add: conn_key_def tcp_rank_def)

lemma tcp_inv_distinct:
  assumes "tcp_inv K st" "c < tcb_count st" "d < tcb_count st" "conn_key (tcb st c) = conn_key (tcb st d)"
  shows "c = d"
proof (rule rb_set_inj [of tcp_rank "tcb st" "tcp_conn_map st" "{..<tcb_count st}"])
  show "tcp_rank (tcb st c) = tcp_rank (tcb st d)" using tcp_rank_cong [OF assms(4)] .
qed (use assms in \<open>auto simp: tcp_inv_def\<close>)

lemma tcp_abs_Some:
  assumes "tcp_inv K st"
  shows "tcp_abs st k = Some conn \<longleftrightarrow> (\<exists>c < tcb_count st. tcb st c = conn \<and> conn_key conn = k)"
proof
  assume "tcp_abs st k = Some conn"
  then show "\<exists>c < tcb_count st. tcb st c = conn \<and> conn_key conn = k"
    by (auto simp: tcp_abs_def find_Some_iff)
next
  assume "\<exists>c < tcb_count st. tcb st c = conn \<and> conn_key conn = k"
  then obtain c where c: "c < tcb_count st" "tcb st c = conn" "conn_key conn = k" by blast
  have "List.find (\<lambda>c. conn_key (tcb st c) = k) [0..<tcb_count st] = Some c"
    by (rule find_unique) (use c tcp_inv_distinct [OF assms] in auto)
  then show "tcp_abs st k = Some conn" using c(2) by (simp add: tcp_abs_def)
qed

lemma tcp_abs_None: "tcp_abs st k = None \<longleftrightarrow> (\<forall>c < tcb_count st. conn_key (tcb st c) \<noteq> k)"
  by (auto simp: tcp_abs_def find_None_iff)

lemma tcp_find_Some:
  assumes "tcp_inv K st" "c < tcb_count st" "conn_key (tcb st c) = (loc, rem)"
  shows "tcp_find_connection loc rem st = Some (Some c)"
proof -
  have "tcp_rank (tcb st c) = tcp_rank (tcp_calloc loc rem)" using tcp_rank_cong assms(3) by simp
  moreover have "(loc, rem) \<in> K" using assms by (auto simp: tcp_inv_def)
  ultimately show ?thesis unfolding tcp_find_connection_def using assms
    by (intro by_addr.find_some [where K = K and S = "{..<tcb_count st}"]) (auto simp: tcp_inv_def)
qed

lemma tcp_find_None:
  assumes "tcp_inv K st" "(loc, rem) \<in> K" "\<forall>c < tcb_count st. conn_key (tcb st c) \<noteq> (loc, rem)"
  shows "tcp_find_connection loc rem st = Some None"
  unfolding tcp_find_connection_def using assms tcp_rank_inj [of K _ "tcp_calloc loc rem"]
  by (intro by_addr.find_none [where K = K and S = "{..<tcb_count st}"]) (auto simp: tcp_inv_def)

text \<open>A new connection, and the update of a connection that keeps its addresses.\<close>

lemma tcp_inv_update:
  assumes "tcp_inv K st" "c < tcb_count st" "conn_key conn = conn_key (tcb st c)"
  shows "tcp_inv K (st\<lparr>tcb := (tcb st)(c := conn)\<rparr>)"
    "tcp_abs (st\<lparr>tcb := (tcb st)(c := conn)\<rparr>) = (tcp_abs st)(conn_key conn \<mapsto> conn)"
proof -
  let ?st = "st\<lparr>tcb := (tcb st)(c := conn)\<rparr>"
  have "rb_set tcp_rank ((tcb st)(c := conn)) (tcp_conn_map st) {..<tcb_count st}"
    by (rule rb_set_cong [of _ "tcb st"]) (use assms tcp_rank_cong [OF assms(3)] in \<open>auto simp: tcp_inv_def\<close>)
  then show I: "tcp_inv K ?st" using assms by (auto simp: tcp_inv_def)
  show "tcp_abs ?st = (tcp_abs st)(conn_key conn \<mapsto> conn)"
  proof
    fix k
    show "tcp_abs ?st k = ((tcp_abs st)(conn_key conn \<mapsto> conn)) k"
    proof (cases "k = conn_key conn")
      case True
      have "tcp_abs ?st k = Some conn" unfolding tcp_abs_Some [OF I] using assms(2) True by auto
      then show ?thesis using True by simp
    next
      case False
      have "tcp_abs ?st k = Some d \<longleftrightarrow> tcp_abs st k = Some d" for d
        unfolding tcp_abs_Some [OF I] tcp_abs_Some [OF assms(1)] using False assms(3) by auto
      then show ?thesis using False by (metis fun_upd_other option.exhaust)
    qed
  qed
qed

lemma tcp_new_ok:
  assumes I: "tcp_inv K st" and k: "(loc, rem) \<in> K" "\<forall>c < tcb_count st. conn_key (tcb st c) \<noteq> (loc, rem)"
  obtains st' where "tcp_new_connection loc rem st = Some (tcb_count st, st')" "tcp_inv K st'"
    "tcb_count st' = Suc (tcb_count st)" "tcb st' = (tcb st)(tcb_count st := tcp_calloc loc rem)"
proof -
  let ?c = "tcb_count st"
  let ?kf = "(tcb st)(?c := tcp_calloc loc rem)"
  have T: "rb_set tcp_rank ?kf (tcp_conn_map st) {..<?c}"
    by (rule rb_set_cong [of _ "tcb st"]) (use I in \<open>auto simp: tcp_inv_def\<close>)
  have v: "\<forall>x \<in> {..<?c}. addr_chain K \<and> conn_key (?kf x) \<in> K" using I by (auto simp: tcp_inv_def)
  have w: "addr_chain K \<and> conn_key (?kf ?c) \<in> K" using I k(1) by (simp add: tcp_inv_def)
  have n: "\<forall>x \<in> {..<?c}. tcp_rank (?kf x) \<noteq> tcp_rank (?kf ?c)"
    using k tcp_rank_inj [of K] v w by auto
  obtain h where h: "RB_INSERT (\<lambda>x. tcp_conn_cmp (?kf ?c) (?kf x)) (tcp_conn_map st) ?c = Some (h, None)"
    "rb_set tcp_rank ?kf h (insert ?c {..<?c})"
    using by_addr.insert_new [OF T v w _ n] by blast
  let ?st = "st\<lparr>tcb := ?kf, tcb_count := Suc ?c, tcp_conn_map := h\<rparr>"
  have "tcp_inv K ?st"
    using h(2) I k by (auto simp: tcp_inv_def less_Suc_eq lessThan_Suc)
  then show thesis using that [of ?st] h(1) by (simp add: tcp_new_connection_def Let_def)
qed

section \<open>The state machine\<close>

lemma tcp_fsm_addr:
  "tcp_fsm conn rs = (r, conn', rs') \<Longrightarrow> local conn' = local conn \<and> remote conn' = remote conn"
  by (auto simp: tcp_fsm_def Let_def split: tcp_state.splits if_splits)

text \<open>The states a connection that was opened by a SYN can be in; the others are not reached.\<close>

definition tcp_served :: "tcp_state \<Rightarrow> bool" where
  "tcp_served s \<longleftrightarrow> s \<in> {TCP_LISTEN, TCP_SYN_RCVD, TCP_ESTABLISHED, TCP_LAST_ACK, TCP_CLOSED}"

lemma tcp_fsm_served: "tcp_served (state conn) \<Longrightarrow> tcp_served (state (fst (snd (tcp_fsm conn rs))))"
  by (auto simp: tcp_served_def tcp_fsm_def Let_def)

text \<open>Runs over a sequence of segments.\<close>

fun tcp_run :: "tcp_conn_tcb \<Rightarrow> tcp_hdr list \<Rightarrow> tcp_conn_tcb" where
  "tcp_run conn [] = conn"
| "tcp_run conn (rs # segs) = tcp_run (fst (snd (tcp_fsm conn rs))) segs"

lemma tcp_run_append: "tcp_run conn (segs @ ts) = tcp_run (tcp_run conn segs) ts"
  by (induction segs arbitrary: conn) simp_all

lemma tcp_run_served: "tcp_served (state conn) \<Longrightarrow> tcp_served (state (tcp_run conn segs))"
  by (induction segs arbitrary: conn) (simp_all add: tcp_fsm_served)

text \<open>The flags that have driven a connection into its state, in order.\<close>

fun tcp_phase :: "tcp_state \<Rightarrow> u16 list" where
  "tcp_phase TCP_SYN_RCVD = [TCP_SYN]"
| "tcp_phase TCP_ESTABLISHED = [TCP_SYN, TCP_ACK]"
| "tcp_phase TCP_LAST_ACK = [TCP_SYN, TCP_ACK, TCP_FIN]"
| "tcp_phase TCP_CLOSED = [TCP_SYN, TCP_ACK, TCP_FIN, TCP_ACK]"
| "tcp_phase _ = []"

lemma tcp_fsm_phase:
  assumes "tcp_served (state c)" "c' = fst (snd (tcp_fsm c rs))"
  shows "tcp_phase (state c') = tcp_phase (state c) \<or> (\<exists>f. tcp_phase (state c') = tcp_phase (state c) @ [f] \<and> has_flag rs f)"
  using assms by (auto simp: tcp_served_def tcp_fsm_def Let_def)

lemma tcp_run_phase:
  assumes "state conn = TCP_LISTEN"
  shows "\<exists>gs. subseq gs segs \<and> list_all2 has_flag gs (tcp_phase (state (tcp_run conn segs)))"
proof (induction segs rule: rev_induct)
  case (snoc rs segs)
  let ?c = "tcp_run conn segs"
  obtain gs where gs: "subseq gs segs" "list_all2 has_flag gs (tcp_phase (state ?c))" using snoc by blast
  have "tcp_served (state ?c)" using assms tcp_run_served [of conn segs] by (simp add: tcp_served_def)
  moreover have "tcp_run conn (segs @ [rs]) = fst (snd (tcp_fsm ?c rs))" by (simp add: tcp_run_append)
  ultimately show ?case
  proof (rule tcp_fsm_phase [THEN disjE])
    assume "tcp_phase (state (tcp_run conn (segs @ [rs]))) = tcp_phase (state ?c)"
    then show ?thesis using gs by (intro exI [of _ gs]) auto
  next
    assume "\<exists>f. tcp_phase (state (tcp_run conn (segs @ [rs]))) = tcp_phase (state ?c) @ [f] \<and> has_flag rs f"
    then obtain f where "tcp_phase (state (tcp_run conn (segs @ [rs]))) = tcp_phase (state ?c) @ [f]" "has_flag rs f"
      by blast
    then have "list_all2 has_flag (gs @ [rs]) (tcp_phase (state (tcp_run conn (segs @ [rs]))))"
      using gs(2) by (simp add: list_all2_appendI)
    moreover have "subseq (gs @ [rs]) (segs @ [rs])" using gs(1) by simp
    ultimately show ?thesis by blast
  qed
qed (use assms in simp)

section \<open>Input\<close>

definition tcp_listener :: "xstack_sockaddr \<Rightarrow> xstack_sockaddr \<Rightarrow> tcp_conn_tcb" where
  "tcp_listener loc rem = (tcp_calloc loc rem)\<lparr>state := TCP_LISTEN\<rparr>"

text \<open>Whether a segment is handed to the state machine, given the connection it belongs to.\<close>

definition tcp_accepts :: "tcp_conn_tcb option \<Rightarrow> tcp_hdr \<Rightarrow> bool" where
  "tcp_accepts conn tcp = (case conn of
     None \<Rightarrow> has_flag tcp TCP_SYN | Some _ \<Rightarrow> \<not> has_flag tcp TCP_SYN \<and> tcp_hdr_size tcp \<ge> 0)"

lemma tcp_lookup_refused:
  assumes "tcp_inv K st" "(loc, rem) \<in> K" "\<not> tcp_accepts (tcp_abs st (loc, rem)) tcp"
  shows "tcp_lookup loc rem tcp st = Some (None, st)"
proof (cases "tcp_abs st (loc, rem)")
  case None
  then have "tcp_find_connection loc rem st = Some None"
    using tcp_find_None [OF assms(1,2)] by (simp add: tcp_abs_None)
  then show ?thesis using assms(3) None by (simp add: tcp_lookup_def tcp_accepts_def)
next
  case (Some conn)
  then obtain c where "c < tcb_count st" "conn_key (tcb st c) = (loc, rem)" using tcp_abs_Some [OF assms(1)] by auto
  then have "tcp_find_connection loc rem st = Some (Some c)" using tcp_find_Some [OF assms(1)] by simp
  then show ?thesis using assms(3) Some by (auto simp: tcp_lookup_def tcp_accepts_def)
qed

lemma conn_key_listener [simp]: "conn_key (tcp_listener loc rem) = (loc, rem)"
  by (simp add: tcp_listener_def tcp_calloc_def conn_key_def)

lemma tcp_lookup_accepted:
  assumes "tcp_inv K st" "(loc, rem) \<in> K" "tcp_accepts (tcp_abs st (loc, rem)) tcp"
  obtains c st' where "tcp_lookup loc rem tcp st = Some (Some c, st')" "tcp_inv K st'" "c < tcb_count st'"
    "tcb st' c = (case tcp_abs st (loc, rem) of None \<Rightarrow> tcp_listener loc rem | Some conn \<Rightarrow> conn)"
    "conn_key (tcb st' c) = (loc, rem)" "\<forall>conn. (tcp_abs st')((loc, rem) \<mapsto> conn) = (tcp_abs st)((loc, rem) \<mapsto> conn)"
proof (cases "tcp_abs st (loc, rem)")
  case None
  then have n: "\<forall>c < tcb_count st. conn_key (tcb st c) \<noteq> (loc, rem)" by (simp add: tcp_abs_None)
  obtain st1 where st1: "tcp_new_connection loc rem st = Some (tcb_count st, st1)" "tcp_inv K st1"
    "tcb_count st1 = Suc (tcb_count st)" "tcb st1 = (tcb st)(tcb_count st := tcp_calloc loc rem)"
    using tcp_new_ok [OF assms(1,2) n] .
  let ?c = "tcb_count st"
  let ?st = "st1\<lparr>tcb := (tcb st1)(?c := tcp_listener loc rem)\<rparr>"
  have u: "tcp_inv K ?st" "tcp_abs ?st = (tcp_abs st1)((loc, rem) \<mapsto> tcp_listener loc rem)"
    using tcp_inv_update [OF st1(2), of ?c "tcp_listener loc rem"] st1(3,4) by simp_all
  have "tcp_abs st1 a = tcp_abs st a" if "a \<noteq> (loc, rem)" for a
  proof -
    have "(\<exists>c < Suc ?c. ((tcb st)(?c := tcp_calloc loc rem)) c = d \<and> conn_key d = a) \<longleftrightarrow>
        (\<exists>c < ?c. tcb st c = d \<and> conn_key d = a)" for d
      using that by (force simp: less_Suc_eq)
    then have "tcp_abs st1 a = Some d \<longleftrightarrow> tcp_abs st a = Some d" for d
      unfolding tcp_abs_Some [OF st1(2)] tcp_abs_Some [OF assms(1)] st1(3,4) .
    then show ?thesis by (metis option.exhaust)
  qed
  then have "(tcp_abs ?st)((loc, rem) \<mapsto> conn) = (tcp_abs st)((loc, rem) \<mapsto> conn)" for conn
    unfolding u(2) by (intro ext) simp
  moreover have "tcp_lookup loc rem tcp st = Some (Some ?c, ?st)"
    using tcp_find_None [OF assms(1,2) n] st1(1,4) assms(3) None
    by (simp add: tcp_lookup_def tcp_accepts_def tcp_listener_def)
  ultimately show thesis using that [of ?c ?st] u(1) st1(3) None by simp
next
  case (Some conn)
  then obtain c where c: "c < tcb_count st" "tcb st c = conn" "conn_key (tcb st c) = (loc, rem)"
    using tcp_abs_Some [OF assms(1)] by auto
  then have "tcp_find_connection loc rem st = Some (Some c)" using tcp_find_Some [OF assms(1)] by simp
  then have "tcp_lookup loc rem tcp st = Some (Some c, st)"
    using assms(3) Some by (simp add: tcp_lookup_def tcp_accepts_def)
  then show thesis using that [of c st] c assms(1) Some by simp
qed

lemma tcp_hdr_size_range: "tcp_hdr_size h > 0 \<Longrightarrow> 20 \<le> tcp_hdr_size h \<and> tcp_hdr_size h \<le> 60"
proof -
  let ?d = "drop_bit 12 (tcp_flags h AND TCP_DOFF_MASK)"
  assume "tcp_hdr_size h > 0"
  then have "\<not> (?d < 5 \<or> ?d > 15)" by (auto simp: tcp_hdr_size_def errno_defs)
  then have "5 \<le> ?d" "?d \<le> 15" by auto
  then have "5 \<le> uint ?d" "uint ?d \<le> 15" by (simp_all add: word_le_def)
  then show ?thesis using \<open>\<not> (?d < 5 \<or> ?d > 15)\<close> by (simp add: tcp_hdr_size_def Let_def)
qed

lemma tcp_fsm_reply: "tcp_fsm conn rs = (r, conn', rs') \<Longrightarrow> r > 0 \<Longrightarrow> r = tcp_hdr_size rs'"
  by (auto simp: tcp_fsm_def Let_def errno_defs split: tcp_state.splits if_splits)

text \<open>The memory after a segment was processed: the host-order header, or the reply.\<close>

lemma tcp_input_accepted:
  assumes I: "tcp_inv K st" "(loc, rem) \<in> K" and b: "20 \<le> bsize" "60 \<le> length payload"
    and l: "tcp_load payload = Some net" "loc = \<lparr>inet4_addr = ip_dst ip, port = uint (ntohs (tcp_dport net))\<rparr>"
    and r: "rem = \<lparr>inet4_addr = ip_src ip, port = uint (ntohs (tcp_sport net))\<rparr>"
    and a: "tcp_accepts (tcp_abs st (loc, rem)) (tcp_ntoh net)"
    and f: "tcp_fsm (case tcp_abs st (loc, rem) of None \<Rightarrow> tcp_listener loc rem | Some conn \<Rightarrow> conn) (tcp_ntoh net) =
      (retval, conn, rs)"
  obtains payload' st' where "tcp_input ip payload bsize st = Some (retval, payload', st')" "tcp_inv K st'"
    "tcp_abs st' = (tcp_abs st)((loc, rem) \<mapsto> conn)" "drop 20 payload' = drop 20 payload"
    "retval > 0 \<Longrightarrow> \<exists>c. tcp_load payload' = Some ((tcp_swap (rs\<lparr>tcp_sport := tcp_dport (tcp_ntoh net),
       tcp_dport := tcp_sport (tcp_ntoh net)\<rparr>))\<lparr>tcp_csum := c\<rparr>)"
    "retval > 0 \<Longrightarrow> tcp_checksum (inet4_addr loc) (inet4_addr rem) (take (nat retval) payload') = 0"
proof -
  obtain c st1 where st1: "tcp_lookup loc rem (tcp_ntoh net) st = Some (Some c, st1)" "tcp_inv K st1"
    "c < tcb_count st1" "tcb st1 c = (case tcp_abs st (loc, rem) of None \<Rightarrow> tcp_listener loc rem | Some conn \<Rightarrow> conn)"
    "conn_key (tcb st1 c) = (loc, rem)" "\<forall>conn. (tcp_abs st1)((loc, rem) \<mapsto> conn) = (tcp_abs st)((loc, rem) \<mapsto> conn)"
    using tcp_lookup_accepted [OF I a] .
  let ?st = "st1\<lparr>tcb := (tcb st1)(c := conn)\<rparr>"
  have k: "conn_key conn = (loc, rem)" using tcp_fsm_addr [OF f] st1(4,5) by (simp add: conn_key_def)
  have u: "tcp_inv K ?st" "tcp_abs ?st = (tcp_abs st)((loc, rem) \<mapsto> conn)"
    using tcp_inv_update [OF st1(2,3), of conn] k st1(5,6) by simp_all
  let ?pl = "tcp_store (tcp_ntoh net) @ drop 20 payload"
  have pl: "mem_write payload 0 (tcp_store (tcp_ntoh net)) = Some ?pl" using b(2) by (simp add: mem_write_def)
  show thesis
  proof (cases "retval > 0")
    case True
    have "20 \<le> nat retval \<and> nat retval \<le> 60"
      using tcp_hdr_size_range [of rs] tcp_fsm_reply [OF f True] True by auto
    then have n: "20 \<le> nat retval" "nat retval \<le> length ?pl" using b(2) by simp_all
    let ?h = "rs\<lparr>tcp_sport := tcp_dport (tcp_ntoh net), tcp_dport := tcp_sport (tcp_ntoh net)\<rparr>"
    obtain cs where cs: "tcp_hton loc rem ?h ?pl (nat retval) = Some (tcp_store ((tcp_swap ?h)\<lparr>tcp_csum := cs\<rparr>) @ drop 20 ?pl)"
      "tcp_checksum (inet4_addr loc) (inet4_addr rem)
        (take (nat retval) (tcp_store ((tcp_swap ?h)\<lparr>tcp_csum := cs\<rparr>) @ drop 20 ?pl)) = 0"
      using tcp_hton_ok [OF n, of loc rem ?h] .
    have "tcp_input ip payload bsize st = Some (retval, tcp_store ((tcp_swap ?h)\<lparr>tcp_csum := cs\<rparr>) @ drop 20 ?pl, ?st)"
      using b(1) l r pl st1(1,4) f True cs(1) by (simp add: tcp_input_def Let_def tcp_ntoh_def)
    then show thesis using that u cs(2) by auto
  next
    case False
    have "tcp_input ip payload bsize st = Some (retval, tcp_store rs @ drop 20 payload, ?st)"
      using b l r pl st1(1,4) f False by (simp add: tcp_input_def Let_def mem_write_def)
    then show thesis using that u False by auto
  qed
qed

section \<open>Properties\<close>

definition tcp_boot :: tcp_table where
  "tcp_boot = \<lparr>tcb = (\<lambda>_. tcp_calloc \<lparr>inet4_addr = 0, port = 0\<rparr> \<lparr>inet4_addr = 0, port = 0\<rparr>), tcb_count = 0,
     tcp_conn_map = \<lparr>rbh_root = None, links = (\<lambda>_. rb_entry_zero)\<rparr>\<rparr>"

lemma tcp_inv_boot: "addr_chain K \<Longrightarrow> tcp_inv K tcp_boot"
  using rb_set_init [of tcp_rank "tcb tcp_boot" "tcp_conn_map tcp_boot"]
  by (simp add: tcp_inv_def tcp_boot_def RB_INIT_def)

text \<open>C24: The order of events: whatever segments arrive, a connection that started to listen is in
  \<^verbatim>\<open>SYN_RCVD\<close> only after a SYN, established only after a SYN and then an ACK, in \<^verbatim>\<open>LAST_ACK\<close> only after a
  FIN that followed them, and closed only after one more ACK.\<close>

theorem tcp_lifecycle:
  assumes "state conn = TCP_LISTEN"
  shows "\<exists>gs. subseq gs segs \<and> list_all2 has_flag gs (tcp_phase (state (tcp_run conn segs)))"
  using tcp_run_phase [OF assms] .

definition example_seg :: "u16 \<Rightarrow> u32 \<Rightarrow> u32 \<Rightarrow> tcp_hdr" where
  "example_seg flags seq ack = \<lparr>tcp_sport = 9, tcp_dport = 80, tcp_seqno = seq, tcp_ack_num = ack,
     tcp_flags = 0x5000 OR flags, tcp_win_size = 0, tcp_csum = 0, tcp_urg_ptr = 0\<rparr>"

lemma tcp_lifecycle_witness:
  "state (tcp_run (tcp_listener \<lparr>inet4_addr = 1, port = 80\<rparr> \<lparr>inet4_addr = 2, port = 9\<rparr>)
     [example_seg 2 100 0, example_seg 0x10 101 1, example_seg 0x11 101 1, example_seg 0x10 102 2]) = TCP_CLOSED \<and>
   (\<exists>gs. subseq gs [example_seg 2 100 0, example_seg 0x10 101 1, example_seg 0x11 101 1, example_seg 0x10 102 2] \<and>
      list_all2 has_flag gs [TCP_SYN, TCP_ACK, TCP_FIN, TCP_ACK])"
proof -
  let ?c = "tcp_listener \<lparr>inet4_addr = 1, port = 80\<rparr> \<lparr>inet4_addr = 2, port = 9\<rparr>"
  let ?s = "[example_seg 2 100 0, example_seg 0x10 101 1, example_seg 0x11 101 1, example_seg 0x10 102 2]"
  have l: "state ?c = TCP_LISTEN" by (simp add: tcp_listener_def)
  have r: "state (tcp_run ?c ?s) = TCP_CLOSED" by code_simp
  then show ?thesis using tcp_lifecycle [OF l, of ?s] by simp
qed

text \<open>C16: \<^verbatim>\<open>tcp_input\<close> hands a segment to the connection with exactly its local and remote address and port, or to a
  new listening one for a SYN without connection, changes that connection alone, and sends back the header the state
  machine made, with the ports exchanged and a checksum that verifies. It refuses every other segment with
  \<^verbatim>\<open>-EINVAL\<close> and a short one with \<^verbatim>\<open>-EBADMSG\<close>, and changes no connection then. The pairs of addresses of the
  connections and of the segment are in a set \<open>K\<close> of which any two pairs have local and remote addresses in the same
  order (\<open>addr_chain\<close>), such as all clients of one local port or all local ports of one client; for other pairs the
  comparison is no order, and two connections can be mistaken for each other (\<open>tcp_conn_cmp_confuses\<close>).\<close>

theorem tcp_input_correct:
  assumes "tcp_inv K st" "60 \<le> length payload" "tcp_load payload = Some net"
    "loc = \<lparr>inet4_addr = ip_dst ip, port = uint (ntohs (tcp_dport net))\<rparr>"
    "rem = \<lparr>inet4_addr = ip_src ip, port = uint (ntohs (tcp_sport net))\<rparr>"
    "(loc, rem) \<in> K"
    "tcp_fsm (case tcp_abs st (loc, rem) of None \<Rightarrow> tcp_listener loc rem | Some conn \<Rightarrow> conn) (tcp_ntoh net) =
      (retval, conn, rs)"
  shows "\<exists>r payload' st'. tcp_input ip payload bsize st = Some (r, payload', st') \<and> tcp_inv K st' \<and>
    (if bsize < 20 then r = - EBADMSG \<and> st' = st
     else if tcp_accepts (tcp_abs st (loc, rem)) (tcp_ntoh net)
     then r = retval \<and> tcp_abs st' = (tcp_abs st)((loc, rem) \<mapsto> conn) \<and>
       (retval \<le> 0 \<or> (\<exists>c. tcp_load payload' = Some ((tcp_swap (rs\<lparr>tcp_sport := tcp_dport (tcp_ntoh net),
           tcp_dport := tcp_sport (tcp_ntoh net)\<rparr>))\<lparr>tcp_csum := c\<rparr>)) \<and>
         tcp_checksum (inet4_addr loc) (inet4_addr rem) (take (nat retval) payload') = 0)
     else r = - EINVAL \<and> st' = st)"
proof (cases "bsize < 20")
  case True
  then show ?thesis using assms(1) by (simp add: tcp_input_def)
next
  case b: False
  show ?thesis
  proof (cases "tcp_accepts (tcp_abs st (loc, rem)) (tcp_ntoh net)")
    case True
    obtain payload' st' where "tcp_input ip payload bsize st = Some (retval, payload', st')" "tcp_inv K st'"
      "tcp_abs st' = (tcp_abs st)((loc, rem) \<mapsto> conn)"
      "retval > 0 \<Longrightarrow> \<exists>c. tcp_load payload' = Some ((tcp_swap (rs\<lparr>tcp_sport := tcp_dport (tcp_ntoh net),
         tcp_dport := tcp_sport (tcp_ntoh net)\<rparr>))\<lparr>tcp_csum := c\<rparr>)"
      "retval > 0 \<Longrightarrow> tcp_checksum (inet4_addr loc) (inet4_addr rem) (take (nat retval) payload') = 0"
      using tcp_input_accepted [OF assms(1,6) _ assms(2-5) True assms(7), of bsize] b by (metis leI)
    then show ?thesis using True b by (cases "retval > 0") auto
  next
    case False
    have "tcp_lookup loc rem (tcp_ntoh net) st = Some (None, st)" using tcp_lookup_refused [OF assms(1,6) False] .
    then show ?thesis using b assms False by (simp add: tcp_input_def Let_def mem_write_def)
  qed
qed

lemma tcp_input_correct_witness:
  "tcp_inv ({\<lparr>inet4_addr = 0x0a000002, port = 80\<rparr>} \<times> {rem. port_ok rem}) tcp_boot \<and>
   (\<exists>payload' st'. tcp_input \<lparr>ip_vhl = 0x45, ip_tos = 0, ip_len = 40, ip_id = 7, ip_foff = 0, ip_ttl = 64,
        ip_proto = 6, ip_csum = 0, ip_src = 0x0a000001, ip_dst = 0x0a000002\<rparr>
      (tcp_store (tcp_swap (example_seg 2 100 0)) @ replicate 40 0) 20 tcp_boot = Some (20, payload', st') \<and>
     tcp_abs st' = [(\<lparr>inet4_addr = 0x0a000002, port = 80\<rparr>, \<lparr>inet4_addr = 0x0a000001, port = 9\<rparr>) \<mapsto>
       \<lparr>local = \<lparr>inet4_addr = 0x0a000002, port = 80\<rparr>, remote = \<lparr>inet4_addr = 0x0a000001, port = 9\<rparr>,
        state = TCP_SYN_RCVD, recv_next = 101, send_next = 1\<rparr>])"
proof -
  let ?ip = "\<lparr>ip_vhl = 0x45, ip_tos = 0, ip_len = 40, ip_id = 7, ip_foff = 0, ip_ttl = 64,
        ip_proto = 6, ip_csum = 0, ip_src = 0x0a000001, ip_dst = 0x0a000002\<rparr> :: ip_hdr"
  let ?loc = "\<lparr>inet4_addr = 0x0a000002, port = 80\<rparr>" and ?rem = "\<lparr>inet4_addr = 0x0a000001, port = 9\<rparr>"
  let ?net = "tcp_swap (example_seg 2 100 0)"
  have e: "tcp_abs tcp_boot = Map.empty" by (rule ext) (simp add: tcp_abs_def tcp_boot_def)
  have l: "tcp_load (tcp_store ?net @ replicate 40 0) = Some ?net" by simp
  have n: "tcp_ntoh ?net = example_seg 2 100 0" by (simp add: tcp_ntoh_swap)
  have a: "?loc = \<lparr>inet4_addr = ip_dst ?ip, port = uint (ntohs (tcp_dport ?net))\<rparr>"
    "?rem = \<lparr>inet4_addr = ip_src ?ip, port = uint (ntohs (tcp_sport ?net))\<rparr>" by code_simp+
  have i: "tcp_inv ({?loc} \<times> {rem. port_ok rem}) tcp_boot" by (rule tcp_inv_boot [OF addr_chain_service(1)]) (simp add: port_ok_def)
  have k: "(?loc, ?rem) \<in> {?loc} \<times> {rem. port_ok rem}" by (simp add: port_ok_def)
  let ?conn = "\<lparr>local = ?loc, remote = ?rem, state = TCP_SYN_RCVD, recv_next = 101, send_next = 1\<rparr>"
  let ?rs = "(example_seg 0x12 0 101)"
  have "tcp_fsm (tcp_listener ?loc ?rem) (example_seg 2 100 0) = (20, ?conn, ?rs)" by code_simp
  then have f: "tcp_fsm (case tcp_abs tcp_boot (?loc, ?rem) of None \<Rightarrow> tcp_listener ?loc ?rem | Some conn \<Rightarrow> conn) (tcp_ntoh ?net) =
      (20, ?conn, ?rs)" unfolding n by (simp add: e)
  have "has_flag (example_seg 2 100 0) TCP_SYN" by code_simp
  then have acc: "tcp_accepts (tcp_abs tcp_boot (?loc, ?rem)) (tcp_ntoh ?net)" unfolding n by (simp add: e tcp_accepts_def)
  have p: "60 \<le> length (tcp_store ?net @ replicate 40 0)" by simp
  show ?thesis
    using tcp_input_correct [OF i p l a k f, of 20] acc e i by auto
qed

text \<open>\<^verbatim>\<open>tcp_hton\<close> and \<^verbatim>\<open>tcp_ntoh\<close> are inverse up to the checksum field, leave options and data as they are,
  and the segment that goes out has a checksum that verifies.\<close>

lemma tcp_hdr_roundtrip:
  assumes "20 \<le> bsize" "bsize \<le> length net"
  shows "\<exists>net' c. tcp_hton src dst host net bsize = Some net' \<and> map_option tcp_ntoh (tcp_load net') = Some (host\<lparr>tcp_csum := c\<rparr>) \<and>
    drop 20 net' = drop 20 net \<and> tcp_checksum (inet4_addr src) (inet4_addr dst) (take bsize net') = 0"
proof -
  obtain c where c: "tcp_hton src dst host net bsize = Some (tcp_store ((tcp_swap host)\<lparr>tcp_csum := c\<rparr>) @ drop 20 net)"
    "tcp_checksum (inet4_addr src) (inet4_addr dst)
      (take bsize (tcp_store ((tcp_swap host)\<lparr>tcp_csum := c\<rparr>) @ drop 20 net)) = 0"
    using tcp_hton_ok [OF assms] .
  have "tcp_ntoh ((tcp_swap host)\<lparr>tcp_csum := c\<rparr>) = host\<lparr>tcp_csum := c\<rparr>" by (simp add: tcp_ntoh_swap)
  then show ?thesis using c by fastforce
qed

section \<open>What the comparison and the lookup get wrong\<close>

text \<open>Two different connections compare equal, so a segment of one reaches the other; and a SYN whose header
  length is invalid is answered with \<^verbatim>\<open>-EINVAL\<close> but leaves a half-open connection behind.\<close>

lemma tcp_conn_cmp_confuses:
  "tcp_conn_cmp (tcp_calloc \<lparr>inet4_addr = 1, port = 80\<rparr> \<lparr>inet4_addr = 2, port = 11\<rparr>)
     (tcp_calloc \<lparr>inet4_addr = 1, port = 81\<rparr> \<lparr>inet4_addr = 2, port = 10\<rparr>) = 0"
  by code_simp

lemma tcp_bad_header_half_open:
  "tcp_fsm (tcp_listener loc rem)
     \<lparr>tcp_sport = 9, tcp_dport = 80, tcp_seqno = 5, tcp_ack_num = 0, tcp_flags = 0x0002, tcp_win_size = 0,
      tcp_csum = 0, tcp_urg_ptr = 0\<rparr> = (r, conn, rs) \<Longrightarrow> r = - EINVAL \<and> state conn = TCP_SYN_RCVD"
  by (auto simp: tcp_fsm_def tcp_listener_def tcp_calloc_def has_flag_def tcp_consts tcp_hdr_size_def Let_def)

end
