(* ===== verification/Socket.thy ===== *)
theory Socket
  imports Queue_R Sockaddr
begin

text \<open>
  Datagram sockets: the shared memory of a socket (\<^verbatim>\<open>include/xstack_socket.h\<close>), the stack's side of it
  (\<^verbatim>\<open>xstack_sock_dgram_input\<close> and the set-up in \<^verbatim>\<open>src/xstack.c\<close>) and the client library
  \<^verbatim>\<open>lib/xstack.c\<close>.

  The shared memory holds a control block, and for each direction a queue control block and a data area of
  four blocks of 4096 bytes. The areas are byte lists; a datagram is written at the byte offset the queue
  hands out, and nothing but the end of the area stops it from running into the next block. The
  functions that spin until the other side makes progress (\<^verbatim>\<open>queue_alloc\<close> on a full queue,
  \<^verbatim>\<open>queue_peek\<close> on an empty one) give \<open>None\<close> in a state in which they would wait; what the other
  side may do in the meantime is the subject of \<open>Queue_R.spsc_fifo\<close>. The processes that were sent
  \<^verbatim>\<open>SIGUSR2\<close> are recorded.
\<close>

definition XSTACK_DATAGRAM_SIZE_MAX :: nat where "XSTACK_DATAGRAM_SIZE_MAX = 4096"
definition XSTACK_DATAGRAM_BUF_SIZE :: nat where "XSTACK_DATAGRAM_BUF_SIZE = 16384"
definition XSTACK_SOCK_PORT_MAX :: int where "XSTACK_SOCK_PORT_MAX = 49151"
definition SIZEOF_SOCK_CTRL :: nat where "SIZEOF_SOCK_CTRL = 8"
definition SIZEOF_QUEUE_CB :: nat where "SIZEOF_QUEUE_CB = 32"
definition SIZEOF_DGRAM :: nat where "SIZEOF_DGRAM = 24"

lemmas sock_consts = XSTACK_DATAGRAM_SIZE_MAX_def XSTACK_DATAGRAM_BUF_SIZE_def XSTACK_SOCK_PORT_MAX_def
  SIZEOF_SOCK_CTRL_def SIZEOF_QUEUE_CB_def SIZEOF_DGRAM_def

section \<open>The layout of the shared memory\<close>

definition XSTACK_SHMEM_SIZE :: nat where
  "XSTACK_SHMEM_SIZE = SIZEOF_SOCK_CTRL + 2 * SIZEOF_QUEUE_CB + 2 * XSTACK_DATAGRAM_BUF_SIZE"

definition XSTACK_SOCK_CTRL :: "nat \<Rightarrow> nat" where
  "XSTACK_SOCK_CTRL x = x"

definition XSTACK_INGRESS_QADDR :: "nat \<Rightarrow> nat" where
  "XSTACK_INGRESS_QADDR x = XSTACK_SOCK_CTRL x + SIZEOF_SOCK_CTRL"

definition XSTACK_INGRESS_DADDR :: "nat \<Rightarrow> nat" where
  "XSTACK_INGRESS_DADDR x = XSTACK_INGRESS_QADDR x + SIZEOF_QUEUE_CB"

definition XSTACK_EGRESS_QADDR :: "nat \<Rightarrow> nat" where
  "XSTACK_EGRESS_QADDR x = XSTACK_INGRESS_DADDR x + XSTACK_DATAGRAM_BUF_SIZE"

definition XSTACK_EGRESS_DADDR :: "nat \<Rightarrow> nat" where
  "XSTACK_EGRESS_DADDR x = XSTACK_EGRESS_QADDR x + SIZEOF_QUEUE_CB"

text \<open>The objects in the memory: address and size.\<close>

definition shmem_objects :: "nat \<Rightarrow> (nat \<times> nat) list" where
  "shmem_objects x =
     [(XSTACK_SOCK_CTRL x, SIZEOF_SOCK_CTRL), (XSTACK_INGRESS_QADDR x, SIZEOF_QUEUE_CB),
      (XSTACK_INGRESS_DADDR x, XSTACK_DATAGRAM_BUF_SIZE), (XSTACK_EGRESS_QADDR x, SIZEOF_QUEUE_CB),
      (XSTACK_EGRESS_DADDR x, XSTACK_DATAGRAM_BUF_SIZE)]"

section \<open>Sockets\<close>

datatype xstack_sock_dom = XF_INET4 | XF_INET6
datatype xstack_sock_type = XSOCK_DGRAM | XSOCK_STREAM
datatype xstack_sock_proto = XIP_PROTO_NONE | XIP_PROTO_TCP | XIP_PROTO_UDP | XIP_PROTO_LAST

record xstack_shmem =
  pid_inetd :: int
  pid_end :: int
  ingress_q :: queue_cb
  ingress_data :: bytes
  egress_q :: queue_cb
  egress_data :: bytes

record xstack_sock =
  sock_dom :: xstack_sock_dom
  sock_type :: xstack_sock_type
  sock_proto :: xstack_sock_proto
  sock_addr :: xstack_sockaddr
  sock_shmem :: xstack_shmem
  sigusr2 :: "int list"

section \<open>Datagrams in memory\<close>

definition store64 :: "size_t \<Rightarrow> bytes" where
  "store64 w = store32 (ucast w) @ store32 (ucast (drop_bit 32 w))"

definition load64 :: "bytes \<Rightarrow> size_t" where
  "load64 b = ucast (load32 (b ! 0) (b ! 1) (b ! 2) (b ! 3)) OR
     push_bit 32 (ucast (load32 (b ! 4) (b ! 5) (b ! 6) (b ! 7)))"

record xstack_dgram =
  srcaddr :: xstack_sockaddr
  dstaddr :: xstack_sockaddr
  dgram_size :: size_t

definition dgram_store :: "xstack_dgram \<Rightarrow> bytes" where
  "dgram_store d = sockaddr_store (srcaddr d) @ sockaddr_store (dstaddr d) @ store64 (dgram_size d)"

definition dgram_load :: "bytes \<Rightarrow> nat \<Rightarrow> xstack_dgram option" where
  "dgram_load area off = do {
     b \<leftarrow> mem_read area off SIZEOF_DGRAM;
     Some \<lparr>srcaddr = sockaddr_load b, dstaddr = sockaddr_load (drop 8 b), dgram_size = load64 (drop 16 b)\<rparr>
   }"

section \<open>The stack's side\<close>

text \<open>The set-up of one socket in \<^verbatim>\<open>xstack_init\<close>: the memory is cleared and both queues are created.\<close>

definition sock_create :: "int \<Rightarrow> xstack_sock \<Rightarrow> xstack_sock option" where
  "sock_create mypid sock = do {
     q \<leftarrow> queue_create (of_nat XSTACK_DATAGRAM_SIZE_MAX) (of_nat XSTACK_DATAGRAM_BUF_SIZE);
     Some (sock\<lparr>sock_shmem := \<lparr>pid_inetd = mypid, pid_end = 0,
       ingress_q = q, ingress_data = replicate XSTACK_DATAGRAM_BUF_SIZE 0,
       egress_q = q, egress_data = replicate XSTACK_DATAGRAM_BUF_SIZE 0\<rparr>\<rparr>)
   }"

definition xstack_sock_dgram_input ::
  "xstack_sockaddr \<Rightarrow> bytes \<Rightarrow> xstack_sock \<Rightarrow> (int \<times> xstack_sock) option" where
  "xstack_sock_dgram_input src buf sock = do {
     let m = sock_shmem sock;
     dgram_index \<leftarrow> queue_alloc (ingress_q m);
     if dgram_index = -1 then None
     else do {
       let off = nat dgram_index;
       area \<leftarrow> mem_write (ingress_data m) off
         (dgram_store \<lparr>srcaddr = src, dstaddr = sock_addr sock, dgram_size = of_nat (length buf)\<rparr>);
       area \<leftarrow> mem_write area (off + SIZEOF_DGRAM) buf;
       q \<leftarrow> queue_commit (ingress_q m);
       Some (0, sock\<lparr>sock_shmem := m\<lparr>ingress_data := area, ingress_q := q\<rparr>, sigusr2 := sigusr2 sock @ [pid_end m]\<rparr>)
     }
   }"

section \<open>The client library\<close>

text \<open>\<^verbatim>\<open>xstack_listen\<close>: whether the file can be opened and mapped is given; \<open>None\<close> is the return of NULL.\<close>

definition xstack_listen :: "bool \<Rightarrow> bool \<Rightarrow> int \<Rightarrow> xstack_shmem \<Rightarrow> xstack_shmem option" where
  "xstack_listen opened mapped mypid m =
     (if \<not> opened then None else if \<not> mapped then None else Some (m\<lparr>pid_end := mypid\<rparr>))"

definition XSTACK_MSG_PEEK :: u32 where "XSTACK_MSG_PEEK = 1"

definition xstack_recvfrom ::
  "size_t \<Rightarrow> u32 \<Rightarrow> xstack_shmem \<Rightarrow> (nat \<times> bytes \<times> xstack_sockaddr \<times> xstack_shmem) option" where
  "xstack_recvfrom len flags m = do {
     dgram_index \<leftarrow> snd (queue_peek (ingress_q m));
     let off = nat dgram_index;
     d \<leftarrow> dgram_load (ingress_data m) off;
     let rd = unat (smin len (dgram_size d));
     buffer \<leftarrow> mem_read (ingress_data m) (off + SIZEOF_DGRAM) rd;
     if flags AND XSTACK_MSG_PEEK = 0 then do {
       (q, _) \<leftarrow> queue_discard (ingress_q m) 1;
       Some (rd, buffer, srcaddr d, m\<lparr>ingress_q := q\<rparr>)
     } else Some (rd, buffer, srcaddr d, m)
   }"

text \<open>\<^verbatim>\<open>xstack_sendto\<close>: \<open>Inl\<close> is the value of \<^verbatim>\<open>errno\<close> with the return of -1; on success also the process that is
  signalled. The size field of the datagram is not written.\<close>

definition xstack_sendto ::
  "bytes \<Rightarrow> xstack_sockaddr \<Rightarrow> xstack_shmem \<Rightarrow> ((int + nat \<times> int) \<times> xstack_shmem) option" where
  "xstack_sendto buffer dest m =
     (if length buffer > XSTACK_DATAGRAM_SIZE_MAX then Some (Inl ENOBUFS, m)
      else do {
        dgram_index \<leftarrow> queue_alloc (egress_q m);
        if dgram_index = -1 then None
        else do {
          let off = nat dgram_index;
          area \<leftarrow> mem_write (egress_data m) off (replicate 8 0);
          area \<leftarrow> mem_write area (off + 8) (sockaddr_store dest);
          area \<leftarrow> mem_write area (off + SIZEOF_DGRAM) buffer;
          q \<leftarrow> queue_commit (egress_q m);
          Some (Inr (length buffer, pid_inetd m), m\<lparr>egress_data := area, egress_q := q\<rparr>)
        }
      })"

section \<open>Memory lemmas\<close>

lemma length_store64 [simp]: "length (store64 w) = 8"
  by (simp add: store64_def)

lemma load_store64: "load64 (store64 w @ rest) = w"
proof -
  have "load32 (store32 v ! 0) (store32 v ! Suc 0) (store32 v ! 2) (store32 v ! 3) = v" for v
    using load_store32 [of v] by simp
  then have "load64 (store64 w @ rest) = ucast (ucast w :: u32) OR push_bit 32 (ucast (ucast (drop_bit 32 w) :: u32))"
    by (simp add: load64_def store64_def nth_append)
  also have "\<dots> = w" by (rule bit_word_eqI) (auto simp: bit_simps)
  finally show ?thesis .
qed

lemma length_dgram_store [simp]: "length (dgram_store d) = SIZEOF_DGRAM"
  by (simp add: dgram_store_def SIZEOF_DGRAM_def)

lemma dgram_load_read:
  assumes "mem_read area off SIZEOF_DGRAM = Some (dgram_store d)" "port_ok (srcaddr d)" "port_ok (dstaddr d)"
  shows "dgram_load area off = Some d"
proof -
  have "drop 8 (dgram_store d) = sockaddr_store (dstaddr d) @ store64 (dgram_size d)"
    "drop 16 (dgram_store d) = store64 (dgram_size d) @ []"
    "dgram_store d = sockaddr_store (srcaddr d) @ (sockaddr_store (dstaddr d) @ store64 (dgram_size d))"
    by (simp_all add: dgram_store_def)
  then show ?thesis
    unfolding dgram_load_def assms(1) using sockaddr_load_store [OF assms(2)] sockaddr_load_store [OF assms(3)]
      load_store64 [of "dgram_size d" "[]"]
    by simp
qed

section \<open>The queue of datagrams\<close>

text \<open>The block at an offset holds a datagram that fits it.\<close>

fun block_holds :: "bytes \<Rightarrow> int \<Rightarrow> xstack_sockaddr \<times> xstack_sockaddr \<times> bytes \<Rightarrow> bool" where
  "block_holds area off (src, dst, data) \<longleftrightarrow>
     mem_read area (nat off) SIZEOF_DGRAM =
       Some (dgram_store \<lparr>srcaddr = src, dstaddr = dst, dgram_size = of_nat (length data)\<rparr>) \<and>
     mem_read area (nat off + SIZEOF_DGRAM) (length data) = Some data \<and>
     SIZEOF_DGRAM + length data \<le> XSTACK_DATAGRAM_SIZE_MAX \<and> port_ok src \<and> port_ok dst"

definition sock_queue :: "queue_cb \<Rightarrow> bytes \<Rightarrow> bool" where
  "sock_queue q area \<longleftrightarrow> queue_wf q \<and> b_size q = 4096 \<and> a_len q = 4 \<and> length area = XSTACK_DATAGRAM_BUF_SIZE"

text \<open>The datagrams waiting in the ingress queue, oldest first.\<close>

definition pending :: "xstack_shmem \<Rightarrow> (xstack_sockaddr \<times> xstack_sockaddr \<times> bytes) list \<Rightarrow> bool" where
  "pending m msgs \<longleftrightarrow> sock_queue (ingress_q m) (ingress_data m) \<and>
     list_all2 (block_holds (ingress_data m)) (queue_offsets (ingress_q m)) msgs"

lemma pending_length: "pending m msgs \<Longrightarrow> length msgs = queue_count (ingress_q m)"
  by (auto simp: pending_def dest: list_all2_lengthD)

lemma sock_offsets:
  assumes "sock_queue q area" "off \<in> set (queue_offsets q)"
  obtains k where "off = int (k * 4096)" "k < 4"
proof -
  have "unat (a_len q) = 4" "unat (b_size q) = 4096" using assms(1) by (simp_all add: sock_queue_def)
  then show thesis using assms(2) that by (auto simp: queue_offsets_def queue_slot_def)
qed

lemma sock_write_offset:
  assumes "sock_queue q area"
  obtains k where "write_offset q = int (k * 4096)" "k < 4"
proof -
  have "unat (a_len q) = 4" "unat (b_size q) = 4096" "unat (m_write q) < unat (a_len q)"
    using assms by (auto simp: sock_queue_def queue_wf_def)
  then show thesis using that [of "unat (m_write q)"] by (simp add: write_offset_def)
qed

text \<open>Filling one block leaves the others as they are.\<close>

lemma block_holds_other:
  assumes "block_holds area off msg" "off = int (j * 4096)" "j \<noteq> k" "k * 4096 \<le> w" "w + length xs \<le> (k + 1) * 4096"
    "mem_write area w xs = Some area'"
  shows "block_holds area' off msg"
proof (cases msg)
  case (fields src dst data)
  have far: "(j + 1) * 4096 \<le> k * 4096 \<or> (k + 1) * 4096 \<le> j * 4096" using assms(3) by (cases "j < k") auto
  have "mem_read area' (nat off + d) n = mem_read area (nat off + d) n" if "d + n \<le> 4096" for d n
    by (rule mem_read_write_other [OF assms(6)]) (use that far assms(2,4,5) in auto)
  from this [of 0] this show ?thesis
    using assms(1) fields by (simp add: sock_consts)
qed

lemma dgram_input_ok:
  assumes P: "pending (sock_shmem sock) msgs" and room: "length msgs < 3"
    and x: "length buf \<le> 4072" "port_ok src" "port_ok (sock_addr sock)"
  obtains sock' where "xstack_sock_dgram_input src buf sock = Some (0, sock')"
    "pending (sock_shmem sock') (msgs @ [(src, sock_addr sock, buf)])" "sock_addr sock' = sock_addr sock"
    "sigusr2 sock' = sigusr2 sock @ [pid_end (sock_shmem sock)]"
    "egress_q (sock_shmem sock') = egress_q (sock_shmem sock)"
    "egress_data (sock_shmem sock') = egress_data (sock_shmem sock)"
proof -
  let ?m = "sock_shmem sock"
  let ?q = "ingress_q ?m" and ?a = "ingress_data ?m"
  let ?d = "dgram_store \<lparr>srcaddr = src, dstaddr = sock_addr sock, dgram_size = of_nat (length buf)\<rparr>"
  have Q: "sock_queue ?q ?a" and B: "list_all2 (block_holds ?a) (queue_offsets ?q) msgs"
    using P by (simp_all add: pending_def)
  have wf: "queue_wf ?q" and len: "length ?a = 16384" "unat (a_len ?q) = 4"
    using Q by (simp_all add: sock_queue_def sock_consts)
  have r: "Suc (queue_count ?q) < unat (a_len ?q)" using room pending_length [OF P] len(2) by simp
  obtain k where k: "write_offset ?q = int (k * 4096)" "k < 4" using sock_write_offset [OF Q] .
  have "k * 4096 + 24 + length buf \<le> length ?a" using k(2) x(1) len(1) by simp
  then obtain a1 where a1: "mem_write ?a (k * 4096) ?d = Some a1" "length a1 = length ?a"
    by (auto simp: mem_write_def sock_consts)
  obtain a2 where a2: "mem_write a1 (k * 4096 + SIZEOF_DGRAM) buf = Some a2" "length a2 = length ?a"
    using \<open>k * 4096 + 24 + length buf \<le> length ?a\<close> a1(2) by (auto simp: mem_write_def sock_consts)
  obtain q' where q': "queue_commit ?q = Some q'" "queue_wf q'" "a_len q' = a_len ?q" "b_size q' = b_size ?q"
    "queue_offsets q' = queue_offsets ?q @ [write_offset ?q]"
    using queue_commit_wf [OF wf r] by metis
  let ?sock = "sock\<lparr>sock_shmem := ?m\<lparr>ingress_data := a2, ingress_q := q'\<rparr>, sigusr2 := sigusr2 sock @ [pid_end ?m]\<rparr>"
  have "xstack_sock_dgram_input src buf sock = Some (0, ?sock)"
    using queue_alloc_room [OF wf] r k(1) a1(1) a2(1) q'(1) by (simp add: xstack_sock_dgram_input_def nat_mult_distrib Let_def)
  moreover have "pending (sock_shmem ?sock) (msgs @ [(src, sock_addr sock, buf)])"
  proof -
    have "block_holds a2 off msg" if h: "block_holds ?a off msg" and o: "off \<in> set (queue_offsets ?q)" for off msg
    proof -
      obtain j where j: "off = int (j * 4096)" using sock_offsets [OF Q o] .
      have "j \<noteq> k" using write_offset_fresh [OF wf] o j k(1) by auto
      then have "block_holds a1 off msg"
        by (rule block_holds_other [OF h j _ _ _ a1(1)]) (simp_all add: sock_consts)
      then show ?thesis
        by (rule block_holds_other [OF _ j \<open>j \<noteq> k\<close> _ _ a2(1)]) (use x(1) in \<open>simp_all add: sock_consts\<close>)
    qed
    then have old: "list_all2 (block_holds a2) (queue_offsets ?q) msgs"
      using B by (auto simp: list_all2_conv_all_nth)
    have "mem_read a2 (k * 4096) SIZEOF_DGRAM = mem_read a1 (k * 4096) SIZEOF_DGRAM"
      by (rule mem_read_write_other [OF a2(1)]) simp
    then have "block_holds a2 (int (k * 4096)) (src, sock_addr sock, buf)"
      using mem_read_write [OF a1(1)] mem_read_write [OF a2(1)] x
      by (simp add: sock_consts nat_mult_distrib)
    then show ?thesis
      using old Q q' k(1) a2(2) by (simp add: pending_def sock_queue_def list_all2_appendI)
  qed
  ultimately show thesis using that [of ?sock] by simp
qed

lemma dgram_input_full:
  assumes "pending (sock_shmem sock) msgs" "length msgs = 3"
  shows "xstack_sock_dgram_input src buf sock = None"
proof -
  let ?q = "ingress_q (sock_shmem sock)"
  have "queue_wf ?q" "unat (a_len ?q) = 4" using assms(1) by (simp_all add: pending_def sock_queue_def)
  then have "queue_alloc ?q = Some (- 1)"
    using queue_alloc_room [of ?q] pending_length [OF assms(1)] assms(2) by simp
  then show ?thesis by (simp add: xstack_sock_dgram_input_def)
qed

lemma unat_smin:
  assumes "unat a < 2 ^ 32 \<or> unat b < 2 ^ 32"
  shows "unat (smin a b) = min (unat a) (unat b)"
proof -
  have "unat (if a < b then a else b) = min (unat a) (unat b)" by (auto simp: word_less_nat_alt)
  moreover have "min (unat a) (unat b) < 2 ^ 32" using assms by auto
  ultimately show ?thesis by (simp add: smin_def unsigned_ucast_eq take_bit_eq_mod)
qed

lemma recvfrom_ok:
  assumes P: "pending m ((src, dst, data) # msgs)"
  obtains m' where "xstack_recvfrom len flags m = Some (min (unat len) (length data), take (unat len) data, src, m')"
    "pending m' (if flags AND XSTACK_MSG_PEEK = 0 then msgs else (src, dst, data) # msgs)"
    "egress_q m' = egress_q m" "egress_data m' = egress_data m"
proof -
  let ?q = "ingress_q m" and ?a = "ingress_data m"
  have Q: "sock_queue ?q ?a" and B: "list_all2 (block_holds ?a) (queue_offsets ?q) ((src, dst, data) # msgs)"
    using P by (simp_all add: pending_def)
  have wf: "queue_wf ?q" using Q by (simp add: sock_queue_def)
  have c: "queue_count ?q \<noteq> 0" using pending_length [OF P] by simp
  obtain off offs where o: "queue_offsets ?q = off # offs" "block_holds ?a off (src, dst, data)"
    "list_all2 (block_holds ?a) offs msgs" using B by (auto simp: list_all2_Cons2)
  have h: "mem_read ?a (nat off) SIZEOF_DGRAM =
       Some (dgram_store \<lparr>srcaddr = src, dstaddr = dst, dgram_size = of_nat (length data)\<rparr>)"
    "mem_read ?a (nat off + SIZEOF_DGRAM) (length data) = Some data" "length data \<le> 4072" "port_ok src" "port_ok dst"
    using o(2) by (auto simp: sock_consts)
  have p: "snd (queue_peek ?q) = Some off" using queue_peek_hd [OF wf] c o(1) by simp
  have d: "dgram_load ?a (nat off) = Some \<lparr>srcaddr = src, dstaddr = dst, dgram_size = of_nat (length data)\<rparr>"
    using dgram_load_read [OF h(1)] h(4,5) by simp
  have s: "unat (of_nat (length data) :: size_t) = length data"
    using h(3) by (simp add: unat_of_nat)
  let ?n = "min (unat len) (length data)"
  have rd: "unat (smin len (of_nat (length data))) = ?n" using unat_smin [of len "of_nat (length data)"] s h(3) by simp
  have r: "mem_read ?a (nat off + SIZEOF_DGRAM) ?n = Some (take (unat len) data)"
  proof -
    have b: "nat off + SIZEOF_DGRAM + length data \<le> length ?a"
      and t: "take (length data) (drop (nat off + SIZEOF_DGRAM) ?a) = data"
      using h(2) by (simp_all add: mem_read_def split: if_splits)
    have "take ?n (drop (nat off + SIZEOF_DGRAM) ?a) = take (unat len) (take (length data) (drop (nat off + SIZEOF_DGRAM) ?a))"
      by (simp only: take_take)
    then show ?thesis using b unfolding t by (simp add: mem_read_def)
  qed
  obtain q' where q': "queue_discard ?q 1 = Some (q', 1)" "queue_wf q'" "a_len q' = a_len ?q" "b_size q' = b_size ?q"
    "queue_offsets q' = tl (queue_offsets ?q)" using queue_discard_one [OF wf c] by metis
  show thesis
  proof (cases "flags AND XSTACK_MSG_PEEK = 0")
    case True
    have "xstack_recvfrom len flags m = Some (?n, take (unat len) data, src, m\<lparr>ingress_q := q'\<rparr>)"
      using p d rd r q'(1) True by (simp add: xstack_recvfrom_def Let_def)
    moreover have "pending (m\<lparr>ingress_q := q'\<rparr>) msgs"
      using Q q' o(1,3) by (simp add: pending_def sock_queue_def)
    ultimately show thesis using that True by simp
  next
    case False
    have "xstack_recvfrom len flags m = Some (?n, take (unat len) data, src, m)"
      using p d rd r False by (simp add: xstack_recvfrom_def Let_def)
    then show thesis using that False P by simp
  qed
qed

lemma sock_create_pending:
  obtains sock' where "sock_create mypid sock = Some sock'" "pending (sock_shmem sock') []"
    "sock_addr sock' = sock_addr sock" "sigusr2 sock' = sigusr2 sock"
    "sock_queue (egress_q (sock_shmem sock')) (egress_data (sock_shmem sock'))"
    "queue_count (egress_q (sock_shmem sock')) = 0"
    "egress_data (sock_shmem sock') = replicate XSTACK_DATAGRAM_BUF_SIZE 0"
    "pid_inetd (sock_shmem sock') = mypid"
proof -
  let ?q = "\<lparr>b_size = 4096, a_len = 4, m_write = 0, m_read = 0\<rparr>"
  have q: "queue_create (of_nat XSTACK_DATAGRAM_SIZE_MAX) (of_nat XSTACK_DATAGRAM_BUF_SIZE) = Some ?q"
    by (simp add: queue_create_def sock_consts)
  have w: "queue_wf ?q" "queue_count ?q = 0" by (simp_all add: queue_wf_def queue_count_def)
  then have o: "queue_offsets ?q = []" by (simp add: queue_offsets_def)
  show thesis
    by (rule that [of "sock\<lparr>sock_shmem := \<lparr>pid_inetd = mypid, pid_end = 0,
       ingress_q = ?q, ingress_data = replicate XSTACK_DATAGRAM_BUF_SIZE 0,
       egress_q = ?q, egress_data = replicate XSTACK_DATAGRAM_BUF_SIZE 0\<rparr>\<rparr>"])
      (use q w o in \<open>simp_all add: sock_create_def pending_def sock_queue_def\<close>)
qed

section \<open>The size field of outgoing datagrams\<close>

text \<open>As long as every size field in the egress area is zero, \<^verbatim>\<open>xstack_sendto\<close> of a datagram that fits its
  block leaves it so: the datagram it queues claims to be empty.\<close>

definition sizes_zero :: "bytes \<Rightarrow> bool" where
  "sizes_zero area \<longleftrightarrow> (\<forall>k < 4. mem_read area (k * 4096 + 16) 8 = Some (replicate 8 0))"

lemma sizes_zero_create: "sizes_zero (replicate XSTACK_DATAGRAM_BUF_SIZE 0)"
  by (auto simp: sizes_zero_def mem_read_def sock_consts)

lemma sizes_zero_write:
  assumes "sizes_zero area" "mem_write area w xs = Some area'"
    "w + length xs \<le> j * 4096 + 16 \<and> j * 4096 \<le> w \<or> j * 4096 + 24 \<le> w \<and> w + length xs \<le> (j + 1) * 4096"
  shows "sizes_zero area'"
  unfolding sizes_zero_def
proof (intro allI impI)
  fix k :: nat
  assume k: "k < 4"
  have "(k + 1) * 4096 \<le> j * 4096 \<or> (j + 1) * 4096 \<le> k * 4096 \<or> k = j" by (cases k j rule: linorder_cases) auto
  then have "mem_read area' (k * 4096 + 16) 8 = mem_read area (k * 4096 + 16) 8"
    by (intro mem_read_write_other [OF assms(2)]) (use assms(3) in auto)
  then show "mem_read area' (k * 4096 + 16) 8 = Some (replicate 8 0)" using assms(1) k by (simp add: sizes_zero_def)
qed

lemma sendto_ok:
  assumes Q: "sock_queue (egress_q m) (egress_data m)" and Z: "sizes_zero (egress_data m)"
    and room: "queue_count (egress_q m) < 3" and b: "length buffer \<le> 4072"
  obtains m' where "xstack_sendto buffer dest m = Some (Inr (length buffer, pid_inetd m), m')"
    "sock_queue (egress_q m') (egress_data m')" "sizes_zero (egress_data m')"
    "queue_count (egress_q m') = Suc (queue_count (egress_q m))"
proof -
  let ?q = "egress_q m" and ?a = "egress_data m"
  have wf: "queue_wf ?q" and len: "length ?a = 16384" "unat (a_len ?q) = 4"
    using Q by (simp_all add: sock_queue_def sock_consts)
  have r: "Suc (queue_count ?q) < unat (a_len ?q)" using room len(2) by simp
  obtain k where k: "write_offset ?q = int (k * 4096)" "k < 4" using sock_write_offset [OF Q] .
  have f: "k * 4096 + 24 + length buffer \<le> length ?a" using k(2) b len(1) by simp
  obtain a1 where a1: "mem_write ?a (k * 4096) (replicate 8 0) = Some a1" "length a1 = length ?a"
    using f by (auto simp: mem_write_def)
  obtain a2 where a2: "mem_write a1 (k * 4096 + 8) (sockaddr_store dest) = Some a2" "length a2 = length ?a"
    using f a1(2) by (auto simp: mem_write_def)
  obtain a3 where a3: "mem_write a2 (k * 4096 + SIZEOF_DGRAM) buffer = Some a3" "length a3 = length ?a"
    using f a2(2) by (auto simp: mem_write_def SIZEOF_DGRAM_def)
  have "sizes_zero a1" by (rule sizes_zero_write [OF Z a1(1), of k]) simp
  then have "sizes_zero a2" by (rule sizes_zero_write [OF _ a2(1), of k]) simp
  then have z: "sizes_zero a3" by (rule sizes_zero_write [OF _ a3(1), of k]) (use b in \<open>simp add: SIZEOF_DGRAM_def\<close>)
  obtain q' where q': "queue_commit ?q = Some q'" "queue_wf q'" "a_len q' = a_len ?q" "b_size q' = b_size ?q"
    "queue_count q' = Suc (queue_count ?q)" using queue_commit_wf [OF wf r] by metis
  let ?m = "m\<lparr>egress_data := a3, egress_q := q'\<rparr>"
  have "xstack_sendto buffer dest m = Some (Inr (length buffer, pid_inetd m), ?m)"
    using b queue_alloc_room [OF wf] r k(1) a1(1) a2(1) a3(1) q'(1)
    by (simp add: xstack_sendto_def nat_mult_distrib Let_def sock_consts)
  then show thesis using that [of ?m] z Q q' a3(2) by (simp add: sock_queue_def)
qed

lemma dgram_size_zero:
  assumes "sizes_zero area" "k < 4" "length area = 16384"
  obtains d where "dgram_load area (k * 4096) = Some d" "dgram_size d = 0"
proof -
  obtain b where b: "mem_read area (k * 4096) 24 = Some b" using assms(2,3) by (auto simp: mem_read_def)
  have "mem_read area (k * 4096 + 16) 8 = Some (drop 16 b)"
    using b by (auto simp: mem_read_def drop_take add.commute split: if_splits)
  then have "drop 16 b = store64 0 @ []"
    using assms(1,2) by (simp add: sizes_zero_def store64_def store32_def store16_def numeral_eq_Suc)
  then have "load64 (drop 16 b) = 0" by (simp only: load_store64)
  then show thesis using that b by (simp add: dgram_load_def SIZEOF_DGRAM_def)
qed

section \<open>Properties\<close>

text \<open>The objects follow each other without gap or overlap and fill the mapped memory.\<close>

lemma shmem_layout:
  "map fst (shmem_objects x) @ [x + XSTACK_SHMEM_SIZE] = x # map (\<lambda>(a, n). a + n) (shmem_objects x)"
  by (simp add: shmem_objects_def XSTACK_SOCK_CTRL_def XSTACK_INGRESS_QADDR_def XSTACK_INGRESS_DADDR_def
      XSTACK_EGRESS_QADDR_def XSTACK_EGRESS_DADDR_def XSTACK_SHMEM_SIZE_def)

text \<open>Several datagrams one after the other.\<close>

fun input_all :: "(xstack_sockaddr \<times> bytes) list \<Rightarrow> xstack_sock \<Rightarrow> xstack_sock option" where
  "input_all [] sock = Some sock"
| "input_all ((src, buf) # xs) sock = do { (_, sock) \<leftarrow> xstack_sock_dgram_input src buf sock; input_all xs sock }"

fun recv_all :: "nat \<Rightarrow> size_t \<Rightarrow> xstack_shmem \<Rightarrow> ((xstack_sockaddr \<times> bytes) list \<times> xstack_shmem) option" where
  "recv_all 0 len m = Some ([], m)"
| "recv_all (Suc n) len m = do {
     (_, buf, src, m) \<leftarrow> xstack_recvfrom len 0 m;
     (xs, m) \<leftarrow> recv_all n len m;
     Some ((src, buf) # xs, m)
   }"

definition fits :: "xstack_sockaddr \<times> bytes \<Rightarrow> bool" where
  "fits x \<longleftrightarrow> port_ok (fst x) \<and> length (snd x) \<le> 4072"

lemma input_all_ok:
  "pending (sock_shmem sock) msgs \<Longrightarrow> length msgs + length xs \<le> 3 \<Longrightarrow> list_all fits xs \<Longrightarrow> port_ok (sock_addr sock) \<Longrightarrow>
   \<exists>sock'. input_all xs sock = Some sock' \<and> sock_addr sock' = sock_addr sock \<and>
     pending (sock_shmem sock') (msgs @ map (\<lambda>(src, buf). (src, sock_addr sock, buf)) xs)"
proof (induction xs arbitrary: sock msgs)
  case (Cons x xs)
  obtain src buf where x: "x = (src, buf)" "port_ok src" "length buf \<le> 4072" using Cons.prems(3) by (cases x) (auto simp: fits_def)
  have "length msgs < 3" using Cons.prems(2) by simp
  obtain sock1 where s: "xstack_sock_dgram_input src buf sock = Some (0, sock1)"
    "pending (sock_shmem sock1) (msgs @ [(src, sock_addr sock, buf)])" "sock_addr sock1 = sock_addr sock"
    using dgram_input_ok [OF Cons.prems(1) \<open>length msgs < 3\<close> x(3,2) Cons.prems(4)] .
  show ?case using Cons.IH [OF s(2)] Cons.prems(2-4) s x(1) by simp
qed simp

lemma recv_all_ok:
  "pending m msgs \<Longrightarrow> 4072 \<le> unat len \<Longrightarrow>
   \<exists>m'. recv_all (length msgs) len m = Some (map (\<lambda>(src, dst, buf). (src, buf)) msgs, m') \<and> pending m' []"
proof (induction msgs arbitrary: m)
  case (Cons x msgs)
  obtain src dst data where x: "x = (src, dst, data)" by (cases x) auto
  have "length data \<le> 4072" using Cons.prems(1) x by (auto simp: pending_def list_all2_Cons2 sock_consts)
  then have t: "take (unat len) data = data" using Cons.prems(2) by simp
  obtain m1 where m1: "xstack_recvfrom len 0 m = Some (min (unat len) (length data), take (unat len) data, src, m1)"
    "pending m1 msgs" using recvfrom_ok [of m src dst data msgs len 0] Cons.prems(1) x by (auto simp: XSTACK_MSG_PEEK_def)
  then show ?case using Cons.IH [OF m1(2) Cons.prems(2)] x t by auto
qed simp

text \<open>What the stack puts into a socket comes out of \<^verbatim>\<open>xstack_recvfrom\<close>: datagrams of up to 4072 bytes,
  within the three free blocks of the ring, are received once, in order, with their source addresses
  and their data.\<close>

lemma sock_dgram_fifo:
  assumes "pending (sock_shmem sock) []" "length xs \<le> 3" "list_all fits xs" "port_ok (sock_addr sock)" "4072 \<le> unat len"
  shows "\<exists>sock' m'. input_all xs sock = Some sock' \<and> recv_all (length xs) len (sock_shmem sock') = Some (xs, m') \<and>
    pending m' []"
proof -
  let ?msgs = "map (\<lambda>(src, buf). (src, sock_addr sock, buf)) xs"
  obtain sock' where s: "input_all xs sock = Some sock'" "pending (sock_shmem sock') ?msgs"
    using input_all_ok [OF assms(1) _ assms(3,4)] assms(2) by auto
  have "map (\<lambda>(src, dst, buf). (src, buf)) ?msgs = xs" by (auto simp: comp_def split_beta)
  then show ?thesis using recv_all_ok [OF s(2) assms(5)] s(1) by auto
qed

definition example_sock :: xstack_sock where
  "example_sock = \<lparr>sock_dom = XF_INET4, sock_type = XSOCK_DGRAM, sock_proto = XIP_PROTO_UDP,
     sock_addr = \<lparr>inet4_addr = 167772162, port = 10\<rparr>,
     sock_shmem = \<lparr>pid_inetd = 0, pid_end = 0,
       ingress_q = \<lparr>b_size = 4096, a_len = 4, m_write = 0, m_read = 0\<rparr>, ingress_data = replicate 16384 0,
       egress_q = \<lparr>b_size = 4096, a_len = 4, m_write = 0, m_read = 0\<rparr>, egress_data = replicate 16384 0\<rparr>,
     sigusr2 = []\<rparr>"

lemma example_pending: "pending (sock_shmem example_sock) []"
  by (simp add: pending_def example_sock_def sock_queue_def queue_wf_def queue_offsets_def queue_count_def sock_consts)

end
