(* ===== verification/Udp.thy ===== *)
theory Udp
  imports Socket Ip_Hdr
begin

text \<open>
  The datagram transport \<^verbatim>\<open>src/udp.c\<close> and the socket table of \<^verbatim>\<open>src/xstack.c\<close>: binding, and delivery of
  incoming datagrams. Sending needs the IP layer and is in the theory \<open>Ip_Send\<close>. The state is the
  array of sockets (it has one element) and the tree of the bound ones.
\<close>

section \<open>Headers\<close>

record udp_hdr =
  udp_sport :: u16
  udp_dport :: u16
  udp_len :: u16
  udp_csum :: u16

definition UDP_MAXLEN :: nat where "UDP_MAXLEN = 65507"

definition udp_store :: "udp_hdr \<Rightarrow> bytes" where
  "udp_store h = store16 (udp_sport h) @ store16 (udp_dport h) @ store16 (udp_len h) @ store16 (udp_csum h)"

definition udp_load :: "bytes \<Rightarrow> udp_hdr option" where
  "udp_load b = (if length b < 8 then None else Some
     \<lparr>udp_sport = load16 (b ! 0) (b ! 1), udp_dport = load16 (b ! 2) (b ! 3),
      udp_len = load16 (b ! 4) (b ! 5), udp_csum = load16 (b ! 6) (b ! 7)\<rparr>)"

definition udp_hton :: "udp_hdr \<Rightarrow> udp_hdr" where
  "udp_hton host = host\<lparr>udp_sport := htons (udp_sport host), udp_dport := htons (udp_dport host),
     udp_len := htons (udp_len host)\<rparr>"

definition udp_ntoh :: "udp_hdr \<Rightarrow> udp_hdr" where
  "udp_ntoh net = net\<lparr>udp_sport := ntohs (udp_sport net), udp_dport := ntohs (udp_dport net),
     udp_len := ntohs (udp_len net)\<rparr>"

section \<open>The table of sockets\<close>

definition NUM_SOCKETS :: nat where "NUM_SOCKETS = 1"

record udp_table =
  sockets :: "nat \<Rightarrow> xstack_sock"
  udp_sock_tree_head :: rb_head

definition udp_socket_cmp :: "xstack_sock \<Rightarrow> xstack_sock \<Rightarrow> int" where
  "udp_socket_cmp a b = memcmp (sockaddr_store (sock_addr a)) (sockaddr_store (sock_addr b))"

text \<open>The lookup compares with a socket that has only an address.\<close>

definition sock_key :: "xstack_sockaddr \<Rightarrow> xstack_sock" where
  "sock_key addr = \<lparr>sock_dom = XF_INET4, sock_type = XSOCK_DGRAM, sock_proto = XIP_PROTO_NONE, sock_addr = addr,
     sock_shmem = \<lparr>pid_inetd = 0, pid_end = 0,
       ingress_q = \<lparr>b_size = 0, a_len = 0, m_write = 0, m_read = 0\<rparr>, ingress_data = [],
       egress_q = \<lparr>b_size = 0, a_len = 0, m_write = 0, m_read = 0\<rparr>, egress_data = []\<rparr>, sigusr2 = []\<rparr>"

definition find_udp_socket :: "xstack_sockaddr \<Rightarrow> udp_table \<Rightarrow> ptr option" where
  "find_udp_socket addr st =
     RB_FIND (\<lambda>x. udp_socket_cmp (sock_key addr) (sockets st x)) (udp_sock_tree_head st)"

text \<open>Binding; \<open>Inl\<close> is the value of \<^verbatim>\<open>errno\<close> with the return of -1.\<close>

definition xstack_udp_bind :: "nat \<Rightarrow> udp_table \<Rightarrow> ((int + unit) \<times> udp_table) option" where
  "xstack_udp_bind s st =
     (if port (sock_addr (sockets st s)) > XSTACK_SOCK_PORT_MAX then Some (Inl EINVAL, st)
      else do {
        other \<leftarrow> find_udp_socket (sock_addr (sockets st s)) st;
        if other \<noteq> None then Some (Inl EADDRINUSE, st)
        else do {
          (head, _) \<leftarrow> RB_INSERT (\<lambda>x. udp_socket_cmp (sockets st s) (sockets st x)) (udp_sock_tree_head st) s;
          Some (Inr (), st\<lparr>udp_sock_tree_head := head\<rparr>)
        }
      })"

definition xstack_bind :: "nat \<Rightarrow> udp_table \<Rightarrow> ((int + unit) \<times> udp_table) option" where
  "xstack_bind s st =
     (if sock_proto (sockets st s) = XIP_PROTO_UDP then xstack_udp_bind s st else Some (Inl EPROTOTYPE, st))"

text \<open>\<^verbatim>\<open>xstack_init\<close> for the sockets from \<open>i\<close> on. \<open>shm\<close> tells whether the file of a socket can be opened and
  mapped; the program exits with status 1 (\<open>Inl\<close>) when it cannot, or when the socket cannot be bound.\<close>

fun xstack_init_loop :: "int \<Rightarrow> (nat \<Rightarrow> bool) \<Rightarrow> nat list \<Rightarrow> udp_table \<Rightarrow> ((int + unit) \<times> udp_table) option" where
  "xstack_init_loop mypid shm [] st = Some (Inr (), st)"
| "xstack_init_loop mypid shm (i # is) st =
     (if \<not> shm i then Some (Inl 1, st)
      else do {
        sock \<leftarrow> sock_create mypid (sockets st i);
        (r, st) \<leftarrow> xstack_bind i (st\<lparr>sockets := (sockets st)(i := sock)\<rparr>);
        case r of Inl _ \<Rightarrow> Some (Inl 1, st) | Inr _ \<Rightarrow> xstack_init_loop mypid shm is st
      })"

definition xstack_init :: "int \<Rightarrow> (nat \<Rightarrow> bool) \<Rightarrow> udp_table \<Rightarrow> ((int + unit) \<times> udp_table) option" where
  "xstack_init mypid shm st = xstack_init_loop mypid shm [0..<NUM_SOCKETS] st"

section \<open>Input\<close>

text \<open>The branch for a positive result of \<^verbatim>\<open>xstack_sock_dgram_input\<close>: a reply with exchanged ports.\<close>

definition udp_reply :: "udp_hdr \<Rightarrow> int \<Rightarrow> udp_hdr" where
  "udp_reply udp retval = udp_hton (udp\<lparr>udp_sport := udp_dport udp, udp_dport := udp_sport udp,
     udp_len := word_of_int (8 + retval), udp_csum := 0\<rparr>)"

definition udp_input :: "ip_hdr \<Rightarrow> bytes \<Rightarrow> nat \<Rightarrow> udp_table \<Rightarrow> (int \<times> bytes \<times> udp_table) option" where
  "udp_input ip payload bsize st =
     (if bsize < 8 then Some (- EBADMSG, payload, st)
      else do {
        net \<leftarrow> udp_load payload;
        let udp = udp_ntoh net;
        payload \<leftarrow> mem_write payload 0 (udp_store udp);
        s \<leftarrow> find_udp_socket \<lparr>inet4_addr = ip_dst ip, port = uint (udp_dport udp)\<rparr> st;
        case s of
          None \<Rightarrow> Some (- ENOTSOCK, payload, st)
        | Some s \<Rightarrow> do {
            buf \<leftarrow> mem_read payload 8 (bsize - 8);
            (retval, sock) \<leftarrow> xstack_sock_dgram_input \<lparr>inet4_addr = ip_src ip, port = uint (udp_sport udp)\<rparr> buf (sockets st s);
            let st = st\<lparr>sockets := (sockets st)(s := sock)\<rparr>;
            payload \<leftarrow> (if retval > 0 then mem_write payload 0 (udp_store (udp_reply udp retval)) else Some payload);
            Some (retval, payload, st)
          }
      })"

text \<open>The datagram that \<^verbatim>\<open>xstack_udp_send\<close> hands to the IP layer.\<close>

definition udp_datagram :: "xstack_sockaddr \<Rightarrow> xstack_sockaddr \<Rightarrow> bytes \<Rightarrow> bytes" where
  "udp_datagram src dst data =
     udp_store (udp_hton \<lparr>udp_sport = word_of_int (port src), udp_dport = word_of_int (port dst),
       udp_len = of_nat (8 + length data), udp_csum = 0\<rparr>) @ data"

section \<open>The tree of bound sockets\<close>

lemma length_udp_store [simp]: "length (udp_store h) = 8"
  by (simp add: udp_store_def)

lemma udp_load_store [simp]: "udp_load (udp_store h @ rest) = Some h"
  by (simp add: udp_load_def udp_store_def store16_def load16_parts nth_append)

definition sock_rank :: "xstack_sock \<Rightarrow> nat" where
  "sock_rank s = be_value (sockaddr_store (sock_addr s))"

interpretation by_addr: key_order udp_socket_cmp sock_rank "\<lambda>_. True"
  by unfold_locales (simp_all add: udp_socket_cmp_def sock_rank_def memcmp_order)

definition udp_inv :: "udp_table \<Rightarrow> nat set \<Rightarrow> bool" where
  "udp_inv st S \<longleftrightarrow> rb_set sock_rank (sockets st) (udp_sock_tree_head st) S \<and>
     (\<forall>s \<in> S. port_ok (sock_addr (sockets st s)))"

lemma sock_rank_key:
  "port_ok addr \<Longrightarrow> port_ok (sock_addr s) \<Longrightarrow> sock_rank s = sock_rank (sock_key addr) \<longleftrightarrow> sock_addr s = addr"
  by (simp add: sock_rank_def be_value_inj sockaddr_store_inj sock_key_def)

lemma find_udp_hit:
  assumes "udp_inv st S" "s \<in> S" "sock_addr (sockets st s) = addr"
  shows "find_udp_socket addr st = Some (Some s)"
  unfolding find_udp_socket_def using assms
  by (intro by_addr.find_some [where S = S]) (auto simp: udp_inv_def sock_rank_def sock_key_def)

lemma find_udp_miss:
  assumes "udp_inv st S" "port_ok addr" "\<forall>s \<in> S. sock_addr (sockets st s) \<noteq> addr"
  shows "find_udp_socket addr st = Some None"
  unfolding find_udp_socket_def using assms
  by (intro by_addr.find_none [where S = S]) (auto simp: udp_inv_def sock_rank_key)

text \<open>An update of a bound socket that keeps its address.\<close>

lemma udp_inv_set:
  assumes "udp_inv st S" "sock_addr sock = sock_addr (sockets st s)"
  shows "udp_inv (st\<lparr>sockets := (sockets st)(s := sock)\<rparr>) S"
proof -
  have "rb_set sock_rank ((sockets st)(s := sock)) (udp_sock_tree_head st) S"
    by (rule rb_set_cong [of _ "sockets st"]) (use assms in \<open>auto simp: udp_inv_def sock_rank_def\<close>)
  then show ?thesis using assms by (auto simp: udp_inv_def)
qed

lemma bind_ok:
  assumes I: "udp_inv st S" and s: "s \<notin> S" "port_ok (sock_addr (sockets st s))"
    "port (sock_addr (sockets st s)) \<le> XSTACK_SOCK_PORT_MAX"
    and new: "\<forall>t \<in> S. sock_addr (sockets st t) \<noteq> sock_addr (sockets st s)"
  obtains st' where "xstack_udp_bind s st = Some (Inr (), st')" "udp_inv st' (insert s S)" "sockets st' = sockets st"
proof -
  have T: "rb_set sock_rank (sockets st) (udp_sock_tree_head st) S" using I by (simp add: udp_inv_def)
  have n: "\<forall>t \<in> S. sock_rank (sockets st t) \<noteq> sock_rank (sockets st s)"
    using I s(2) new by (auto simp: udp_inv_def sock_rank_def be_value_inj sockaddr_store_inj)
  obtain h where h: "RB_INSERT (\<lambda>x. udp_socket_cmp (sockets st s) (sockets st x)) (udp_sock_tree_head st) s = Some (h, None)"
    "rb_set sock_rank (sockets st) h (insert s S)"
    using by_addr.insert_new [OF T _ _ s(1) n] by blast
  have "xstack_udp_bind s st = Some (Inr (), st\<lparr>udp_sock_tree_head := h\<rparr>)"
    using find_udp_miss [OF I s(2) new] s(3) h(1) by (simp add: xstack_udp_bind_def)
  then show thesis using that h(2) I s(2) by (simp add: udp_inv_def)
qed

text \<open>The start of the program: the socket is set up, bound and empty, in both directions.\<close>

lemma xstack_init_ok:
  assumes I: "udp_inv st {}" and s: "sock_proto (sockets st 0) = XIP_PROTO_UDP" "port_ok (sock_addr (sockets st 0))"
    "port (sock_addr (sockets st 0)) \<le> XSTACK_SOCK_PORT_MAX" "shm 0"
  obtains st' where "xstack_init mypid shm st = Some (Inr (), st')" "udp_inv st' {0}"
    "pending (sock_shmem (sockets st' 0)) []" "sock_addr (sockets st' 0) = sock_addr (sockets st 0)"
    "sock_queue (egress_q (sock_shmem (sockets st' 0))) (egress_data (sock_shmem (sockets st' 0)))"
    "queue_count (egress_q (sock_shmem (sockets st' 0))) = 0" "sizes_zero (egress_data (sock_shmem (sockets st' 0)))"
    "sock_proto (sockets st' 0) = XIP_PROTO_UDP"
proof -
  obtain sock where c: "sock_create mypid (sockets st 0) = Some sock" "pending (sock_shmem sock) []"
    "sock_addr sock = sock_addr (sockets st 0)" "sock_queue (egress_q (sock_shmem sock)) (egress_data (sock_shmem sock))"
    "queue_count (egress_q (sock_shmem sock)) = 0" "egress_data (sock_shmem sock) = replicate XSTACK_DATAGRAM_BUF_SIZE 0"
    using sock_create_pending [of mypid "sockets st 0"] .
  have pr: "sock_proto sock = XIP_PROTO_UDP" using c(1) s(1) by (auto simp: sock_create_def queue_create_def split: if_splits)
  let ?st = "st\<lparr>sockets := (sockets st)(0 := sock)\<rparr>"
  have "udp_inv ?st {}" by (rule udp_inv_set [OF I c(3)])
  then obtain st' where st': "xstack_udp_bind 0 ?st = Some (Inr (), st')" "udp_inv st' (insert 0 {})" "sockets st' = sockets ?st"
    by (rule bind_ok [of ?st "{}" 0]) (use c(3) s in auto)
  have "xstack_init mypid shm st = Some (Inr (), st')"
    using s(4) c(1) pr st'(1) by (simp add: xstack_init_def NUM_SOCKETS_def xstack_bind_def)
  then show thesis using that st' c pr sizes_zero_create by simp
qed

section \<open>Properties\<close>

text \<open>C36: \<^verbatim>\<open>xstack_udp_bind\<close> refuses ports above 49151 with \<^verbatim>\<open>EINVAL\<close> and an address in use with
  \<^verbatim>\<open>EADDRINUSE\<close>, without effect; otherwise the socket is bound and found under its address, and the
  sockets bound before stay bound.\<close>

theorem xstack_udp_bind_correct:
  assumes "udp_inv st S" "s \<notin> S" "port_ok (sock_addr (sockets st s))"
  shows "\<exists>r st'. xstack_udp_bind s st = Some (r, st') \<and>
    (if port (sock_addr (sockets st s)) > XSTACK_SOCK_PORT_MAX then r = Inl EINVAL \<and> st' = st
     else if \<exists>t \<in> S. sock_addr (sockets st t) = sock_addr (sockets st s) then r = Inl EADDRINUSE \<and> st' = st
     else r = Inr () \<and> udp_inv st' (insert s S) \<and>
       find_udp_socket (sock_addr (sockets st s)) st' = Some (Some s))"
proof (cases "port (sock_addr (sockets st s)) > XSTACK_SOCK_PORT_MAX")
  case True
  then show ?thesis by (simp add: xstack_udp_bind_def)
next
  case p: False
  show ?thesis
  proof (cases "\<exists>t \<in> S. sock_addr (sockets st t) = sock_addr (sockets st s)")
    case True
    then obtain t where "t \<in> S" "sock_addr (sockets st t) = sock_addr (sockets st s)" by blast
    then have "find_udp_socket (sock_addr (sockets st s)) st = Some (Some t)" by (rule find_udp_hit [OF assms(1)])
    then show ?thesis using p True by (simp add: xstack_udp_bind_def)
  next
    case False
    have p': "port (sock_addr (sockets st s)) \<le> XSTACK_SOCK_PORT_MAX" using p by simp
    have new: "\<forall>t \<in> S. sock_addr (sockets st t) \<noteq> sock_addr (sockets st s)" using False by blast
    obtain st' where st': "xstack_udp_bind s st = Some (Inr (), st')" "udp_inv st' (insert s S)" "sockets st' = sockets st"
      using bind_ok [OF assms p' new] .
    have "find_udp_socket (sock_addr (sockets st s)) st' = Some (Some s)"
      by (rule find_udp_hit [OF st'(2)]) (simp_all add: st'(3))
    then show ?thesis using st' p False by simp
  qed
qed

definition udp_boot :: udp_table where
  "udp_boot = \<lparr>sockets = (\<lambda>_. example_sock), udp_sock_tree_head = \<lparr>rbh_root = None, links = (\<lambda>_. rb_entry_zero)\<rparr>\<rparr>"

lemma udp_inv_boot: "udp_inv udp_boot {}"
  using rb_set_init [of sock_rank "sockets udp_boot" "udp_sock_tree_head udp_boot"]
  by (simp add: udp_inv_def udp_boot_def RB_INIT_def)

lemma example_port: "port_ok (sock_addr (sockets udp_boot s))" "port (sock_addr (sockets udp_boot s)) = 10"
  by (simp_all add: udp_boot_def example_sock_def port_ok_def)

lemma xstack_udp_bind_correct_witness:
  "udp_inv udp_boot {} \<and> (\<exists>st'. xstack_udp_bind 0 udp_boot = Some (Inr (), st') \<and> udp_inv st' {0})"
  using xstack_udp_bind_correct [OF udp_inv_boot, of 0] example_port udp_inv_boot by (auto simp: sock_consts)

text \<open>\<^verbatim>\<open>udp_input\<close> puts the data of a datagram into the socket bound to its destination address and port,
  behind those already waiting, with the sender's address, and changes no other socket. Without such
  a socket the result is \<^verbatim>\<open>-ENOTSOCK\<close>, for a packet too short \<^verbatim>\<open>-EBADMSG\<close>, and no socket changes.\<close>

lemma udp_input_ok:
  assumes "udp_inv st S" "udp_load payload = Some net" "8 \<le> bsize" "bsize \<le> length payload" "bsize \<le> 4080"
    "dst = \<lparr>inet4_addr = ip_dst ip, port = uint (ntohs (udp_dport net))\<rparr>"
    "src = \<lparr>inet4_addr = ip_src ip, port = uint (ntohs (udp_sport net))\<rparr>"
    "\<forall>s \<in> S. pending (sock_shmem (sockets st s)) (msgs s) \<and> length (msgs s) < 3"
  shows "(\<forall>n < 8. udp_input ip payload n st = Some (- EBADMSG, payload, st)) \<and>
    (if \<exists>s \<in> S. sock_addr (sockets st s) = dst
     then \<exists>s \<in> S. sock_addr (sockets st s) = dst \<and>
       (\<exists>payload' st'. udp_input ip payload bsize st = Some (0, payload', st') \<and> udp_inv st' S \<and>
         pending (sock_shmem (sockets st' s)) (msgs s @ [(src, dst, take (bsize - 8) (drop 8 payload))]) \<and>
         (\<forall>t. t = s \<or> sockets st' t = sockets st t))
     else \<exists>payload'. udp_input ip payload bsize st = Some (- ENOTSOCK, payload', st))"
proof -
  have short: "\<forall>n < 8. udp_input ip payload n st = Some (- EBADMSG, payload, st)" by (simp add: udp_input_def)
  let ?pl = "udp_store (udp_ntoh net) @ drop 8 payload"
  have w: "mem_write payload 0 (udp_store (udp_ntoh net)) = Some ?pl"
    using assms(3,4) by (simp add: mem_write_def)
  have p: "port_ok dst" "port_ok src"
    using assms(6,7) unsigned_less [of "ntohs (udp_dport net)", where ?'a = int]
      unsigned_less [of "ntohs (udp_sport net)", where ?'a = int] by (simp_all add: port_ok_def)
  show ?thesis
  proof (cases "\<exists>s \<in> S. sock_addr (sockets st s) = dst")
    case True
    then obtain s where s: "s \<in> S" "sock_addr (sockets st s) = dst" by blast
    let ?buf = "take (bsize - 8) (drop 8 payload)"
    have f: "find_udp_socket dst st = Some (Some s)" using find_udp_hit [OF assms(1) s] .
    have r: "mem_read ?pl 8 (bsize - 8) = Some ?buf" using assms(3,4) by (simp add: mem_read_def)
    have P: "pending (sock_shmem (sockets st s)) (msgs s)" "length (msgs s) < 3" using assms(8) s(1) by auto
    have b: "length ?buf \<le> 4072" "port_ok (sock_addr (sockets st s))" using assms(5) p(1) s(2) by auto
    obtain sock where sock: "xstack_sock_dgram_input src ?buf (sockets st s) = Some (0, sock)"
      "pending (sock_shmem sock) (msgs s @ [(src, sock_addr (sockets st s), ?buf)])"
      "sock_addr sock = sock_addr (sockets st s)"
      using dgram_input_ok [OF P b(1) p(2) b(2)] .
    have "udp_input ip payload bsize st = Some (0, ?pl, st\<lparr>sockets := (sockets st)(s := sock)\<rparr>)"
      using assms(2,3,6,7) w f r sock(1) by (simp add: udp_input_def udp_ntoh_def Let_def)
    moreover have "udp_inv (st\<lparr>sockets := (sockets st)(s := sock)\<rparr>) S" by (rule udp_inv_set [OF assms(1) sock(3)])
    ultimately have "\<exists>payload' st'. udp_input ip payload bsize st = Some (0, payload', st') \<and> udp_inv st' S \<and>
         pending (sock_shmem (sockets st' s)) (msgs s @ [(src, dst, ?buf)]) \<and> (\<forall>t. t = s \<or> sockets st' t = sockets st t)"
      using sock(2) s(2) by (intro exI conjI) (auto split: if_splits)
    then show ?thesis using short True s by auto
  next
    case False
    then have "find_udp_socket dst st = Some None" using find_udp_miss [OF assms(1) p(1)] by blast
    then have "udp_input ip payload bsize st = Some (- ENOTSOCK, ?pl, st)"
      using assms(2,3,6) w by (simp add: udp_input_def udp_ntoh_def)
    then show ?thesis using short False by auto
  qed
qed

end
