(* ===== verification/Ip_Send.thy ===== *)
theory Ip_Send
  imports Arp Ip_Defer Ip_Fragment Tcp Udp
begin

text \<open>
  The way out of the stack: \<^verbatim>\<open>ip_config\<close>, \<^verbatim>\<open>ip_send\<close> and its fragmentation (\<^verbatim>\<open>src/ip.c\<close>), the handler of
  deferred packets (\<^verbatim>\<open>src/ip_defer.c\<close>) and \<^verbatim>\<open>xstack_udp_send\<close> (\<^verbatim>\<open>src/udp.c\<close>). The state of the whole stack
  is the record of its components' static variables.
\<close>

record net_state =
  n_eth :: ether_state
  n_arp :: arp_state
  n_rib :: rib
  n_defer :: defer_state
  n_frag :: frag_state
  n_tcp :: tcp_table
  n_udp :: udp_table
  ip_global_id :: u32

definition set_errno :: "int \<Rightarrow> net_state \<Rightarrow> net_state" where
  "set_errno e st = st\<lparr>n_eth := (n_eth st)\<lparr>errno := e\<rparr>\<rparr>"

section \<open>Configuration\<close>

text \<open>\<^verbatim>\<open>ip_config\<close>: a static ARP entry, a route, and three announcements. An error of \<^verbatim>\<open>arp_cache_insert\<close> only
  shows in \<^verbatim>\<open>errno\<close>; without an address of the interface the code would read an uninitialised one, which is
  \<open>None\<close> here.\<close>

fun announce :: "nat \<Rightarrow> sendto_fn \<Rightarrow> int \<Rightarrow> u32 \<Rightarrow> ether_state \<Rightarrow> ether_state option" where
  "announce 0 sendto handle ip est = Some est"
| "announce (Suc n) sendto handle ip est = do {
     (_, est) \<leftarrow> arp_gratuitous sendto handle ip est;
     announce n sendto handle ip est
   }"

definition ip_config :: "sendto_fn \<Rightarrow> int \<Rightarrow> u32 \<Rightarrow> u32 \<Rightarrow> net_state \<Rightarrow> (int \<times> net_state) option" where
  "ip_config sendto handle ip netmask st = do {
     (_, mac, est) \<leftarrow> ether_handle2addr (n_eth st) handle;
     mac \<leftarrow> mac;
     (r, arp) \<leftarrow> arp_cache_insert ip mac ARP_CACHE_STATIC (n_arp st);
     let est = (case r of Inl e \<Rightarrow> est\<lparr>errno := e\<rparr> | Inr _ \<Rightarrow> est);
     rib \<leftarrow> ip_route_update \<lparr>r_network = ip AND netmask, r_netmask = netmask, r_gw = 0, r_iface = ip,
                             r_iface_handle = handle\<rparr> (n_rib st);
     est \<leftarrow> announce 3 sendto handle ip est;
     Some (0, st\<lparr>n_eth := est, n_arp := arp, n_rib := rib\<rparr>)
   }"

section \<open>Fragmentation\<close>

definition ip_off_round :: "size_t \<Rightarrow> size_t" where
  "ip_off_round plen = (plen + 7) AND NOT 7"

definition next_fragment_size :: "size_t \<Rightarrow> size_t \<Rightarrow> size_t \<Rightarrow> size_t" where
  "next_fragment_size bytes hlen mtu =
     (let max = ip_off_round (mtu - hlen - 8) in if bytes < max then bytes else max)"

text \<open>One turn of the loop: the header and the data of the next fragment are put at the start of the buffer.\<close>

definition fragment_body ::
  "ip_hdr \<Rightarrow> size_t \<Rightarrow> bytes \<Rightarrow> size_t \<Rightarrow> size_t \<Rightarrow> (ip_hdr \<times> bytes \<times> size_t) option" where
  "fragment_body hdr hlen payload bytes offset = do {
     let plen = next_fragment_size bytes hlen (of_nat ETHER_DATA_LEN);
     let bytes = bytes - plen;
     let hdr = hdr\<lparr>ip_len := ucast (hlen + plen),
                   ip_foff := (if bytes \<noteq> 0 then IP_FLAGS_MF else 0) OR ucast (drop_bit 3 offset)\<rparr>;
     payload \<leftarrow> ip_hton hdr payload;
     data \<leftarrow> mem_read payload (unat hlen + unat offset) (unat plen);
     payload \<leftarrow> mem_write payload (unat hlen) data;
     Some (hdr, payload, plen)
   }"

partial_function (option) fragment_loop ::
  "sendto_fn \<Rightarrow> int \<Rightarrow> mac_addr \<Rightarrow> size_t \<Rightarrow> ip_hdr \<Rightarrow> bytes \<Rightarrow> size_t \<Rightarrow> size_t \<Rightarrow> int \<Rightarrow> ether_state \<Rightarrow>
   (int \<times> ether_state) option" where
  "fragment_loop sendto handle dst_mac hlen hdr payload bytes offset retval est = do {
     (hdr, payload, plen) \<leftarrow> fragment_body hdr hlen payload bytes offset;
     (eret, est) \<leftarrow> ether_send sendto est handle dst_mac ETHER_PROTO_IPV4 (take (unat (ip_len hdr)) payload);
     if eret < 0 then Some (eret, est)
     else if bytes - plen > 0
     then fragment_loop sendto handle dst_mac hlen hdr payload (bytes - plen) (offset + plen) (retval + eret) est
     else Some (retval + eret, est)
   }"

declare fragment_loop.simps [code]

definition ip_send_fragments ::
  "sendto_fn \<Rightarrow> int \<Rightarrow> mac_addr \<Rightarrow> bytes \<Rightarrow> ether_state \<Rightarrow> (int \<times> ether_state) option" where
  "ip_send_fragments sendto handle dst_mac payload est = do {
     net \<leftarrow> ip_load payload;
     let (hdr, hlen) = ip_ntoh net;
     fragment_loop sendto handle dst_mac (of_nat hlen) hdr payload (of_nat (length payload) - of_nat hlen) 0 0 est
   }"

section \<open>Sending a packet\<close>

definition ip_hdr_template :: ip_hdr where
  "ip_hdr_template = \<lparr>ip_vhl = IP_VHL_DEFAULT, ip_tos = IP_TOS_DEFAULT, ip_len = 0, ip_id = 0,
     ip_foff = IP_TOFF_DEFAULT, ip_ttl = IP_TTL_DEFAULT, ip_proto = 0, ip_csum = 0, ip_src = 0, ip_dst = 0\<rparr>"

text \<open>The packet with its header in network order, and its transmission.\<close>

definition ip_transmit ::
  "sendto_fn \<Rightarrow> ip_route \<Rightarrow> mac_addr \<Rightarrow> u32 \<Rightarrow> u8 \<Rightarrow> bytes \<Rightarrow> net_state \<Rightarrow> (int \<times> net_state) option" where
  "ip_transmit sendto route dst_mac dst proto buf st = do {
     let packet_size = 20 + length buf;
     let hdr = ip_hdr_template\<lparr>ip_len := of_nat packet_size, ip_id := ucast (ip_global_id st),
                 ip_src := r_iface route, ip_dst := dst, ip_proto := proto\<rparr>;
     let st = st\<lparr>ip_global_id := ip_global_id st + 1\<rparr>;
     packet \<leftarrow> ip_hton hdr (ip_store hdr @ buf);
     if length buf \<le> ETHER_DATA_LEN then do {
       (retval, est) \<leftarrow> ether_send sendto (n_eth st) (r_iface_handle route) dst_mac ETHER_PROTO_IPV4 packet;
       Some (retval, st\<lparr>n_eth := est\<rparr>)
     } else do {
       (retval, est) \<leftarrow> ip_send_fragments sendto (r_iface_handle route) dst_mac packet (n_eth st);
       if retval < 0 then Some (-1, st\<lparr>n_eth := est\<lparr>errno := - retval\<rparr>\<rparr>)
       else Some (retval, st\<lparr>n_eth := est\<rparr>)
     }
   }"

definition ip_send :: "sendto_fn \<Rightarrow> u32 \<Rightarrow> u8 \<Rightarrow> bytes \<Rightarrow> net_state \<Rightarrow> (int \<times> net_state) option" where
  "ip_send sendto dst proto buf st = do {
     r \<leftarrow> ip_route_find_by_network dst (n_rib st);
     case r of
       Inl _ \<Rightarrow> Some (-1, set_errno EHOSTUNREACH st)
     | Inr route \<Rightarrow> do {
         (mac, est) \<leftarrow> arp_cache_get_haddr sendto (r_iface route) dst (n_arp st) (n_rib st) (n_eth st);
         let st = st\<lparr>n_eth := est\<rparr>;
         case mac of
           None \<Rightarrow>
             if errno est = EHOSTUNREACH then
               let (retval, d) = ip_defer_push dst proto buf (n_defer st);
                   st = st\<lparr>n_defer := d\<rparr>
               in if retval = 0 \<or> retval = - EALREADY then Some (0, st) else Some (-1, set_errno (- retval) st)
             else Some (0, st)
         | Some dst_mac \<Rightarrow> ip_transmit sendto route dst_mac dst proto buf st
       }
   }"

section \<open>Deferred packets\<close>

definition bump_tries :: "nat \<Rightarrow> net_state \<Rightarrow> net_state" where
  "bump_tries i st = st\<lparr>n_defer := (n_defer st)\<lparr>ip_defer_queue :=
     (ip_defer_queue (n_defer st))(i := (ip_defer_queue (n_defer st) i)\<lparr>tries := tries (ip_defer_queue (n_defer st) i) + 1\<rparr>)\<rparr>\<rparr>"

definition drop_deferred :: "net_state \<Rightarrow> net_state" where
  "drop_deferred st = st\<lparr>n_defer := ip_defer_drop (n_defer st)\<rparr>"

partial_function (option) defer_loop :: "sendto_fn \<Rightarrow> net_state \<Rightarrow> net_state option" where
  "defer_loop sendto st =
     (case ip_defer_peek (n_defer st) of
        None \<Rightarrow> Some st
      | Some i \<Rightarrow>
          let ipd = ip_defer_queue (n_defer st) i; st = bump_tries i st in
          if tries ipd > 3 then defer_loop sendto (drop_deferred st)
          else do {
            buf \<leftarrow> mem_read (d_buf ipd) 0 (buf_size ipd);
            (retval, st) \<leftarrow> ip_send sendto (d_dst ipd) (d_proto ipd) buf st;
            if retval = -1 \<and> errno (n_eth st) = EHOSTUNREACH then Some (bump_tries i st)
            else defer_loop sendto (drop_deferred st)
          })"

declare defer_loop.simps [code]

definition ip_defer_handler :: "sendto_fn \<Rightarrow> net_state \<Rightarrow> net_state option" where
  "ip_defer_handler sendto st =
     defer_loop sendto (st\<lparr>n_defer := (n_defer st)\<lparr>defer_inhibit := True\<rparr>\<rparr>)"

section \<open>UDP output\<close>

definition xstack_udp_send ::
  "sendto_fn \<Rightarrow> nat \<Rightarrow> xstack_dgram \<Rightarrow> bytes \<Rightarrow> net_state \<Rightarrow> (int \<times> net_state) option" where
  "xstack_udp_send sendto s dgram mem st =
     (if \<not> (0 < unat (dgram_size dgram) \<and> unat (dgram_size dgram) < UDP_MAXLEN) then Some (- EINVAL, st)
      else do {
        data \<leftarrow> mem_read mem 0 (unat (dgram_size dgram));
        ip_send sendto (inet4_addr (dstaddr dgram)) IP_PROTO_UDP
          (udp_datagram (sock_addr (sockets (n_udp st) s)) (dstaddr dgram) data) st
      })"

section \<open>What the fragmentation sends\<close>

text \<open>The reference: the data cut into pieces of \<open>M\<close> bytes, each with its offset and whether more follow.\<close>

function plan :: "nat \<Rightarrow> nat \<Rightarrow> bytes \<Rightarrow> (nat \<times> bytes \<times> bool) list" where
  "plan M off D = (if length D \<le> M \<or> M = 0 then [(off, D, False)]
     else (off, take M D, True) # plan M (off + M) (drop M D))"
  by pat_completeness auto
termination by (relation "measure (\<lambda>(M, off, D). length D)") auto

declare plan.simps [simp del]

definition frag_hdr :: "ip_hdr \<Rightarrow> nat \<times> bytes \<times> bool \<Rightarrow> ip_hdr" where
  "frag_hdr h p = (case p of (off, data, mf) \<Rightarrow>
     h\<lparr>ip_len := of_nat (20 + length data), ip_foff := (if mf then IP_FLAGS_MF else 0) OR of_nat (off div 8)\<rparr>)"

text \<open>A packet without options: the header in network order with its checksum, and the data.\<close>

definition ip_packet :: "ip_hdr \<Rightarrow> bytes \<Rightarrow> bytes" where
  "ip_packet h data = (let n = ip_swap h in
     ip_store (n\<lparr>ip_csum := ip_checksum (ip_store (n\<lparr>ip_csum := 0\<rparr>))\<rparr>) @ data)"

fun send_packets :: "sendto_fn \<Rightarrow> int \<Rightarrow> mac_addr \<Rightarrow> bytes list \<Rightarrow> int \<Rightarrow> ether_state \<Rightarrow> (int \<times> ether_state) option" where
  "send_packets sendto handle mac [] retval est = Some (retval, est)"
| "send_packets sendto handle mac (p # ps) retval est = do {
     (eret, est) \<leftarrow> ether_send sendto est handle mac ETHER_PROTO_IPV4 p;
     if eret < 0 then Some (eret, est) else send_packets sendto handle mac ps (retval + eret) est
   }"

lemma length_ip_packet [simp]: "length (ip_packet h data) = 20 + length data"
  by (simp add: ip_packet_def Let_def)

lemma ip_hton_packet:
  assumes "ip_hdr_hlen h = 20" "20 \<le> length net"
  shows "ip_hton h net = Some (ip_packet h (drop 20 net))"
  using ip_hton_eq [of net h] assms by (simp add: ip_packet_def Let_def)

lemma next_fragment_size_nat:
  assumes "n < 2 ^ 16"
  shows "next_fragment_size (of_nat n) 20 (of_nat ETHER_DATA_LEN) = of_nat (min n 1472)"
proof -
  have m: "ip_off_round (of_nat ETHER_DATA_LEN - 20 - 8) = of_nat 1472" by (simp add: ip_off_round_def ETHER_DATA_LEN_def)
  have "(of_nat n :: size_t) < of_nat 1472 \<longleftrightarrow> n < 1472"
    using assms by (simp add: word_less_nat_alt unat_of_nat)
  then show ?thesis unfolding next_fragment_size_def m by (simp add: Let_def min_def)
qed

lemma drop_bit_of_nat64:
  assumes "n < 2 ^ 64"
  shows "drop_bit 3 (of_nat n :: size_t) = of_nat (n div 8)"
proof -
  have "unat (drop_bit 3 (of_nat n :: size_t)) = n div 8"
    using assms by (simp add: drop_bit_eq_div unat_div_distrib unat_of_nat)
  moreover have "unat (of_nat (n div 8) :: size_t) = n div 8" using assms by (simp add: unat_of_nat take_bit_nat_eq_self)
  ultimately show ?thesis by (simp only: word_unat_eq_iff)
qed

lemma of_nat64_eq_0: "n < 2 ^ 16 \<Longrightarrow> (of_nat n :: size_t) = 0 \<longleftrightarrow> n = 0"
  by (simp add: word_unat_eq_iff unat_of_nat)

text \<open>One turn of the loop, on a buffer whose part behind the offset is the rest of the data.\<close>

lemma frag_hdr_fields:
  fixes rest :: bytes
  assumes "off < 2 ^ 16" "length rest < 2 ^ 16"
  defines "chunk \<equiv> take 1472 rest"
  shows "hdr\<lparr>ip_len := ucast (20 + of_nat (length chunk) :: size_t),
      ip_foff := (if (of_nat (length rest - length chunk) :: size_t) \<noteq> 0 then IP_FLAGS_MF else 0) OR ucast (drop_bit 3 (of_nat off :: size_t))\<rparr> =
    frag_hdr hdr (off, chunk, length rest > 1472)"
proof -
  have "length rest - length chunk < 2 ^ 16" using assms(2) by simp
  then have z: "(of_nat (length rest - length chunk) :: size_t) \<noteq> 0 \<longleftrightarrow> length rest > 1472"
    using of_nat64_eq_0 [of "length rest - length chunk"] by (simp add: chunk_def not_le del: of_nat_diff)
  have "ucast (20 + of_nat (length chunk) :: size_t) = (of_nat (20 + length chunk) :: u16)"
    using ucast_of_nat16 [of "20 + length chunk"] by simp
  moreover have "ucast (drop_bit 3 (of_nat off :: size_t)) = (of_nat (off div 8) :: u16)"
    using assms(1) by (simp add: drop_bit_of_nat64 ucast_of_nat16)
  ultimately show ?thesis unfolding z by (simp add: frag_hdr_def)
qed

lemma fragment_body_ok:
  assumes h: "ip_hdr_hlen hdr = 20" and off: "length payload = 20 + off + length rest" "drop (20 + off) payload = rest"
    and len: "off + length rest < 2 ^ 16 - 20"
  defines "chunk \<equiv> take 1472 rest"
  defines "piece \<equiv> (off, chunk, length rest > 1472)"
  obtains payload' where "fragment_body hdr 20 payload (of_nat (length rest)) (of_nat off) =
      Some (frag_hdr hdr piece, payload', of_nat (length chunk))"
    "take (unat (ip_len (frag_hdr hdr piece))) payload' = ip_packet (frag_hdr hdr piece) chunk"
    "length payload' = length payload" "drop (20 + off + length chunk) payload' = drop 1472 rest"
proof -
  let ?n = "length rest" and ?plen = "length chunk"
  let ?hdr = "frag_hdr hdr piece"
  have n: "next_fragment_size (of_nat ?n) 20 (of_nat ETHER_DATA_LEN) = of_nat ?plen"
    using next_fragment_size_nat [of ?n] len by (simp add: chunk_def)
  have u: "unat (of_nat ?plen :: size_t) = ?plen" "unat (of_nat off :: size_t) = off"
    using len by (simp_all add: unat_of_nat chunk_def)
  have b: "(of_nat ?n - of_nat ?plen :: size_t) = of_nat (?n - ?plen)" by (simp add: chunk_def of_nat_diff)
  have hd: "hdr\<lparr>ip_len := ucast (20 + of_nat ?plen :: size_t),
        ip_foff := (if (of_nat (?n - ?plen) :: size_t) \<noteq> 0 then IP_FLAGS_MF else 0) OR ucast (drop_bit 3 (of_nat off :: size_t))\<rparr> = ?hdr"
    unfolding piece_def chunk_def by (rule frag_hdr_fields) (use len in simp_all)
  have h': "ip_hdr_hlen ?hdr = 20" using h by (simp add: frag_hdr_def piece_def)
  let ?p1 = "ip_packet ?hdr (drop 20 payload)"
  have p1: "ip_hton ?hdr payload = Some ?p1" using ip_hton_packet [OF h'] off(1) by simp
  have d1: "drop 20 ?p1 = drop 20 payload" by (simp add: ip_packet_def Let_def)
  have r: "mem_read ?p1 (20 + off) ?plen = Some chunk"
  proof -
    have "drop (20 + off) ?p1 = rest" using off(2) d1 by (metis drop_drop add.commute)
    then show ?thesis using off(1) by (simp add: mem_read_def chunk_def min_def)
  qed
  let ?p2 = "ip_packet ?hdr chunk @ drop (20 + ?plen) ?p1"
  have t: "take 20 ?p1 = take 20 (ip_packet ?hdr chunk)" by (simp add: ip_packet_def Let_def)
  have w: "mem_write ?p1 20 chunk = Some ?p2"
  proof -
    have "take 20 ?p1 @ chunk = ip_packet ?hdr chunk" by (simp add: ip_packet_def Let_def)
    then show ?thesis using off(1) by (simp add: mem_write_def chunk_def)
  qed
  have l2: "length ?p2 = length payload" using off(1) by (simp add: chunk_def)
  have "20 + ?plen < 2 ^ 16" by (simp add: chunk_def)
  then have "unat (ip_len ?hdr) = 20 + ?plen" by (simp add: frag_hdr_def piece_def unat_of_nat del: of_nat_add)
  then have tk: "take (unat (ip_len ?hdr)) ?p2 = ip_packet ?hdr chunk" by simp
  have "drop (20 + off + ?plen) ?p2 = drop (20 + off + ?plen) ?p1" by (simp add: add.commute add.left_commute)
  also have "\<dots> = drop ?plen rest"
    using off(2) d1 by (metis (no_types, lifting) drop_drop add.commute add.left_commute)
  also have "\<dots> = drop 1472 rest" by (cases "?n \<le> 1472") (simp_all add: chunk_def)
  finally have "drop (20 + off + ?plen) ?p2 = drop 1472 rest" .
  moreover have "fragment_body hdr 20 payload (of_nat ?n) (of_nat off) = Some (?hdr, ?p2, of_nat ?plen)"
    unfolding fragment_body_def n Let_def b hd p1 using u r w by simp
  ultimately show thesis using that l2 tk by blast
qed

lemma frag_hdr_twice [simp]: "frag_hdr (frag_hdr h p) q = frag_hdr h q"
  by (cases p; cases q) (simp add: frag_hdr_def)

lemma fragment_loop_ok:
  assumes "ip_hdr_hlen hdr = 20" "length payload = 20 + off + length rest" "drop (20 + off) payload = rest"
    "off + length rest < 2 ^ 16 - 20" "rest \<noteq> []"
  shows "fragment_loop sendto handle mac 20 hdr payload (of_nat (length rest)) (of_nat off) retval est =
    send_packets sendto handle mac (map (\<lambda>p. ip_packet (frag_hdr hdr p) (fst (snd p))) (plan 1472 off rest)) retval est"
  using assms
proof (induction "length rest" arbitrary: hdr payload off rest retval est rule: less_induct)
  case less
  define chunk where "chunk = take 1472 rest"
  define p where "p = (off, chunk, length rest > 1472)"
  obtain payload' where b: "fragment_body hdr 20 payload (of_nat (length rest)) (of_nat off) =
      Some (frag_hdr hdr p, payload', of_nat (length chunk))"
    "take (unat (ip_len (frag_hdr hdr p))) payload' = ip_packet (frag_hdr hdr p) chunk"
    "length payload' = length payload" "drop (20 + off + length chunk) payload' = drop 1472 rest"
    using fragment_body_ok [OF less.prems(1-4)] unfolding p_def chunk_def .
  have e: "(of_nat (length rest) - of_nat (length chunk) :: size_t) = of_nat (length rest - length chunk)"
    by (simp add: chunk_def of_nat_diff)
  have pos: "(of_nat (length rest - length chunk) :: size_t) > 0 \<longleftrightarrow> length rest > 1472"
    using of_nat64_eq_0 [of "length rest - length chunk"] less.prems(4)
    by (simp add: chunk_def word_neq_0_conv [symmetric] not_le del: of_nat_diff)
  note step = fragment_loop.simps [of sendto handle mac 20 hdr payload "of_nat (length rest)" "of_nat off"]
  show ?case
  proof (cases "length rest > 1472")
    case False
    then have q: "plan 1472 off rest = [p]" by (subst plan.simps) (simp add: p_def chunk_def)
    have "fst (snd p) = chunk" by (simp add: p_def)
    then show ?thesis unfolding step q using b(1,2) e pos False by (simp cong: if_cong del: of_nat_diff)
  next
    case True
    have q: "plan 1472 off rest = p # plan 1472 (off + 1472) (drop 1472 rest)"
      using True by (subst plan.simps) (simp add: p_def chunk_def)
    have l: "length chunk = 1472" "length rest - length chunk = length (drop 1472 rest)"
      using True by (simp_all add: chunk_def)
    have "ip_hdr_hlen (frag_hdr hdr p) = 20" using less.prems(1) by (simp add: frag_hdr_def p_def)
    moreover have "length payload' = 20 + (off + 1472) + length (drop 1472 rest)" using b(3) less.prems(2) True by simp
    moreover have "drop (20 + (off + 1472)) payload' = drop 1472 rest" using b(4) l(1) by (simp add: add.assoc)
    ultimately have IH: "fragment_loop sendto handle mac 20 (frag_hdr hdr p) payload' (of_nat (length (drop 1472 rest)))
        (of_nat (off + 1472)) r est' =
      send_packets sendto handle mac
        (map (\<lambda>p. ip_packet (frag_hdr hdr p) (fst (snd p))) (plan 1472 (off + 1472) (drop 1472 rest))) r est'"
      for r est'
      using less.hyps [of "drop 1472 rest" "frag_hdr hdr p" payload' "off + 1472" r est'] True less.prems(4) by simp
    have "fst (snd p) = chunk" "(of_nat off + of_nat (length chunk) :: size_t) = of_nat (off + 1472)"
      using l(1) by (simp_all add: p_def)
    then show ?thesis unfolding step q using b(1,2) e pos True IH
      by (simp add: l(2) cong: if_cong del: of_nat_diff length_drop of_nat_add)
  qed
qed

text \<open>The pieces of the plan.\<close>

lemma plan_concat: "concat (map (\<lambda>p. fst (snd p)) (plan M off D)) = D"
  by (induction M off D rule: plan.induct) (subst plan.simps, simp)

lemma plan_first: "\<exists>ps. plan M off D = (off, take M D, length D > M) # ps" if "M > 0"
  using that by (subst plan.simps) auto

lemma plan_pieces:
  "M > 0 \<Longrightarrow> (o', d, mf) \<in> set (plan M off D) \<Longrightarrow>
   off \<le> o' \<and> o' + length d \<le> off + length D \<and> d = take (length d) (drop (o' - off) D) \<and> length d \<le> M \<and>
   M dvd (o' - off) \<and> (if mf then length d = M else o' + length d = off + length D)"
proof (induction M off D rule: plan.induct)
  case (1 M off D)
  show ?case
  proof (cases "length D \<le> M")
    case True
    then show ?thesis using 1(3) by (subst (asm) plan.simps) simp
  next
    case False
    then have "(o', d, mf) = (off, take M D, True) \<or> (o', d, mf) \<in> set (plan M (off + M) (drop M D))"
      using 1(2,3) by (subst (asm) plan.simps) simp
    then show ?thesis
    proof
      assume "(o', d, mf) = (off, take M D, True)"
      then show ?thesis using False by simp
    next
      assume *: "(o', d, mf) \<in> set (plan M (off + M) (drop M D))"
      have IH: "off + M \<le> o' \<and> o' + length d \<le> off + M + length (drop M D) \<and>
          d = take (length d) (drop (o' - (off + M)) (drop M D)) \<and> length d \<le> M \<and> M dvd (o' - (off + M)) \<and>
          (if mf then length d = M else o' + length d = off + M + length (drop M D))"
        by (rule 1(1) [OF _ 1(2) *]) (use False 1(2) in simp)
      then have o: "o' - off = M + (o' - (off + M))" by simp
      have x: "drop (o' - (off + M)) (drop M D) = drop (o' - off) D" unfolding o drop_drop by (simp only: add.commute)
      have "M dvd (o' - off)" unfolding o by (rule dvd_add [OF dvd_refl]) (use IH in blast)
      moreover have "off + M + length (drop M D) = off + length D" using False by simp
      ultimately show ?thesis using IH [unfolded x] by (metis le_add1 order_trans)
    qed
  qed
qed

lemma plan_later: "M > 0 \<Longrightarrow> length D > M \<Longrightarrow> \<exists>ps. plan M off D = (off, take M D, True) # ps \<and>
    (\<forall>p \<in> set ps. fst p > off) \<and> (\<exists>p \<in> set ps. \<not> snd (snd p))"
proof -
  assume M: "M > 0" "length D > M"
  have "\<exists>p \<in> set (plan M o' E). \<not> snd (snd p)" for o' E
    by (induction M o' E rule: plan.induct) (subst plan.simps, auto)
  moreover have "fst p > off" if "p \<in> set (plan M (off + M) (drop M D))" for p
    using plan_pieces [OF M(1), of "fst p" "fst (snd p)" "snd (snd p)" "off + M" "drop M D"] that M(1) by simp
  moreover have "plan M off D = (off, take M D, True) # plan M (off + M) (drop M D)" using M by (subst plan.simps) simp
  ultimately show ?thesis by blast
qed

lemma ip_packet_csum [simp]: "ip_packet (h\<lparr>ip_csum := c\<rparr>) d = ip_packet h d"
  by (simp add: ip_packet_def Let_def)

lemma ip_load_packet: "ip_load (ip_packet h d) = Some ((ip_swap h)\<lparr>ip_csum := ip_checksum (ip_store ((ip_swap h)\<lparr>ip_csum := 0\<rparr>))\<rparr>)"
  by (simp add: ip_packet_def Let_def)

lemma send_fragments_eq:
  assumes "ip_hdr_hlen h = 20" "D \<noteq> []" "length D < 2 ^ 16 - 20"
  shows "ip_send_fragments sendto handle mac (ip_packet h D) est =
    send_packets sendto handle mac (map (\<lambda>p. ip_packet (frag_hdr h p) (fst (snd p))) (plan 1472 0 D)) 0 est"
proof -
  let ?c = "ip_checksum (ip_store ((ip_swap h)\<lparr>ip_csum := 0\<rparr>))"
  have f: "frag_hdr (h\<lparr>ip_csum := ?c\<rparr>) p = (frag_hdr h p)\<lparr>ip_csum := ?c\<rparr>" for p
    by (cases p) (simp add: frag_hdr_def)
  have d: "drop 20 (ip_packet h D) = D" by (simp add: ip_packet_def Let_def)
  have "ip_ntoh ((ip_swap h)\<lparr>ip_csum := ?c\<rparr>) = (h\<lparr>ip_csum := ?c\<rparr>, 20)" using assms(1) by (simp add: ip_ntoh_swap)
  then have "ip_send_fragments sendto handle mac (ip_packet h D) est =
      fragment_loop sendto handle mac 20 (h\<lparr>ip_csum := ?c\<rparr>) (ip_packet h D) (of_nat (length D)) (of_nat 0) 0 est"
    by (simp add: ip_send_fragments_def ip_load_packet)
  also have "\<dots> = send_packets sendto handle mac
      (map (\<lambda>p. ip_packet (frag_hdr (h\<lparr>ip_csum := ?c\<rparr>) p) (fst (snd p))) (plan 1472 0 D)) 0 est"
    by (rule fragment_loop_ok) (use assms d in simp_all)
  finally show ?thesis by (simp only: f ip_packet_csum)
qed

lemma plan_covers:
  "M > 0 \<Longrightarrow> j < length D \<Longrightarrow> \<exists>(o', d, mf) \<in> set (plan M off D). o' \<le> off + j \<and> off + j < o' + length d"
proof (induction M off D arbitrary: j rule: plan.induct)
  case (1 M off D)
  show ?case
  proof (cases "length D \<le> M")
    case True
    then show ?thesis using 1(2,3) by (subst plan.simps) simp
  next
    case False
    then have p: "plan M off D = (off, take M D, True) # plan M (off + M) (drop M D)" using 1(2) by (subst plan.simps) simp
    show ?thesis
    proof (cases "j < M")
      case True
      then show ?thesis using False unfolding p by simp
    next
      case j: False
      have "\<exists>(o', d, mf) \<in> set (plan M (off + M) (drop M D)). o' \<le> off + M + (j - M) \<and> off + M + (j - M) < o' + length d"
        by (rule 1(1)) (use False j 1(2,3) in auto)
      then show ?thesis using j unfolding p by auto
    qed
  qed
qed

section \<open>Reassembly of what was sent\<close>

text \<open>A packet of the plan as \<^verbatim>\<open>ip_input\<close> finds it: the header in host order, with its checksum, and the data.\<close>

definition sent_packet :: "ip_hdr \<Rightarrow> nat \<times> bytes \<times> bool \<Rightarrow> ip_hdr \<times> bytes" where
  "sent_packet h p = ((frag_hdr h p)\<lparr>ip_csum := ip_checksum (ip_store ((ip_swap (frag_hdr h p))\<lparr>ip_csum := 0\<rparr>))\<rparr>, fst (snd p))"

lemma sent_packet_bytes: "ip_packet (frag_hdr h p) (fst (snd p)) = ip_store (ip_swap (fst (sent_packet h p))) @ snd (sent_packet h p)"
  by (simp add: ip_packet_def sent_packet_def Let_def)

lemma plan_last: "M > 0 \<Longrightarrow> \<exists>us off' d. plan M off D = us @ [(off', d, False)] \<and> (\<forall>p \<in> set us. snd (snd p))"
proof (induction M off D rule: plan.induct)
  case (1 M off D)
  show ?case
  proof (cases "length D \<le> M")
    case True
    then have "plan M off D = [] @ [(off, D, False)]" using 1(2) by (subst plan.simps) simp
    then show ?thesis by (metis empty_iff list.set(1))
  next
    case False
    then have p: "plan M off D = (off, take M D, True) # plan M (off + M) (drop M D)" using 1(2) by (subst plan.simps) simp
    obtain us off' d where "plan M (off + M) (drop M D) = us @ [(off', d, False)]" "\<forall>p \<in> set us. snd (snd p)"
      using 1(1) [OF _ 1(2)] False 1(2) by auto
    then have "plan M off D = ((off, take M D, True) # us) @ [(off', d, False)]" "\<forall>p \<in> set ((off, take M D, True) # us). snd (snd p)"
      using p by auto
    then show ?thesis by blast
  qed
qed

lemma frag_run_append:
  "frag_run (us @ vs) st = do { (r, s) \<leftarrow> frag_run us st; case r of None \<Rightarrow> frag_run vs s | Some p \<Rightarrow> Some (Some p, s) }"
  by (induction us st rule: frag_run.induct) (auto split: Option.bind_splits sum.splits)

text \<open>As long as the last fragment is missing the packet is not complete.\<close>

lemma frag_run_unfinished:
  assumes "session k D p B st" "length D < 2 ^ 16" "ip_len (p_hdr (packet_buffer st p)) = 0"
    "\<forall>f \<in> set fs. fragment_of k D f \<and> ip_foff (fst f) AND IP_FLAGS_MF \<noteq> 0"
  shows "\<exists>st'. frag_run fs st = Some (None, st') \<and> frag_inv st'"
  using assms(1,3,4)
proof (induction fs arbitrary: B st)
  case (Cons f fs)
  obtain hdr rx where f: "f = (hdr, rx)" "fragment_of k D (hdr, rx)" "ip_foff hdr AND IP_FLAGS_MF \<noteq> 0" using Cons.prems(3) by (cases f) auto
  obtain st' where st': "frag_collect hdr rx st = Some (Inr p, st')" "session k D p (frag_blocks hdr \<union> B) st'"
    "ip_len (p_hdr (packet_buffer st' p)) = ip_len (frag_header hdr (p_hdr (packet_buffer st p)))"
    using session_step [OF Cons.prems(1) f(2) assms(2)] .
  then have z: "ip_len (p_hdr (packet_buffer st' p)) = 0" using Cons.prems(2) f(3) by (simp add: frag_header_def)
  then show ?case using Cons.IH [OF st'(2)] Cons.prems(3) st'(1) f(1) by (simp add: frag_done_def)
qed (simp add: session_def)

lemma unfinished_plan:
  assumes "frag_inv st" "in_use st \<noteq> {p. p < PACKET_BUFFERS}" "\<forall>p \<in> in_use st. frag_key (p_hdr (packet_buffer st p)) \<noteq> k"
    "fragment_of k D f" "frag_off (fst f) = 0" "length D \<le> 16384" "\<forall>f \<in> set fs. fragment_of k D f \<and> ip_foff (fst f) AND IP_FLAGS_MF \<noteq> 0"
  shows "\<exists>st'. frag_run (f # fs) st = Some (None, st') \<and> frag_inv st'"
proof -
  obtain hdr rx where f: "f = (hdr, rx)" by (cases f)
  have L: "length D < 2 ^ 16" using assms(6) by simp
  obtain p st1 where p: "session k D p {} st1" "frag_run ((hdr, rx) # fs) st = frag_run ((hdr, rx) # fs) st1"
    using frag_run_fresh [OF assms(1-4) [unfolded f] assms(6)] .
  obtain st2 where st2: "frag_collect hdr rx st1 = Some (Inr p, st2)" "session k D p (frag_blocks hdr \<union> {}) st2"
    "ip_len (p_hdr (packet_buffer st2 p)) = ip_len (frag_header hdr (p_hdr (packet_buffer st1 p)))"
    using session_step [OF p(1) assms(4) [unfolded f] L] .
  have z: "ip_len (p_hdr (packet_buffer st2 p)) = 0" using st2(3) assms(5) f by (simp add: frag_header_def)
  then show ?thesis using frag_run_unfinished [OF st2(2) L z assms(7)] p(2) st2(1) f by (simp add: frag_done_def)
qed

lemma mask13: "(0x1fff :: u16) = mask 13" "IP_FLAGS_MF = push_bit 13 1"
  by (simp_all add: mask_eq_exp_minus_1 IP_FLAGS_MF_def push_bit_eq_mult)

lemma foff_fields:
  assumes "k < 2 ^ 13"
  shows "unat (((if mf then IP_FLAGS_MF else 0) OR of_nat k) AND 0x1fff) = k"
    "((if mf then IP_FLAGS_MF else 0) OR of_nat k) AND IP_FLAGS_MF = 0 \<longleftrightarrow> \<not> mf"
proof -
  have t: "take_bit 13 (of_nat k :: u16) = of_nat k"
    using assms by (simp add: word_unat_eq_iff unsigned_take_bit_eq unat_of_nat take_bit_nat_eq_self_iff)
  have u: "unat (of_nat k :: u16) = k" using assms by (simp add: unat_of_nat)
  have "((if mf then IP_FLAGS_MF else 0) OR of_nat k) AND 0x1fff = (of_nat k :: u16)"
    unfolding mask13 by (simp add: take_bit_eq_mask [symmetric] take_bit_or take_bit_push_bit t)
  then show "unat (((if mf then IP_FLAGS_MF else 0) OR of_nat k) AND 0x1fff) = k" using u by simp
  have b: "\<not> bit (of_nat k :: u16) 13"
  proof
    assume "bit (of_nat k :: u16) 13"
    then have "bit (take_bit 13 (of_nat k :: u16)) 13" unfolding t .
    then show False by (simp add: bit_take_bit_iff)
  qed
  define X where "X = ((if mf then IP_FLAGS_MF else 0) OR of_nat k) AND IP_FLAGS_MF"
  have "bit X 13 \<longleftrightarrow> mf" using b unfolding X_def mask13 by (simp add: bit_simps)
  moreover have "X = 0" if "\<not> mf"
  proof -
    have "bit IP_FLAGS_MF n \<longleftrightarrow> n = 13" if "n < 16" for n
      unfolding mask13(2) bit_push_bit_iff using that by (auto simp: bit_1_iff)
    then show ?thesis unfolding X_def using b that by (intro bit_word_eqI) (auto simp: bit_and_iff)
  qed
  ultimately have "X = 0 \<longleftrightarrow> \<not> mf" by auto
  then show "((if mf then IP_FLAGS_MF else 0) OR of_nat k) AND IP_FLAGS_MF = 0 \<longleftrightarrow> \<not> mf" unfolding X_def .
qed

lemma plan_fragment:
  assumes h: "ip_hdr_hlen h = 20" "frag_key h = k" and D: "1472 < length D" "length D < 2 ^ 16 - 20"
    and p: "(o', d, mf) \<in> set (plan 1472 0 D)"
  shows "fragment_of k D ((frag_hdr h (o', d, mf))\<lparr>ip_csum := c\<rparr>, d)"
    "frag_off ((frag_hdr h (o', d, mf))\<lparr>ip_csum := c\<rparr>) = o'"
    "frag_blocks ((frag_hdr h (o', d, mf))\<lparr>ip_csum := c\<rparr>) = {o' div 8..<o' div 8 + (length d + 7) div 8}"
    "ip_foff ((frag_hdr h (o', d, mf))\<lparr>ip_csum := c\<rparr>) AND IP_FLAGS_MF = 0 \<longleftrightarrow> \<not> mf"
proof -
  let ?h = "(frag_hdr h (o', d, mf))\<lparr>ip_csum := c\<rparr>"
  have q: "o' + length d \<le> length D" "d = take (length d) (drop o' D)" "length d \<le> 1472" "1472 dvd o'"
    "if mf then length d = 1472 else o' + length d = length D"
    using plan_pieces [OF _ p] by auto
  have "o' div 8 < 2 ^ 13" using q(1) D(2) by simp
  note f = foff_fields [OF this, of mf]
  have "8 dvd o'" using q(4) by (rule dvd_trans [rotated]) simp
  then have "o' div 8 * 8 = o'" by simp
  then show off: "frag_off ?h = o'" using f(1) by (simp add: frag_off_def frag_hdr_def)
  show mf: "ip_foff ?h AND IP_FLAGS_MF = 0 \<longleftrightarrow> \<not> mf" using f(2) by (simp add: frag_hdr_def)
  have "20 + length d < 2 ^ 16" using q(3) by simp
  then have "unat (ip_len ?h) = 20 + length d" by (simp add: frag_hdr_def unat_of_nat del: of_nat_add)
  then have len: "frag_len ?h = Some (length d)" using h(1) by (simp add: frag_len_def frag_hdr_def)
  then show "frag_blocks ?h = {o' div 8..<o' div 8 + (length d + 7) div 8}" using off by (simp add: frag_blocks_def)
  have "ip_fragment_is_frag ?h"
  proof (cases mf)
    case True
    then show ?thesis using mf by (simp add: ip_fragment_is_frag_def)
  next
    case False
    then have "o' \<noteq> 0" using q(3,5) D(1) by auto
    then have "ip_foff ?h AND 0x1fff \<noteq> 0" using off by (auto simp: frag_off_def)
    then show ?thesis by (simp add: ip_fragment_is_frag_def)
  qed
  moreover have "frag_key ?h = k" using h(2) by (simp add: frag_key_def frag_hdr_def)
  ultimately show "fragment_of k D (?h, d)"
    using len off q mf by (simp split: if_splits)
qed

text \<open>The packets of the plan in the order they are sent: all but the last one are collected, and the last one completes the packet.\<close>

lemma fragments_reassemble:
  assumes h: "ip_hdr_hlen h = 20" and D: "1472 < length D" "length D \<le> 16384"
    and st: "frag_inv st" "in_use st \<noteq> {p. p < PACKET_BUFFERS}"
      "\<forall>p \<in> in_use st. frag_key (p_hdr (packet_buffer st p)) \<noteq> frag_key h"
  shows "\<exists>us f st1 p st'. map (sent_packet h) (plan 1472 0 D) = us @ [f] \<and> frag_run us st = Some (None, st1) \<and>
    frag_run [f] st1 = Some (Some p, st') \<and> unat (ip_len (p_hdr (packet_buffer st' p))) = length D \<and>
    map (p_payload (packet_buffer st' p)) [0..<length D] = D"
proof -
  obtain ps where ps: "plan 1472 0 D = (0, take 1472 D, True) # ps" "\<forall>p \<in> set ps. fst p > 0" "\<exists>p \<in> set ps. \<not> snd (snd p)"
    using plan_later [of 1472 D 0] D(1) by auto
  have D16: "length D < 2 ^ 16 - 20" "length D < 2 ^ 16" using D(2) by simp_all
  have r: "fragment_of (frag_key h) D (sent_packet h p)" "frag_off (fst (sent_packet h p)) = fst p"
    "frag_blocks (fst (sent_packet h p)) = {fst p div 8..<fst p div 8 + (length (fst (snd p)) + 7) div 8}"
    "ip_foff (fst (sent_packet h p)) AND IP_FLAGS_MF = 0 \<longleftrightarrow> \<not> snd (snd p)"
    if "p \<in> set (plan 1472 0 D)" for p
    using plan_fragment [OF h refl D(1) D16(1), of "fst p" "fst (snd p)" "snd (snd p)"] that by (simp_all add: sent_packet_def)
  have first: "(0, take 1472 D, True) \<in> set (plan 1472 0 D)" and rest: "set ps \<subseteq> set (plan 1472 0 D)" using ps(1) by auto
  have cover: "all_blocks D \<subseteq> (\<Union>p \<in> set (plan 1472 0 D). frag_blocks (fst (sent_packet h p)))"
  proof
    fix i
    assume "i \<in> all_blocks D"
    then have "8 * i < length D" by (auto simp: all_blocks_def)
    then obtain o' d mf where p: "(o', d, mf) \<in> set (plan 1472 0 D)" "o' \<le> 8 * i" "8 * i < o' + length d"
      using plan_covers [of 1472 "8 * i" D 0] by auto
    have "1472 dvd o'" using plan_pieces [OF _ p(1)] by simp
    then have "8 dvd o'" by (rule dvd_trans [rotated]) simp
    then have "i \<in> {o' div 8..<o' div 8 + (length d + 7) div 8}" using p(2,3) by auto
    then show "i \<in> (\<Union>p \<in> set (plan 1472 0 D). frag_blocks (fst (sent_packet h p)))" using r(3) [OF p(1)] p(1) by force
  qed
  let ?f0 = "sent_packet h (0, take 1472 D, True)"
  have "\<exists>p st'. frag_run ((fst ?f0, snd ?f0) # map (sent_packet h) ps) st = Some (Some p, st') \<and>
      unat (ip_len (p_hdr (packet_buffer st' p))) = length D \<and> map (p_payload (packet_buffer st' p)) [0..<length D] = D"
  proof (rule frag_run_delivers [OF st])
    show f0: "fragment_of (frag_key h) D (fst ?f0, snd ?f0)" "frag_off (fst ?f0) = 0" using r(1,2) [OF first] by simp_all
    show "\<forall>f \<in> set (map (sent_packet h) ps). fragment_of (frag_key h) D f \<and> frag_off (fst f) \<noteq> 0"
      using r(1,2) rest ps(2) by (auto simp: subset_iff)
    obtain p where p: "p \<in> set ps" "\<not> snd (snd p)" using ps(3) by blast
    then have "ip_foff (fst (sent_packet h p)) AND IP_FLAGS_MF = 0" using r(4) [of p] rest by blast
    then show "\<exists>f \<in> set (map (sent_packet h) ps). ip_foff (fst f) AND IP_FLAGS_MF = 0" using p(1) by auto
    show "all_blocks D \<subseteq> frag_blocks (fst ?f0) \<union> (\<Union>f \<in> set (map (sent_packet h) ps). frag_blocks (fst f))"
      using cover unfolding ps(1) by simp
    show "length D \<le> 16384" "D \<noteq> []" using D by auto
  qed
  then obtain p st' where run: "frag_run (map (sent_packet h) (plan 1472 0 D)) st = Some (Some p, st')"
    "unat (ip_len (p_hdr (packet_buffer st' p))) = length D" "map (p_payload (packet_buffer st' p)) [0..<length D] = D"
    unfolding ps(1) by auto
  obtain us off d where us: "plan 1472 0 D = us @ [(off, d, False)]" "\<forall>p \<in> set us. snd (snd p)" using plan_last [of 1472 0 D] by auto
  then obtain us' where us': "us = (0, take 1472 D, True) # us'" using ps(1) by (cases us) auto
  have "\<exists>st1. frag_run (map (sent_packet h) us) st = Some (None, st1)"
    using unfinished_plan [OF st r(1) [OF first] _ D(2), of "map (sent_packet h) us'"] r(2) [OF first] r(1,4) us unfolding us' by auto
  then obtain st1 where st1: "frag_run (map (sent_packet h) us) st = Some (None, st1)" ..
  then have "frag_run [sent_packet h (off, d, False)] st1 = Some (Some p, st')" using run(1) unfolding us(1) by (simp add: frag_run_append del: frag_run.simps)
  then show ?thesis using us(1) st1 run(2,3) by (intro exI [of _ "map (sent_packet h) us"] exI [of _ "sent_packet h (off, d, False)"]) auto
qed

end
