(* ===== verification/Ip_Output.thy ===== *)
theory Ip_Output
  imports Ip_Send
begin

text \<open>
  What the way out does: the packets \<^verbatim>\<open>ip_send_fragments\<close> puts on the wire and that they are reassembled
  to the packet that was sent, every branch of \<^verbatim>\<open>ip_send\<close>, and that the handler of deferred packets
  ends. The system call is a parameter; what is relied on is that error numbers are positive and counts
  are not negative.
\<close>

definition sendto_ok :: "sendto_fn \<Rightarrow> bool" where
  "sendto_ok sendto \<longleftrightarrow> (\<forall>w f. case sendto w f of Inl e \<Rightarrow> e > 0 | Inr n \<Rightarrow> n \<ge> 0)"

text \<open>A stack that is configured: the routes \<open>R\<close> on its one interface, and a consistent ARP cache.\<close>

definition net_ok :: "u32 \<Rightarrow> ip_route set \<Rightarrow> net_state \<Rightarrow> bool" where
  "net_ok lo R st \<longleftrightarrow> rib_holds lo (n_rib st) R \<and> in_window lo 0 \<and> (\<forall>q \<in> R. r_iface_handle q = 0) \<and>
     arp_inv lo (n_arp st) \<and> length (el_mac (ether_if (n_eth st))) = 6"

lemma net_ok_update [simp]:
  "net_ok lo R (st\<lparr>n_defer := d\<rparr>) = net_ok lo R st" "net_ok lo R (st\<lparr>ip_global_id := i\<rparr>) = net_ok lo R st"
  "net_ok lo R (st\<lparr>n_frag := f\<rparr>) = net_ok lo R st" "net_ok lo R (st\<lparr>n_tcp := t\<rparr>) = net_ok lo R st"
  "net_ok lo R (st\<lparr>n_udp := u\<rparr>) = net_ok lo R st"
  by (simp_all add: net_ok_def)

lemma net_ok_eth: "net_ok lo R st \<Longrightarrow> ether_if est = ether_if (n_eth st) \<Longrightarrow> net_ok lo R (st\<lparr>n_eth := est\<rparr>)"
  by (simp add: net_ok_def)

lemma net_ok_errno [simp]: "net_ok lo R (set_errno e st) = net_ok lo R st"
  by (simp add: net_ok_def set_errno_def)

section \<open>Frames\<close>

lemma ether_send_total:
  assumes "length buf \<le> 1500"
  obtains r est' where "ether_send sendto est 0 dst proto buf = Some (r, est')" "ether_if est' = ether_if est"
  using ether_send_cases [OF assms, of sendto est dst proto] by (auto simp: Let_def split: sum.splits)

lemma ether_send_too_long:
  assumes "1500 < length buf" "length buf < 2 ^ 32 - 18"
  shows "ether_send sendto est h dst proto buf = Some (- EMSGSIZE, est)"
  using frame_size_large [OF assms] assms by (simp add: ether_send_def ether_consts)

lemma send_packets_total:
  assumes "\<forall>p \<in> set ps. length p \<le> 1500"
  shows "\<exists>r' est'. send_packets sendto 0 mac ps r est = Some (r', est') \<and> ether_if est' = ether_if est"
  using assms
proof (induction ps arbitrary: r est)
  case (Cons p ps)
  obtain e est1 where "ether_send sendto est 0 mac ETHER_PROTO_IPV4 p = Some (e, est1)" "ether_if est1 = ether_if est"
    using ether_send_total [of p sendto est mac ETHER_PROTO_IPV4] Cons.prems by auto
  then show ?case using Cons.IH [of "r + e" est1] Cons.prems by auto
qed simp

lemma length_arp_store: "length (arp_sha m) = 6 \<Longrightarrow> length (arp_tha m) = 6 \<Longrightarrow> length (arp_store m) = 28"
  by (simp add: arp_store_def)

definition arp_frame :: "ether_state \<Rightarrow> u32 \<Rightarrow> u32 \<Rightarrow> bytes" where
  "arp_frame est spa tpa = ether_frame mac_broadcast_addr (el_mac (ether_if est)) ETHER_PROTO_ARP
     (arp_store (arp_hton (arp_message (el_mac (ether_if est)) spa tpa)))"

lemma arp_request_eq:
  assumes "length (el_mac (ether_if est)) = 6" "sendto_ok sendto"
  shows "arp_request sendto 0 spa tpa est =
    (case sendto (wire est) (arp_frame est spa tpa) of
       Inl e \<Rightarrow> Some (- e, est\<lparr>errno := e\<rparr>)
     | Inr n \<Rightarrow> Some (0, est\<lparr>wire := wire est @ [arp_frame est spa tpa]\<rparr>))"
proof -
  let ?m = "arp_store (arp_hton (arp_message (el_mac (ether_if est)) spa tpa))"
  have l: "length ?m \<le> 1500" using assms(1) by (simp add: length_arp_store arp_hton_def arp_message_def)
  have "case sendto (wire est) (arp_frame est spa tpa) of Inl e \<Rightarrow> e > 0 | Inr n \<Rightarrow> n \<ge> 0"
    using assms(2) unfolding sendto_ok_def by blast
  then show ?thesis
    unfolding arp_request_def ether_handle2addr_def ether_handle2eth_def
    by (simp add: ether_send_cases [OF l] arp_frame_def Let_def split: sum.splits)
qed

section \<open>Resolution\<close>

definition resolved :: "net_state \<Rightarrow> u32 \<Rightarrow> mac_addr option" where
  "resolved st dst = (case arp_map (n_arp st) dst of Some (mac, a) \<Rightarrow> if a \<ge> 0 then Some mac else None | None \<Rightarrow> None)"

lemma arp_resolve_eq:
  assumes ok: "net_ok lo R st" "sendto_ok sendto" and r: "route \<in> R"
  shows "arp_resolve sendto (r_iface route) dst (n_rib st) (n_eth st) =
    (case sendto (wire (n_eth st)) (arp_frame (n_eth st) (r_iface route) dst) of
       Inl e \<Rightarrow> Some (None, (n_eth st)\<lparr>errno := e\<rparr>)
     | Inr n \<Rightarrow> Some (None, (n_eth st)\<lparr>errno := EHOSTUNREACH,
         wire := wire (n_eth st) @ [arp_frame (n_eth st) (r_iface route) dst]\<rparr>))"
proof -
  obtain S where S: "rib_inv lo (n_rib st) S" "R = rib_route (n_rib st) ` S" using ok(1) by (auto simp: net_ok_def rib_holds_def)
  have "in_window lo (r_iface route)" using S r by (auto simp: rib_inv_def)
  from find_by_iface_ok [OF S(1) this] obtain res where res: "ip_route_find_by_iface (r_iface route) (n_rib st) = Some res"
    "case res of Inr q \<Rightarrow> q \<in> R \<and> r_iface q = r_iface route | Inl e \<Rightarrow> e = ENOENT \<and> (\<forall>p \<in> R. r_iface p \<noteq> r_iface route)"
    unfolding S(2) by blast
  then obtain q where q: "ip_route_find_by_iface (r_iface route) (n_rib st) = Some (Inr q)" "q \<in> R" "r_iface q = r_iface route"
    using r by (cases res) auto
  have h: "r_iface_handle q = 0" and m: "length (el_mac (ether_if (n_eth st))) = 6"
    using ok(1) q(2) by (auto simp: net_ok_def)
  have "case sendto (wire (n_eth st)) (arp_frame (n_eth st) (r_iface route) dst) of Inl e \<Rightarrow> e > 0 | Inr n \<Rightarrow> n \<ge> 0"
    using ok(2) unfolding sendto_ok_def by blast
  then show ?thesis unfolding arp_resolve_def q(1)
    using arp_request_eq [OF m ok(2)] by (simp add: h q(3) split: sum.splits)
qed

lemma arp_haddr_eq:
  assumes "net_ok lo R st" "in_window lo dst"
  shows "arp_cache_get_haddr sendto iface dst (n_arp st) (n_rib st) (n_eth st) =
    (case resolved st dst of Some mac \<Rightarrow> Some (Some mac, n_eth st)
     | None \<Rightarrow> arp_resolve sendto iface dst (n_rib st) (n_eth st))"
proof -
  have "arp_cache_get_entry dst (n_arp st) = Some (arp_slot (n_arp st) dst)"
    using assms by (auto simp: net_ok_def intro: arp_get_entry)
  then show ?thesis
    by (simp add: arp_cache_get_haddr_def resolved_def arp_map_def split: option.splits)
qed

lemma route_in_R:
  assumes "net_ok lo R st" "in_window lo dst" "ip_route_find_by_network dst (n_rib st) = Some (Inr route)"
  shows "route \<in> R"
proof -
  obtain S where S: "rib_inv lo (n_rib st) S" "R = rib_route (n_rib st) ` S" "in_window lo 0"
    using assms(1) by (auto simp: net_ok_def rib_holds_def)
  show ?thesis by (rule find_by_network_cases [OF S(1) assms(2) S(3)]) (use assms(3) S(2) in auto)
qed

lemma find_by_network_total:
  assumes "net_ok lo R st" "in_window lo dst"
  obtains res where "ip_route_find_by_network dst (n_rib st) = Some res"
proof -
  obtain S where S: "rib_inv lo (n_rib st) S" "in_window lo 0"
    using assms(1) by (auto simp: net_ok_def rib_holds_def)
  show thesis by (rule find_by_network_cases [OF S(1) assms(2) S(2)]) (use that in auto)
qed

section \<open>The branches of the send operation\<close>

definition packet_hdr :: "ip_route \<Rightarrow> u32 \<Rightarrow> u8 \<Rightarrow> bytes \<Rightarrow> net_state \<Rightarrow> ip_hdr" where
  "packet_hdr route dst proto buf st = ip_hdr_template\<lparr>ip_len := of_nat (20 + length buf),
     ip_id := ucast (ip_global_id st), ip_src := r_iface route, ip_dst := dst, ip_proto := proto\<rparr>"

definition fragments :: "ip_hdr \<Rightarrow> bytes \<Rightarrow> bytes list" where
  "fragments h D = map (\<lambda>p. ip_packet (frag_hdr h p) (fst (snd p))) (plan 1472 0 D)"

definition next_id :: "net_state \<Rightarrow> net_state" where
  "next_id st = st\<lparr>ip_global_id := ip_global_id st + 1\<rparr>"

lemma packet_hdr_hlen [simp]: "ip_hdr_hlen (packet_hdr route dst proto buf st) = 20"
  by (simp add: packet_hdr_def ip_hdr_hlen_def ip_hdr_template_def IP_VHL_DEFAULT_def)

lemma ip_transmit_eq:
  "ip_transmit sendto route mac dst proto buf st =
    (let h = packet_hdr route dst proto buf st; st = next_id st in
     if length buf \<le> 1500 then
       map_option (\<lambda>(r, est). (r, st\<lparr>n_eth := est\<rparr>))
         (ether_send sendto (n_eth st) (r_iface_handle route) mac ETHER_PROTO_IPV4 (ip_packet h buf))
     else map_option (\<lambda>(r, est). if r < 0 then (-1, st\<lparr>n_eth := est\<lparr>errno := - r\<rparr>\<rparr>) else (r, st\<lparr>n_eth := est\<rparr>))
         (ip_send_fragments sendto (r_iface_handle route) mac (ip_packet h buf) (n_eth st)))"
proof -
  let ?h = "packet_hdr route dst proto buf st"
  have "ip_hton ?h (ip_store ?h @ buf) = Some (ip_packet ?h buf)" using ip_hton_packet [of ?h "ip_store ?h @ buf"] by simp
  moreover have "(if c then Some x else Some y) = Some (if c then x else y)" for c and x y :: "int \<times> net_state" by simp
  ultimately show ?thesis
    unfolding ip_transmit_def Let_def packet_hdr_def [symmetric] next_id_def ETHER_DATA_LEN_def
    by (auto simp: map_option_case split: Option.bind_splits option.splits)
qed

lemma fragments_sizes: "\<forall>p \<in> set (fragments h D). length p \<le> 1500"
proof
  fix p
  assume "p \<in> set (fragments h D)"
  then obtain o' d mf where p: "(o', d, mf) \<in> set (plan 1472 0 D)" "length p = 20 + length d" by (auto simp: fragments_def)
  then show "length p \<le> 1500" using plan_pieces [OF _ p(1)] by simp
qed

lemma ip_send_noroute:
  "ip_route_find_by_network dst (n_rib st) = Some (Inl e) \<Longrightarrow>
   ip_send sendto dst proto buf st = Some (-1, set_errno EHOSTUNREACH st)"
  by (simp add: ip_send_def)

lemma ip_send_resolved:
  assumes "net_ok lo R st" "in_window lo dst" "ip_route_find_by_network dst (n_rib st) = Some (Inr route)"
    "resolved st dst = Some mac"
  shows "ip_send sendto dst proto buf st = ip_transmit sendto route mac dst proto buf st"
  using assms(3,4) arp_haddr_eq [OF assms(1,2)] by (simp add: ip_send_def)

lemma ip_transmit_small:
  assumes "length buf \<le> 1480" "r_iface_handle route = 0"
  shows "ip_transmit sendto route mac dst proto buf st =
    (let frame = ether_frame mac (el_mac (ether_if (n_eth st))) ETHER_PROTO_IPV4 (ip_packet (packet_hdr route dst proto buf st) buf)
     in case sendto (wire (n_eth st)) frame of
       Inl e \<Rightarrow> Some (- e, set_errno e (next_id st))
     | Inr n \<Rightarrow> Some (n, (next_id st)\<lparr>n_eth := (n_eth st)\<lparr>wire := wire (n_eth st) @ [frame]\<rparr>\<rparr>))"
proof -
  have "length (ip_packet (packet_hdr route dst proto buf st) buf) \<le> 1500" using assms(1) by simp
  note e = ether_send_cases [OF this]
  show ?thesis using assms(1)
    by (simp add: ip_transmit_eq assms(2) e Let_def next_id_def set_errno_def split: sum.splits)
qed

lemma ip_transmit_gap:
  assumes "1480 < length buf" "length buf \<le> 1500"
  shows "ip_transmit sendto route mac dst proto buf st = Some (- EMSGSIZE, next_id st)"
  using assms ether_send_too_long [of "ip_packet (packet_hdr route dst proto buf st) buf"]
  by (simp add: ip_transmit_eq Let_def next_id_def)

lemma ip_transmit_large:
  assumes "1500 < length buf" "length buf < 2 ^ 16 - 20"
  shows "ip_transmit sendto route mac dst proto buf st =
    map_option (\<lambda>(r, est). if r < 0 then (-1, (next_id st)\<lparr>n_eth := est\<lparr>errno := - r\<rparr>\<rparr>) else (r, (next_id st)\<lparr>n_eth := est\<rparr>))
      (send_packets sendto (r_iface_handle route) mac (fragments (packet_hdr route dst proto buf st) buf) 0 (n_eth st))"
proof -
  have "buf \<noteq> []" using assms(1) by auto
  note f = send_fragments_eq [OF packet_hdr_hlen this assms(2), of sendto "r_iface_handle route" mac route dst proto buf st "n_eth st"]
  show ?thesis using assms(1) unfolding ip_transmit_eq Let_def
    by (simp add: next_id_def f fragments_def del: map_map)
qed

lemma ip_send_unresolved:
  assumes "net_ok lo R st" "sendto_ok sendto" "in_window lo dst"
    "ip_route_find_by_network dst (n_rib st) = Some (Inr route)" "resolved st dst = None"
  shows "ip_send sendto dst proto buf st =
    (let frame = arp_frame (n_eth st) (r_iface route) dst; (d, q) = ip_defer_push dst proto buf (n_defer st) in
     case sendto (wire (n_eth st)) frame of
       Inl e \<Rightarrow>
         if e \<noteq> EHOSTUNREACH then Some (0, set_errno e st)
         else if d = 0 \<or> d = - EALREADY then Some (0, set_errno e (st\<lparr>n_defer := q\<rparr>))
         else Some (-1, set_errno (- d) (st\<lparr>n_defer := q\<rparr>))
     | Inr n \<Rightarrow>
         let st = st\<lparr>n_eth := (n_eth st)\<lparr>wire := wire (n_eth st) @ [frame]\<rparr>, n_defer := q\<rparr> in
         if d = 0 \<or> d = - EALREADY then Some (0, set_errno EHOSTUNREACH st) else Some (-1, set_errno (- d) st))"
  using assms(4,5) arp_haddr_eq [OF assms(1,3)] arp_resolve_eq [OF assms(1,2) route_in_R [OF assms(1,3,4)], of dst]
  by (auto simp: ip_send_def set_errno_def Let_def split: sum.splits prod.splits)

section \<open>Properties\<close>

text \<open>C13: \<^verbatim>\<open>ip_send\<close> on every branch. Without a route: -1 and \<^verbatim>\<open>EHOSTUNREACH\<close>. With a learned hardware
  address: up to 1480 bytes are one frame with a fresh identification, 1481 to 1500 bytes are refused
  with \<^verbatim>\<open>-EMSGSIZE\<close>, and more go out as fragments. Without: an ARP request for the address is broadcast and
  the packet is handed to the ring of deferred packets; a full ring is an error, an inhibited one is
  not, and when the request cannot be sent the packet is gone, with the result 0.\<close>

theorem ip_send_correct:
  assumes "net_ok lo R st" "sendto_ok sendto" "in_window lo dst" "length buf < 2 ^ 16 - 20"
    "ip_route_find_by_network dst (n_rib st) = Some res"
  shows "case res of
      Inl e \<Rightarrow> ip_send sendto dst proto buf st = Some (-1, set_errno EHOSTUNREACH st)
    | Inr route \<Rightarrow> (case resolved st dst of
        Some mac \<Rightarrow>
          let h = packet_hdr route dst proto buf st;
              frame = ether_frame mac (el_mac (ether_if (n_eth st))) ETHER_PROTO_IPV4 (ip_packet h buf) in
          if length buf \<le> 1480 then ip_send sendto dst proto buf st =
            (case sendto (wire (n_eth st)) frame of
               Inl e \<Rightarrow> Some (- e, set_errno e (next_id st))
             | Inr n \<Rightarrow> Some (n, (next_id st)\<lparr>n_eth := (n_eth st)\<lparr>wire := wire (n_eth st) @ [frame]\<rparr>\<rparr>))
          else if length buf \<le> 1500 then ip_send sendto dst proto buf st = Some (- EMSGSIZE, next_id st)
          else \<exists>r est. send_packets sendto 0 mac (fragments h buf) 0 (n_eth st) = Some (r, est) \<and>
            ip_send sendto dst proto buf st =
              Some (if r < 0 then (-1, (next_id st)\<lparr>n_eth := est\<lparr>errno := - r\<rparr>\<rparr>) else (r, (next_id st)\<lparr>n_eth := est\<rparr>))
      | None \<Rightarrow>
          let frame = arp_frame (n_eth st) (r_iface route) dst; (d, q) = ip_defer_push dst proto buf (n_defer st) in
          case sendto (wire (n_eth st)) frame of
            Inl e \<Rightarrow> e \<noteq> EHOSTUNREACH \<longrightarrow> ip_send sendto dst proto buf st = Some (0, set_errno e st)
          | Inr n \<Rightarrow> \<exists>st'. ip_send sendto dst proto buf st = Some (if d = 0 \<or> d = - EALREADY then 0 else -1, st') \<and>
              wire (n_eth st') = wire (n_eth st) @ [frame] \<and> n_defer st' = q \<and>
              errno (n_eth st') = (if d = 0 \<or> d = - EALREADY then EHOSTUNREACH else - d))"
proof (cases res)
  case (Inl e)
  then show ?thesis using ip_send_noroute assms(5) by simp
next
  case (Inr route)
  note r = assms(5) [unfolded Inr]
  have h: "r_iface_handle route = 0" using route_in_R [OF assms(1,3) r] assms(1) by (simp add: net_ok_def)
  show ?thesis
  proof (cases "resolved st dst")
    case None
    show ?thesis using ip_send_unresolved [OF assms(1-3) r None, of proto buf]
      by (auto simp: Inr None Let_def set_errno_def split: sum.splits prod.splits)
  next
    case (Some mac)
    note e = ip_send_resolved [OF assms(1,3) r Some]
    consider "length buf \<le> 1480" | "1480 < length buf" "length buf \<le> 1500" | "1500 < length buf" by linarith
    then show ?thesis
    proof cases
      case 3
      then show ?thesis
        using ip_transmit_large [OF 3 assms(4), of sendto route mac dst proto st] h Inr Some e
          send_packets_total [OF fragments_sizes [of "packet_hdr route dst proto buf st" buf], of sendto mac 0 "n_eth st"]
        by (auto simp: Let_def)
    qed (simp_all add: Inr Some e Let_def ip_transmit_small [OF _ h] ip_transmit_gap)
  qed
qed

text \<open>A stack with one interface, the route of the program's configuration, and one learned neighbour.\<close>

definition net_boot :: net_state where
  "net_boot = \<lparr>n_eth = \<lparr>ether_if = \<lparr>el_fd = 3, el_mac = replicate 6 2, el_if_idx = \<lparr>ifr_name = ''eth0'', ifr_ifindex = 2\<rparr>\<rparr>, ether_next_handle = 1, errno = 0, wire = []\<rparr>,
     n_arp = arp_fresh, n_rib = ip_route_init \<lparr>rib_route = \<lambda>_. ip_route_zero, rib_routetree = example_head,
       rib_sourcetree = example_head, rib_freelist = \<lparr>slots = \<lambda>_. None\<rparr>\<rparr>,
     n_defer = \<lparr>defer_inhibit = False,
       ip_defer_queue = (\<lambda>_. \<lparr>tries = 0, d_dst = 0, d_proto = 0, buf_size = 0, d_buf = replicate 6 0\<rparr>), q_rd = 0, q_wr = 0\<rparr>,
     n_frag = frag_boot, n_tcp = tcp_boot, n_udp = udp_boot, ip_global_id = 7\<rparr>"

definition example_route :: ip_route where
  "example_route = \<lparr>r_network = 0x0a000000, r_netmask = 0xffffff00, r_gw = 0, r_iface = 0x0a000002, r_iface_handle = 0\<rparr>"

lemma example_net:
  obtains rib arp where "net_ok 0 {example_route} (net_boot\<lparr>n_rib := rib, n_arp := arp\<rparr>)"
    "ip_route_find_by_network 0x0a000000 rib = Some (Inr example_route)"
    "ip_route_find_by_iface 0x0a000002 rib = Some (Inr example_route)"
    "resolved (net_boot\<lparr>n_rib := rib, n_arp := arp\<rparr>) 0x0a000000 = Some (replicate 6 9)"
    "\<exists>i < XSTACK_ARP_CACHE_SIZE. ip_addr (arp_cache arp i) = 0x0a000000 \<or> age (arp_cache arp i) = ARP_CACHE_FREE"
proof -
  have "rib_holds 0 (n_rib net_boot) {}" using rib_init_inv by (auto simp: rib_holds_def net_boot_def)
  then obtain rib where rib: "rib_holds 0 rib {example_route}"
    "ip_route_find_by_network 0x0a000000 rib = Some (Inr example_route)"
    "ip_route_find_by_iface 0x0a000002 rib = Some (Inr example_route)"
    using rib_update_ok [of 0 "n_rib net_boot" "{}" example_route]
    by (auto simp: example_route_def in_window_def XSTACK_IP_RIB_SIZE_def)
  have "\<exists>i < XSTACK_ARP_CACHE_SIZE. ip_addr (arp_cache arp_fresh i) = 0x0a000000 \<or> age (arp_cache arp_fresh i) = ARP_CACHE_FREE"
    by (rule exI [of _ 0]) (simp add: arp_fresh_def XSTACK_ARP_CACHE_SIZE_def)
  then obtain arp where arp: "arp_inv 0 arp" "arp_map arp = (arp_map arp_fresh)(0x0a000000 \<mapsto> (replicate 6 9, ARP_CACHE_DYN))"
    using arp_insert_room [OF arp_fresh_inv, of 0 "0x0a000000" ARP_CACHE_DYN "replicate 6 9"]
    by (auto simp: in_window_def)
  from arp(2) have m: "arp_map arp 0x0a000000 = Some (replicate 6 9, 0)" by (simp add: arp_consts)
  then obtain i where i: "arp_slot arp 0x0a000000 = Some i" by (auto simp: arp_map_def)
  show thesis
  proof
    show "net_ok 0 {example_route} (net_boot\<lparr>n_rib := rib, n_arp := arp\<rparr>)"
      using rib(1) arp(1) by (simp add: net_ok_def net_boot_def in_window_def example_route_def)
    show "resolved (net_boot\<lparr>n_rib := rib, n_arp := arp\<rparr>) 0x0a000000 = Some (replicate 6 9)" using m by (simp add: resolved_def)
    show "\<exists>i < XSTACK_ARP_CACHE_SIZE. ip_addr (arp_cache arp i) = 0x0a000000 \<or> age (arp_cache arp i) = ARP_CACHE_FREE"
      using i arp_slot_Some [OF arp(1)] by (auto simp: arp_live_def)
  qed (rule rib)+
qed

lemma ip_send_correct_witness:
  "\<exists>st st'. net_ok 0 {example_route} st \<and>
     ip_send (\<lambda>w f. Inr (int (length f))) 0x0a000000 17 [1, 2, 3] st = Some (74, st') \<and> length (wire (n_eth st')) = 1 \<and>
     ip_send (\<lambda>w f. Inr (int (length f))) 0x0a000000 17 (replicate 1490 0) st = Some (- EMSGSIZE, next_id st)"
proof -
  let ?send = "\<lambda>w f. Inr (int (length f))"
  obtain rib arp where n: "net_ok 0 {example_route} (net_boot\<lparr>n_rib := rib, n_arp := arp\<rparr>)"
    "ip_route_find_by_network 0x0a000000 rib = Some (Inr example_route)"
    "resolved (net_boot\<lparr>n_rib := rib, n_arp := arp\<rparr>) 0x0a000000 = Some (replicate 6 9)"
    by (rule example_net)
  define st where "st = net_boot\<lparr>n_rib := rib, n_arp := arp\<rparr>"
  have s: "sendto_ok ?send" "in_window 0 0x0a000000" "ip_route_find_by_network 0x0a000000 (n_rib st) = Some (Inr example_route)"
    using n(2) by (simp_all add: sendto_ok_def in_window_def st_def)
  note c = ip_send_correct [OF n(1) [folded st_def] s(1,2) _ s(3)]
  have w: "wire (n_eth st) = []" "length (el_mac (ether_if (n_eth st))) = 6" by (simp_all add: st_def net_boot_def)
  let ?f = "ether_frame (replicate 6 9) (el_mac (ether_if (n_eth st))) ETHER_PROTO_IPV4
    (ip_packet (packet_hdr example_route 0x0a000000 17 [1, 2, 3] st) [1, 2, 3])"
  have l: "length ?f = 74" using w(2) by (subst length_ether_frame) simp_all
  define st' where "st' = (next_id st)\<lparr>n_eth := (n_eth st)\<lparr>wire := [?f]\<rparr>\<rparr>"
  have "length (wire (n_eth st')) = 1" by (simp add: st'_def)
  moreover have "ip_send ?send 0x0a000000 17 [1, 2, 3] st = Some (74, st')"
    unfolding st'_def using c [of "[1, 2, 3]" 17] n(3) [folded st_def] w(1) l by (simp add: Let_def)
  moreover have "ip_send ?send 0x0a000000 17 (replicate 1490 0) st = Some (- EMSGSIZE, next_id st)"
    using c [of "replicate 1490 0" 17] n(3) [folded st_def] by (simp add: Let_def)
  ultimately show ?thesis using n(1) [folded st_def] by blast
qed

section \<open>Fragmentation on the wire\<close>

lemma send_packets_accepted:
  assumes "\<forall>w f. \<exists>n \<ge> 0. sendto w f = Inr n" "\<forall>p \<in> set ps. length p \<le> 1500" "r \<ge> 0"
  shows "\<exists>r' \<ge> 0. send_packets sendto 0 mac ps r est = Some (r', est\<lparr>wire := wire est @
    map (ether_frame mac (el_mac (ether_if est)) ETHER_PROTO_IPV4) ps\<rparr>)"
  using assms(2,3)
proof (induction ps arbitrary: r est)
  case (Cons p ps)
  let ?f = "ether_frame mac (el_mac (ether_if est)) ETHER_PROTO_IPV4"
  obtain n where n: "n \<ge> 0" "sendto (wire est) (?f p) = Inr n" using assms(1) by blast
  have "ether_send sendto est 0 mac ETHER_PROTO_IPV4 p = Some (n, est\<lparr>wire := wire est @ [?f p]\<rparr>)"
    using ether_send_cases [of p] Cons.prems(1) n(2) by (simp add: Let_def)
  moreover have "\<exists>r' \<ge> 0. send_packets sendto 0 mac ps (r + n) (est\<lparr>wire := wire est @ [?f p]\<rparr>) =
      Some (r', est\<lparr>wire := (wire est @ [?f p]) @ map ?f ps\<rparr>)"
    using Cons.IH [of "r + n" "est\<lparr>wire := wire est @ [?f p]\<rparr>"] Cons.prems n(1) by simp
  ultimately show ?case using n(1) by simp
qed simp

text \<open>C37: The in-place loop of \<^verbatim>\<open>ip_send_fragments\<close> sends exactly the packets of the plan that cuts the data
  into pieces of 1472 bytes: the pieces put together are the data, no packet is longer than the 1500
  bytes of a frame, and each header has the length of its packet, the offset of its piece and the flag
  that more follow. The loop ends, at the first frame that cannot be sent or after the last.\<close>

theorem ip_send_fragments_correct:
  assumes "ip_hdr_hlen h = 20" "D \<noteq> []" "length D < 2 ^ 16 - 20"
  shows "ip_send_fragments sendto 0 mac (ip_packet h D) est = send_packets sendto 0 mac (fragments h D) 0 est \<and>
    concat (map (drop 20) (fragments h D)) = D \<and> list_all (\<lambda>p. length p \<le> 1500) (fragments h D) \<and>
    (\<exists>r est'. ip_send_fragments sendto 0 mac (ip_packet h D) est = Some (r, est'))"
proof -
  have e: "ip_send_fragments sendto 0 mac (ip_packet h D) est = send_packets sendto 0 mac (fragments h D) 0 est"
    unfolding fragments_def by (rule send_fragments_eq [OF assms])
  have "drop 20 (ip_packet g d) = d" for g d by (simp add: ip_packet_def Let_def)
  then have "concat (map (drop 20) (fragments h D)) = D" using plan_concat [of 1472 0 D] by (simp add: fragments_def comp_def)
  then show ?thesis
    using e fragments_sizes [of h D] send_packets_total [OF fragments_sizes [of h D], of sendto mac 0 est]
    by (auto simp: list_all_iff)
qed

lemma ip_send_fragments_correct_witness:
  "concat (map (drop 20) (fragments (packet_hdr example_route 1 17 (replicate 3000 5) net_boot) (replicate 3000 5))) = replicate 3000 5 \<and>
   (\<exists>r est'. ip_send_fragments (\<lambda>w f. Inr (int (length f))) 0 (replicate 6 9)
     (ip_packet (packet_hdr example_route 1 17 (replicate 3000 5) net_boot) (replicate 3000 5)) (n_eth net_boot) = Some (r, est'))"
proof -
  let ?h = "packet_hdr example_route 1 17 (replicate 3000 5) net_boot" and ?D = "replicate 3000 (5 :: byte)"
  have "?D \<noteq> []" "length ?D < 2 ^ 16 - 20" by simp_all
  from ip_send_fragments_correct [OF packet_hdr_hlen this, of "\<lambda>w f. Inr (int (length f))" "replicate 6 9"]
  show ?thesis by blast
qed

section \<open>The handler of deferred packets ends\<close>

definition routed :: "net_state \<Rightarrow> u32 \<Rightarrow> bool" where
  "routed st dst \<longleftrightarrow> (\<exists>r. ip_route_find_by_network dst (n_rib st) = Some (Inr r))"

text \<open>The packets in the ring: destinations the routing table can order, and sizes within the slot.\<close>

definition deferred_ok :: "u32 \<Rightarrow> defer_state \<Rightarrow> bool" where
  "deferred_ok lo d \<longleftrightarrow> defer_wf d \<and> (\<forall>i \<in> set (defer_slots d). in_window lo (d_dst (ip_defer_queue d i)) \<and>
     length (d_buf (ip_defer_queue d i)) = ETHER_ALEN \<and> buf_size (ip_defer_queue d i) \<le> ETHER_ALEN)"

definition same_slots :: "defer_state \<Rightarrow> defer_state \<Rightarrow> bool" where
  "same_slots d d' \<longleftrightarrow> defer_inhibit d' = defer_inhibit d \<and>
     (\<forall>i. \<exists>t. ip_defer_queue d' i = (ip_defer_queue d i)\<lparr>tries := t\<rparr>)"

lemma bump_slots [simp]:
  "q_rd (n_defer (bump_tries i st)) = q_rd (n_defer st)" "q_wr (n_defer (bump_tries i st)) = q_wr (n_defer st)"
  "defer_slots (n_defer (bump_tries i st)) = defer_slots (n_defer st)" "defer_wf (n_defer (bump_tries i st)) = defer_wf (n_defer st)"
  "net_ok lo R (bump_tries i st) = net_ok lo R st" "n_rib (bump_tries i st) = n_rib st"
  by (simp_all add: bump_tries_def defer_slots_def defer_count_def defer_wf_def)

lemma bump_same: "same_slots (n_defer st) (n_defer (bump_tries i st))"
proof -
  have "\<exists>t. x = x\<lparr>tries := t\<rparr>" for x :: ip_defer by (rule exI [of _ "tries x"]) simp
  then show ?thesis by (auto simp: same_slots_def bump_tries_def)
qed

lemma same_trans: "same_slots d d' \<Longrightarrow> same_slots d' d'' \<Longrightarrow> same_slots d d''"
proof -
  assume a: "same_slots d d'" "same_slots d' d''"
  have "\<exists>t. ip_defer_queue d'' i = (ip_defer_queue d i)\<lparr>tries := t\<rparr>" for i
  proof -
    obtain t t' where "ip_defer_queue d' i = (ip_defer_queue d i)\<lparr>tries := t\<rparr>" "ip_defer_queue d'' i = (ip_defer_queue d' i)\<lparr>tries := t'\<rparr>"
      using a unfolding same_slots_def by metis
    then show ?thesis by auto
  qed
  then show ?thesis using a by (simp add: same_slots_def)
qed

lemma same_drop: "same_slots d (ip_defer_drop d)"
proof -
  have "\<exists>t. x = x\<lparr>tries := t\<rparr>" for x :: ip_defer by (rule exI [of _ "tries x"]) simp
  then show ?thesis by (simp add: same_slots_def ip_defer_drop_def)
qed

lemma same_fields:
  assumes "same_slots d d'"
  shows "d_dst (ip_defer_queue d' i) = d_dst (ip_defer_queue d i)" "d_buf (ip_defer_queue d' i) = d_buf (ip_defer_queue d i)"
    "buf_size (ip_defer_queue d' i) = buf_size (ip_defer_queue d i)" "defer_inhibit d' = defer_inhibit d"
proof -
  obtain t where "ip_defer_queue d' i = (ip_defer_queue d i)\<lparr>tries := t\<rparr>" using assms by (auto simp: same_slots_def)
  then show "d_dst (ip_defer_queue d' i) = d_dst (ip_defer_queue d i)" "d_buf (ip_defer_queue d' i) = d_buf (ip_defer_queue d i)"
    "buf_size (ip_defer_queue d' i) = buf_size (ip_defer_queue d i)" by simp_all
  show "defer_inhibit d' = defer_inhibit d" using assms by (simp add: same_slots_def)
qed

lemma deferred_ok_same:
  "deferred_ok lo d \<Longrightarrow> same_slots d d' \<Longrightarrow> defer_wf d' \<Longrightarrow> set (defer_slots d') \<subseteq> set (defer_slots d) \<Longrightarrow> deferred_ok lo d'"
  unfolding deferred_ok_def using same_fields [of d d'] by (metis subsetD)

text \<open>What sending leaves as it is: everything but the wire, \<^verbatim>\<open>errno\<close>, the packet counter and the ring.\<close>

definition same_net :: "net_state \<Rightarrow> net_state \<Rightarrow> bool" where
  "same_net st st' \<longleftrightarrow> n_rib st' = n_rib st \<and> n_arp st' = n_arp st \<and> ether_if (n_eth st') = ether_if (n_eth st) \<and>
     n_frag st' = n_frag st \<and> n_tcp st' = n_tcp st \<and> n_udp st' = n_udp st"

lemma same_net_refl [simp]: "same_net st st" "same_net st (bump_tries i st') = same_net st st'" "same_net (bump_tries i st) st' = same_net st st'"
  "same_net st (drop_deferred st') = same_net st st'" "same_net st (st'\<lparr>n_defer := d\<rparr>) = same_net st st'"
  "same_net (st\<lparr>n_defer := d\<rparr>) st' = same_net st st'"
  by (simp_all add: same_net_def bump_tries_def drop_deferred_def)

lemma same_net_trans: "same_net st st' \<Longrightarrow> same_net st' st'' \<Longrightarrow> same_net st st''"
  by (simp add: same_net_def)

text \<open>While the ring is inhibited, \<^verbatim>\<open>ip_send\<close> fails with \<^verbatim>\<open>EHOSTUNREACH\<close> exactly when there is no route.\<close>

lemma ip_send_inhibited:
  assumes ok: "net_ok lo R st" "sendto_ok sendto" "in_window lo dst" and len: "length buf \<le> 1480"
    and inh: "defer_inhibit (n_defer st)"
  shows "\<exists>r st'. ip_send sendto dst proto buf st = Some (r, st') \<and> net_ok lo R st' \<and> n_defer st' = n_defer st \<and>
    same_net st st' \<and> (r = -1 \<and> errno (n_eth st') = EHOSTUNREACH \<longleftrightarrow> \<not> routed st dst)"
proof -
  obtain res where res: "ip_route_find_by_network dst (n_rib st) = Some res" using find_by_network_total [OF ok(1,3)] .
  have p: "ip_defer_push dst proto buf (n_defer st) = (- EALREADY, n_defer st)" using inh by (simp add: ip_defer_push_def)
  show ?thesis
  proof (cases res)
    case (Inl e)
    then show ?thesis using ip_send_noroute res ok(1) by (simp add: routed_def) (simp add: set_errno_def same_net_def)
  next
    case (Inr route)
    note r = res [unfolded Inr]
    then have rt: "routed st dst" by (simp add: routed_def)
    have h: "r_iface_handle route = 0" using route_in_R [OF ok(1,3) r] ok(1) by (simp add: net_ok_def)
    show ?thesis
    proof (cases "resolved st dst")
      case None
      then show ?thesis using ip_send_unresolved [OF ok r None, of proto buf] ok(1) rt
        by (auto simp: p Let_def set_errno_def net_ok_def same_net_def split: sum.splits)
    next
      case (Some mac)
      have "sendto w f \<noteq> Inr (-1)" for w f using ok(2) unfolding sendto_ok_def by (metis sum.simps(6) not_one_le_zero le_minus_one_simps(3))
      then show ?thesis unfolding ip_send_resolved [OF ok(1,3) r Some] ip_transmit_small [OF len h] Let_def
        using ok(1) rt by (auto simp: set_errno_def next_id_def net_ok_def same_net_def EHOSTUNREACH_def split: sum.splits)
    qed
  qed
qed

lemma defer_slots_head: "defer_wf d \<Longrightarrow> q_rd d \<noteq> q_wr d \<Longrightarrow> q_rd d \<in> set (defer_slots d)"
  using defer_count_0 [of d] by (auto simp: defer_slots_def defer_wf_def intro!: image_eqI [of _ _ 0])

text \<open>One turn of the loop: it stops in front of a packet without a route, or drops a packet.\<close>

lemma defer_turn:
  assumes ok: "net_ok lo R st" "sendto_ok sendto" "deferred_ok lo (n_defer st)" "defer_inhibit (n_defer st)"
    and i: "q_rd (n_defer st) \<noteq> q_wr (n_defer st)"
  shows "\<exists>st'. net_ok lo R st' \<and> defer_wf (n_defer st') \<and> same_slots (n_defer st) (n_defer st') \<and> same_net st st' \<and>
    (defer_loop sendto st = Some st' \<and> defer_slots (n_defer st') = defer_slots (n_defer st) \<and>
       \<not> routed st (d_dst (ip_defer_queue (n_defer st) (q_rd (n_defer st)))) \<or>
     defer_loop sendto st = defer_loop sendto st' \<and> defer_slots (n_defer st') = tl (defer_slots (n_defer st)))"
proof -
  let ?i = "q_rd (n_defer st)" and ?s1 = "bump_tries (q_rd (n_defer st)) st"
  let ?ipd = "ip_defer_queue (n_defer st) ?i"
  have wf: "defer_wf (n_defer st)" using ok(3) by (simp add: deferred_ok_def)
  have q: "in_window lo (d_dst ?ipd)" "length (d_buf ?ipd) = ETHER_ALEN" "buf_size ?ipd \<le> ETHER_ALEN"
    using ok(3) defer_slots_head [OF wf i] by (auto simp: deferred_ok_def)
  have peek: "ip_defer_peek (n_defer st) = Some ?i" using i by (simp add: ip_defer_peek_def)
  have drop: "net_ok lo R (drop_deferred s) = net_ok lo R s" "same_net st (drop_deferred s) = same_net st s"
    "same_slots (n_defer s) (n_defer (drop_deferred s))" for s
    by (simp_all add: drop_deferred_def same_drop)
  have tl: "defer_slots (n_defer (drop_deferred s)) = tl (defer_slots (n_defer st))" "defer_wf (n_defer (drop_deferred s))"
    if "defer_wf (n_defer s)" "defer_slots (n_defer s) = defer_slots (n_defer st)" for s
    using defer_drop_slots [OF that(1)] that(2) by (simp_all add: drop_deferred_def)
  show ?thesis
  proof (cases "tries ?ipd > 3")
    case True
    then have "defer_loop sendto st = defer_loop sendto (drop_deferred ?s1)"
      by (subst defer_loop.simps) (simp add: peek Let_def)
    then show ?thesis using ok(1) drop tl [of ?s1] wf same_trans [OF bump_same drop(3)] by (intro exI [of _ "drop_deferred ?s1"]) simp
  next
    case False
    define buf where "buf = take (buf_size ?ipd) (d_buf ?ipd)"
    have b: "mem_read (d_buf ?ipd) 0 (buf_size ?ipd) = Some buf" "length buf \<le> 1480"
      using q(2,3) by (simp_all add: mem_read_def buf_def ether_consts)
    have "defer_inhibit (n_defer ?s1)" using ok(4) same_fields(4) [OF bump_same [of st ?i]] by simp
    from ip_send_inhibited [OF _ ok(2) q(1) b(2) this, of R "d_proto ?ipd"] obtain r s2 where
      s2: "ip_send sendto (d_dst ?ipd) (d_proto ?ipd) buf ?s1 = Some (r, s2)" "net_ok lo R s2" "n_defer s2 = n_defer ?s1"
        "same_net st s2" "r = -1 \<and> errno (n_eth s2) = EHOSTUNREACH \<longleftrightarrow> \<not> routed st (d_dst ?ipd)"
      using ok(1) by (auto simp: routed_def)
    have loop: "defer_loop sendto st = (if \<not> routed st (d_dst ?ipd) then Some (bump_tries ?i s2) else defer_loop sendto (drop_deferred s2))"
      by (subst defer_loop.simps) (simp add: peek Let_def False b(1) s2(1,5))
    have same: "same_slots (n_defer st) (n_defer s2)" using s2(3) bump_same [of st ?i] by simp
    show ?thesis
    proof (cases "routed st (d_dst ?ipd)")
      case True
      then show ?thesis
        using loop s2 drop tl [of s2] wf same_trans [OF same drop(3)] by (intro exI [of _ "drop_deferred s2"]) simp
    next
      case False
      then show ?thesis using loop s2 wf same_trans [OF same bump_same] by (intro exI [of _ "bump_tries ?i s2"]) simp
    qed
  qed
qed

lemma defer_loop_ends:
  assumes "net_ok lo R st" "sendto_ok sendto" "deferred_ok lo (n_defer st)" "defer_inhibit (n_defer st)"
  shows "\<exists>st' n. defer_loop sendto st = Some st' \<and> net_ok lo R st' \<and> deferred_ok lo (n_defer st') \<and> defer_inhibit (n_defer st') \<and>
    same_net st st' \<and> defer_slots (n_defer st') = drop n (defer_slots (n_defer st)) \<and>
    ((\<forall>i \<in> set (defer_slots (n_defer st)). routed st (d_dst (ip_defer_queue (n_defer st) i))) \<longrightarrow> defer_slots (n_defer st') = [])"
  using assms
proof (induction "length (defer_slots (n_defer st))" arbitrary: st rule: less_induct)
  case less
  have wf: "defer_wf (n_defer st)" using less.prems(3) by (simp add: deferred_ok_def)
  show ?case
  proof (cases "q_rd (n_defer st) = q_wr (n_defer st)")
    case True
    then have "defer_loop sendto st = Some st" "defer_slots (n_defer st) = []"
      by (subst defer_loop.simps, simp add: ip_defer_peek_def) (use True defer_count_0 [OF wf] in \<open>simp add: defer_slots_def\<close>)
    then show ?thesis using less.prems by auto
  next
    case False
    let ?P = "\<lambda>s. \<forall>i \<in> set (defer_slots (n_defer s)). routed s (d_dst (ip_defer_queue (n_defer s) i))"
    have hd: "q_rd (n_defer st) \<in> set (defer_slots (n_defer st))" using defer_slots_head [OF wf False] .
    obtain s where s: "net_ok lo R s" "same_slots (n_defer st) (n_defer s)" "same_net st s"
      and wf': "defer_wf (n_defer s)" and alt:
      "defer_loop sendto st = Some s \<and> defer_slots (n_defer s) = defer_slots (n_defer st) \<and>
         \<not> routed st (d_dst (ip_defer_queue (n_defer st) (q_rd (n_defer st)))) \<or>
       defer_loop sendto st = defer_loop sendto s \<and> defer_slots (n_defer s) = tl (defer_slots (n_defer st))"
      using defer_turn [OF less.prems False] by blast
    from alt show ?thesis
    proof
      assume "defer_loop sendto st = Some s \<and> defer_slots (n_defer s) = defer_slots (n_defer st) \<and>
         \<not> routed st (d_dst (ip_defer_queue (n_defer st) (q_rd (n_defer st))))"
      moreover from this have "deferred_ok lo (n_defer s)" using deferred_ok_same [OF less.prems(3) s(2) wf'] by simp
      ultimately show ?thesis using s(1,3) same_fields(4) [OF s(2)] less.prems(4) hd by (intro exI [of _ s] exI [of _ 0]) auto
    next
      assume t: "defer_loop sendto st = defer_loop sendto s \<and> defer_slots (n_defer s) = tl (defer_slots (n_defer st))"
      have len: "length (defer_slots (n_defer s)) < length (defer_slots (n_defer st))" using t hd by (cases "defer_slots (n_defer st)") auto
      have sub: "set (defer_slots (n_defer s)) \<subseteq> set (defer_slots (n_defer st))" using t by (cases "defer_slots (n_defer st)") auto
      have "deferred_ok lo (n_defer s)" using deferred_ok_same [OF less.prems(3) s(2) wf' sub] .
      moreover have "defer_inhibit (n_defer s)" using same_fields(4) [OF s(2)] less.prems(4) by simp
      ultimately obtain s' n where n: "defer_loop sendto s = Some s'" "net_ok lo R s'" "deferred_ok lo (n_defer s')" "defer_inhibit (n_defer s')" "same_net s s'"
        "defer_slots (n_defer s') = drop n (defer_slots (n_defer s))" "?P s \<longrightarrow> defer_slots (n_defer s') = []"
        using less.hyps [OF len s(1) less.prems(2)] by blast
      have "?P st \<longrightarrow> ?P s" using sub s(3) same_fields(1) [OF s(2)] by (auto simp: routed_def same_net_def)
      then show ?thesis using n t same_net_trans [OF s(3) n(5)] by (intro exI [of _ s'] exI [of _ "Suc n"]) (auto simp: drop_Suc)
    qed
  qed
qed

lemma defer_handler_ok:
  assumes "net_ok lo R st" "sendto_ok sendto" "deferred_ok lo (n_defer st)"
  shows "\<exists>st' n. ip_defer_handler sendto st = Some st' \<and> net_ok lo R st' \<and> deferred_ok lo (n_defer st') \<and> defer_inhibit (n_defer st') \<and>
    same_net st st' \<and> defer_slots (n_defer st') = drop n (defer_slots (n_defer st)) \<and>
    ((\<forall>i \<in> set (defer_slots (n_defer st)). routed st (d_dst (ip_defer_queue (n_defer st) i))) \<longrightarrow> defer_slots (n_defer st') = [])"
proof -
  let ?st = "st\<lparr>n_defer := (n_defer st)\<lparr>defer_inhibit := True\<rparr>\<rparr>"
  have s: "defer_slots (n_defer ?st) = defer_slots (n_defer st)" "ip_defer_queue (n_defer ?st) = ip_defer_queue (n_defer st)"
    "defer_inhibit (n_defer ?st)"
    by (simp_all add: defer_slots_def defer_count_def)
  have d: "deferred_ok lo (n_defer ?st)" using assms(3) s by (simp add: deferred_ok_def defer_wf_def)
  have r: "routed ?st = routed st" by (simp add: routed_def fun_eq_iff)
  have "net_ok lo R ?st" using assms(1) by simp
  from defer_loop_ends [OF this assms(2) d s(3)] show ?thesis unfolding ip_defer_handler_def s(1,2) r by simp
qed

text \<open>C22: \<^verbatim>\<open>ip_defer_handler\<close> ends, in a configured stack, whatever the link does: the loop drops a packet in
  each turn or stops. It leaves the packets it has not handled in their order, and the ring inhibited for
  good. When every packet has a route the ring is empty afterwards: a packet whose hardware address is
  still unknown is not tried again, because the inhibited ring makes \<^verbatim>\<open>ip_send\<close> report it as deferred.\<close>

theorem ip_defer_handler_ends:
  assumes "net_ok lo R st" "sendto_ok sendto" "deferred_ok lo (n_defer st)"
  shows "\<exists>st' n. ip_defer_handler sendto st = Some st' \<and> net_ok lo R st' \<and> deferred_ok lo (n_defer st') \<and> defer_inhibit (n_defer st') \<and>
    same_net st st' \<and> defer_slots (n_defer st') = drop n (defer_slots (n_defer st)) \<and>
    ((\<forall>i \<in> set (defer_slots (n_defer st)). routed st (d_dst (ip_defer_queue (n_defer st) i))) \<longrightarrow> defer_slots (n_defer st') = [])"
  by (rule defer_handler_ok [OF assms])

lemma ip_defer_handler_ends_witness:
  "\<exists>st st' d. net_ok 0 {example_route} st \<and> ip_defer_push 0x0a000000 17 [1, 2] (n_defer net_boot) = (0, d) \<and> n_defer st = d \<and>
     ip_defer_handler (\<lambda>w f. Inr (int (length f))) st = Some st' \<and> defer_slots (n_defer st') = []"
proof -
  let ?send = "\<lambda>w f. Inr (int (length f))"
  obtain rib arp where n: "net_ok 0 {example_route} (net_boot\<lparr>n_rib := rib, n_arp := arp\<rparr>)"
    "ip_route_find_by_network 0x0a000000 rib = Some (Inr example_route)"
    by (rule example_net)
  obtain d where d: "ip_defer_push 0x0a000000 17 [1, 2] (n_defer net_boot) = (0, d)" "deferred_ok 0 d"
    "\<forall>i \<in> set (defer_slots d). d_dst (ip_defer_queue d i) = 0x0a000000"
    by (simp add: ip_defer_push_def net_boot_def XSTACK_IP_DEFER_MAX_def ether_consts deferred_ok_def defer_wf_def
        defer_slots_def defer_count_def in_window_def Let_def)
  define st where "st = net_boot\<lparr>n_rib := rib, n_arp := arp, n_defer := d\<rparr>"
  have k: "net_ok 0 {example_route} st" using n(1) by (simp add: net_ok_def st_def)
  moreover have "\<forall>i \<in> set (defer_slots (n_defer st)). routed st (d_dst (ip_defer_queue (n_defer st) i))"
    using d(3) n(2) by (simp add: st_def routed_def)
  ultimately obtain st' where "ip_defer_handler ?send st = Some st'" "defer_slots (n_defer st') = []"
    using ip_defer_handler_ends [of 0 "{example_route}" st ?send] d(2) by (auto simp: st_def sendto_ok_def)
  moreover have "n_defer st = d" by (simp add: st_def)
  ultimately show ?thesis using k d(1) by blast
qed

end
