(* ===== verification/Icmp.thy ===== *)
theory Icmp
  imports Ip_Hdr
begin

text \<open>
  ICMP, \<^verbatim>\<open>src/icmp.c\<close>: the answer to an echo request, in place, and the message that a destination is
  unreachable. The header has no field that changes between host and network order except the
  checksum, which the code computes in memory order.
\<close>

record icmp =
  icmp_type :: u8
  icmp_code :: u8
  icmp_csum :: u16
  icmp_rest :: u32

definition ICMP_TYPE_ECHO_REPLY :: u8 where "ICMP_TYPE_ECHO_REPLY = 0"
definition ICMP_TYPE_DESTUNREAC :: u8 where "ICMP_TYPE_DESTUNREAC = 3"
definition ICMP_TYPE_ECHO_REQUEST :: u8 where "ICMP_TYPE_ECHO_REQUEST = 8"
definition ICMP_CODE_HOSTUNREAC :: u8 where "ICMP_CODE_HOSTUNREAC = 1"
definition ICMP_CODE_PROTOUNREAC :: u8 where "ICMP_CODE_PROTOUNREAC = 2"
definition ICMP_CODE_PORTUNREAC :: u8 where "ICMP_CODE_PORTUNREAC = 3"

lemmas icmp_consts = ICMP_TYPE_ECHO_REPLY_def ICMP_TYPE_DESTUNREAC_def ICMP_TYPE_ECHO_REQUEST_def
  ICMP_CODE_HOSTUNREAC_def ICMP_CODE_PROTOUNREAC_def ICMP_CODE_PORTUNREAC_def

definition icmp_store :: "icmp \<Rightarrow> bytes" where
  "icmp_store m = [icmp_type m, icmp_code m] @ store16 (icmp_csum m) @ store32 (icmp_rest m)"

definition icmp_load :: "bytes \<Rightarrow> icmp option" where
  "icmp_load b = (if length b < 8 then None else Some
     \<lparr>icmp_type = b ! 0, icmp_code = b ! 1, icmp_csum = load16 (b ! 2) (b ! 3),
      icmp_rest = load32 (b ! 4) (b ! 5) (b ! 6) (b ! 7)\<rparr>)"

text \<open>Both conversions copy three fields and leave the fourth of the target as it is.\<close>

definition icmp_hton :: "icmp \<Rightarrow> icmp \<Rightarrow> icmp" where
  "icmp_hton host net = net\<lparr>icmp_type := icmp_type host, icmp_code := icmp_code host, icmp_csum := icmp_csum host\<rparr>"

definition icmp_ntoh :: "icmp \<Rightarrow> icmp \<Rightarrow> icmp" where
  "icmp_ntoh net host = host\<lparr>icmp_type := icmp_type net, icmp_code := icmp_code net, icmp_csum := icmp_csum net\<rparr>"

text \<open>The input handler on the memory from the message on; \<open>hdr0\<close> is the uninitialised local header, of which
  only converted fields are used.\<close>

definition icmp_input :: "icmp \<Rightarrow> ip_hdr \<Rightarrow> bytes \<Rightarrow> nat \<Rightarrow> (int \<times> bytes) option" where
  "icmp_input hdr0 ip payload bsize =
     (if bsize < 8 then Some (- EBADMSG, payload)
      else do {
        net_msg \<leftarrow> icmp_load payload;
        let hdr = icmp_ntoh net_msg hdr0;
        if icmp_type hdr = ICMP_TYPE_ECHO_REQUEST then do {
          payload \<leftarrow> mem_write payload 0 (icmp_store (net_msg\<lparr>icmp_type := ICMP_TYPE_ECHO_REPLY, icmp_csum := 0\<rparr>));
          msg \<leftarrow> mem_read payload 0 bsize;
          payload \<leftarrow> mem_write payload 2 (store16 (ip_checksum msg));
          Some (int bsize, payload)
        } else Some (- ENOMSG, payload)
      })"

text \<open>\<^verbatim>\<open>icmp_generate_dest_unreachable\<close> on the memory of a packet: the received header, in host order, at its
  start, and the buffer for the message behind it, at \<open>hlen\<close>. The old header goes into the message after
  the checksum of the message is taken, and the size of the message is added to the result of
  \<^verbatim>\<open>ip_reply_header\<close>, which includes it.\<close>

definition icmp_generate_dest_unreachable :: "u8 \<Rightarrow> nat \<Rightarrow> size_t \<Rightarrow> bytes \<Rightarrow> (int \<times> bytes) option" where
  "icmp_generate_dest_unreachable code hlen bsize mem = do {
     hdr \<leftarrow> ip_load mem;
     let n = unat (umin 8 (ucast bsize));
     let msg_size = 36 + n;
     old \<leftarrow> mem_read mem hlen n;
     mem \<leftarrow> mem_write mem (hlen + 28) old;
     let msg = \<lparr>icmp_type = ICMP_TYPE_DESTUNREAC, icmp_code = code, icmp_csum = 0, icmp_rest = 0\<rparr>;
     mem \<leftarrow> mem_write mem hlen (icmp_store (icmp_hton msg msg));
     data \<leftarrow> mem_read mem hlen msg_size;
     mem \<leftarrow> mem_write mem (hlen + 2) (store16 (ip_checksum data));
     old_ip_hdr \<leftarrow> ip_hton hdr (drop (hlen + 8) mem);
     let mem = take (hlen + 8) mem @ old_ip_hdr;
     mem \<leftarrow> mem_write mem 0 (ip_store (hdr\<lparr>ip_vhl := IP_VHL_DEFAULT, ip_tos := IP_TOS_DEFAULT, ip_proto := IP_PROTO_ICMP\<rparr>));
     (len, mem) \<leftarrow> ip_reply_header mem (of_nat msg_size);
     Some (int msg_size + uint len, mem)
   }"

section \<open>Messages in memory\<close>

lemma length_icmp_store [simp]: "length (icmp_store m) = 8"
  by (simp add: icmp_store_def)

lemma icmp_load_store [simp]: "icmp_load (icmp_store m @ rest) = Some m"
  by (simp add: icmp_load_def icmp_store_def store16_def store32_halves load16_parts load32_halves nth_append)

lemma icmp_store_load: "icmp_load b = Some m \<Longrightarrow> b = icmp_store m @ drop 8 b"
proof -
  assume "icmp_load b = Some m"
  then have l: "8 \<le> length b" and m: "m = \<lparr>icmp_type = b ! 0, icmp_code = b ! 1, icmp_csum = load16 (b ! 2) (b ! 3),
      icmp_rest = load32 (b ! 4) (b ! 5) (b ! 6) (b ! 7)\<rparr>"
    by (auto simp: icmp_load_def split: if_splits)
  have "take 8 b = icmp_store m"
  proof (rule nth_equalityI)
    fix i
    assume "i < length (take 8 b)"
    then have "i \<in> {0, 1, 2, 3, 4, 5, 6, 7}" by auto
    then show "take 8 b ! i = icmp_store m ! i" using l by (auto simp: icmp_store_def m)
  qed (use l in simp)
  then show ?thesis by (metis append_take_drop_id)
qed

text \<open>The answer in memory.\<close>

lemma icmp_echo_ok:
  assumes "icmp_load payload = Some m" "icmp_type m = ICMP_TYPE_ECHO_REQUEST" "8 \<le> bsize" "bsize \<le> length payload"
  shows "\<exists>c. icmp_input hdr0 ip payload bsize =
      Some (int bsize, icmp_store (m\<lparr>icmp_type := ICMP_TYPE_ECHO_REPLY, icmp_csum := c\<rparr>) @ drop 8 payload) \<and>
    ip_checksum (take bsize (icmp_store (m\<lparr>icmp_type := ICMP_TYPE_ECHO_REPLY, icmp_csum := c\<rparr>) @ drop 8 payload)) = 0"
proof -
  let ?pre = "[ICMP_TYPE_ECHO_REPLY, icmp_code m]" and ?post = "store32 (icmp_rest m) @ take (bsize - 8) (drop 8 payload)"
  define c where "c = ip_checksum (?pre @ [0, 0] @ ?post)"
  have z: "store16 0 = [0, 0]" by (simp add: store16_def)
  have s: "icmp_store (m\<lparr>icmp_type := ICMP_TYPE_ECHO_REPLY, icmp_csum := d\<rparr>) = ?pre @ store16 d @ store32 (icmp_rest m)" for d
    by (simp add: icmp_store_def)
  have t: "take bsize (icmp_store (m\<lparr>icmp_type := ICMP_TYPE_ECHO_REPLY, icmp_csum := d\<rparr>) @ drop 8 payload) = ?pre @ store16 d @ ?post" for d
  proof -
    have "take bsize (icmp_store x @ drop 8 payload) = icmp_store x @ take (bsize - 8) (drop 8 payload)" for x using assms(3) by simp
    from this [of "m\<lparr>icmp_type := ICMP_TYPE_ECHO_REPLY, icmp_csum := d\<rparr>"] show ?thesis by (simp only: s append_assoc)
  qed
  have l: "8 \<le> length payload" using assms(3,4) by simp
  have "icmp_input hdr0 ip payload bsize =
      Some (int bsize, icmp_store (m\<lparr>icmp_type := ICMP_TYPE_ECHO_REPLY, icmp_csum := c\<rparr>) @ drop 8 payload)"
    using assms l t [of 0] by (simp add: icmp_input_def icmp_ntoh_def mem_write_def mem_read_def s z c_def)
  moreover have "ip_checksum (take bsize (icmp_store (m\<lparr>icmp_type := ICMP_TYPE_ECHO_REPLY, icmp_csum := c\<rparr>) @ drop 8 payload)) = 0"
    unfolding t c_def by (rule checksum_fill) simp
  ultimately show ?thesis by blast
qed

lemma icmp_input_errors:
  "bsize < 8 \<Longrightarrow> icmp_input hdr0 ip payload bsize = Some (- EBADMSG, payload)"
  "8 \<le> bsize \<Longrightarrow> icmp_load payload = Some m \<Longrightarrow> icmp_type m \<noteq> ICMP_TYPE_ECHO_REQUEST \<Longrightarrow>
   icmp_input hdr0 ip payload bsize = Some (- ENOMSG, payload)"
  by (simp_all add: icmp_input_def icmp_ntoh_def)

section \<open>The unreachable message\<close>

lemma mem_write_some: "off + length xs \<le> length buf \<Longrightarrow> \<exists>buf'. mem_write buf off xs = Some buf' \<and> length buf' = length buf"
  by (auto simp: mem_write_def)

lemma mem_read_drop: "drop k a = drop k b \<Longrightarrow> length a = length b \<Longrightarrow> k \<le> off \<Longrightarrow> mem_read a off n = mem_read b off n"
proof -
  assume a: "drop k a = drop k b" "length a = length b" "k \<le> off"
  then have "drop (off - k) (drop k a) = drop (off - k) (drop k b)" by simp
  then have "drop off a = drop off b" using a(3) by simp
  then show ?thesis using a(2) by (simp add: mem_read_def)
qed

lemma ip_load_read: "ip_load buf = Some h \<Longrightarrow> mem_read buf' 0 20 = mem_read buf 0 20 \<Longrightarrow> ip_load buf' = Some h"
proof -
  assume a: "ip_load buf = Some h" "mem_read buf' 0 20 = mem_read buf 0 20"
  then have l: "20 \<le> length buf" by (auto simp: ip_load_def split: if_splits)
  then have l': "20 \<le> length buf'" "take 20 buf' = take 20 buf" using a(2) by (auto simp: mem_read_def split: if_splits)
  then have "buf' ! i = buf ! i" if "i < 20" for i using that by (metis nth_take)
  then show ?thesis using a(1) l l' by (simp add: ip_load_def)
qed

lemma ip_load_write: "mem_write buf 0 (ip_store h) = Some buf' \<Longrightarrow> ip_load buf' = Some h"
  by (auto simp: mem_write_def split: if_splits)

lemma ip_hton_write:
  assumes "20 \<le> length (drop k buf)" "ip_hdr_hlen host \<le> length (drop k buf)"
  obtains c net where "ip_hton host (drop k buf) = Some net"
    "mem_write buf k (ip_store ((ip_swap host)\<lparr>ip_csum := c\<rparr>)) = Some (take k buf @ net)"
proof -
  obtain c where c: "ip_hton host (drop k buf) = Some (ip_store ((ip_swap host)\<lparr>ip_csum := c\<rparr>) @ drop 20 (drop k buf))"
    using ip_hton_eq [OF assms] by (auto simp: Let_def)
  have "mem_write buf k (ip_store ((ip_swap host)\<lparr>ip_csum := c\<rparr>)) =
      Some (take k buf @ ip_store ((ip_swap host)\<lparr>ip_csum := c\<rparr>) @ drop 20 (drop k buf))"
    using assms(1) by (simp add: mem_write_def add.commute)
  then show thesis using that c by blast
qed

lemma mem_read_field:
  assumes "mem_read buf off n = Some (pre @ x @ post)" "mem_write buf off' y = Some buf'"
    "off' = off + length pre" "length y = length x" "n = length (pre @ x @ post)"
    "z = pre @ y @ post"
  shows "mem_read buf' off n = Some z"
proof -
  have b: "off + n \<le> length buf" "take n (drop off buf) = pre @ x @ post" using assms(1) by (auto simp: mem_read_def split: if_splits)
  define A B where "A = take off buf" and "B = drop n (drop off buf)"
  have "buf = A @ take n (drop off buf) @ B" unfolding A_def B_def by (simp only: append_take_drop_id)
  then have buf: "buf = A @ pre @ x @ post @ B" unfolding b(2) by simp
  have A: "length A = off" using b(1) by (simp add: A_def)
  have "buf' = A @ pre @ y @ post @ B"
    using assms(2-4) A unfolding buf by (auto simp: mem_write_def split: if_splits)
  then show ?thesis using A assms(4-6) by (simp add: mem_read_def)
qed

text \<open>The body of the message: the first bytes of the packet's data, then the ICMP header and its checksum.\<close>

lemma unreachable_body:
  fixes code :: u8
  assumes h: "20 \<le> hlen" "hlen \<le> 60" "128 \<le> length mem" "n \<le> 8"
  defines "msg \<equiv> \<lparr>icmp_type = ICMP_TYPE_DESTUNREAC, icmp_code = code, icmp_csum = 0, icmp_rest = 0\<rparr>"
  obtains old m1 m2 data m3 where "mem_read mem hlen n = Some old" "length old = n" "mem_write mem (hlen + 28) old = Some m1"
    "mem_write m1 hlen (icmp_store msg) = Some m2" "mem_read m2 hlen (36 + n) = Some data"
    "mem_write m2 (hlen + 2) (store16 (ip_checksum data)) = Some m3" "length m3 = length mem" "mem_read m3 (hlen + 28) n = Some old"
    "mem_read m3 hlen 8 = Some (icmp_store (msg\<lparr>icmp_csum := ip_checksum data\<rparr>))"
proof -
  obtain old where old: "mem_read mem hlen n = Some old" "length old = n" using h by (simp add: mem_read_def)
  obtain m1 where m1: "mem_write mem (hlen + 28) old = Some m1" "length m1 = length mem"
    using mem_write_some [of "hlen + 28" old mem] h old(2) by auto
  obtain m2 where m2: "mem_write m1 hlen (icmp_store msg) = Some m2" "length m2 = length mem"
    using mem_write_some [of hlen "icmp_store msg" m1] h m1(2) by auto
  obtain data where data: "mem_read m2 hlen (36 + n) = Some data" using h m2(2) by (simp add: mem_read_def)
  obtain m3 where m3: "mem_write m2 (hlen + 2) (store16 (ip_checksum data)) = Some m3" "length m3 = length mem"
    using mem_write_some [of "hlen + 2" "store16 (ip_checksum data)" m2] h m2(2) by auto
  have "mem_read m3 (hlen + 28) n = Some old"
    using mem_read_write_other [OF m3(1), of "hlen + 28" n] mem_read_write_other [OF m2(1), of "hlen + 28" n] mem_read_write [OF m1(1)] old(2) by simp
  moreover have "mem_read m2 hlen 8 = Some ([ICMP_TYPE_DESTUNREAC, code] @ store16 0 @ store32 0)"
    using mem_read_write [OF m2(1)] by (simp add: icmp_store_def msg_def)
  then have "mem_read m3 hlen 8 = Some (icmp_store (msg\<lparr>icmp_csum := ip_checksum data\<rparr>))"
    by (rule mem_read_field [OF _ m3(1)]) (simp_all add: icmp_store_def msg_def)
  ultimately show thesis using that old m1(1) m2(1) data m3 by blast
qed

lemma icmp_unreachable_ok:
  assumes h: "ip_load mem = Some hdr" "ip_hdr_hlen hdr = hlen" "20 \<le> hlen" "128 \<le> length mem"
    and n: "n = unat (umin 8 (ucast bsize))"
  shows "\<exists>mem' net c c1 c2. icmp_generate_dest_unreachable code hlen bsize mem = Some (2 * (36 + int n) + 20, mem') \<and>
    length mem' = length mem \<and> ip_load mem' = Some net \<and>
    fst (ip_ntoh net) = hdr\<lparr>ip_vhl := IP_VHL_DEFAULT, ip_tos := IP_TOS_DEFAULT, ip_proto := IP_PROTO_ICMP,
      ip_src := ip_dst hdr, ip_dst := ip_src hdr, ip_ttl := 64, ip_len := of_nat (56 + n), ip_csum := c\<rparr> \<and>
    ip_checksum (take 20 mem') = 0 \<and>
    mem_read mem' hlen 8 = Some (icmp_store \<lparr>icmp_type = ICMP_TYPE_DESTUNREAC, icmp_code = code, icmp_csum = c1, icmp_rest = 0\<rparr>) \<and>
    mem_read mem' (hlen + 8) 20 = Some (ip_store ((ip_swap hdr)\<lparr>ip_csum := c2\<rparr>)) \<and>
    mem_read mem' (hlen + 28) n = mem_read mem hlen n"
proof -
  have "unat (umin 8 x) \<le> 8" for x by (simp add: umin_def word_le_nat_alt word_less_nat_alt)
  then have n8: "n \<le> 8" by (simp add: n)
  have h60: "hlen \<le> 60" using ip_hdr_hlen_le [of hdr] h(2) by simp
  let ?msg = "\<lparr>icmp_type = ICMP_TYPE_DESTUNREAC, icmp_code = code, icmp_csum = 0, icmp_rest = 0\<rparr>"
  obtain old m1 m2 data m3 where b: "mem_read mem hlen n = Some old" "length old = n" "mem_write mem (hlen + 28) old = Some m1"
    "mem_write m1 hlen (icmp_store ?msg) = Some m2" "mem_read m2 hlen (36 + n) = Some data"
    "mem_write m2 (hlen + 2) (store16 (ip_checksum data)) = Some m3" "length m3 = length mem" "mem_read m3 (hlen + 28) n = Some old"
    "mem_read m3 hlen 8 = Some (icmp_store (?msg\<lparr>icmp_csum := ip_checksum data\<rparr>))"
    by (rule unreachable_body [OF h(3) h60 h(4) n8])
  have "20 \<le> length (drop (hlen + 8) m3)" "ip_hdr_hlen hdr \<le> length (drop (hlen + 8) m3)" using h h60 b(7) by simp_all
  then obtain c2 net where m4: "ip_hton hdr (drop (hlen + 8) m3) = Some net"
    "mem_write m3 (hlen + 8) (ip_store ((ip_swap hdr)\<lparr>ip_csum := c2\<rparr>)) = Some (take (hlen + 8) m3 @ net)"
    using ip_hton_write by metis
  define m4' where "m4' = take (hlen + 8) m3 @ net"
  note l4 = length_mem_write [OF m4(2), folded m4'_def]
  let ?hdr = "hdr\<lparr>ip_vhl := IP_VHL_DEFAULT, ip_tos := IP_TOS_DEFAULT, ip_proto := IP_PROTO_ICMP\<rparr>"
  obtain m5 where m5: "mem_write m4' 0 (ip_store ?hdr) = Some m5" "length m5 = length mem"
    using mem_write_some [of 0 "ip_store ?hdr" m4'] h(4) l4 b(7) by auto
  have hl: "ip_hdr_hlen ?hdr = 20" by (simp add: ip_hdr_hlen_def IP_VHL_DEFAULT_def)
  have "20 \<le> ip_hdr_hlen ?hdr" "ip_hdr_hlen ?hdr \<le> length m5" unfolding hl using m5(2) h(4) by simp_all
  from reply_header_ok [OF ip_load_write [OF m5(1)] this, of "of_nat (36 + n)"] obtain mem' net' c where
    r: "ip_reply_header m5 (of_nat (36 + n)) = Some (of_nat (36 + n) + 20, mem')" "ip_load mem' = Some net'"
      "fst (ip_ntoh net') = ?hdr\<lparr>ip_src := ip_dst ?hdr, ip_dst := ip_src ?hdr, ip_ttl := 64,
        ip_len := ucast (of_nat (36 + n) + 20 :: size_t), ip_csum := c\<rparr>"
      "drop 20 mem' = drop 20 m5" "ip_checksum (take 20 mem') = 0"
    unfolding hl by auto
  have "unat (of_nat (56 + n) :: size_t) = 56 + n" using n8 by (simp add: unat_of_nat del: of_nat_add)
  then have u: "uint (of_nat (56 + n) :: size_t) = 56 + int n" by (simp only: uint_nat of_nat_add of_nat_numeral)
  have v: "(of_nat (36 + n) + 20 :: size_t) = of_nat (56 + n)" by simp
  note w = ucast_of_nat16 [of "56 + n"]
  have "20 \<le> length mem'" using r(2) by (auto simp: ip_load_def split: if_splits)
  then have l: "length mem' = length m5" using arg_cong [OF r(4), of length] m5(2) h(4) by simp
  have above: "mem_read mem' off k = mem_read m4' off k" if "20 \<le> off" for off k
    using mem_read_drop [OF r(4) l that] mem_read_write_other [OF m5(1), of off k] that by simp
  have res: "icmp_generate_dest_unreachable code hlen bsize mem = Some (2 * (36 + int n) + 20, mem')"
    unfolding icmp_generate_dest_unreachable_def Let_def n [symmetric]
    using h(1) b(1,3-6) m4(1) m5(1) r(1) u v by (simp add: icmp_hton_def m4'_def del: of_nat_add)
  have "mem_read mem' (hlen + 8) 20 = Some (ip_store ((ip_swap hdr)\<lparr>ip_csum := c2\<rparr>))"
    using above [of "hlen + 8" 20] mem_read_write [OF m4(2)] h(3) by (simp add: m4'_def)
  moreover have "mem_read mem' (hlen + 28) n = Some old"
    using above [of "hlen + 28" n] mem_read_write_other [OF m4(2), of "hlen + 28" n] b(8) h(3) by (simp add: m4'_def)
  moreover have "mem_read mem' hlen 8 = Some (icmp_store (?msg\<lparr>icmp_csum := ip_checksum data\<rparr>))"
    using above [of hlen 8] mem_read_write_other [OF m4(2), of hlen 8] b(9) h(3) by (simp add: m4'_def)
  ultimately show ?thesis using res r(2,3,5) l m5(2) b(1) v w by (intro exI conjI) (simp_all del: of_nat_add)
qed

end
