(* ===== verification/Ip_Net.thy ===== *)
theory Ip_Net
  imports Ip_Output Icmp
begin

text \<open>
  The way in: \<^verbatim>\<open>ip_input\<close> with its handlers (\<^verbatim>\<open>src/ip.c\<close>), the delivery of reassembled packets
  (\<^verbatim>\<open>ip_fragment_input\<close>, \<^verbatim>\<open>src/ip_fragment.c\<close>) and \<^verbatim>\<open>arp_input\<close> (\<^verbatim>\<open>src/arp.c\<close>).

  A handler works on the memory from its argument to the end of the buffer. \<^verbatim>\<open>ip_input\<close> and
  \<^verbatim>\<open>ip_fragment_input\<close> call each other; \<open>ip_input\<close> has the depth of the calls as its first argument, and
  \<open>ip_input_depth\<close> shows that two are enough: a reassembled packet is not a fragment.
\<close>

section \<open>The transport protocols\<close>

datatype ip_proto_handler = Icmp_input | Tcp_input | Udp_input

definition ip_proto_handlers :: "(u16 \<times> ip_proto_handler) list" where
  "ip_proto_handlers = [(ucast IP_PROTO_ICMP, Icmp_input), (ucast IP_PROTO_TCP, Tcp_input), (ucast IP_PROTO_UDP, Udp_input)]"

definition icmp_zero :: icmp where
  "icmp_zero = \<lparr>icmp_type = 0, icmp_code = 0, icmp_csum = 0, icmp_rest = 0\<rparr>"

fun ip_proto_fn :: "ip_proto_handler \<Rightarrow> ip_hdr \<Rightarrow> bytes \<Rightarrow> nat \<Rightarrow> net_state \<Rightarrow> (int \<times> bytes \<times> net_state) option" where
  "ip_proto_fn Icmp_input ip payload bsize st = do {
     (retval, payload) \<leftarrow> icmp_input icmp_zero ip payload bsize;
     Some (retval, payload, st)
   }"
| "ip_proto_fn Tcp_input ip payload bsize st = do {
     (retval, payload, t) \<leftarrow> tcp_input ip payload bsize (n_tcp st);
     Some (retval, payload, st\<lparr>n_tcp := t\<rparr>)
   }"
| "ip_proto_fn Udp_input ip payload bsize st = do {
     (retval, payload, u) \<leftarrow> udp_input ip payload bsize (n_udp st);
     Some (retval, payload, st\<lparr>n_udp := u\<rparr>)
   }"

text \<open>The end of \<^verbatim>\<open>ip_input\<close>: the handler of the protocol, the header of a reply, and the ICMP messages for an
  unknown port or protocol.\<close>

definition ip_unreachable :: "u8 \<Rightarrow> bytes \<Rightarrow> nat \<Rightarrow> nat \<Rightarrow> net_state \<Rightarrow> (int \<times> bytes \<times> net_state) option" where
  "ip_unreachable code mem hlen bsize st = do {
     (retval, mem) \<leftarrow> icmp_generate_dest_unreachable code hlen (of_nat bsize - of_nat hlen) mem;
     Some (retval, mem, st)
   }"

definition ip_deliver :: "bytes \<Rightarrow> nat \<Rightarrow> net_state \<Rightarrow> (int \<times> bytes \<times> net_state) option" where
  "ip_deliver mem bsize st = do {
     ip \<leftarrow> ip_load mem;
     let hlen = ip_hdr_hlen ip;
     case find_handler ip_proto_handlers (ucast (ip_proto ip)) of
       Some proto \<Rightarrow> do {
         (retval, payload, st) \<leftarrow> ip_proto_fn proto ip (drop hlen mem) (unat (of_nat bsize - of_nat hlen :: size_t)) st;
         let mem = take hlen mem @ payload;
         (retval, mem) \<leftarrow> (if retval > 0 then do {
              (len, mem) \<leftarrow> ip_reply_header mem (word_of_int retval);
              Some (int_of_size len, mem)
            } else Some (retval, mem));
         if retval = - ENOTSOCK then ip_unreachable ICMP_CODE_PORTUNREAC mem hlen bsize st
         else Some (retval, mem, st)
       }
     | None \<Rightarrow> ip_unreachable ICMP_CODE_PROTOUNREAC mem hlen bsize st
   }"

section \<open>Reassembled packets\<close>

text \<open>A packet buffer as the memory \<^verbatim>\<open>ip_input\<close> gets: the header with the payload behind it.\<close>

definition buf_mem :: "packet_buf \<Rightarrow> bytes" where
  "buf_mem b = ip_store (p_hdr b) @ map (p_payload b) [0..<IP_MAX_BYTES]"

definition buf_update :: "bytes \<Rightarrow> packet_buf \<Rightarrow> packet_buf option" where
  "buf_update mem b = do {
     hdr \<leftarrow> ip_load mem;
     Some (b\<lparr>p_hdr := hdr, p_payload := (\<lambda>i. if i < IP_MAX_BYTES then mem ! (20 + i) else p_payload b i)\<rparr>)
   }"

text \<open>The second half of \<^verbatim>\<open>ip_fragment_input\<close>. \<open>input\<close> stands for \<^verbatim>\<open>ip_input(NULL, ...)\<close>. Its result is
  the size of what \<^verbatim>\<open>ip_send\<close> sends from the payload, also when it is zero or, as a huge size, negative.\<close>

definition frag_deliver ::
  "(bytes \<Rightarrow> nat \<Rightarrow> net_state \<Rightarrow> (int \<times> bytes \<times> net_state) option) \<Rightarrow> sendto_fn \<Rightarrow> nat \<Rightarrow> net_state \<Rightarrow> net_state option" where
  "frag_deliver input sendto p st = do {
     let b = packet_buffer (n_frag st) p;
     (retval, mem, st) \<leftarrow> input (buf_mem b) (unat (ip_len (p_hdr b))) st;
     b \<leftarrow> buf_update mem (packet_buffer (n_frag st) p);
     let hdr = fst (ip_ntoh (p_hdr b));
     let st = st\<lparr>n_frag := set_buf p (b\<lparr>p_hdr := hdr\<rparr>) (n_frag st)\<rparr>;
     data \<leftarrow> mem_read (drop 20 mem) 0 (unat (word_of_int retval :: size_t));
     (_, st) \<leftarrow> ip_send sendto (ip_dst hdr) (ip_proto hdr) data st;
     f \<leftarrow> release_packet_buffer p (n_frag st);
     Some (st\<lparr>n_frag := f\<rparr>)
   }"

definition ip_fragment_input ::
  "(bytes \<Rightarrow> nat \<Rightarrow> net_state \<Rightarrow> (int \<times> bytes \<times> net_state) option) \<Rightarrow> sendto_fn \<Rightarrow> ip_hdr \<Rightarrow> bytes \<Rightarrow> net_state \<Rightarrow>
   (int \<times> net_state) option" where
  "ip_fragment_input input sendto ip rx_packet st = do {
     (r, f) \<leftarrow> frag_collect ip rx_packet (n_frag st);
     let st = st\<lparr>n_frag := f\<rparr>;
     case r of
       Inl e \<Rightarrow> Some (e, st)
     | Inr p \<Rightarrow> do {
         complete \<leftarrow> frag_done (packet_buffer f p);
         if complete then do { st \<leftarrow> frag_deliver input sendto p st; Some (0, st) } else Some (0, st)
       }
   }"

section \<open>The IP input chain\<close>

text \<open>The sender of a packet from the link is put into the ARP cache; an error only shows in \<^verbatim>\<open>errno\<close>.\<close>

definition arp_learn :: "u32 \<Rightarrow> mac_addr \<Rightarrow> net_state \<Rightarrow> net_state option" where
  "arp_learn ip mac st = do {
     (r, arp) \<leftarrow> arp_cache_insert ip mac ARP_CACHE_DYN (n_arp st);
     let st = st\<lparr>n_arp := arp\<rparr>;
     Some (case r of Inl e \<Rightarrow> set_errno e st | Inr _ \<Rightarrow> st)
   }"

text \<open>The body of \<^verbatim>\<open>ip_input\<close>; \<open>input\<close> stands for the call of \<^verbatim>\<open>ip_input\<close> in \<^verbatim>\<open>ip_fragment_input\<close>.\<close>

type_synonym ip_input_fn = "sendto_fn \<Rightarrow> ether_hdr option \<Rightarrow> bytes \<Rightarrow> nat \<Rightarrow> net_state \<Rightarrow> (int \<times> bytes \<times> net_state) option"

definition ip_input_body :: "ip_input_fn \<Rightarrow> ip_input_fn" where
  "ip_input_body input sendto e_hdr payload bsize st = do {
     net \<leftarrow> ip_load payload;
     payload \<leftarrow> (if e_hdr \<noteq> None then mem_write payload 0 (ip_store (fst (ip_ntoh net))) else Some payload);
     ip \<leftarrow> ip_load payload;
     let hlen = ip_hdr_hlen ip;
     if ip_vhl ip AND 0x40 \<noteq> 0x40 then Some (0, payload, st)
     else if hlen < 20 then Some (0, payload, st)
     else if unat (ip_len ip) \<noteq> bsize then Some (0, payload, st)
     else do {
       st \<leftarrow> (case e_hdr of Some e \<Rightarrow> arp_learn (ip_src ip) (h_src e) st | None \<Rightarrow> Some st);
       r \<leftarrow> ip_route_find_by_iface (ip_dst ip) (n_rib st);
       case r of
         Inl e \<Rightarrow> ip_unreachable ICMP_CODE_HOSTUNREAC payload hlen bsize (set_errno e st)
       | Inr _ \<Rightarrow>
           if ip_fragment_is_frag ip then do {
             (_, st) \<leftarrow> ip_fragment_input (input sendto None) sendto ip (drop hlen payload) st;
             Some (0, payload, st)
           } else ip_deliver payload bsize st
     }
   }"

text \<open>\<open>depth\<close> nested calls; a call beyond them has no result, which \<open>ip_input_depth\<close> shows does not happen.\<close>

fun ip_input :: "nat \<Rightarrow> ip_input_fn" where
  "ip_input 0 sendto e_hdr payload bsize st = None"
| "ip_input (Suc depth) sendto e_hdr payload bsize st = ip_input_body (ip_input depth) sendto e_hdr payload bsize st"

lemmas ip_input_Suc = ip_input.simps(2) [unfolded ip_input_body_def]

declare ip_input.simps [simp del]

section \<open>ARP input\<close>

definition arp_answer :: "bytes \<Rightarrow> arp_ip \<Rightarrow> ip_route \<Rightarrow> ether_state \<Rightarrow> (bytes \<times> ether_state) option" where
  "arp_answer payload arp_net route est = do {
     (_, mac, est) \<leftarrow> ether_handle2addr est (r_iface_handle route);
     let reply = arp_net\<lparr>arp_oper := htons ARP_OPER_REPLY,
                   arp_sha := (case mac of Some a \<Rightarrow> a | None \<Rightarrow> arp_sha arp_net),
                   arp_tha := arp_sha arp_net, arp_tpa := arp_spa arp_net, arp_spa := htonl (r_iface route)\<rparr>;
     payload \<leftarrow> mem_write payload 0 (arp_store reply);
     Some (payload, est)
   }"

definition arp_input :: "sendto_fn \<Rightarrow> bytes \<Rightarrow> nat \<Rightarrow> net_state \<Rightarrow> (int \<times> bytes \<times> net_state) option" where
  "arp_input sendto payload bsize st = do {
     arp_net \<leftarrow> arp_load payload;
     let arp = arp_ntoh arp_net;
     if arp_htype arp \<noteq> ARP_HTYPE_ETHER then Some (- EPROTOTYPE, payload, st)
     else if arp_ptype arp = ETHER_PROTO_IPV4 then do {
       st \<leftarrow> arp_learn (arp_spa arp) (arp_sha arp) st;
       st \<leftarrow> ip_defer_handler sendto st;
       if arp_oper arp = ARP_OPER_REQUEST then do {
         r \<leftarrow> ip_route_find_by_iface (arp_tpa arp) (n_rib st);
         case r of
           Inr route \<Rightarrow> do {
             (payload, est) \<leftarrow> arp_answer payload arp_net route (n_eth st);
             Some (int bsize, payload, st\<lparr>n_eth := est\<rparr>)
           }
         | Inl e \<Rightarrow> Some (0, payload, set_errno e st)
       }
       else Some (0, payload, st)
     }
     else Some (- EPROTOTYPE, payload, st)
   }"

section \<open>The depth of the calls\<close>

lemma ip_input_unfragmented:
  assumes "ip_foff h = 0"
  shows "ip_input_body f sendto None (ip_store h @ payload) bsize st = ip_input_body g sendto None (ip_store h @ payload) bsize st"
  using assms by (simp add: ip_input_body_def ip_fragment_is_frag_def cong: if_cong)

lemma frag_collect_foff:
  assumes "frag_inv f" "frag_collect hdr rx f = Some (Inr p, f')"
  shows "ip_foff (p_hdr (packet_buffer f' p)) = 0"
proof -
  obtain r f1 where g: "get_packet_buffer hdr f = Some (r, f1)" "frag_inv f1"
    "case r of None \<Rightarrow> True | Some p \<Rightarrow> in_use f1 = insert p (in_use f)"
    using get_buffer_ok [OF assms(1), of hdr] by (auto split: option.splits)
  with assms(2) obtain b where b: "r = Some p" "frag_copy hdr rx (packet_buffer f1 p) = Some b"
    "f' = set_buf p (b\<lparr>p_hdr := frag_header hdr (p_hdr b)\<rparr>) f1"
    by (auto simp: frag_collect_def split: if_splits Option.bind_splits option.splits)
  have "p_hdr b = p_hdr (packet_buffer f1 p)"
    using b(2) by (auto simp: frag_copy_def Let_def split: if_splits Option.bind_splits)
  moreover have "ip_foff (p_hdr (packet_buffer f1 p)) = 0" using g(2,3) b(1) by (auto simp: frag_inv_def)
  ultimately show ?thesis by (simp add: b(3) set_buf_def frag_header_def)
qed

lemma fragment_input_cong:
  assumes "frag_inv (n_frag st)"
  shows "ip_fragment_input (ip_input_body f sendto None) sendto ip rx st = ip_fragment_input (ip_input_body g sendto None) sendto ip rx st"
proof (cases "frag_collect ip rx (n_frag st)")
  case (Some rf)
  obtain r fr where rf: "rf = (r, fr)" by (cases rf)
  show ?thesis
  proof (cases r)
    case (Inr p)
    have "ip_foff (p_hdr (packet_buffer fr p)) = 0" using frag_collect_foff [OF assms] Some rf Inr by simp
    then have "ip_input_body f sendto None (buf_mem (packet_buffer fr p)) n s = ip_input_body g sendto None (buf_mem (packet_buffer fr p)) n s" for n s
      unfolding buf_mem_def by (rule ip_input_unfragmented)
    then have "frag_deliver (ip_input_body f sendto None) sendto p (st\<lparr>n_frag := fr\<rparr>) =
        frag_deliver (ip_input_body g sendto None) sendto p (st\<lparr>n_frag := fr\<rparr>)"
      by (simp add: frag_deliver_def)
    then show ?thesis by (simp add: ip_fragment_input_def Some rf Inr cong: if_cong)
  qed (simp add: ip_fragment_input_def Some rf)
qed (simp add: ip_fragment_input_def)

lemma arp_learn_frag: "arp_learn ip mac st = Some st' \<Longrightarrow> n_frag st' = n_frag st"
  by (auto simp: arp_learn_def set_errno_def Let_def split: Option.bind_splits sum.splits)

lemma ip_input_twice:
  assumes "frag_inv (n_frag st)"
  shows "ip_input_body (ip_input_body f) sendto e_hdr payload bsize st = ip_input_body (ip_input_body g) sendto e_hdr payload bsize st"
proof -
  have "ip_fragment_input (ip_input_body f sendto None) sendto ip rx st' = ip_fragment_input (ip_input_body g sendto None) sendto ip rx st'"
    if "(case e_hdr of Some e \<Rightarrow> arp_learn (ip_src ip') (h_src e) st | None \<Rightarrow> Some st) = Some st'" for ip ip' rx st'
    using fragment_input_cong assms arp_learn_frag that by (metis option.case_eq_if option.inject)
  then show ?thesis
    unfolding ip_input_body_def [of "ip_input_body f"] ip_input_body_def [of "ip_input_body g"]
    by (auto intro!: Option.bind_cong simp: Let_def split: sum.splits)
qed

lemma ip_input_2: "ip_input 2 sendto e_hdr payload bsize st = ip_input_body (ip_input_body (ip_input 0)) sendto e_hdr payload bsize st"
proof -
  have "ip_input (Suc 0) = ip_input_body (ip_input 0)" by (intro ext) (simp add: ip_input.simps)
  then show ?thesis by (simp add: numeral_2_eq_2 ip_input.simps(2))
qed

text \<open>C23: The mutual recursion of \<^verbatim>\<open>ip_input\<close> and \<^verbatim>\<open>ip_fragment_input\<close> ends after two levels. With the buffers of the reassembly in a
  state the code can have left them in (\<open>frag_inv\<close>), the result of \<^verbatim>\<open>ip_input\<close> on any packet is that of its body applied twice,
  whatever stands for a third nested call: a packet put together from fragments is never a fragment again, so
  that call is not made. In particular the depth 2, which the other theorems use, is as good as any larger one.\<close>

theorem ip_input_depth:
  assumes "frag_inv (n_frag st)"
  shows "ip_input_body (ip_input_body third) sendto e_hdr payload bsize st = ip_input 2 sendto e_hdr payload bsize st \<and>
    ip_input (Suc (Suc depth)) sendto e_hdr payload bsize st = ip_input 2 sendto e_hdr payload bsize st"
proof -
  have s: "ip_input (Suc depth) = ip_input_body (ip_input depth)" by (intro ext) (simp add: ip_input.simps)
  show ?thesis unfolding ip_input_2 ip_input.simps(2) [of "Suc depth"] s using ip_input_twice [OF assms] by blast
qed

section \<open>A packet from the link\<close>

definition arp_room :: "arp_state \<Rightarrow> u32 \<Rightarrow> bool" where
  "arp_room st ip \<longleftrightarrow> ip \<noteq> 0 \<and>
     (\<exists>i < XSTACK_ARP_CACHE_SIZE. ip_addr (arp_cache st i) = ip \<or> age (arp_cache st i) = ARP_CACHE_FREE)"

lemma arp_learn_ok:
  assumes "net_ok lo R st" "in_window lo ip" "arp_room (n_arp st) ip"
  obtains arp where "arp_learn ip mac st = Some (st\<lparr>n_arp := arp\<rparr>)" "net_ok lo R (st\<lparr>n_arp := arp\<rparr>)"
    "arp_map arp = (arp_map (n_arp st))(ip \<mapsto> (mac, ARP_CACHE_DYN))"
proof -
  obtain arp where "arp_cache_insert ip mac ARP_CACHE_DYN (n_arp st) = Some (Inr (), arp)" "arp_inv lo arp"
    "arp_map arp = (arp_map (n_arp st))(ip \<mapsto> (mac, ARP_CACHE_DYN))"
    using arp_insert_room [of lo "n_arp st" ip ARP_CACHE_DYN mac] assms by (auto simp: net_ok_def arp_room_def)
  then show thesis using that assms(1) by (simp add: arp_learn_def net_ok_def)
qed

lemma iface_found:
  assumes "net_ok lo R st" "q \<in> R"
  obtains q' where "ip_route_find_by_iface (r_iface q) (n_rib st) = Some (Inr q')" "q' \<in> R" "r_iface q' = r_iface q"
proof -
  obtain S where S: "rib_inv lo (n_rib st) S" "R = rib_route (n_rib st) ` S" using assms(1) by (auto simp: net_ok_def rib_holds_def)
  have "in_window lo (r_iface q)" using S assms(2) by (auto simp: rib_inv_def)
  from find_by_iface_ok [OF S(1) this] obtain res where res: "ip_route_find_by_iface (r_iface q) (n_rib st) = Some res"
    "case res of Inr q' \<Rightarrow> q' \<in> R \<and> r_iface q' = r_iface q | Inl e \<Rightarrow> e = ENOENT \<and> (\<forall>p \<in> R. r_iface p \<noteq> r_iface q)"
    unfolding S(2) by blast
  then show thesis using that assms(2) by (cases res) auto
qed

text \<open>A header in host order that passes the checks of \<^verbatim>\<open>ip_input\<close>, for a packet of \<open>bsize\<close> bytes.\<close>

definition acceptable :: "ip_hdr \<Rightarrow> nat \<Rightarrow> bool" where
  "acceptable h bsize \<longleftrightarrow> ip_vhl h AND 0x40 = 0x40 \<and> 20 \<le> ip_hdr_hlen h \<and> unat (ip_len h) = bsize"

lemma ip_input_link:
  "ip_input (Suc depth) sendto (Some e) (ip_store (ip_swap h) @ rest) bsize st =
    (if \<not> acceptable h bsize then Some (0, ip_store h @ rest, st)
     else do {
       st \<leftarrow> arp_learn (ip_src h) (h_src e) st;
       r \<leftarrow> ip_route_find_by_iface (ip_dst h) (n_rib st);
       case r of
         Inl e \<Rightarrow> ip_unreachable ICMP_CODE_HOSTUNREAC (ip_store h @ rest) (ip_hdr_hlen h) bsize (set_errno e st)
       | Inr _ \<Rightarrow>
           if ip_fragment_is_frag h then do {
             (_, st) \<leftarrow> ip_fragment_input (ip_input depth sendto None) sendto h (drop (ip_hdr_hlen h) (ip_store h @ rest)) st;
             Some (0, ip_store h @ rest, st)
           } else ip_deliver (ip_store h @ rest) bsize st
     })"
proof -
  have "mem_write (ip_store (ip_swap h) @ rest) 0 (ip_store h) = Some (ip_store h @ rest)" by (simp add: mem_write_def)
  then show ?thesis by (auto simp: ip_input_Suc ip_ntoh_swap acceptable_def Let_def)
qed

lemma ip_input_own:
  assumes ok: "net_ok lo R st" "q \<in> R" "ip_dst h = r_iface q" "in_window lo (ip_src h)" "arp_room (n_arp st) (ip_src h)"
    and h: "acceptable h bsize" "\<not> ip_fragment_is_frag h"
  obtains arp where "ip_input (Suc depth) sendto (Some e) (ip_store (ip_swap h) @ rest) bsize st =
      ip_deliver (ip_store h @ rest) bsize (st\<lparr>n_arp := arp\<rparr>)"
    "net_ok lo R (st\<lparr>n_arp := arp\<rparr>)" "arp_map arp = (arp_map (n_arp st))(ip_src h \<mapsto> (h_src e, ARP_CACHE_DYN))"
proof -
  obtain arp where arp: "arp_learn (ip_src h) (h_src e) st = Some (st\<lparr>n_arp := arp\<rparr>)" "net_ok lo R (st\<lparr>n_arp := arp\<rparr>)"
    "arp_map arp = (arp_map (n_arp st))(ip_src h \<mapsto> (h_src e, ARP_CACHE_DYN))"
    using arp_learn_ok [OF ok(1,4,5)] .
  obtain q' where "ip_route_find_by_iface (ip_dst h) (n_rib (st\<lparr>n_arp := arp\<rparr>)) = Some (Inr q')"
    using iface_found [OF arp(2) ok(2)] ok(3) by metis
  then show thesis using that arp h by (simp add: ip_input_link)
qed

lemma proto_handlers [simp]:
  "find_handler ip_proto_handlers (ucast IP_PROTO_ICMP) = Some Icmp_input"
  "find_handler ip_proto_handlers (ucast IP_PROTO_TCP) = Some Tcp_input"
  "find_handler ip_proto_handlers (ucast IP_PROTO_UDP) = Some Udp_input"
  by (simp_all add: find_handler_def ip_proto_handlers_def IP_PROTO_ICMP_def IP_PROTO_TCP_def IP_PROTO_UDP_def)

lemma header_length_diff:
  assumes "acceptable h bsize" "ip_hdr_hlen h \<le> bsize"
  shows "unat (of_nat bsize - of_nat (ip_hdr_hlen h) :: size_t) = bsize - ip_hdr_hlen h"
proof -
  have "bsize < 65536" using assms(1) unsigned_less [of "ip_len h", where ?'a = nat] by (simp add: acceptable_def)
  then show ?thesis using assms(2) by (simp add: unat_of_nat flip: of_nat_diff)
qed

lemma reply_size:
  assumes "acceptable h bsize" "ip_hdr_hlen h \<le> bsize"
  shows "(word_of_int (int (bsize - ip_hdr_hlen h)) + of_nat (ip_hdr_hlen h) :: size_t) = of_nat bsize"
    "int_of_size (of_nat bsize) = int bsize" "ucast (of_nat bsize :: size_t) = ip_len h"
proof -
  have b: "bsize < 65536" "of_nat bsize = ip_len h"
    using assms(1) unsigned_less [of "ip_len h", where ?'a = nat] by (auto simp: acceptable_def)
  then show "int_of_size (of_nat bsize) = int bsize" by (subst int_of_size_small) (simp_all add: unat_of_nat)
  show "ucast (of_nat bsize :: size_t) = ip_len h" using b(2) by (simp add: ucast_of_nat16)
  have "(of_nat (bsize - ip_hdr_hlen h) + of_nat (ip_hdr_hlen h) :: size_t) = of_nat (bsize - ip_hdr_hlen h + ip_hdr_hlen h)"
    by (simp only: of_nat_add)
  then show "(word_of_int (int (bsize - ip_hdr_hlen h)) + of_nat (ip_hdr_hlen h) :: size_t) = of_nat bsize"
    using assms(2) by simp
qed

lemma ip_deliver_to:
  assumes "find_handler ip_proto_handlers (ucast (ip_proto h)) = Some p" "acceptable h bsize" "ip_hdr_hlen h \<le> bsize"
    "length opts = ip_hdr_hlen h - 20" "ip_proto_fn p h msg (bsize - ip_hdr_hlen h) st = Some (r, msg', st')"
  shows "r \<le> 0 \<Longrightarrow> r \<noteq> - ENOTSOCK \<Longrightarrow> ip_deliver (ip_store h @ opts @ msg) bsize st = Some (r, ip_store h @ opts @ msg', st')"
    "r = - ENOTSOCK \<Longrightarrow> ip_deliver (ip_store h @ opts @ msg) bsize st =
       ip_unreachable ICMP_CODE_PORTUNREAC (ip_store h @ opts @ msg') (ip_hdr_hlen h) bsize st'"
    "r > 0 \<Longrightarrow> ip_reply_header (ip_store h @ opts @ msg') (word_of_int r) = Some (len, mem) \<Longrightarrow> int_of_size len \<ge> 0 \<Longrightarrow>
       ip_deliver (ip_store h @ opts @ msg) bsize st = Some (int_of_size len, mem, st')"
proof -
  have "20 \<le> ip_hdr_hlen h" using assms(2) by (simp add: acceptable_def)
  then have "drop (ip_hdr_hlen h) (ip_store h @ opts @ msg) = msg" "take (ip_hdr_hlen h) (ip_store h @ opts @ msg) = ip_store h @ opts"
    using assms(4) by simp_all
  note s = this header_length_diff [OF assms(2,3)] assms(1,5)
  show "r \<le> 0 \<Longrightarrow> r \<noteq> - ENOTSOCK \<Longrightarrow> ip_deliver (ip_store h @ opts @ msg) bsize st = Some (r, ip_store h @ opts @ msg', st')"
    "r = - ENOTSOCK \<Longrightarrow> ip_deliver (ip_store h @ opts @ msg) bsize st =
       ip_unreachable ICMP_CODE_PORTUNREAC (ip_store h @ opts @ msg') (ip_hdr_hlen h) bsize st'"
    "r > 0 \<Longrightarrow> ip_reply_header (ip_store h @ opts @ msg') (word_of_int r) = Some (len, mem) \<Longrightarrow> int_of_size len \<ge> 0 \<Longrightarrow>
       ip_deliver (ip_store h @ opts @ msg) bsize st = Some (int_of_size len, mem, st')"
    by (simp_all add: ip_deliver_def Let_def s ENOTSOCK_def del: drop_append take_append)
qed

text \<open>The stack answers a ping. An ICMP echo request to the address of an interface, in a packet that is
  no fragment, with or without options, comes back with source and destination exchanged, the same
  identification, length and data, and checksums of header and message that verify; the sender's
  hardware address is learned, and nothing else in the stack changes.\<close>

lemma ip_input_ping:
  assumes ok: "net_ok lo R st" "q \<in> R" "ip_dst h = r_iface q" "in_window lo (ip_src h)" "arp_room (n_arp st) (ip_src h)"
    and h: "acceptable h bsize" "\<not> ip_fragment_is_frag h" "ip_proto h = IP_PROTO_ICMP"
    and m: "icmp_load msg = Some m" "icmp_type m = ICMP_TYPE_ECHO_REQUEST" "length opts = ip_hdr_hlen h - 20"
      "ip_hdr_hlen h + 8 \<le> bsize" "bsize \<le> ip_hdr_hlen h + length msg"
  shows "\<exists>payload' n arp c c'. ip_input 2 sendto (Some e) (ip_store (ip_swap h) @ opts @ msg) bsize st =
      Some (int bsize, payload', st\<lparr>n_arp := arp\<rparr>) \<and> ip_load payload' = Some n \<and>
    fst (ip_ntoh n) = h\<lparr>ip_src := ip_dst h, ip_dst := ip_src h, ip_ttl := 64, ip_csum := c\<rparr> \<and>
    drop 20 payload' = opts @ icmp_store (m\<lparr>icmp_type := ICMP_TYPE_ECHO_REPLY, icmp_csum := c'\<rparr>) @ drop 8 msg \<and>
    ip_checksum (take (ip_hdr_hlen h) payload') = 0 \<and>
    ip_checksum (take (bsize - ip_hdr_hlen h) (drop (ip_hdr_hlen h) payload')) = 0 \<and>
    arp_map arp = (arp_map (n_arp st))(ip_src h \<mapsto> (h_src e, ARP_CACHE_DYN))"
proof -
  let ?hl = "ip_hdr_hlen h" and ?n = "bsize - ip_hdr_hlen h"
  have hl: "20 \<le> ?hl" "?hl \<le> bsize" using h(1) m(4) by (auto simp: acceptable_def)
  obtain arp where arp: "ip_input (Suc 1) sendto (Some e) (ip_store (ip_swap h) @ opts @ msg) bsize st =
      ip_deliver (ip_store h @ opts @ msg) bsize (st\<lparr>n_arp := arp\<rparr>)"
    "arp_map arp = (arp_map (n_arp st))(ip_src h \<mapsto> (h_src e, ARP_CACHE_DYN))"
    using ip_input_own [OF ok h(1,2)] .
  have n: "8 \<le> ?n" "?n \<le> length msg" using m(4,5) by simp_all
  obtain c' where c': "icmp_input icmp_zero h msg ?n =
      Some (int ?n, icmp_store (m\<lparr>icmp_type := ICMP_TYPE_ECHO_REPLY, icmp_csum := c'\<rparr>) @ drop 8 msg)"
    "ip_checksum (take ?n (icmp_store (m\<lparr>icmp_type := ICMP_TYPE_ECHO_REPLY, icmp_csum := c'\<rparr>) @ drop 8 msg)) = 0"
    using icmp_echo_ok [OF m(1,2) n] by blast
  define msg' where "msg' = icmp_store (m\<lparr>icmp_type := ICMP_TYPE_ECHO_REPLY, icmp_csum := c'\<rparr>) @ drop 8 msg"
  let ?buf = "ip_store h @ opts @ msg'"
  have "ip_load ?buf = Some h" "?hl \<le> length ?buf" using m(3) hl(1) by (simp_all add: msg'_def)
  from reply_header_ok [OF this(1) hl(1) this(2), of "word_of_int (int ?n)"] obtain buf' n c where
    r: "ip_reply_header ?buf (word_of_int (int ?n)) = Some (of_nat bsize, buf')" "ip_load buf' = Some n"
      "fst (ip_ntoh n) = h\<lparr>ip_src := ip_dst h, ip_dst := ip_src h, ip_ttl := 64, ip_len := ip_len h, ip_csum := c\<rparr>"
      "drop 20 buf' = drop 20 ?buf" "ip_checksum (take ?hl buf') = 0"
    unfolding reply_size [OF h(1) hl(2)] by blast
  have d: "drop 20 buf' = opts @ msg'" unfolding r(4) by simp
  have "drop (?hl - 20) (drop 20 buf') = msg'" unfolding d using m(3) by simp
  then have d': "drop ?hl buf' = msg'" using hl(1) by simp
  have f: "ip_proto_fn Icmp_input h msg ?n (st\<lparr>n_arp := arp\<rparr>) = Some (int ?n, msg', st\<lparr>n_arp := arp\<rparr>)"
    using c'(1) by (simp add: msg'_def del: of_nat_diff)
  have fh: "find_handler ip_proto_handlers (ucast (ip_proto h)) = Some Icmp_input" unfolding h(3) by simp
  have "ip_deliver (ip_store h @ opts @ msg) bsize (st\<lparr>n_arp := arp\<rparr>) = Some (int bsize, buf', st\<lparr>n_arp := arp\<rparr>)"
    using ip_deliver_to(3) [OF fh h(1) hl(2) m(3) f _ r(1)] reply_size(2) [OF h(1) hl(2)] n(1) by simp
  moreover have "fst (ip_ntoh n) = h\<lparr>ip_src := ip_dst h, ip_dst := ip_src h, ip_ttl := 64, ip_csum := c\<rparr>" unfolding r(3) by simp
  ultimately show ?thesis
    using arp r(2,5) d d' c'(2) unfolding msg'_def [symmetric] Suc_1 by (intro exI conjI) (assumption | simp add: msg'_def)+
qed

definition example_ping :: ip_hdr where
  "example_ping = \<lparr>ip_vhl = 0x45, ip_tos = 0, ip_len = 30, ip_id = 7, ip_foff = 0x4000, ip_ttl = 3, ip_proto = IP_PROTO_ICMP,
     ip_csum = 0, ip_src = 0x0a000000, ip_dst = 0x0a000002\<rparr>"

definition example_eth :: ether_hdr where
  "example_eth = \<lparr>h_dst = replicate 6 2, h_src = replicate 6 8, h_proto = ETHER_PROTO_IPV4\<rparr>"

lemma example_hdr: "acceptable example_ping 30" "ip_hdr_hlen example_ping = 20" "\<not> ip_fragment_is_frag example_ping"
  by (simp_all add: acceptable_def example_ping_def ip_hdr_hlen_def ip_fragment_is_frag_def IP_FLAGS_MF_def)

lemma udp_input_length: "udp_input ip payload bsize st = Some (r, payload', st') \<Longrightarrow> length payload' = length payload"
  by (auto simp: udp_input_def Let_def dest!: length_mem_write split: if_splits Option.bind_splits option.splits)

lemma umin_8: "8 \<le> unat w \<Longrightarrow> unat w < 2 ^ 32 \<Longrightarrow> unat (umin 8 (ucast (w :: size_t))) = 8"
proof -
  assume w: "8 \<le> unat w" "unat w < 2 ^ 32"
  then have "unat (ucast w :: u32) = unat w" by (simp add: unsigned_ucast_eq take_bit_nat_eq_self_iff)
  then have "\<not> ucast w < (8 :: u32)" using w(1) by (simp add: word_less_nat_alt)
  then show ?thesis by (auto simp: umin_def)
qed

text \<open>UDP from the link to the socket: a datagram to an address and port a socket is bound to is put
  into the queue of that socket with the sender's address and the data, and there is no reply. Without
  such a socket an ICMP message that the port is unreachable goes back. Both leave the rest of the
  stack as it is, but for the learned hardware address of the sender.\<close>

lemma udp_from_link:
  assumes ok: "net_ok lo R st" "q \<in> R" "ip_dst h = r_iface q" "in_window lo (ip_src h)" "arp_room (n_arp st) (ip_src h)"
    and h: "acceptable h bsize" "\<not> ip_fragment_is_frag h" "ip_proto h = IP_PROTO_UDP"
    and m: "udp_load msg = Some net" "length opts = ip_hdr_hlen h - 20" "ip_hdr_hlen h + 8 \<le> bsize"
      "bsize \<le> ip_hdr_hlen h + length msg" "bsize \<le> 1500" "128 \<le> length msg"
    and u: "udp_inv (n_udp st) S" "\<forall>s \<in> S. pending (sock_shmem (sockets (n_udp st) s)) (msgs s) \<and> length (msgs s) < 3"
      "dst = \<lparr>inet4_addr = ip_dst h, port = uint (ntohs (udp_dport net))\<rparr>"
      "src = \<lparr>inet4_addr = ip_src h, port = uint (ntohs (udp_sport net))\<rparr>"
  shows "\<exists>payload' arp ud. arp_map arp = (arp_map (n_arp st))(ip_src h \<mapsto> (h_src e, ARP_CACHE_DYN)) \<and>
    (if \<exists>s \<in> S. sock_addr (sockets (n_udp st) s) = dst
     then ip_input 2 sendto (Some e) (ip_store (ip_swap h) @ opts @ msg) bsize st = Some (0, payload', st\<lparr>n_arp := arp, n_udp := ud\<rparr>) \<and>
       udp_inv ud S \<and> (\<exists>s \<in> S. sock_addr (sockets (n_udp st) s) = dst \<and>
         pending (sock_shmem (sockets ud s)) (msgs s @ [(src, dst, take (bsize - ip_hdr_hlen h - 8) (drop 8 msg))]) \<and>
         (\<forall>t. t = s \<or> sockets ud t = sockets (n_udp st) t))
     else ip_input 2 sendto (Some e) (ip_store (ip_swap h) @ opts @ msg) bsize st = Some (108, payload', st\<lparr>n_arp := arp\<rparr>) \<and>
       (\<exists>c. mem_read payload' (ip_hdr_hlen h) 8 =
         Some (icmp_store \<lparr>icmp_type = ICMP_TYPE_DESTUNREAC, icmp_code = ICMP_CODE_PORTUNREAC, icmp_csum = c, icmp_rest = 0\<rparr>)))"
proof -
  let ?n = "bsize - ip_hdr_hlen h"
  have hl: "20 \<le> ip_hdr_hlen h" "ip_hdr_hlen h \<le> bsize" using h(1) m(3) by (auto simp: acceptable_def)
  obtain arp where arp: "ip_input (Suc 1) sendto (Some e) (ip_store (ip_swap h) @ opts @ msg) bsize st =
      ip_deliver (ip_store h @ opts @ msg) bsize (st\<lparr>n_arp := arp\<rparr>)"
    "arp_map arp = (arp_map (n_arp st))(ip_src h \<mapsto> (h_src e, ARP_CACHE_DYN))"
    using ip_input_own [OF ok h(1,2)] .
  have n: "8 \<le> ?n" "?n \<le> length msg" "?n \<le> 4080" using m(3-5) by simp_all
  have fh: "find_handler ip_proto_handlers (ucast (ip_proto h)) = Some Udp_input" unfolding h(3) by simp
  note U = udp_input_ok [OF u(1) m(1) n u(3,4,2)]
  show ?thesis
  proof (cases "\<exists>s \<in> S. sock_addr (sockets (n_udp st) s) = dst")
    case True
    then obtain s msg' ud where s: "s \<in> S" "sock_addr (sockets (n_udp st) s) = dst" "udp_input h msg ?n (n_udp st) = Some (0, msg', ud)"
      "udp_inv ud S" "pending (sock_shmem (sockets ud s)) (msgs s @ [(src, dst, take (?n - 8) (drop 8 msg))])"
      "\<forall>t. t = s \<or> sockets ud t = sockets (n_udp st) t"
      using U by auto
    have f: "ip_proto_fn Udp_input h msg ?n (st\<lparr>n_arp := arp\<rparr>) = Some (0, msg', st\<lparr>n_arp := arp, n_udp := ud\<rparr>)"
      using s(3) by simp
    have "ip_deliver (ip_store h @ opts @ msg) bsize (st\<lparr>n_arp := arp\<rparr>) = Some (0, ip_store h @ opts @ msg', st\<lparr>n_arp := arp, n_udp := ud\<rparr>)"
      by (rule ip_deliver_to(1) [OF fh h(1) hl(2) m(2) f]) (simp_all add: ENOTSOCK_def)
    then show ?thesis using True arp s unfolding Suc_1 by auto
  next
    case False
    then obtain msg' where msg': "udp_input h msg ?n (n_udp st) = Some (- ENOTSOCK, msg', n_udp st)" using U by auto
    have f: "ip_proto_fn Udp_input h msg ?n (st\<lparr>n_arp := arp\<rparr>) = Some (- ENOTSOCK, msg', st\<lparr>n_arp := arp\<rparr>)"
      using msg' by simp
    have "length msg' = length msg" using udp_input_length [OF msg'] .
    then have L: "ip_load (ip_store h @ opts @ msg') = Some h" "128 \<le> length (ip_store h @ opts @ msg')" using m(6) by simp_all
    have k: "unat (umin 8 (ucast (of_nat bsize - of_nat (ip_hdr_hlen h) :: size_t))) = 8"
      using header_length_diff [OF h(1) hl(2)] n(1,3) by (intro umin_8) simp_all
    obtain mem' c where "icmp_generate_dest_unreachable ICMP_CODE_PORTUNREAC (ip_hdr_hlen h) (of_nat bsize - of_nat (ip_hdr_hlen h)) (ip_store h @ opts @ msg') = Some (108, mem')"
      "mem_read mem' (ip_hdr_hlen h) 8 = Some (icmp_store \<lparr>icmp_type = ICMP_TYPE_DESTUNREAC, icmp_code = ICMP_CODE_PORTUNREAC, icmp_csum = c, icmp_rest = 0\<rparr>)"
      using icmp_unreachable_ok [OF L(1) refl hl(1) L(2) refl, of ICMP_CODE_PORTUNREAC "of_nat bsize - of_nat (ip_hdr_hlen h)"]
      unfolding k by auto
    then show ?thesis using False arp ip_deliver_to(2) [OF fh h(1) hl(2) m(2) f refl] unfolding Suc_1 by (auto simp: ip_unreachable_def)
  qed
qed

section \<open>ARP requests\<close>

definition arp_reply :: "mac_addr \<Rightarrow> arp_ip \<Rightarrow> arp_ip" where
  "arp_reply mac m = m\<lparr>arp_oper := ARP_OPER_REPLY, arp_sha := mac, arp_spa := arp_tpa m, arp_tha := arp_sha m, arp_tpa := arp_spa m\<rparr>"

lemma arp_message_load:
  assumes "length (arp_sha m) = 6" "length (arp_tha m) = 6"
  shows "arp_load (arp_store (arp_hton m) @ rest) = Some (arp_hton m)" "arp_ntoh (arp_hton m) = m"
proof -
  show n: "arp_ntoh (arp_hton m) = m" by (simp add: arp_hton_def arp_ntoh_def ntohl_def)
  have inj: "arp_hton (arp_ntoh x) = x" for x by (simp add: arp_hton_def arp_ntoh_def ntohl_def)
  obtain x where "arp_load (arp_store (arp_hton m) @ rest) = Some x" "arp_ntoh x = m"
    using arp_message_roundtrip [OF assms, of rest] by auto
  then show "arp_load (arp_store (arp_hton m) @ rest) = Some (arp_hton m)" using inj [of x] by simp
qed

lemma arp_answer_ok:
  assumes "length (arp_sha m) = 6" "length (arp_tha m) = 6" "length (el_mac (ether_if est)) = 6" "r_iface q = arp_tpa m" "r_iface_handle q = 0"
  shows "arp_answer (arp_store (arp_hton m) @ rest) (arp_hton m) q est =
    Some (arp_store (arp_hton (arp_reply (el_mac (ether_if est)) m)) @ rest, est)"
proof -
  have "(arp_hton m)\<lparr>arp_oper := htons ARP_OPER_REPLY, arp_sha := el_mac (ether_if est), arp_tha := arp_sha (arp_hton m),
      arp_tpa := arp_spa (arp_hton m), arp_spa := htonl (arp_tpa m)\<rparr> = arp_hton (arp_reply (el_mac (ether_if est)) m)"
    by (simp add: arp_hton_def arp_reply_def ntohl_def)
  moreover have "length (arp_store (arp_hton (arp_reply (el_mac (ether_if est)) m))) = 28" "length (arp_store (arp_hton m)) = 28"
    using assms(1-3) by (simp_all add: length_arp_store arp_hton_def arp_reply_def)
  ultimately show ?thesis using assms(4,5) by (simp add: arp_answer_def ether_handle2addr_def ether_handle2eth_def mem_write_def)
qed

text \<open>C15: \<^verbatim>\<open>arp_input\<close> learns the sender of every ARP message for IPv4 over Ethernet and then, with the sender
  in the cache, gives the deferred packets another try: the state it leaves is the one of \<^verbatim>\<open>ip_defer_handler\<close>, with the ring
  empty when every packet in it has a route. A request for an address of ours is turned, in place, into the reply with our
  hardware address, sender and target exchanged; every other message has no answer, and one of another
  kind of network is refused with \<^verbatim>\<open>-EPROTOTYPE\<close>.\<close>

theorem arp_input_correct:
  assumes ok: "net_ok lo R st" "sendto_ok sendto" "deferred_ok lo (n_defer st)"
    and m: "length (arp_sha m) = 6" "length (arp_tha m) = 6" "in_window lo (arp_spa m)" "arp_room (n_arp st) (arp_spa m)"
      "in_window lo (arp_tpa m)"
    and p: "payload = arp_store (arp_hton m) @ rest"
  shows "if arp_htype m \<noteq> ARP_HTYPE_ETHER \<or> arp_ptype m \<noteq> ETHER_PROTO_IPV4
    then arp_input sendto payload bsize st = Some (- EPROTOTYPE, payload, st)
    else \<exists>arp st'. arp_map arp = (arp_map (n_arp st))(arp_spa m \<mapsto> (arp_sha m, ARP_CACHE_DYN)) \<and>
      ip_defer_handler sendto (st\<lparr>n_arp := arp\<rparr>) = Some st' \<and> net_ok lo R st' \<and> n_arp st' = arp \<and>
      ((\<forall>i \<in> set (defer_slots (n_defer st)). routed st (d_dst (ip_defer_queue (n_defer st) i))) \<longrightarrow> defer_slots (n_defer st') = []) \<and>
      arp_input sendto payload bsize st =
        (if arp_oper m = ARP_OPER_REQUEST
         then if arp_tpa m \<in> r_iface ` R
           then Some (int bsize, arp_store (arp_hton (arp_reply (el_mac (ether_if (n_eth st))) m)) @ rest, st')
           else Some (0, payload, set_errno ENOENT st')
         else Some (0, payload, st'))"
proof (cases "arp_htype m \<noteq> ARP_HTYPE_ETHER \<or> arp_ptype m \<noteq> ETHER_PROTO_IPV4")
  case True
  then show ?thesis using arp_message_load [OF m(1,2)] by (auto simp: arp_input_def p)
next
  case False
  note l = arp_message_load [OF m(1,2)]
  obtain arp where arp: "arp_learn (arp_spa m) (arp_sha m) st = Some (st\<lparr>n_arp := arp\<rparr>)" "net_ok lo R (st\<lparr>n_arp := arp\<rparr>)"
    "arp_map arp = (arp_map (n_arp st))(arp_spa m \<mapsto> (arp_sha m, ARP_CACHE_DYN))"
    using arp_learn_ok [OF ok(1) m(3,4)] .
  have "deferred_ok lo (n_defer (st\<lparr>n_arp := arp\<rparr>))" using ok(3) by simp
  from defer_handler_ok [OF arp(2) ok(2) this] obtain s where s: "ip_defer_handler sendto (st\<lparr>n_arp := arp\<rparr>) = Some s"
    "net_ok lo R s" "same_net (st\<lparr>n_arp := arp\<rparr>) s"
    "(\<forall>i \<in> set (defer_slots (n_defer st)). routed st (d_dst (ip_defer_queue (n_defer st) i))) \<longrightarrow> defer_slots (n_defer s) = []"
    by (auto simp: routed_def)
  have na: "n_arp s = arp" and mac: "el_mac (ether_if (n_eth s)) = el_mac (ether_if (n_eth st))" using s(3) by (simp_all add: same_net_def)
  have step: "arp_input sendto payload bsize st =
    (if arp_oper m = ARP_OPER_REQUEST then do {
       r \<leftarrow> ip_route_find_by_iface (arp_tpa m) (n_rib s);
       case r of
         Inr route \<Rightarrow> do {
           (payload, est) \<leftarrow> arp_answer payload (arp_hton m) route (n_eth s);
           Some (int bsize, payload, s\<lparr>n_eth := est\<rparr>)
         }
       | Inl e \<Rightarrow> Some (0, payload, set_errno e s)
     } else Some (0, payload, s))"
    unfolding p using l False arp(1) s(1) by (simp add: arp_input_def)
  obtain S where S: "rib_inv lo (n_rib s) S" "R = rib_route (n_rib s) ` S" using s(2) by (auto simp: net_ok_def rib_holds_def)
  from find_by_iface_ok [OF S(1) m(5)] obtain res where res: "ip_route_find_by_iface (arp_tpa m) (n_rib s) = Some res"
    "case res of Inr q \<Rightarrow> q \<in> R \<and> r_iface q = arp_tpa m | Inl e \<Rightarrow> e = ENOENT \<and> (\<forall>p \<in> R. r_iface p \<noteq> arp_tpa m)"
    unfolding S(2) by blast
  show ?thesis
  proof (cases res)
    case (Inl e)
    then have n: "arp_tpa m \<notin> r_iface ` R" "e = ENOENT" using res(2) by auto
    have "arp_input sendto payload bsize st = (if arp_oper m = ARP_OPER_REQUEST then Some (0, payload, set_errno ENOENT s) else Some (0, payload, s))"
      unfolding step using res(1) Inl n(2) by simp
    then show ?thesis using False n(1) arp(3) s(1,2,4) na by auto
  next
    case (Inr q)
    then have q: "q \<in> R" "r_iface q = arp_tpa m" "r_iface_handle q = 0" using res(2) s(2) by (auto simp: net_ok_def)
    then have t: "arp_tpa m \<in> r_iface ` R" by force
    have "arp_answer payload (arp_hton m) q (n_eth s) = Some (arp_store (arp_hton (arp_reply (el_mac (ether_if (n_eth st))) m)) @ rest, n_eth s)"
      using arp_answer_ok [OF m(1,2) _ q(2,3), of "n_eth s" rest] ok(1) by (simp add: mac p net_ok_def)
    then have "arp_input sendto payload bsize st = (if arp_oper m = ARP_OPER_REQUEST then
        Some (int bsize, arp_store (arp_hton (arp_reply (el_mac (ether_if (n_eth st))) m)) @ rest, s) else Some (0, payload, s))"
      unfolding step using res(1) Inr by simp
    then show ?thesis using False t arp(3) s(1,2,4) na by auto
  qed
qed

lemma arp_input_correct_witness:
  "\<exists>st st'. net_ok 0 {example_route} st \<and> resolved st' 0x0a000000 = Some (replicate 6 8) \<and>
     arp_input (\<lambda>w f. Inr 0) (arp_store (arp_hton (arp_message (replicate 6 8) 0x0a000000 0x0a000002)) @ replicate 18 0) 46 st =
       Some (46, arp_store (arp_hton (arp_reply (replicate 6 2) (arp_message (replicate 6 8) 0x0a000000 0x0a000002))) @ replicate 18 0, st')"
proof -
  let ?m = "arp_message (replicate 6 8) 0x0a000000 0x0a000002"
  obtain rib arp where n: "net_ok 0 {example_route} (net_boot\<lparr>n_rib := rib, n_arp := arp\<rparr>)"
    "\<exists>i < XSTACK_ARP_CACHE_SIZE. ip_addr (arp_cache arp i) = 0x0a000000 \<or> age (arp_cache arp i) = ARP_CACHE_FREE"
    by (rule example_net)
  define st where "st = net_boot\<lparr>n_rib := rib, n_arp := arp\<rparr>"
  have s: "sendto_ok (\<lambda>w f. Inr 0)" "deferred_ok 0 (n_defer st)"
    by (simp_all add: sendto_ok_def deferred_ok_def st_def net_boot_def defer_wf_def defer_slots_def defer_count_def XSTACK_IP_DEFER_MAX_def)
  have m: "length (arp_sha ?m) = 6" "length (arp_tha ?m) = 6" "in_window 0 (arp_spa ?m)" "arp_room (n_arp st) (arp_spa ?m)"
    "in_window 0 (arp_tpa ?m)" "arp_htype ?m = ARP_HTYPE_ETHER" "arp_ptype ?m = ETHER_PROTO_IPV4" "arp_oper ?m = ARP_OPER_REQUEST"
    "arp_tpa ?m \<in> r_iface ` {example_route}" "el_mac (ether_if (n_eth st)) = replicate 6 2"
    using n(2) by (simp_all add: arp_message_def in_window_def arp_room_def st_def example_route_def net_boot_def)
  obtain st' where st': "arp_map (n_arp st') = (arp_map (n_arp st))(arp_spa ?m \<mapsto> (arp_sha ?m, ARP_CACHE_DYN))"
    "arp_input (\<lambda>w f. Inr 0) (arp_store (arp_hton ?m) @ replicate 18 0) 46 st =
       Some (int 46, arp_store (arp_hton (arp_reply (el_mac (ether_if (n_eth st))) ?m)) @ replicate 18 0, st')"
    using arp_input_correct [OF n(1) [folded st_def] s m(1-5) refl, of "replicate 18 0" 46] m(6-9) by auto
  have "resolved st' 0x0a000000 = Some (replicate 6 8)" using st'(1) by (simp add: resolved_def arp_message_def ARP_CACHE_DYN_def)
  then show ?thesis using st'(2) n(1) [folded st_def] m(10) by auto
qed

section \<open>Packets that are not accepted\<close>

text \<open>\<^verbatim>\<open>ip_input\<close> wants a frame to hold exactly the packet. A frame that \<^verbatim>\<open>ether_send\<close> made has padding and the check
  sequence behind it, so another stack of this kind drops every packet of less than 1500 bytes.\<close>

lemma own_frames_dropped:
  assumes "length dst = 6" "length src = 6" "el_mac (ether_if est) \<noteq> src" "length rx = 1514"
    "length D < 1480" "unat (ip_len h) = 20 + length D" "eh = \<lparr>h_dst = dst, h_src = src, h_proto = ETHER_PROTO_IPV4\<rparr>"
  shows "\<exists>n rx' payload'. ether_receive [Inr (ether_frame dst src ETHER_PROTO_IPV4 (ip_packet h D))] est 0 rx =
      Some (int n, Some eh, rx', [], est) \<and> ip_input 2 sendto (Some eh) rx' n st = Some (0, payload', st)"
proof -
  have l: "length (ip_packet h D) \<le> 1500" using assms(5) by simp
  obtain n rx' where r: "ether_receive [Inr (ether_frame dst src ETHER_PROTO_IPV4 (ip_packet h D))] est 0 rx = Some (int n, Some eh, rx', [], est)"
    "n = min 1500 (4 + max (length (ip_packet h D)) 56)" "take (length (ip_packet h D)) rx' = ip_packet h D"
    using receive_frame [OF assms(1,2) l assms(3,4)] unfolding assms(7) by blast
  let ?h = "h\<lparr>ip_csum := ip_checksum (ip_store ((ip_swap h)\<lparr>ip_csum := 0\<rparr>))\<rparr>"
  have "rx' = ip_packet h D @ drop (length (ip_packet h D)) rx'" using r(3) by (metis append_take_drop_id)
  then obtain rest where rx': "rx' = ip_store (ip_swap ?h) @ rest" by (auto simp: ip_packet_def Let_def)
  have "\<not> acceptable ?h n" using r(2) assms(5,6) by (auto simp: acceptable_def)
  then have "ip_input 2 sendto (Some eh) rx' n st = Some (0, ip_store ?h @ rest, st)"
    unfolding rx' numeral_2_eq_2 ip_input_link by simp
  then show ?thesis using r(1) by blast
qed

text \<open>The message that a port is unreachable does not verify: the old header goes in after the checksum. Its
  size, 108, is not the length in its header, 64, because the size of the message is counted twice.\<close>

lemma unreachable_does_not_verify:
  "map_option (\<lambda>(r, mem). (r, map_option (\<lambda>n. ip_len (fst (ip_ntoh n))) (ip_load mem), ip_checksum (take 44 (drop 20 mem)) = 0))
     (icmp_generate_dest_unreachable ICMP_CODE_PORTUNREAC 20 10 (ip_store example_ping @ replicate 108 1)) = Some (108, Some 64, False)"
  by code_simp

section \<open>Fragments from the link\<close>

text \<open>A packet that is a fragment for an address of ours, as bytes of the size its header gives.\<close>

definition frag_packet :: "ip_hdr \<times> bytes \<Rightarrow> bytes" where
  "frag_packet f = ip_store (ip_swap (fst f)) @ snd f"

definition own_frag :: "ip_route set \<Rightarrow> u32 \<Rightarrow> ip_hdr \<times> bytes \<Rightarrow> bool" where
  "own_frag R src f \<longleftrightarrow> ip_dst (fst f) \<in> r_iface ` R \<and> ip_src (fst f) = src \<and> ip_hdr_hlen (fst f) = 20 \<and>
     acceptable (fst f) (length (frag_packet f)) \<and> ip_fragment_is_frag (fst f)"

text \<open>Packets from the link, one after the other.\<close>

fun ip_input_all :: "sendto_fn \<Rightarrow> ether_hdr \<Rightarrow> bytes list \<Rightarrow> net_state \<Rightarrow> net_state option" where
  "ip_input_all sendto e [] st = Some st"
| "ip_input_all sendto e (p # ps) st = do { (_, _, st) \<leftarrow> ip_input 2 sendto (Some e) p (length p) st; ip_input_all sendto e ps st }"

lemma arp_learned_room: "arp_map st ip = Some e \<Longrightarrow> ip \<noteq> 0 \<Longrightarrow> arp_room st ip"
  by (auto simp: arp_map_def arp_slot_def arp_room_def find_Some_iff)

lemma ip_input_frag:
  assumes ok: "net_ok lo R st" "in_window lo src" "arp_room (n_arp st) src" and f: "own_frag R src f"
  obtains arp where "ip_input 2 sendto (Some e) (frag_packet f) (length (frag_packet f)) st =
      do { (_, s) \<leftarrow> ip_fragment_input (ip_input 1 sendto None) sendto (fst f) (snd f) (st\<lparr>n_arp := arp\<rparr>);
           Some (0, ip_store (fst f) @ snd f, s) }"
    "net_ok lo R (st\<lparr>n_arp := arp\<rparr>)" "arp_room arp src"
proof -
  have h: "ip_src (fst f) = src" "ip_hdr_hlen (fst f) = 20" "acceptable (fst f) (length (frag_packet f))" "ip_fragment_is_frag (fst f)"
    using f by (simp_all add: own_frag_def)
  obtain arp where arp: "arp_learn src (h_src e) st = Some (st\<lparr>n_arp := arp\<rparr>)" "net_ok lo R (st\<lparr>n_arp := arp\<rparr>)"
    "arp_map arp = (arp_map (n_arp st))(src \<mapsto> (h_src e, ARP_CACHE_DYN))"
    using arp_learn_ok [OF ok] .
  obtain q where q: "q \<in> R" "ip_dst (fst f) = r_iface q" using f by (auto simp: own_frag_def)
  obtain q' where "ip_route_find_by_iface (ip_dst (fst f)) (n_rib (st\<lparr>n_arp := arp\<rparr>)) = Some (Inr q')"
    using iface_found [OF arp(2) q(1)] q(2) by metis
  then have "ip_input (Suc 1) sendto (Some e) (frag_packet f) (length (frag_packet f)) st =
      do { (_, s) \<leftarrow> ip_fragment_input (ip_input 1 sendto None) sendto (fst f) (snd f) (st\<lparr>n_arp := arp\<rparr>);
           Some (0, ip_store (fst f) @ snd f, s) }"
    using arp(1) h unfolding frag_packet_def ip_input_link by simp
  moreover have "arp_room arp src" using arp(3) ok(3) by (intro arp_learned_room [of _ _ "(h_src e, ARP_CACHE_DYN)"]) (simp_all add: arp_room_def)
  ultimately show thesis using that arp(2) unfolding Suc_1 [symmetric] One_nat_def by blast
qed

text \<open>Fragments that do not complete a packet are collected.\<close>

lemma ip_input_collects:
  assumes "net_ok lo R st" "in_window lo src" "arp_room (n_arp st) src" "\<forall>f \<in> set fs. own_frag R src f" "frag_run fs (n_frag st) = Some (None, fr)"
  shows "\<exists>arp. ip_input_all sendto e (map frag_packet fs) st = Some (st\<lparr>n_arp := arp, n_frag := fr\<rparr>) \<and>
    net_ok lo R (st\<lparr>n_arp := arp, n_frag := fr\<rparr>) \<and> arp_room arp src"
  using assms(1,3-)
proof (induction fs arbitrary: st)
  case Nil
  then have "fr = n_frag st" by simp
  then show ?case using Nil.prems(1,2) by (intro exI [of _ "n_arp st"]) simp
next
  case (Cons f fs)
  obtain arp where arp: "ip_input 2 sendto (Some e) (frag_packet f) (length (frag_packet f)) st =
      do { (_, s) \<leftarrow> ip_fragment_input (ip_input 1 sendto None) sendto (fst f) (snd f) (st\<lparr>n_arp := arp\<rparr>);
           Some (0, ip_store (fst f) @ snd f, s) }"
    "net_ok lo R (st\<lparr>n_arp := arp\<rparr>)" "arp_room arp src"
    using ip_input_frag [OF Cons.prems(1) assms(2) Cons.prems(2), of f] Cons.prems(3) by auto
  obtain r fr1 where c: "frag_collect (fst f) (snd f) (n_frag st) = Some (r, fr1)" using Cons.prems(4) by (cases f) (auto split: Option.bind_splits)
  have s: "(\<exists>p. r = Inr p \<and> frag_done (packet_buffer fr1 p) = Some False) \<or> (\<exists>x. r = Inl x)" "frag_run fs fr1 = Some (None, fr)"
    using Cons.prems(4) c by (cases f; cases r; auto split: Option.bind_splits if_splits)+
  let ?st = "st\<lparr>n_arp := arp, n_frag := fr1\<rparr>"
  have "ip_input 2 sendto (Some e) (frag_packet f) (length (frag_packet f)) st = Some (0, ip_store (fst f) @ snd f, ?st)"
    unfolding arp(1) using s(1) c by (auto simp: ip_fragment_input_def)
  moreover have "net_ok lo R ?st" using arp(2) by (simp add: net_ok_def)
  ultimately show ?case using Cons.IH [of ?st] Cons.prems(3) s(2) arp(3) by auto
qed

lemma sent_packet_own:
  assumes "ip_hdr_hlen h = 20" "ip_dst h \<in> r_iface ` R" "ip_src h = src" "ip_vhl h AND 0x40 = 0x40" "1472 < length D" "length D \<le> 16384"
    "p \<in> set (plan 1472 0 D)"
  shows "own_frag R src (sent_packet h p)" "unat (ip_len (frag_hdr h p)) = 20 + length (fst (snd p))" "length (fst (snd p)) \<le> 1472"
proof -
  obtain off d mf where p: "p = (off, d, mf)" by (cases p)
  have d: "length d \<le> 1472" using plan_pieces [of 1472 off d mf 0 D] assms(7) p by auto
  then show l: "length (fst (snd p)) \<le> 1472" "unat (ip_len (frag_hdr h p)) = 20 + length (fst (snd p))"
    using p by (simp_all add: frag_hdr_def unat_of_nat del: of_nat_add)
  have D: "length D < 2 ^ 16 - 20" using assms(6) by simp
  have "ip_fragment_is_frag (fst (sent_packet h p))"
    using plan_fragment(1) [OF assms(1) refl assms(5) D assms(7) [unfolded p]] p by (simp add: sent_packet_def)
  moreover have "ip_hdr_hlen (frag_hdr h p) = ip_hdr_hlen h" "ip_dst (frag_hdr h p) = ip_dst h" "ip_src (frag_hdr h p) = ip_src h" "ip_vhl (frag_hdr h p) = ip_vhl h"
    using p by (simp_all add: frag_hdr_def ip_hdr_hlen_def)
  ultimately show "own_frag R src (sent_packet h p)"
    using assms(1-4) l by (simp add: own_frag_def acceptable_def frag_packet_def sent_packet_def)
qed

text \<open>C12: Fragmentation and reassembly fit. When \<^verbatim>\<open>ip_send_fragments\<close> puts a packet on a link that accepts the frames, and the packets of these
  frames are handed to \<^verbatim>\<open>ip_input\<close> of another stack in this order, each with exactly its own size, that stack collects all but the
  last one without an answer, and with the last one it has a buffer that holds exactly the data that was sent, which goes on
  to the delivery by \<^verbatim>\<open>ip_input(NULL, ...)\<close>. This holds for packets of up to 16384 bytes to an address of the receiver, which has room for the
  packet and the sender. The frames themselves do not get there: each carries padding or the check sequence behind its packet, so
  \<^verbatim>\<open>ether_receive\<close> reports more bytes than the packet has and \<^verbatim>\<open>ip_input\<close> drops it.\<close>

theorem fragmentation_roundtrip:
  assumes h: "ip_hdr_hlen h = 20" "ip_vhl h AND 0x40 = 0x40" "ip_dst h \<in> r_iface ` R" and D: "1472 < length D" "length D \<le> 16384"
    and link: "\<forall>w f. \<exists>n \<ge> 0. sendto w f = Inr n" "length mac = 6" "length (el_mac (ether_if est)) = 6"
    and rx: "net_ok lo R st" "in_window lo (ip_src h)" "arp_room (n_arp st) (ip_src h)" "el_mac (ether_if (n_eth st)) \<noteq> el_mac (ether_if est)"
      "length rx = 1514" "e = \<lparr>h_dst = mac, h_src = el_mac (ether_if est), h_proto = ETHER_PROTO_IPV4\<rparr>"
    and free: "frag_inv (n_frag st)" "in_use (n_frag st) \<noteq> {p. p < PACKET_BUFFERS}"
      "\<forall>p \<in> in_use (n_frag st). frag_key (p_hdr (packet_buffer (n_frag st) p)) \<noteq> frag_key h"
  shows "\<exists>r est' ps p st1 arp fr mem. ip_send_fragments sendto 0 mac (ip_packet h D) est = Some (r, est') \<and>
    wire est' = wire est @ map (ether_frame mac (el_mac (ether_if est)) ETHER_PROTO_IPV4) (ps @ [p]) \<and>
    ip_input_all sendto e ps st = Some st1 \<and> wire (n_eth st1) = wire (n_eth st) \<and>
    (\<exists>b. unat (ip_len (p_hdr (packet_buffer fr b))) = length D \<and> map (p_payload (packet_buffer fr b)) [0..<length D] = D \<and>
      ip_input 2 sendto (Some e) p (length p) st1 =
        do { s \<leftarrow> frag_deliver (ip_input 1 sendto None) sendto b (st1\<lparr>n_arp := arp, n_frag := fr\<rparr>); Some (0, mem, s) }) \<and>
    (\<forall>f \<in> set (drop (length (wire est)) (wire est')). \<exists>n rx' payload'.
      ether_receive [Inr f] (n_eth st) 0 rx = Some (int n, Some e, rx', [], n_eth st) \<and> ip_input 2 sendto (Some e) rx' n st = Some (0, payload', st))"
proof -
  let ?frame = "ether_frame mac (el_mac (ether_if est)) ETHER_PROTO_IPV4"
  have D16: "D \<noteq> []" "length D < 2 ^ 16 - 20" using D by auto
  obtain r where r: "send_packets sendto 0 mac (fragments h D) 0 est = Some (r, est\<lparr>wire := wire est @ map ?frame (fragments h D)\<rparr>)"
    using send_packets_accepted [OF link(1) fragments_sizes, of 0] by blast
  have s: "ip_send_fragments sendto 0 mac (ip_packet h D) est = Some (r, est\<lparr>wire := wire est @ map ?frame (fragments h D)\<rparr>)"
    using send_fragments_eq [OF h(1) D16] r unfolding fragments_def by simp
  have own: "own_frag R (ip_src h) (sent_packet h p)" "unat (ip_len (frag_hdr h p)) = 20 + length (fst (snd p))" "length (fst (snd p)) \<le> 1472"
    if "p \<in> set (plan 1472 0 D)" for p
    using sent_packet_own [OF h(1,3) refl h(2) D that] .
  obtain us f fr1 b fr where u: "map (sent_packet h) (plan 1472 0 D) = us @ [f]" "frag_run us (n_frag st) = Some (None, fr1)"
    "frag_run [f] fr1 = Some (Some b, fr)" "unat (ip_len (p_hdr (packet_buffer fr b))) = length D" "map (p_payload (packet_buffer fr b)) [0..<length D] = D"
    using fragments_reassemble [OF h(1) D free] by blast
  have fs: "fragments h D = map frag_packet us @ [frag_packet f]"
    using arg_cong [OF u(1), of "map frag_packet"] by (simp add: fragments_def sent_packet_bytes frag_packet_def comp_def)
  have "\<forall>g \<in> set (map (sent_packet h) (plan 1472 0 D)). own_frag R (ip_src h) g" using own(1) by auto
  then have uf: "\<forall>g \<in> set us. own_frag R (ip_src h) g" "own_frag R (ip_src h) f" unfolding u(1) by auto
  obtain arp1 where a1: "ip_input_all sendto e (map frag_packet us) st = Some (st\<lparr>n_arp := arp1, n_frag := fr1\<rparr>)"
    "net_ok lo R (st\<lparr>n_arp := arp1, n_frag := fr1\<rparr>)" "arp_room arp1 (ip_src h)"
    using ip_input_collects [OF rx(1-3) uf(1) u(2)] by blast
  let ?st1 = "st\<lparr>n_arp := arp1, n_frag := fr1\<rparr>"
  obtain arp where a: "ip_input 2 sendto (Some e) (frag_packet f) (length (frag_packet f)) ?st1 =
      do { (_, s) \<leftarrow> ip_fragment_input (ip_input 1 sendto None) sendto (fst f) (snd f) (?st1\<lparr>n_arp := arp\<rparr>); Some (0, ip_store (fst f) @ snd f, s) }"
    by (rule ip_input_frag [OF a1(2) rx(2) _ uf(2), of sendto e]) (simp_all add: a1(3))
  have c: "frag_collect (fst f) (snd f) fr1 = Some (Inr b, fr)" "frag_done (packet_buffer fr b) = Some True"
    using u(3) by (cases f; auto split: Option.bind_splits sum.splits if_splits)+
  have last: "ip_input 2 sendto (Some e) (frag_packet f) (length (frag_packet f)) ?st1 =
      do { s \<leftarrow> frag_deliver (ip_input 1 sendto None) sendto b (?st1\<lparr>n_arp := arp, n_frag := fr\<rparr>); Some (0, ip_store (fst f) @ snd f, s) }"
    unfolding a using c by (simp add: ip_fragment_input_def)
  have "\<exists>n rx' payload'. ether_receive [Inr g] (n_eth st) 0 rx = Some (int n, Some e, rx', [], n_eth st) \<and> ip_input 2 sendto (Some e) rx' n st = Some (0, payload', st)"
    if g: "g \<in> set (map ?frame (fragments h D))" for g
  proof -
    obtain p where p: "p \<in> set (plan 1472 0 D)" "g = ?frame (ip_packet (frag_hdr h p) (fst (snd p)))" using g by (auto simp: fragments_def)
    have "length (fst (snd p)) < 1480" using own(3) [OF p(1)] by simp
    from own_frames_dropped [OF link(2,3) rx(4,5) this own(2) [OF p(1)] rx(6)] show ?thesis unfolding p(2) by blast
  qed
  then show ?thesis using s a1(1) last u(4,5) unfolding fs
    by (intro exI [of _ r] exI [of _ "est\<lparr>wire := wire est @ map ?frame (map frag_packet us @ [frag_packet f])\<rparr>"] exI [of _ "map frag_packet us"] exI [of _ "frag_packet f"]
        exI [of _ ?st1] exI [of _ arp] exI [of _ fr] exI [of _ "ip_store (fst f) @ snd f"] conjI exI [of _ b]) simp_all
qed

lemma fragmentation_roundtrip_witness:
  "\<exists>st r est' ps p st1 b arp fr mem. net_ok 0 {example_route} st \<and>
    ip_send_fragments (\<lambda>w f. Inr 0) 0 (replicate 6 9)
      (ip_packet (example_ping\<lparr>ip_proto := 17\<rparr>) (replicate 3000 5)) ((n_eth net_boot)\<lparr>ether_if := (ether_if (n_eth net_boot))\<lparr>el_mac := replicate 6 8\<rparr>\<rparr>) = Some (r, est') \<and>
    ip_input_all (\<lambda>w f. Inr 0) \<lparr>h_dst = replicate 6 9, h_src = replicate 6 8, h_proto = ETHER_PROTO_IPV4\<rparr> ps st = Some st1 \<and>
    map (p_payload (packet_buffer fr b)) [0..<3000] = replicate 3000 5 \<and>
    ip_input 2 (\<lambda>w f. Inr 0) (Some \<lparr>h_dst = replicate 6 9, h_src = replicate 6 8, h_proto = ETHER_PROTO_IPV4\<rparr>) p (length p) st1 =
      do { s \<leftarrow> frag_deliver (ip_input 1 (\<lambda>w f. Inr 0) None) (\<lambda>w f. Inr 0) b (st1\<lparr>n_arp := arp, n_frag := fr\<rparr>); Some (0, mem, s) }"
proof -
  let ?D = "replicate 3000 (5 :: byte)" and ?h = "example_ping\<lparr>ip_proto := 17\<rparr>" and ?send = "\<lambda>w f. Inr 0 :: int + int"
  let ?est = "(n_eth net_boot)\<lparr>ether_if := (ether_if (n_eth net_boot))\<lparr>el_mac := replicate 6 8\<rparr>\<rparr>"
  obtain rib arp where n: "net_ok 0 {example_route} (net_boot\<lparr>n_rib := rib, n_arp := arp\<rparr>)"
    "\<exists>i < XSTACK_ARP_CACHE_SIZE. ip_addr (arp_cache arp i) = 0x0a000000 \<or> age (arp_cache arp i) = ARP_CACHE_FREE"
    by (rule example_net)
  define st where "st = net_boot\<lparr>n_rib := rib, n_arp := arp\<rparr>"
  have fr: "n_frag st = frag_boot" "in_use frag_boot = {}" by (simp_all add: st_def net_boot_def in_use_def frag_boot_def packet_buf_zero_def)
  have "(0::nat) \<in> {p. p < PACKET_BUFFERS}" by (simp add: PACKET_BUFFERS_def)
  then have free: "frag_inv (n_frag st)" "in_use (n_frag st) \<noteq> {p. p < PACKET_BUFFERS}"
    "\<forall>p \<in> in_use (n_frag st). frag_key (p_hdr (packet_buffer (n_frag st) p)) \<noteq> frag_key ?h"
    unfolding fr using frag_inv_boot by auto
  have h: "ip_hdr_hlen ?h = 20" "ip_vhl ?h AND 0x40 = 0x40" "ip_dst ?h \<in> r_iface ` {example_route}" "1472 < length ?D" "length ?D \<le> 16384"
    by (simp_all add: example_ping_def ip_hdr_hlen_def example_route_def)
  have link: "\<forall>w f. \<exists>n \<ge> 0. ?send w f = (Inr n :: int + int)" for w :: "bytes list" and f :: bytes by auto
  have l: "length (replicate 6 9 :: bytes) = 6" "length (el_mac (ether_if ?est)) = 6" "in_window 0 (ip_src ?h)" "arp_room (n_arp st) (ip_src ?h)"
    "el_mac (ether_if (n_eth st)) \<noteq> el_mac (ether_if ?est)" "length (replicate 1514 0 :: bytes) = 1514"
    "\<lparr>h_dst = replicate 6 9, h_src = replicate 6 8, h_proto = ETHER_PROTO_IPV4\<rparr> = \<lparr>h_dst = replicate 6 9, h_src = el_mac (ether_if ?est), h_proto = ETHER_PROTO_IPV4\<rparr>"
    using n(2) by (simp_all add: example_ping_def in_window_def arp_room_def st_def net_boot_def)
  note w = fragmentation_roundtrip [OF h link l(1,2) n(1) [folded st_def] l(3-7) free]
  show ?thesis using w n(1) [folded st_def] unfolding length_replicate by (elim exE conjE) (intro exI conjI, assumption+)
qed

section \<open>The second level\<close>

definition example_part :: "u16 \<Rightarrow> u16 \<Rightarrow> ip_hdr" where
  "example_part foff len = example_ping\<lparr>ip_proto := 17, ip_foff := foff, ip_len := 20 + len\<rparr>"

lemma example_parts:
  obtains fr b fr' where "frag_inv fr" "frag_collect (example_part 1 1) [9] fr = Some (Inr b, fr')" "frag_done (packet_buffer fr' b) = Some True"
proof -
  let ?D = "[1, 2, 3, 4, 5, 6, 7, 8, 9] :: bytes" and ?k = "frag_key (example_part 1 1)"
  have u: "in_use frag_boot = {}" by (simp add: in_use_def frag_boot_def packet_buf_zero_def)
  have l: "frag_len (example_part 0x2000 8) = Some 8" "frag_len (example_part 1 1) = Some 1" "frag_off (example_part 1 1) = 8"
    "frag_off (example_part 0x2000 8) = 0" "ip_foff (example_part 1 1) AND IP_FLAGS_MF = 0" "ip_foff (example_part 0x2000 8) AND IP_FLAGS_MF \<noteq> 0"
    "ip_fragment_is_frag (example_part 0x2000 8)" "ip_fragment_is_frag (example_part 1 1)" "frag_key (example_part 0x2000 8) = ?k" by code_simp+
  have f: "fragment_of ?k ?D (example_part 0x2000 8, [1, 2, 3, 4, 5, 6, 7, 8])" "fragment_of ?k ?D (example_part 1 1, [9])"
    using l by simp_all
  have bl: "all_blocks ?D \<subseteq> frag_blocks (example_part 0x2000 8) \<union> (\<Union>f \<in> set [(example_part 1 1, [9])]. frag_blocks (fst f))"
    using l(1-4) by (auto simp: frag_blocks_def all_blocks_def)
  have i: "frag_inv frag_boot" "in_use frag_boot \<noteq> {p. p < PACKET_BUFFERS}" "\<forall>p \<in> in_use frag_boot. frag_key (p_hdr (packet_buffer frag_boot p)) \<noteq> ?k"
    using frag_inv_boot u by (auto simp: PACKET_BUFFERS_def intro: exI [of _ 0])
  obtain fr where fr: "frag_run [(example_part 0x2000 8, [1, 2, 3, 4, 5, 6, 7, 8])] frag_boot = Some (None, fr)" "frag_inv fr"
    using unfinished_plan [OF i f(1), of "[]"] l(4) by auto
  obtain b fr' where "frag_run ([(example_part 0x2000 8, [1, 2, 3, 4, 5, 6, 7, 8])] @ [(example_part 1 1, [9])]) frag_boot = Some (Some b, fr')"
    using frag_run_delivers [OF i f(1) l(4), of "[(example_part 1 1, [9])]"] f(2) l(3,5) bl by auto
  then have "frag_run [(example_part 1 1, [9])] fr = Some (Some b, fr')" unfolding frag_run_append fr(1) by simp
  then show thesis using that [OF fr(2)] by (auto split: Option.bind_splits sum.splits if_splits)
qed

text \<open>A fragment that completes a packet: one level is not enough for it, two are.\<close>

lemma ip_input_depth_witness:
  "\<exists>st. frag_inv (n_frag st) \<and>
     ip_input_body (\<lambda>_ _ _ _ _. None) (\<lambda>_ f. Inr 0) None (ip_store (example_part 1 1) @ [9]) 21 st = None \<and>
     ip_input_body (ip_input_body (\<lambda>_ _ _ _ _. None)) (\<lambda>_ f. Inr 0) None (ip_store (example_part 1 1) @ [9]) 21 st =
       ip_input 2 (\<lambda>_ f. Inr 0) None (ip_store (example_part 1 1) @ [9]) 21 st \<and>
     ip_input 7 (\<lambda>_ f. Inr 0) None (ip_store (example_part 1 1) @ [9]) 21 st = ip_input 2 (\<lambda>_ f. Inr 0) None (ip_store (example_part 1 1) @ [9]) 21 st"
proof -
  obtain rib arp where n: "net_ok 0 {example_route} (net_boot\<lparr>n_rib := rib, n_arp := arp\<rparr>)" by (rule example_net)
  obtain fr b fr' where f: "frag_inv fr" "frag_collect (example_part 1 1) [9] fr = Some (Inr b, fr')" "frag_done (packet_buffer fr' b) = Some True"
    by (rule example_parts)
  define st where "st = net_boot\<lparr>n_rib := rib, n_arp := arp, n_frag := fr\<rparr>"
  have i: "frag_inv (n_frag st)" using f(1) by (simp add: st_def)
  obtain q where q: "ip_route_find_by_iface (r_iface example_route) rib = Some (Inr q)" using iface_found [OF n, of example_route] by auto
  have h: "ip_hdr_hlen (example_part 1 1) = 20" "ip_vhl (example_part 1 1) AND 0x40 = 0x40" "unat (ip_len (example_part 1 1)) = 21"
    "ip_dst (example_part 1 1) = r_iface example_route" "ip_fragment_is_frag (example_part 1 1)"
    by (simp_all add: example_part_def example_ping_def ip_hdr_hlen_def example_route_def ip_fragment_is_frag_def)
  have "ip_input_body (\<lambda>_ _ _ _ _. None) (\<lambda>_ f. Inr 0) None (ip_store (example_part 1 1) @ [9]) 21 st = None"
    using h q f(2,3) by (simp add: ip_input_body_def ip_fragment_input_def frag_deliver_def st_def)
  moreover have "(7 :: nat) = Suc (Suc 5)" by simp
  ultimately show ?thesis using i ip_input_depth [OF i] by metis
qed

end
