(* ===== verification/Linux_Ether.thy ===== *)
theory Linux_Ether
  imports Ether
begin

text \<open>
  Opening and closing an interface in the Linux back end \<^verbatim>\<open>src/linux/linux_ether.c\<close>: \<^verbatim>\<open>ether_init\<close> with
  \<^verbatim>\<open>linux_ether_bind\<close> and \<^verbatim>\<open>linux_ether_set_rxtimeout\<close>, and \<^verbatim>\<open>ether_deinit\<close>.

  What a function asks of the kernel is the list of its calls, oldest first. What the kernel answers is
  a parameter: an error number (\<open>Inl\<close>) or the result (\<open>Inr\<close>).
\<close>

record sockaddr_ll =
  sll_family :: u16
  sll_protocol :: u16
  sll_ifindex :: int
  sll_hatype :: u16
  sll_pkttype :: u8
  sll_halen :: u8
  sll_addr :: bytes

datatype os_call =
    Socket_raw
  | Siocgifindex int string
  | Siocgifhwaddr int string
  | Siocgifflags int string
  | Siocsifflags int string u16
  | So_reuseaddr int
  | So_rcvtimeo int int
  | Bind int sockaddr_ll
  | Close int

record ether_os =
  os_socket :: "int + int"
  os_ifindex :: "string \<Rightarrow> int + int"
  os_ifhwaddr :: "string \<Rightarrow> int + mac_addr"
  os_getflags :: "string \<Rightarrow> int + u16"
  os_setflags :: "int + unit"
  os_reuseaddr :: "int + unit"
  os_bind :: "int + unit"
  os_rcvtimeo :: "int + unit"

definition DEFAULT_IF :: string where "DEFAULT_IF = ''eth0''"
definition IFNAMSIZ :: nat where "IFNAMSIZ = 16"
definition IFF_PROMISC :: u16 where "IFF_PROMISC = 0x100"
definition XSTACK_PERIODIC_EVENT_SEC :: int where "XSTACK_PERIODIC_EVENT_SEC = 10"
definition ENOTSUP :: int where "ENOTSUP = 95"

text \<open>\<^verbatim>\<open>errno\<close> after a call.\<close>

definition os_errno :: "int + 'a \<Rightarrow> ether_state \<Rightarrow> ether_state" where
  "os_errno r st = (case r of Inl e \<Rightarrow> st\<lparr>errno := e\<rparr> | Inr _ \<Rightarrow> st)"

definition bind_addr :: "ether_linux \<Rightarrow> sockaddr_ll" where
  "bind_addr eth = \<lparr>sll_family = 17, sll_protocol = htons 3, sll_ifindex = ifr_ifindex (el_if_idx eth), sll_hatype = 0,
     sll_pkttype = 3 OR 1 OR 2 OR 0, sll_halen = of_nat ETHER_ALEN, sll_addr = take 6 (el_mac eth) @ [0, 0]\<rparr>"

text \<open>The answers to the requests for the flags and to the request to bind are not looked at.\<close>

definition linux_ether_bind ::
  "ether_os \<Rightarrow> ether_linux \<Rightarrow> os_call list \<Rightarrow> ether_state \<Rightarrow> int \<times> os_call list \<times> ether_state" where
  "linux_ether_bind os eth calls st =
     (let fd = el_fd eth; name = take (IFNAMSIZ - 1) (ifr_name (el_if_idx eth));
          flags = (case os_getflags os name of Inl _ \<Rightarrow> 0 | Inr f \<Rightarrow> f) OR IFF_PROMISC;
          st = os_errno (os_setflags os) (os_errno (os_getflags os name) st);
          calls = calls @ [Siocgifflags fd name, Siocsifflags fd name flags, So_reuseaddr fd]
      in case os_reuseaddr os of
        Inl e \<Rightarrow> (-1, calls, st\<lparr>errno := e\<rparr>)
      | Inr _ \<Rightarrow> (0, calls @ [Bind fd (bind_addr eth)], os_errno (os_bind os) st))"

definition linux_ether_set_rxtimeout ::
  "ether_os \<Rightarrow> ether_linux \<Rightarrow> os_call list \<Rightarrow> ether_state \<Rightarrow> int \<times> os_call list \<times> ether_state" where
  "linux_ether_set_rxtimeout os eth calls st =
     (case os_rcvtimeo os of Inl _ \<Rightarrow> -1 | Inr _ \<Rightarrow> 0,
      calls @ [So_rcvtimeo (el_fd eth) XSTACK_PERIODIC_EVENT_SEC], os_errno (os_rcvtimeo os) st)"

text \<open>The label \<^verbatim>\<open>fail\<close> of \<^verbatim>\<open>ether_init\<close>.\<close>

definition init_fail :: "os_call list \<Rightarrow> ether_state \<Rightarrow> int \<times> os_call list \<times> ether_state" where
  "init_fail calls st = (-1, calls @ [Close (el_fd (ether_if st))], st)"

text \<open>From the address of the interface on.\<close>

definition init_address ::
  "ether_os \<Rightarrow> string \<Rightarrow> int \<Rightarrow> os_call list \<Rightarrow> ether_state \<Rightarrow> int \<times> os_call list \<times> ether_state" where
  "init_address os if_name handle calls st =
     (let name = take (IFNAMSIZ - 1) if_name; calls = calls @ [Siocgifhwaddr (el_fd (ether_if st)) name] in
      case os_ifhwaddr os name of
        Inl e \<Rightarrow> init_fail calls (st\<lparr>errno := e\<rparr>)
      | Inr mac \<Rightarrow>
          let st = st\<lparr>ether_if := (ether_if st)\<lparr>el_mac := take 6 mac\<rparr>\<rparr>;
              (r, calls, st) = linux_ether_bind os (ether_if st) calls st
          in if r \<noteq> 0 then init_fail calls st
             else let (r, calls, st) = linux_ether_set_rxtimeout os (ether_if st) calls st
                  in if r \<noteq> 0 then init_fail calls st else (handle, calls, st))"

text \<open>\<open>args\<close> is the array up to its NULL. A name of 16 characters or more is copied beyond its buffer (\<open>None\<close>).\<close>

definition ether_init ::
  "ether_os \<Rightarrow> string list \<Rightarrow> os_call list \<Rightarrow> ether_state \<Rightarrow> (int \<times> os_call list \<times> ether_state) option" where
  "ether_init os args calls st =
     (let handle = ether_next_handle st in
      if handle \<ge> 1 then Some (-1, calls, st\<lparr>errno := EAGAIN\<rparr>)
      else
        let st = st\<lparr>ether_next_handle := Suc handle\<rparr>;
            if_name = (case args of [] \<Rightarrow> DEFAULT_IF | name # _ \<Rightarrow> name)
        in if length if_name \<ge> IFNAMSIZ then None
        else Some (case os_socket os of
          Inl e \<Rightarrow> (-1, calls @ [Socket_raw], st\<lparr>ether_if := (ether_if st)\<lparr>el_fd := -1\<rparr>, errno := e\<rparr>)
        | Inr fd \<Rightarrow>
            let name = take (IFNAMSIZ - 1) if_name;
                calls = calls @ [Socket_raw, Siocgifindex fd name];
                st = st\<lparr>ether_if := (ether_if st)\<lparr>el_fd := fd, el_if_idx := \<lparr>ifr_name = name, ifr_ifindex = 0\<rparr>\<rparr>\<rparr>
            in case os_ifindex os name of
              Inl e \<Rightarrow> init_fail calls (st\<lparr>errno := e\<rparr>)
            | Inr i \<Rightarrow>
                let st = st\<lparr>ether_if := (ether_if st)\<lparr>el_if_idx := \<lparr>ifr_name = name, ifr_ifindex = i\<rparr>\<rparr>\<rparr>
                in if length args \<ge> 2 then (-1, calls, st\<lparr>errno := ENOTSUP\<rparr>)
                   else init_address os if_name (int handle) calls st))"

definition ether_deinit :: "int \<Rightarrow> os_call list \<Rightarrow> ether_state \<Rightarrow> (os_call list \<times> ether_state) option" where
  "ether_deinit handle calls st = do {
     (eth, st) \<leftarrow> ether_handle2eth st handle;
     Some (case eth of None \<Rightarrow> (calls, st) | Some eth \<Rightarrow> (calls @ [Close (el_fd eth)], st))
   }"

section \<open>Properties\<close>

text \<open>The descriptors a list of calls closes.\<close>

definition closed :: "os_call list \<Rightarrow> int list" where
  "closed calls = [fd. Close fd \<leftarrow> calls]"

lemma closed_simps [simp]:
  "closed [] = []" "closed (Close fd # cs) = fd # closed cs" "closed (cs @ ds) = closed cs @ closed ds"
  "closed (Socket_raw # cs) = closed cs" "closed (Siocgifindex f n # cs) = closed cs"
  "closed (Siocgifhwaddr f n # cs) = closed cs" "closed (Siocgifflags f n # cs) = closed cs"
  "closed (Siocsifflags f n fl # cs) = closed cs" "closed (So_reuseaddr f # cs) = closed cs"
  "closed (So_rcvtimeo f t # cs) = closed cs" "closed (Bind f a # cs) = closed cs"
  by (simp_all add: closed_def)

lemma os_errno_wire [simp]:
  "wire (os_errno r st) = wire st" "ether_if (os_errno r st) = ether_if st"
  "ether_next_handle (os_errno r st) = ether_next_handle st"
  by (simp_all add: os_errno_def split: sum.split)

lemma ether_init_again:
  "ether_next_handle st = Suc 0 \<Longrightarrow> ether_init os args calls st = Some (-1, calls, st\<lparr>errno := EAGAIN\<rparr>)"
  by (simp add: ether_init_def Let_def)

lemma ether_init_first:
  assumes "ether_next_handle st = 0" "length name < IFNAMSIZ"
  shows "ether_init os [name] [] st = Some (case os_socket os of
      Inl e \<Rightarrow> (-1, [Socket_raw], st\<lparr>ether_next_handle := 1, ether_if := (ether_if st)\<lparr>el_fd := -1\<rparr>, errno := e\<rparr>)
    | Inr fd \<Rightarrow> (case os_ifindex os name of
        Inl e \<Rightarrow> init_fail [Socket_raw, Siocgifindex fd name] (st\<lparr>ether_next_handle := 1,
          ether_if := (ether_if st)\<lparr>el_fd := fd, el_if_idx := \<lparr>ifr_name = name, ifr_ifindex = 0\<rparr>\<rparr>, errno := e\<rparr>)
      | Inr i \<Rightarrow> init_address os name 0 [Socket_raw, Siocgifindex fd name] (st\<lparr>ether_next_handle := 1,
          ether_if := (ether_if st)\<lparr>el_fd := fd, el_if_idx := \<lparr>ifr_name = name, ifr_ifindex = i\<rparr>\<rparr>\<rparr>)))"
  using assms by (simp add: ether_init_def Let_def split: sum.split)

text \<open>The calls of an initialisation that succeeds: the interface \<open>name\<close> is put into promiscuous mode and
  its socket is bound to it, with the receive timeout of the periodic tasks.\<close>

definition init_calls :: "int \<Rightarrow> string \<Rightarrow> u16 \<Rightarrow> ether_linux \<Rightarrow> os_call list" where
  "init_calls fd name flags eth =
     [Socket_raw, Siocgifindex fd name, Siocgifhwaddr fd name, Siocgifflags fd name, Siocsifflags fd name (flags OR IFF_PROMISC),
      So_reuseaddr fd, Bind fd (bind_addr eth), So_rcvtimeo fd XSTACK_PERIODIC_EVENT_SEC]"

text \<open>C40: \<^verbatim>\<open>ether_init\<close> of the first interface, by a name that fits. When the kernel grants what is asked for, the
  result is the handle 0 of an open interface with the kernel's descriptor, index and hardware address,
  put into promiscuous mode and bound; \<^verbatim>\<open>ether_deinit\<close> then closes exactly its descriptor. When a request is refused the
  result is -1 and the socket, if there is one, has been closed. Either way the one handle is used up: a second
  initialisation fails with \<^verbatim>\<open>EAGAIN\<close>.\<close>

theorem ether_init_correct:
  assumes "ether_next_handle st = 0" "length name < IFNAMSIZ"
  shows "\<exists>r calls st'. ether_init os [name] [] st = Some (r, calls, st') \<and>
    ether_init os args calls st' = Some (-1, calls, st'\<lparr>errno := EAGAIN\<rparr>) \<and> wire st' = wire st \<and>
    (case (os_socket os, os_ifindex os name, os_ifhwaddr os name, os_reuseaddr os, os_rcvtimeo os) of
       (Inr fd, Inr i, Inr mac, Inr _, Inr _) \<Rightarrow>
         r = 0 \<and> ether_if st' = \<lparr>el_fd = fd, el_mac = take 6 mac, el_if_idx = \<lparr>ifr_name = name, ifr_ifindex = i\<rparr>\<rparr> \<and>
         calls = init_calls fd name (case os_getflags os name of Inl _ \<Rightarrow> 0 | Inr f \<Rightarrow> f) (ether_if st') \<and>
         ether_deinit r calls st' = Some (calls @ [Close fd], st')
     | (Inr fd, _) \<Rightarrow> r = -1 \<and> closed calls = [fd]
     | (Inl e, _) \<Rightarrow> r = -1 \<and> closed calls = [] \<and> errno st' = e)"
proof (cases "os_socket os")
  case (Inr fd)
  note init = ether_init_first [OF assms] ether_init_again init_fail_def init_address_def Let_def Inr
  have [simp]: "take (IFNAMSIZ - Suc 0) name = name" using assms(2) by simp
  show ?thesis
  proof (cases "os_ifindex os name")
    case i: (Inr i)
    show ?thesis
    proof (cases "os_ifhwaddr os name")
      case (Inr mac)
      with i show ?thesis
        by (cases "os_reuseaddr os"; cases "os_rcvtimeo os")
          (simp_all add: init linux_ether_bind_def linux_ether_set_rxtimeout_def init_calls_def
            ether_deinit_def ether_handle2eth_def)
    qed (use i in \<open>simp add: init\<close>)
  qed (simp add: init)
qed (simp add: ether_init_first [OF assms] ether_init_again)

lemma ether_init_correct_witness:
  "\<exists>r calls st'. ether_init \<lparr>os_socket = Inr 3, os_ifindex = \<lambda>_. Inr 2, os_ifhwaddr = \<lambda>_. Inr [2, 0, 0, 0, 0, 1],
      os_getflags = \<lambda>_. Inr 1, os_setflags = Inr (), os_reuseaddr = Inr (), os_bind = Inr (), os_rcvtimeo = Inr ()\<rparr>
      [''tap0''] [] \<lparr>ether_if = \<lparr>el_fd = 0, el_mac = replicate 6 0, el_if_idx = \<lparr>ifr_name = [], ifr_ifindex = 0\<rparr>\<rparr>,
        ether_next_handle = 0, errno = 0, wire = []\<rparr> = Some (r, calls, st') \<and>
    r = 0 \<and> el_mac (ether_if st') = [2, 0, 0, 0, 0, 1] \<and> ether_deinit 0 calls st' = Some (calls @ [Close 3], st')"
  using ether_init_correct [of "\<lparr>ether_if = \<lparr>el_fd = 0, el_mac = replicate 6 0, el_if_idx = \<lparr>ifr_name = [], ifr_ifindex = 0\<rparr>\<rparr>,
        ether_next_handle = 0, errno = 0, wire = []\<rparr>" "''tap0''"
      "\<lparr>os_socket = Inr 3, os_ifindex = \<lambda>_. Inr 2, os_ifhwaddr = \<lambda>_. Inr [2, 0, 0, 0, 0, 1],
        os_getflags = \<lambda>_. Inr 1, os_setflags = Inr (), os_reuseaddr = Inr (), os_bind = Inr (), os_rcvtimeo = Inr ()\<rparr>" "[]"]
  by (auto simp: IFNAMSIZ_def)

text \<open>A hardware address given by the user leaves the socket open; a long name overruns its buffer.\<close>

lemma init_user_mac_leaks:
  assumes "ether_next_handle st = 0" "length name < IFNAMSIZ" "os_socket os = Inr fd" "os_ifindex os name = Inr i"
  shows "\<exists>calls st'. ether_init os [name, mac] [] st = Some (-1, calls, st') \<and> errno st' = ENOTSUP \<and> closed calls = []"
  using assms by (simp add: ether_init_def Let_def)

lemma init_long_name:
  assumes "ether_next_handle st = 0" "IFNAMSIZ \<le> length name"
  shows "ether_init os (name # args) calls st = None"
  using assms by (simp add: ether_init_def)

end
