(* ===== verification/Dyndebug.thy ===== *)
theory Dyndebug
  imports Wire
begin

text \<open>
  Debug output: \<^verbatim>\<open>ip2str\<close> of \<^verbatim>\<open>util/ip_util.c\<close>, which prints an address, and the switch
  \<^verbatim>\<open>toggle_dbgmsg\<close> of \<^verbatim>\<open>src/dyndebug.c\<close> over the section of debug messages that \<^verbatim>\<open>DYNDBUG_PRINT\<close>
  of \<^verbatim>\<open>src/dyndebug.h\<close> builds, and the macro \<^verbatim>\<open>LOG\<close> over it. A C string is the list of its characters before the terminator; the
  messages are a list in the order of the section.
\<close>

section \<open>Decimal numbers\<close>

definition digit :: "nat \<Rightarrow> char" where
  "digit d = char_of (48 + d)"

fun dec :: "nat \<Rightarrow> string" where
  "dec n = (if n < 10 then [digit n] else dec (n div 10) @ [digit (n mod 10)])"

declare dec.simps [simp del]

text \<open>The conversion \<^verbatim>\<open>%d\<close> of \<^verbatim>\<open>printf\<close>.\<close>

definition fmt_d :: "int \<Rightarrow> string" where
  "fmt_d i = (if i < 0 then CHR ''-'' # dec (nat (- i)) else dec (nat i))"

section \<open>Addresses\<close>

definition IP_STR_LEN :: nat where
  "IP_STR_LEN = 17"

definition ip2str :: "u32 \<Rightarrow> string" where
  "ip2str ip =
     (let b0 = ip AND 0xFF; b1 = drop_bit 8 ip AND 0xFF; b2 = drop_bit 16 ip AND 0xFF; b3 = drop_bit 24 ip AND 0xFF
      in fmt_d (uint b3) @ ''.'' @ fmt_d (uint b2) @ ''.'' @ fmt_d (uint b1) @ ''.'' @ fmt_d (uint b0))"

section \<open>Debug messages\<close>

record dyndebug_msg =
  dm_flags :: u8
  dm_line :: int
  dm_file :: string

text \<open>\<^verbatim>\<open>strchr(s, ':')\<close> and the terminator written there: what is before the colon and, if there is one,
  what follows it.\<close>

definition split_colon :: "string \<Rightarrow> string \<times> string option" where
  "split_colon s =
     (case dropWhile (\<lambda>c. c \<noteq> CHR '':'') s of
        [] \<Rightarrow> (s, None)
      | _ # line \<Rightarrow> (takeWhile (\<lambda>c. c \<noteq> CHR '':'') s, Some line))"

definition dbg_selected :: "string \<Rightarrow> string option \<Rightarrow> dyndebug_msg \<Rightarrow> bool" where
  "dbg_selected file line msg \<longleftrightarrow> file = dm_file msg \<and>
     (case line of None \<Rightarrow> True | Some l \<Rightarrow> l = [] \<or> l = take 11 (fmt_d (dm_line msg)))"

definition toggle_dbgmsg :: "string \<Rightarrow> dyndebug_msg list \<Rightarrow> int \<times> dyndebug_msg list" where
  "toggle_dbgmsg cfg msgs =
     (if msgs = [] then (- EINVAL, msgs)
      else let (file, line) = split_colon (take 39 cfg)
           in (0, map (\<lambda>m. if dbg_selected file line m then m\<lparr>dm_flags := dm_flags m XOR 1\<rparr> else m) msgs))"

definition dbg_printed :: "dyndebug_msg \<Rightarrow> bool" where
  "dbg_printed msg \<longleftrightarrow> dm_flags msg AND 1 \<noteq> 0"

text \<open>\<^verbatim>\<open>DYNDBUG_PRINT\<close> and the macro \<^verbatim>\<open>LOG\<close> of \<^verbatim>\<open>src/logger.h\<close> at one place of the program, whose entry in the section is \<open>msg\<close>; \<open>text\<close>
  is the message with its arguments, and \<open>err\<close> what has been written to \<^verbatim>\<open>stderr\<close>.\<close>

definition DYNDBUG_PRINT :: "dyndebug_msg \<Rightarrow> string \<Rightarrow> string \<Rightarrow> string" where
  "DYNDBUG_PRINT msg text err = (if dbg_printed msg then err @ text else err)"

definition LOG_CRIT :: char where "LOG_CRIT = CHR ''0''"
definition LOG_ERR :: char where "LOG_ERR = CHR ''1''"
definition LOG_WARN :: char where "LOG_WARN = CHR ''2''"
definition LOG_INFO :: char where "LOG_INFO = CHR ''3''"
definition LOG_DEBUG :: char where "LOG_DEBUG = CHR ''4''"

definition XSTACK_LOGGING :: int where "XSTACK_LOGGING = 1"

definition LOG :: "char \<Rightarrow> string \<Rightarrow> string \<Rightarrow> dyndebug_msg \<Rightarrow> string \<Rightarrow> string" where
  "LOG level func text msg err =
     (if XSTACK_LOGGING \<noteq> 0 then DYNDBUG_PRINT msg ([level] @ '':'' @ func @ '': '' @ text @ [CHR 0x0A]) err else err)"

section \<open>Printing and reading numbers\<close>

text \<open>Reference: reading a decimal number, and the fields of a dotted address.\<close>

definition undec :: "string \<Rightarrow> nat" where
  "undec s = foldl (\<lambda>n c. 10 * n + (of_char c - 48)) 0 s"

lemma digit_value: "d < 10 \<Longrightarrow> of_char (digit d) = 48 + d"
  by (simp add: digit_def)

lemma undec_dec [simp]: "undec (dec n) = n"
proof (induction n rule: dec.induct)
  case (1 n)
  then show ?case by (subst dec.simps) (auto simp: undec_def digit_value)
qed

lemma dec_digits: "set (dec n) \<subseteq> digit ` {0..<10}"
proof (induction n rule: dec.induct)
  case (1 n)
  then show ?case by (subst dec.simps) auto
qed

lemma dec_no_sep: "CHR ''.'' \<notin> set (dec n)" "CHR '':'' \<notin> set (dec n)" "dec n \<noteq> []"
proof -
  have d: "d < 10 \<Longrightarrow> digit d \<noteq> CHR ''.'' \<and> digit d \<noteq> CHR '':''" for d
    using digit_value [of d] by auto
  show "CHR ''.'' \<notin> set (dec n)" "CHR '':'' \<notin> set (dec n)" using dec_digits [of n] d by force+
  show "dec n \<noteq> []" by (subst dec.simps) simp
qed

lemma dec_length: "n < 10 ^ Suc k \<Longrightarrow> length (dec n) \<le> Suc k"
proof (induction k arbitrary: n)
  case (Suc k)
  have "n div 10 < 10 ^ Suc k" using Suc.prems by (simp add: less_mult_imp_div_less)
  then show ?case using Suc.IH [of "n div 10"] by (subst dec.simps) simp
qed (simp add: dec.simps)

fun fields :: "string \<Rightarrow> string \<Rightarrow> string list" where
  "fields acc [] = [acc]"
| "fields acc (c # s) = (if c = CHR ''.'' then acc # fields [] s else fields (acc @ [c]) s)"

lemma fields_skip: "CHR ''.'' \<notin> set xs \<Longrightarrow> fields acc (xs @ s) = fields (acc @ xs) s"
  by (induction xs arbitrary: acc) auto

definition str2ip :: "string \<Rightarrow> u32" where
  "str2ip s = foldl (\<lambda>ip f. push_bit 8 ip OR of_nat (undec f)) 0 (fields [] s)"

text \<open>An address is read back from what \<^verbatim>\<open>ip2str\<close> prints, which fits a buffer of \<^verbatim>\<open>IP_STR_LEN\<close> bytes with
  the terminator.\<close>

lemma low_byte: "w AND 0xFF = take_bit 8 (w :: u32)"
  by (simp add: take_bit_eq_mask mask_eq_exp_minus_1)

lemma byte_bound: "unat (take_bit 8 w :: u32) < 256"
  using take_bit_nat_less_exp [of 8 "unat w"] by (simp add: unsigned_take_bit_eq)

lemma bytes_join:
  "push_bit 8 (push_bit 8 (push_bit 8 (take_bit 8 (drop_bit 24 ip)) OR take_bit 8 (drop_bit 16 ip)) OR take_bit 8 (drop_bit 8 ip)) OR
     take_bit 8 ip = (ip :: u32)"
proof (rule bit_word_eqI)
  fix n assume n: "n < LENGTH(32)"
  consider "n < 8" | k where "n = 8 + k" "k < 8" | k where "n = 16 + k" "k < 8" | k where "n = 24 + k" "k < 8"
    using n nat_le_iff_add [of 8 n] nat_le_iff_add [of 16 n] nat_le_iff_add [of 24 n] by fastforce
  then show "bit (push_bit 8 (push_bit 8 (push_bit 8 (take_bit 8 (drop_bit 24 ip)) OR take_bit 8 (drop_bit 16 ip)) OR
      take_bit 8 (drop_bit 8 ip)) OR take_bit 8 ip) n = bit ip n"
    by cases (simp_all add: bit_simps)
qed

lemma fmt_d_uint: "fmt_d (uint w) = dec (unat w)"
  by (simp add: fmt_d_def)

lemma ip2str_roundtrip: "str2ip (ip2str ip) = ip"
proof -
  have "str2ip (ip2str ip) = push_bit 8 (push_bit 8 (push_bit 8 (take_bit 8 (drop_bit 24 ip)) OR take_bit 8 (drop_bit 16 ip)) OR
      take_bit 8 (drop_bit 8 ip)) OR take_bit 8 ip"
    using fields_skip [OF dec_no_sep(1), where s = "[]"]
    by (simp add: ip2str_def str2ip_def Let_def fmt_d_uint low_byte fields_skip dec_no_sep)
  then show ?thesis by (simp only: bytes_join)
qed

lemma ip2str_fits: "length (ip2str ip) + 1 \<le> IP_STR_LEN"
proof -
  have b: "length (dec (unat (take_bit 8 w :: u32))) \<le> 3" for w
    using dec_length [of "unat (take_bit 8 w)" 2] byte_bound [of w] by simp
  show ?thesis
    using b [of ip] b [of "drop_bit 8 ip"] b [of "drop_bit 16 ip"] b [of "drop_bit 24 ip"]
    by (simp add: ip2str_def Let_def fmt_d_uint low_byte IP_STR_LEN_def)
qed

section \<open>The switch\<close>

text \<open>\<^verbatim>\<open>file\<close> selects the messages of a file and \<^verbatim>\<open>file:line\<close> the one at the line; exactly the selected
  messages change between printed and not printed, and a second call undoes the first.\<close>

lemma split_colon_parts:
  assumes "CHR '':'' \<notin> set f"
  shows "split_colon f = (f, None)" "split_colon (f @ CHR '':'' # l) = (f, Some l)"
proof -
  have *: "\<And>x. x \<in> set f \<Longrightarrow> x \<noteq> CHR '':''" using assms by auto
  then show "split_colon f = (f, None)" by (simp add: split_colon_def dropWhile_eq_Nil_conv [THEN iffD2])
  show "split_colon (f @ CHR '':'' # l) = (f, Some l)"
    using * by (simp add: split_colon_def takeWhile_append2 dropWhile_append2)
qed

lemma toggle_printed: "dbg_printed (m\<lparr>dm_flags := dm_flags m XOR 1\<rparr>) \<longleftrightarrow> \<not> dbg_printed m"
  by (simp add: dbg_printed_def and_one_eq odd_iff_mod_2_eq_one [symmetric] even_xor_iff)

lemma toggle_file:
  assumes "msgs \<noteq> []" "CHR '':'' \<notin> set file" "length file < 40"
  obtains msgs' where "toggle_dbgmsg file msgs = (0, msgs')" "length msgs' = length msgs"
    "\<forall>i < length msgs. dbg_printed (msgs' ! i) = (dbg_printed (msgs ! i) \<noteq> (dm_file (msgs ! i) = file))"
  using assms split_colon_parts(1) [OF assms(2)]
  by (auto simp: toggle_dbgmsg_def dbg_selected_def toggle_printed)

lemma toggle_line:
  assumes "msgs \<noteq> []" "CHR '':'' \<notin> set file" "length (file @ '':'' @ fmt_d n) < 40" "0 \<le> n" "n < 2 ^ 31"
    "\<forall>m \<in> set msgs. 0 \<le> dm_line m \<and> dm_line m < 2 ^ 31"
  obtains msgs' where "toggle_dbgmsg (file @ '':'' @ fmt_d n) msgs = (0, msgs')" "length msgs' = length msgs"
    "\<forall>i < length msgs. dbg_printed (msgs' ! i) =
      (dbg_printed (msgs ! i) \<noteq> (dm_file (msgs ! i) = file \<and> dm_line (msgs ! i) = n))"
proof -
  have sel: "dbg_selected file (Some (fmt_d n)) m \<longleftrightarrow> dm_file m = file \<and> dm_line m = n" if "m \<in> set msgs" for m
  proof -
    have m: "0 \<le> dm_line m" "nat (dm_line m) < 10 ^ Suc 10" using assms(6) that by auto
    have "take 11 (fmt_d (dm_line m)) = dec (nat (dm_line m))"
      using m(1) dec_length [OF m(2)] by (simp add: fmt_d_def)
    moreover have "fmt_d n = dec (nat n)" using assms(4) by (simp add: fmt_d_def)
    moreover have "dec (nat n) = dec (nat (dm_line m)) \<longleftrightarrow> n = dm_line m"
      using m(1) assms(4) by (metis nat_eq_iff undec_dec)
    ultimately show ?thesis by (auto simp: dbg_selected_def dec_no_sep)
  qed
  have "split_colon (take 39 (file @ '':'' @ fmt_d n)) = (file, Some (fmt_d n))"
    using split_colon_parts(2) [OF assms(2)] assms(3) by simp
  then show thesis using that assms(1) sel by (simp add: toggle_dbgmsg_def toggle_printed)
qed

lemma toggle_twice: "snd (toggle_dbgmsg cfg (snd (toggle_dbgmsg cfg msgs))) = msgs"
proof -
  have "dbg_selected f l (m\<lparr>dm_flags := x\<rparr>) = dbg_selected f l m" for f l m x by (simp add: dbg_selected_def split: option.split)
  moreover have "(x XOR 1) XOR 1 = (x :: u8)" for x by (simp add: xor.assoc)
  ultimately show ?thesis by (auto simp: toggle_dbgmsg_def Let_def split_beta intro!: map_idI)
qed

text \<open>What the daemon logs: \<^verbatim>\<open>main\<close> switches the messages of two files on, and of all messages only those
  are printed, whatever their level.\<close>

lemma daemon_logs:
  assumes "\<forall>m \<in> set msgs. dm_flags m = 0" "i < length msgs"
  defines "msgs' \<equiv> snd (toggle_dbgmsg ''src/ether.c'' (snd (toggle_dbgmsg ''src/tcp.c'' msgs)))"
  shows "LOG level func text (msgs' ! i) err =
    (if dm_file (msgs ! i) \<in> {''src/tcp.c'', ''src/ether.c''} then err @ [level] @ '':'' @ func @ '': '' @ text @ [CHR 0x0A] else err)"
proof -
  have ne: "msgs \<noteq> []" using assms(2) by auto
  obtain ms where ms: "toggle_dbgmsg ''src/tcp.c'' msgs = (0, ms)" "length ms = length msgs"
    "\<forall>i < length msgs. dbg_printed (ms ! i) = (dbg_printed (msgs ! i) \<noteq> (dm_file (msgs ! i) = ''src/tcp.c''))"
    by (rule toggle_file [OF ne, of "''src/tcp.c''"]) auto
  have "dm_file (ms ! i) = dm_file (msgs ! i)" using ms(1) assms(2) ne by (auto simp: toggle_dbgmsg_def Let_def split_beta)
  moreover have "ms \<noteq> []" using ms(2) ne by auto
  then obtain ms' where ms': "toggle_dbgmsg ''src/ether.c'' ms = (0, ms')" "length ms' = length ms"
    "\<forall>i < length ms. dbg_printed (ms' ! i) = (dbg_printed (ms ! i) \<noteq> (dm_file (ms ! i) = ''src/ether.c''))"
    by (rule toggle_file [of ms "''src/ether.c''"]) auto
  moreover have "\<not> dbg_printed (msgs ! i)" using assms(1,2) by (simp add: dbg_printed_def)
  ultimately have "dbg_printed (ms' ! i) \<longleftrightarrow> dm_file (msgs ! i) \<in> {''src/tcp.c'', ''src/ether.c''}" using ms(2,3) assms(2) by auto
  moreover have "msgs' = ms'" unfolding msgs'_def ms(1) snd_conv ms'(1) ..
  ultimately show ?thesis by (simp add: LOG_def DYNDBUG_PRINT_def XSTACK_LOGGING_def)
qed

end
