(* ===== verification/Xstack.thy ===== *)
theory Xstack
  imports Ip_Net Linux_Ether Dyndebug
begin

text \<open>
  The daemon, \<^verbatim>\<open>src/xstack.c\<close>: the handlers and periodic tasks that are linked together, the ingress and the
  egress thread, and starting and stopping them.

  A thread is a function of what it meets: the frames, the readings of the clock, and what another thread writes to the state of the
  program while a turn of its loop is under way. \<^verbatim>\<open>get_state\<close> reads the state as it then is. The clock is in seconds, which is all
  \<^verbatim>\<open>eval_timer\<close> uses; the difference of two readings is an integer without bound, where the C code has an \<^verbatim>\<open>int\<close>.
\<close>

datatype xstack_state = XSTACK_STOPPED | XSTACK_RUNNING | XSTACK_DYING

record stack =
  xs_state :: xstack_state
  ether_handle :: int
  delta_time :: int
  timer_start :: int
  rx_buffer :: bytes
  net :: net_state
  os_calls :: "os_call list"
  debug_msgs :: "dyndebug_msg list"

definition get_state :: "stack \<Rightarrow> xstack_state" where
  "get_state st = xs_state st"

definition set_state :: "xstack_state \<Rightarrow> stack \<Rightarrow> stack" where
  "set_state s st = st\<lparr>xs_state := s\<rparr>"

definition eval_timer :: "int \<Rightarrow> stack \<Rightarrow> bool \<times> stack" where
  "eval_timer now st =
     (let st = st\<lparr>delta_time := now - timer_start st\<rparr> in
      if delta_time st \<ge> XSTACK_PERIODIC_EVENT_SEC then (True, st\<lparr>timer_start := now\<rparr>) else (False, st))"

section \<open>What is linked together\<close>

text \<open>The handlers of the link layer and the periodic tasks, in the order of the object files.\<close>

datatype ether_proto_handler = Arp_input | Ip_input

definition ether_proto_handlers :: "(u16 \<times> ether_proto_handler) list" where
  "ether_proto_handlers = [(ETHER_PROTO_ARP, Arp_input), (ETHER_PROTO_IPV4, Ip_input)]"

fun ether_proto_fn ::
  "sendto_fn \<Rightarrow> ether_proto_handler \<Rightarrow> ether_hdr \<Rightarrow> bytes \<Rightarrow> nat \<Rightarrow> net_state \<Rightarrow> (int \<times> bytes \<times> net_state) option" where
  "ether_proto_fn sendto Arp_input hdr payload bsize st = arp_input sendto payload bsize st"
| "ether_proto_fn sendto Ip_input hdr payload bsize st = ip_input 2 sendto (Some hdr) payload bsize st"

datatype periodic_task = Arp_cache_update | Ip_defer_handler

definition xstack_periodic_tasks :: "periodic_task list" where
  "xstack_periodic_tasks = [Arp_cache_update, Ip_defer_handler]"

fun run_tasks :: "sendto_fn \<Rightarrow> int \<Rightarrow> periodic_task list \<Rightarrow> net_state \<Rightarrow> net_state option" where
  "run_tasks sendto delta [] st = Some st"
| "run_tasks sendto delta (Arp_cache_update # ts) st =
     run_tasks sendto delta ts (st\<lparr>n_arp := arp_cache_update_fn delta (n_arp st)\<rparr>)"
| "run_tasks sendto delta (Ip_defer_handler # ts) st = do {
     st \<leftarrow> ip_defer_handler sendto st;
     run_tasks sendto delta ts st
   }"

definition run_periodic_tasks :: "sendto_fn \<Rightarrow> int \<Rightarrow> net_state \<Rightarrow> net_state option" where
  "run_periodic_tasks sendto delta st = run_tasks sendto delta xstack_periodic_tasks st"

section \<open>The ingress thread\<close>

text \<open>A received frame: the input chain, and the reply, if there is one. An error is only logged.\<close>

definition ingress_frame :: "sendto_fn \<Rightarrow> ether_hdr \<Rightarrow> nat \<Rightarrow> stack \<Rightarrow> stack option" where
  "ingress_frame sendto hdr bsize st = do {
     (retval, buf, n) \<leftarrow> ether_input ether_proto_handlers (ether_proto_fn sendto) set_errno hdr (rx_buffer st) bsize (net st);
     if retval > 0 then do {
       (_, est) \<leftarrow> ether_output_reply sendto (n_eth n) (ether_handle st) hdr buf (nat retval);
       Some (st\<lparr>rx_buffer := buf, net := n\<lparr>n_eth := est\<rparr>\<rparr>)
     } else Some (st\<lparr>rx_buffer := buf, net := n\<rparr>)
   }"

definition ingress_turn :: "sendto_fn \<Rightarrow> int \<Rightarrow> (int + bytes) list \<Rightarrow> stack \<Rightarrow> ((int + bytes) list \<times> stack) option" where
  "ingress_turn sendto now evs st = do {
     (retval, hdr, buf, evs, est) \<leftarrow> ether_receive evs (n_eth (net st)) (ether_handle st) (rx_buffer st);
     let st = st\<lparr>rx_buffer := buf, net := (net st)\<lparr>n_eth := est\<rparr>\<rparr>;
     st \<leftarrow> (if retval > 0 then do { hdr \<leftarrow> hdr; ingress_frame sendto hdr (nat retval) st } else Some st);
     let (tick, st) = eval_timer now st;
     st \<leftarrow> (if tick then do {
         n \<leftarrow> run_periodic_tasks sendto (delta_time st) (net st);
         Some (st\<lparr>net := n\<rparr>)
       } else Some st);
     Some (evs, st)
   }"

text \<open>\<open>other\<close> is what another thread has written with \<^verbatim>\<open>set_state\<close> before the state is read, if anything.\<close>

definition other_writes :: "xstack_state option \<Rightarrow> stack \<Rightarrow> stack" where
  "other_writes other st = (case other of None \<Rightarrow> st | Some s \<Rightarrow> set_state s st)"

text \<open>The loop, for as many turns as are given; the result tells whether the thread has ended.\<close>

fun xstack_ingress_thread ::
  "sendto_fn \<Rightarrow> (int \<times> xstack_state option) list \<Rightarrow> (int + bytes) list \<Rightarrow> stack \<Rightarrow> (bool \<times> (int + bytes) list \<times> stack) option" where
  "xstack_ingress_thread sendto [] evs st = Some (False, evs, st)"
| "xstack_ingress_thread sendto ((now, other) # turns) evs st = do {
     (evs, st) \<leftarrow> ingress_turn sendto now evs st;
     let st = other_writes other st;
     if get_state st = XSTACK_DYING then Some (True, evs, st)
     else xstack_ingress_thread sendto turns evs st
   }"

section \<open>The egress thread\<close>

text \<open>\<^verbatim>\<open>proto_send\<close>: the send function of the protocol of a socket, with the datagram in shared memory.\<close>

definition proto_send :: "sendto_fn \<Rightarrow> nat \<Rightarrow> xstack_dgram \<Rightarrow> bytes \<Rightarrow> net_state \<Rightarrow> (int \<times> net_state) option" where
  "proto_send sendto s dgram mem st =
     (case sock_proto (sockets (n_udp st) s) of
        XIP_PROTO_TCP \<Rightarrow> Some (xstack_tcp_send, st)
      | XIP_PROTO_UDP \<Rightarrow> xstack_udp_send sendto s dgram mem st
      | _ \<Rightarrow> Some (0, st))"

definition egress_socket :: "sendto_fn \<Rightarrow> nat \<Rightarrow> net_state \<Rightarrow> net_state option" where
  "egress_socket sendto s st = do {
     let m = sock_shmem (sockets (n_udp st) s);
     if queue_isempty (egress_q m) then Some st
     else do {
       dgram_index \<leftarrow> snd (queue_peek (egress_q m));
       let off = nat dgram_index;
       dgram \<leftarrow> dgram_load (egress_data m) off;
       (_, st) \<leftarrow> proto_send sendto s dgram (drop (off + SIZEOF_DGRAM) (egress_data m)) st;
       let sock = sockets (n_udp st) s;
       (q, _) \<leftarrow> queue_discard (egress_q (sock_shmem sock)) 1;
       Some (st\<lparr>n_udp := (n_udp st)\<lparr>sockets := (sockets (n_udp st))(s := sock\<lparr>sock_shmem := (sock_shmem sock)\<lparr>egress_q := q\<rparr>\<rparr>)\<rparr>\<rparr>)
     }
   }"

fun egress_sockets :: "sendto_fn \<Rightarrow> nat list \<Rightarrow> net_state \<Rightarrow> net_state option" where
  "egress_sockets sendto [] st = Some st"
| "egress_sockets sendto (s # ss) st = do { st \<leftarrow> egress_socket sendto s st; egress_sockets sendto ss st }"

fun xstack_egress_thread :: "sendto_fn \<Rightarrow> xstack_state option list \<Rightarrow> stack \<Rightarrow> (bool \<times> stack) option" where
  "xstack_egress_thread sendto [] st = Some (False, st)"
| "xstack_egress_thread sendto (other # turns) st = do {
     n \<leftarrow> egress_sockets sendto [0..<NUM_SOCKETS] (net st);
     let st = other_writes other (st\<lparr>net := n\<rparr>);
     if get_state st = XSTACK_DYING then Some (True, st)
     else xstack_egress_thread sendto turns st
   }"

text \<open>The states a thread reads, turn by turn, from what the others write.\<close>

fun seen_states :: "xstack_state \<Rightarrow> xstack_state option list \<Rightarrow> xstack_state list" where
  "seen_states s [] = []"
| "seen_states s (other # turns) = (let s = (case other of None \<Rightarrow> s | Some t \<Rightarrow> t) in s # seen_states s turns)"

section \<open>Starting and stopping\<close>

text \<open>\<^verbatim>\<open>xstack_start\<close>: \<open>Inl\<close> is the exit status of the program. Whether the two threads can be created is given.\<close>

definition xstack_start ::
  "int \<Rightarrow> (nat \<Rightarrow> bool) \<Rightarrow> bool \<Rightarrow> bool \<Rightarrow> int \<Rightarrow> stack \<Rightarrow> ((int + int) \<times> stack) option" where
  "xstack_start mypid shm ingress_ok egress_ok handle st = do {
     let st = st\<lparr>ether_handle := handle\<rparr>;
     if get_state st \<noteq> XSTACK_STOPPED then Some (Inr (-1), st\<lparr>net := set_errno EALREADY (net st)\<rparr>)
     else do {
       (r, u) \<leftarrow> xstack_init mypid shm (n_udp (net st));
       let st = st\<lparr>net := (net st)\<lparr>n_udp := u\<rparr>\<rparr>;
       case r of
         Inl status \<Rightarrow> Some (Inl status, st)
       | Inr _ \<Rightarrow>
           if \<not> ingress_ok then Some (Inr (-1), st)
           else if \<not> egress_ok then Some (Inr (-1), st)
           else Some (Inr 0, set_state XSTACK_RUNNING st)
     }
   }"

text \<open>\<^verbatim>\<open>xstack_stop\<close> changes the state and waits for both threads, which read it; nobody else writes it meanwhile. The wait is followed for
  the readings \<open>nows\<close> of the clock by the ingress thread and for \<open>n\<close> turns of the egress thread. When one does not end the
  wait does not.\<close>

definition xstack_stop ::
  "sendto_fn \<Rightarrow> int list \<Rightarrow> nat \<Rightarrow> (int + bytes) list \<Rightarrow> stack \<Rightarrow> stack option" where
  "xstack_stop sendto nows n evs st = do {
     let st = set_state XSTACK_DYING st;
     (ended, _, st) \<leftarrow> xstack_ingress_thread sendto (map (\<lambda>now. (now, None)) nows) evs st;
     if \<not> ended then None
     else do {
       (ended, st) \<leftarrow> xstack_egress_thread sendto (replicate n None) st;
       if \<not> ended then None else Some (set_state XSTACK_STOPPED st)
     }
   }"

text \<open>The threads side by side, turn by turn, until the program is told to stop. Nobody writes the state meanwhile, so both go on
  (\<open>run_threads_state\<close>).\<close>

datatype thread_turn = Ingress int | Egress

fun run_threads :: "sendto_fn \<Rightarrow> thread_turn list \<Rightarrow> (int + bytes) list \<Rightarrow> stack \<Rightarrow> ((int + bytes) list \<times> stack) option" where
  "run_threads sendto [] evs st = Some (evs, st)"
| "run_threads sendto (Ingress now # ts) evs st = do {
     (evs, st) \<leftarrow> ingress_turn sendto now evs st;
     run_threads sendto ts evs st
   }"
| "run_threads sendto (Egress # ts) evs st = do {
     n \<leftarrow> egress_sockets sendto [0..<NUM_SOCKETS] (net st);
     run_threads sendto ts evs (st\<lparr>net := n\<rparr>)
   }"

text \<open>\<^verbatim>\<open>main\<close>: the exit status and the last state. The result of \<^verbatim>\<open>xstack_start\<close> is not looked at; without threads
  the wait in \<^verbatim>\<open>xstack_stop\<close> is for a thread that was never created, which is \<open>None\<close>.\<close>

record environment =
  env_argv :: "string list"
  env_os :: ether_os
  env_sendto :: sendto_fn
  env_pid :: int
  env_shm :: "nat \<Rightarrow> bool"
  env_ingress_ok :: bool
  env_egress_ok :: bool
  env_turns :: "thread_turn list"
  env_frames :: "(int + bytes) list"
  env_last :: "int list"
  env_last' :: nat

definition xstack_main :: "environment \<Rightarrow> stack \<Rightarrow> (int \<times> stack) option" where
  "xstack_main env st =
     (if length (env_argv env) = 1 then Some (1, st)
      else do {
        let msgs = snd (toggle_dbgmsg ''src/ether.c'' (snd (toggle_dbgmsg ''src/tcp.c'' (debug_msgs st))));
        let st = st\<lparr>debug_msgs := msgs\<rparr>;
        (handle, calls, est) \<leftarrow> ether_init (env_os env) (take 1 (drop 1 (env_argv env))) (os_calls st) (n_eth (net st));
        let st = st\<lparr>os_calls := calls, net := (net st)\<lparr>n_eth := est\<rparr>\<rparr>;
        if handle = -1 then Some (1, st)
        else do {
          (r, n) \<leftarrow> ip_config (env_sendto env) handle 167772162 4294967040 (net st);
          let st = st\<lparr>net := n\<rparr>;
          if r \<noteq> 0 then Some (1, st)
          else do {
            (r, st) \<leftarrow> xstack_start (env_pid env) (env_shm env) (env_ingress_ok env) (env_egress_ok env) handle st;
            case r of
              Inl status \<Rightarrow> Some (status, st)
            | Inr r \<Rightarrow>
                if r \<noteq> 0 then None
                else do {
                  (evs, st) \<leftarrow> run_threads (env_sendto env) (env_turns env) (env_frames env) st;
                  st \<leftarrow> xstack_stop (env_sendto env) (env_last env) (env_last' env) evs st;
                  (calls, est) \<leftarrow> ether_deinit handle (os_calls st) (n_eth (net st));
                  Some (0, st\<lparr>os_calls := calls, net := (net st)\<lparr>n_eth := est\<rparr>\<rparr>)
                }
          }
        }
      })"

section \<open>Properties\<close>

lemma ingress_frame_state: "ingress_frame sendto hdr k st = Some st' \<Longrightarrow> xs_state st' = xs_state st"
  by (auto simp: ingress_frame_def split: Option.bind_splits if_splits)

lemma eval_timer_state: "eval_timer now st = (tick, st') \<Longrightarrow> xs_state st' = xs_state st"
  by (auto simp: eval_timer_def Let_def split: if_splits)

lemma ingress_turn_state: "ingress_turn sendto now evs st = Some (evs', st') \<Longrightarrow> xs_state st' = xs_state st"
  by (auto simp: ingress_turn_def Let_def dest!: ingress_frame_state eval_timer_state
      split: Option.bind_splits if_splits prod.splits)

lemma run_threads_state: "run_threads sendto ts evs st = Some (evs', st') \<Longrightarrow> get_state st' = get_state st"
  by (induction sendto ts evs st rule: run_threads.induct) (auto simp: get_state_def dest!: ingress_turn_state split: Option.bind_splits)

lemma run_threads_append:
  "run_threads sendto (ts @ us) evs st = do { (evs, st) \<leftarrow> run_threads sendto ts evs st; run_threads sendto us evs st }"
  by (induction sendto ts evs st rule: run_threads.induct) (auto split: Option.bind_splits)

definition stack_boot :: stack where
  "stack_boot = \<lparr>xs_state = XSTACK_STOPPED, ether_handle = 0, delta_time = 0, timer_start = 0, rx_buffer = replicate 1514 0, net = net_boot,
     os_calls = [], debug_msgs = []\<rparr>"

lemma net_boot_udp: "n_udp net_boot = udp_boot" "ether_if (n_eth net_boot) = \<lparr>el_fd = 3, el_mac = replicate 6 2, el_if_idx = \<lparr>ifr_name = ''eth0'', ifr_ifindex = 2\<rparr>\<rparr>"
  by (simp_all add: net_boot_def)

lemma started:
  obtains u where "xstack_start 1 (\<lambda>_. True) True True 0 stack_boot =
      Some (Inr 0, stack_boot\<lparr>xs_state := XSTACK_RUNNING, net := net_boot\<lparr>n_udp := u\<rparr>\<rparr>)"
    "sock_queue (egress_q (sock_shmem (sockets u 0))) (egress_data (sock_shmem (sockets u 0)))"
    "queue_count (egress_q (sock_shmem (sockets u 0))) = 0" "sizes_zero (egress_data (sock_shmem (sockets u 0)))"
    "sock_proto (sockets u 0) = XIP_PROTO_UDP"
proof -
  have "sock_proto (sockets udp_boot 0) = XIP_PROTO_UDP" by (simp add: udp_boot_def example_sock_def)
  then obtain u where u: "xstack_init 1 (\<lambda>_. True) udp_boot = Some (Inr (), u)"
    "sock_queue (egress_q (sock_shmem (sockets u 0))) (egress_data (sock_shmem (sockets u 0)))"
    "queue_count (egress_q (sock_shmem (sockets u 0))) = 0" "sizes_zero (egress_data (sock_shmem (sockets u 0)))"
    "sock_proto (sockets u 0) = XIP_PROTO_UDP"
    by (rule xstack_init_ok [OF udp_inv_boot, of "\<lambda>_. True" 1]) (use example_port in \<open>simp_all add: sock_consts\<close>)
  have "xstack_start 1 (\<lambda>_. True) True True 0 stack_boot =
      Some (Inr 0, stack_boot\<lparr>xs_state := XSTACK_RUNNING, net := net_boot\<lparr>n_udp := u\<rparr>\<rparr>)"
    using u(1) by (simp add: xstack_start_def stack_boot_def get_state_def set_state_def net_boot_udp)
  then show thesis using that u(2-5) by blast
qed

lemma egress_empty:
  assumes "sock_queue (egress_q (sock_shmem (sockets (n_udp st) s))) area" "queue_count (egress_q (sock_shmem (sockets (n_udp st) s))) = 0"
  shows "egress_socket sendto s st = Some st"
  using assms queue_empty_iff [of "egress_q (sock_shmem (sockets (n_udp st) s))"]
  by (simp add: egress_socket_def queue_isempty_def sock_queue_def Let_def)

section \<open>Outgoing datagrams\<close>

text \<open>The shared memory of a socket as the client leaves it.\<close>

definition put_shmem :: "nat \<Rightarrow> xstack_shmem \<Rightarrow> net_state \<Rightarrow> net_state" where
  "put_shmem s m st = st\<lparr>n_udp := (n_udp st)\<lparr>sockets := (sockets (n_udp st))(s := (sockets (n_udp st) s)\<lparr>sock_shmem := m\<rparr>)\<rparr>\<rparr>"

definition sock_mem :: "nat \<Rightarrow> net_state \<Rightarrow> xstack_shmem" where
  "sock_mem s st = sock_shmem (sockets (n_udp st) s)"

lemma put_shmem_simps [simp]:
  "sock_mem s (put_shmem s m st) = m" "n_eth (put_shmem s m st) = n_eth st" "n_defer (put_shmem s m st) = n_defer st"
  "sock_proto (sockets (n_udp (put_shmem s m st)) s) = sock_proto (sockets (n_udp st) s)"
  by (simp_all add: put_shmem_def sock_mem_def)

lemma egress_refused:
  assumes p: "sock_proto (sockets (n_udp st) s) = XIP_PROTO_UDP"
    and q: "sock_queue (egress_q (sock_mem s st)) (egress_data (sock_mem s st))" "sizes_zero (egress_data (sock_mem s st))"
      "queue_count (egress_q (sock_mem s st)) \<noteq> 0"
  obtains q' where "egress_socket sendto s st = Some (put_shmem s ((sock_mem s st)\<lparr>egress_q := q'\<rparr>) st)"
    "sock_queue q' (egress_data (sock_mem s st))" "Suc (queue_count q') = queue_count (egress_q (sock_mem s st))"
proof -
  let ?q = "egress_q (sock_mem s st)" and ?a = "egress_data (sock_mem s st)"
  have wf: "queue_wf ?q" "length ?a = 16384" using q(1) by (simp_all add: sock_queue_def sock_consts)
  obtain k where k: "hd (queue_offsets ?q) = int (k * 4096)" "k < 4"
    using sock_offsets [OF q(1) hd_queue_offsets [OF q(3)]] .
  obtain d where d: "dgram_load ?a (k * 4096) = Some d" "dgram_size d = 0" using dgram_size_zero [OF q(2) k(2) wf(2)] .
  obtain q' where q': "queue_discard ?q 1 = Some (q', 1)" "queue_wf q'" "a_len q' = a_len ?q" "b_size q' = b_size ?q"
    "Suc (queue_count q') = queue_count ?q" using queue_discard_one [OF wf(1) q(3)] by metis
  have peek: "snd (queue_peek ?q) = Some (int (k * 4096))" using queue_peek_hd [OF wf(1)] q(3) k(1) by simp
  have send: "proto_send sendto s d mem st = Some (- EINVAL, st)" for mem
    using p d(2) by (simp add: proto_send_def xstack_udp_send_def)
  have "\<not> queue_isempty ?q" using queue_empty_iff [OF wf(1)] q(3) by (auto simp: queue_isempty_def)
  then have "egress_socket sendto s st = Some (put_shmem s ((sock_mem s st)\<lparr>egress_q := q'\<rparr>) st)"
    using peek d(1) send q'(1) unfolding egress_socket_def Let_def sock_mem_def [symmetric]
    by (simp add: put_shmem_def sock_mem_def [symmetric] del: of_nat_mult)
  then show thesis using that q' q(1) by (simp add: sock_queue_def)
qed

text \<open>C39: A datagram of up to 4072 bytes that a client sends through a UDP socket is not transmitted. \<^verbatim>\<open>xstack_sendto\<close> reports it as
  sent, but leaves its size field zero, as it was cleared at start-up; \<^verbatim>\<open>xstack_udp_send\<close> refuses it, and
  the egress thread discards it. The size fields stay zero, so this is so for every later datagram as long as all have
  at most 4072 bytes. \<^verbatim>\<open>xstack_sendto\<close> also accepts 4073 to 4096 bytes, which do not fit the block with its header
  (\<open>sendto_overruns\<close>); nothing is said about what is sent after such a datagram.\<close>

theorem sendto_not_transmitted:
  assumes "sock_proto (sockets (n_udp st) s) = XIP_PROTO_UDP"
    "sock_queue (egress_q (sock_mem s st)) (egress_data (sock_mem s st))" "sizes_zero (egress_data (sock_mem s st))"
    "queue_count (egress_q (sock_mem s st)) < 3" "length buffer \<le> 4072"
  shows "\<exists>m st'. xstack_sendto buffer dest (sock_mem s st) = Some (Inr (length buffer, pid_inetd (sock_mem s st)), m) \<and>
    egress_socket sendto s (put_shmem s m st) = Some st' \<and> n_eth st' = n_eth st \<and> n_defer st' = n_defer st \<and>
    sock_proto (sockets (n_udp st') s) = XIP_PROTO_UDP \<and>
    sock_queue (egress_q (sock_mem s st')) (egress_data (sock_mem s st')) \<and> sizes_zero (egress_data (sock_mem s st')) \<and>
    queue_count (egress_q (sock_mem s st')) = queue_count (egress_q (sock_mem s st))"
proof -
  obtain m where m: "xstack_sendto buffer dest (sock_mem s st) = Some (Inr (length buffer, pid_inetd (sock_mem s st)), m)"
    "sock_queue (egress_q m) (egress_data m)" "sizes_zero (egress_data m)"
    "queue_count (egress_q m) = Suc (queue_count (egress_q (sock_mem s st)))"
    using sendto_ok [OF assms(2-5)] .
  let ?st = "put_shmem s m st"
  have "sock_proto (sockets (n_udp ?st) s) = XIP_PROTO_UDP" using assms(1) by simp
  then obtain q' where q': "egress_socket sendto s ?st = Some (put_shmem s ((sock_mem s ?st)\<lparr>egress_q := q'\<rparr>) ?st)"
    "sock_queue q' (egress_data (sock_mem s ?st))" "Suc (queue_count q') = queue_count (egress_q (sock_mem s ?st))"
    by (rule egress_refused) (use m in simp_all)
  then show ?thesis using m assms(1) by (intro exI conjI) (assumption | simp)+
qed

lemma sendto_not_transmitted_witness:
  "\<exists>u m st'. xstack_start 1 (\<lambda>_. True) True True 0 stack_boot = Some (Inr 0, stack_boot\<lparr>xs_state := XSTACK_RUNNING, net := net_boot\<lparr>n_udp := u\<rparr>\<rparr>) \<and>
     xstack_sendto [1, 2, 3] \<lparr>inet4_addr = 5, port = 6\<rparr> (sock_shmem (sockets u 0)) = Some (Inr (3, pid_inetd (sock_shmem (sockets u 0))), m) \<and>
     egress_socket (\<lambda>w f. Inr 0) 0 (put_shmem 0 m (net_boot\<lparr>n_udp := u\<rparr>)) = Some st' \<and> wire (n_eth st') = []"
proof -
  obtain u where u: "xstack_start 1 (\<lambda>_. True) True True 0 stack_boot =
      Some (Inr 0, stack_boot\<lparr>xs_state := XSTACK_RUNNING, net := net_boot\<lparr>n_udp := u\<rparr>\<rparr>)"
    "sock_queue (egress_q (sock_shmem (sockets u 0))) (egress_data (sock_shmem (sockets u 0)))"
    "queue_count (egress_q (sock_shmem (sockets u 0))) = 0" "sizes_zero (egress_data (sock_shmem (sockets u 0)))"
    "sock_proto (sockets u 0) = XIP_PROTO_UDP"
    by (rule started)
  have "wire (n_eth net_boot) = []" by (simp add: net_boot_def)
  moreover have "sock_mem 0 (net_boot\<lparr>n_udp := u\<rparr>) = sock_shmem (sockets u 0)" by (simp add: sock_mem_def)
  ultimately show ?thesis
    using sendto_not_transmitted [of "net_boot\<lparr>n_udp := u\<rparr>" 0 "[1, 2, 3]" "\<lparr>inet4_addr = 5, port = 6\<rparr>" "\<lambda>w f. Inr 0"] u by auto
qed

text \<open>\<^verbatim>\<open>xstack_sendto\<close> checks the length of a datagram against the size of a block, but the block also holds the header: of a datagram of 4073 to
  4096 bytes the end is written over the header of the next block, with its size field from the 17th such byte on; in the last
  block it is written outside the shared memory.\<close>

lemma sendto_overruns:
  assumes Q: "sock_queue (egress_q m) (egress_data m)" and room: "queue_count (egress_q m) < 3" and b: "4072 < length buffer" "length buffer \<le> 4096"
    and k: "write_offset (egress_q m) = int (k * 4096)"
  shows "if k = 3 then xstack_sendto buffer dest m = None
    else \<exists>m'. xstack_sendto buffer dest m = Some (Inr (length buffer, pid_inetd m), m') \<and>
      mem_read (egress_data m') ((k + 1) * 4096) (length buffer - 4072) = Some (drop 4072 buffer)"
proof -
  let ?q = "egress_q m" and ?a = "egress_data m"
  have wf: "queue_wf ?q" and len: "length ?a = 16384" "unat (a_len ?q) = 4"
    using Q by (simp_all add: sock_queue_def sock_consts)
  have r: "Suc (queue_count ?q) < unat (a_len ?q)" using room len(2) by simp
  have k4: "k < 4" using sock_write_offset [OF Q] k by (metis mult_cancel2 of_nat_eq_iff zero_neq_numeral)
  have f: "k * 4096 + 24 \<le> length ?a" using k4 len(1) by simp
  obtain a1 where a1: "mem_write ?a (k * 4096) (replicate 8 0) = Some a1" "length a1 = length ?a"
    using f by (auto simp: mem_write_def)
  obtain a2 where a2: "mem_write a1 (k * 4096 + 8) (sockaddr_store dest) = Some a2" "length a2 = length ?a"
    using f a1(2) by (auto simp: mem_write_def)
  obtain q' where q': "queue_commit ?q = Some q'" using queue_commit_wf [OF wf r] by metis
  have s: "xstack_sendto buffer dest m = do { area \<leftarrow> mem_write a2 (k * 4096 + SIZEOF_DGRAM) buffer;
      Some (Inr (length buffer, pid_inetd m), m\<lparr>egress_data := area, egress_q := q'\<rparr>) }"
    using b(2) queue_alloc_room [OF wf] r k a1(1) a2(1) q' by (simp add: xstack_sendto_def nat_mult_distrib Let_def sock_consts)
  show ?thesis
  proof (cases "k = 3")
    case True
    then have "mem_write a2 (k * 4096 + SIZEOF_DGRAM) buffer = None" using b(1) len(1) a2(2) by (simp add: mem_write_def SIZEOF_DGRAM_def)
    then show ?thesis using s True by simp
  next
    case False
    define o1 where "o1 = k * 4096 + 24"
    have o1: "o1 + length buffer \<le> length a2" "(k + 1) * 4096 = o1 + 4072" using False k4 b(2) a2(2) len(1) by (simp_all add: o1_def)
    have "mem_write a2 o1 buffer = Some (take o1 a2 @ buffer @ drop (o1 + length buffer) a2)" using o1(1) by (simp add: mem_write_def)
    moreover have "mem_read (take o1 a2 @ buffer @ drop (o1 + length buffer) a2) (o1 + 4072) (length buffer - 4072) = Some (drop 4072 buffer)"
      using o1(1) b(1) by (simp add: mem_read_def)
    ultimately show ?thesis using s False unfolding o1(2) by (simp add: SIZEOF_DGRAM_def flip: o1_def)
  qed
qed

end
