(* ===== verification/Linker_Set.thy ===== *)
theory Linker_Set
  imports Xstack
begin

text \<open>
  The sets of \<^verbatim>\<open>include/linker_set.h\<close>, in which the linker collects the protocol handlers and the periodic tasks. A set is the
  section of pointers between two symbols; addresses are counted in pointers. What the linker put there is the content of the
  memory. The loops over such a set in \<^verbatim>\<open>src/ether.c\<close>, \<^verbatim>\<open>src/ip.c\<close> and \<^verbatim>\<open>src/xstack.c\<close> are searches and iterations in the lists
  the models of those files have.
\<close>

record 'a linker_set =
  set_start :: nat
  set_stop :: nat
  set_mem :: "nat \<Rightarrow> 'a"

definition SET_BEGIN :: "'a linker_set \<Rightarrow> nat" where "SET_BEGIN S = set_start S"
definition SET_LIMIT :: "'a linker_set \<Rightarrow> nat" where "SET_LIMIT S = set_stop S"

definition SET_ITEM :: "'a linker_set \<Rightarrow> nat \<Rightarrow> 'a" where
  "SET_ITEM S i = set_mem S (SET_BEGIN S + i)"

definition SET_COUNT :: "'a linker_set \<Rightarrow> int" where
  "SET_COUNT S = int (SET_LIMIT S) - int (SET_BEGIN S)"

text \<open>The body gets the pointer at \<^verbatim>\<open>pvar\<close>; it says whether it leaves the loop by \<^verbatim>\<open>break\<close>.\<close>

partial_function (option) set_loop :: "'a linker_set \<Rightarrow> ('a \<Rightarrow> 's \<Rightarrow> (bool \<times> 's) option) \<Rightarrow> nat \<Rightarrow> 's \<Rightarrow> 's option" where
  "set_loop S body pvar s =
     (if pvar < SET_LIMIT S then do {
        (brk, s) \<leftarrow> body (set_mem S pvar) s;
        if brk then Some s else set_loop S body (pvar + 1) s
      }
      else Some s)"

definition SET_FOREACH :: "'a linker_set \<Rightarrow> ('a \<Rightarrow> 's \<Rightarrow> (bool \<times> 's) option) \<Rightarrow> 's \<Rightarrow> 's option" where
  "SET_FOREACH S body s = set_loop S body (SET_BEGIN S) s"

section \<open>What the loops do\<close>

definition set_items :: "'a linker_set \<Rightarrow> 'a list" where
  "set_items S = map (set_mem S) [SET_BEGIN S..<SET_LIMIT S]"

fun fold_break :: "('a \<Rightarrow> 's \<Rightarrow> (bool \<times> 's) option) \<Rightarrow> 'a list \<Rightarrow> 's \<Rightarrow> 's option" where
  "fold_break body [] s = Some s"
| "fold_break body (x # xs) s = do { (brk, s) \<leftarrow> body x s; if brk then Some s else fold_break body xs s }"

lemma set_loop_items: "set_loop S body p s = fold_break body (map (set_mem S) [p..<SET_LIMIT S]) s"
proof (induction "SET_LIMIT S - p" arbitrary: p s)
  case 0
  then show ?case by (simp add: set_loop.simps)
next
  case (Suc n)
  then have "[p..<SET_LIMIT S] = p # [Suc p..<SET_LIMIT S]" "p < SET_LIMIT S" by (simp_all add: upt_conv_Cons)
  moreover have "set_loop S body (p + 1) s = fold_break body (map (set_mem S) [Suc p..<SET_LIMIT S]) s" for s
    using Suc.hyps(1) [of "p + 1"] Suc.hyps(2) by simp
  ultimately show ?case by (cases "body (set_mem S p) s") (auto simp: set_loop.simps [of S body p])
qed

lemma SET_FOREACH_items: "SET_FOREACH S body s = fold_break body (set_items S) s"
  by (simp add: SET_FOREACH_def set_loop_items set_items_def)

lemma SET_ITEM_items: "int i < SET_COUNT S \<Longrightarrow> SET_ITEM S i = set_items S ! i"
  by (simp add: SET_ITEM_def SET_COUNT_def set_items_def)

lemma SET_COUNT_items: "SET_BEGIN S \<le> SET_LIMIT S \<Longrightarrow> SET_COUNT S = int (length (set_items S))"
  by (simp add: SET_COUNT_def set_items_def)

text \<open>Where the set has elements, the search for a handler in \<^verbatim>\<open>ether_input\<close> and \<^verbatim>\<open>ip_input\<close> starts from a variable of any value and is a search
  in the list. The loop of \<^verbatim>\<open>run_periodic_tasks\<close> runs the tasks of the list.\<close>

lemma find_handler_loop:
  assumes "set_items S \<noteq> []"
  shows "SET_FOREACH S (\<lambda>tmp proto. Some (if fst tmp = proto_id then (True, Some (snd tmp)) else (False, None))) proto =
    Some (find_handler (set_items S) proto_id)"
proof -
  have "fold_break (\<lambda>tmp proto. Some (if fst tmp = proto_id then (True, Some (snd tmp)) else (False, None))) (h # hs) proto =
      Some (find_handler (h # hs) proto_id)" for h hs
    by (induction hs arbitrary: h proto) (auto simp: find_handler_def)
  then show ?thesis using assms by (cases "set_items S") (simp_all add: SET_FOREACH_items)
qed

lemma run_tasks_loop:
  "SET_FOREACH S (\<lambda>task st. map_option (Pair False) (run_tasks sendto delta [task] st)) st = run_tasks sendto delta (set_items S) st"
proof -
  have "fold_break (\<lambda>task st. map_option (Pair False) (run_tasks sendto delta [task] st)) ts st = run_tasks sendto delta ts st" for ts
  proof (induction ts arbitrary: st)
    case (Cons t ts)
    then show ?case by (cases t) (auto split: bind_splits)
  qed simp
  then show ?thesis by (simp add: SET_FOREACH_items)
qed

end
