(* ===== verification/Ingress.thy ===== *)
theory Ingress
  imports Xstack
begin

text \<open>
  Safety of the way in: what the ingress thread may receive without running into undefined behaviour, and the
  invariant of the whole stack that it keeps. Every handler is shown to return, whatever the bytes of
  the packet are; the trees are followed for any comparison, so nothing is asked of the addresses of
  connections. What has to be excluded is what the code does not guard against: fragments, a header that is
  longer than its packet, more senders than the ARP cache has entries, a socket whose client does not
  read, and entries of the cache older than their limit.
\<close>

section \<open>Trees under any comparison\<close>

lemma rb_tree_find_any:
  assumes "rb_tree h xs"
  obtains r where "RB_FIND c h = Some r" "\<forall>x. r = Some x \<longrightarrow> x \<in> set xs \<and> c x = 0"
proof -
  obtain t where t: "at h [] t" "inord t = xs" using assms by (auto simp: rb_tree_def)
  have "descend c K t = Inl x \<Longrightarrow> x \<in> set (inord t) \<and> c x = 0" for K x
    by (induction c K t rule: descend.induct) (auto split: if_splits)
  then show thesis using that RB_FIND_at [OF t(1), of c] t(2) by (cases "descend c [] t") auto
qed

lemma rb_tree_insert_any:
  assumes "rb_tree h xs" "e \<notin> set xs"
  obtains h' p ys where "RB_INSERT c h e = Some (h', p)" "rb_tree h' ys" "set ys \<subseteq> insert e (set xs)"
proof -
  obtain t where t: "at h [] t" "rb_ok t" "inord t = xs" using assms(1) by (auto simp: rb_tree_def)
  obtain h' where h': "RB_INSERT c h e = Some (h', snd (tree_insert c e t))" "at h' [] (fst (tree_insert c e t))"
    using RB_INSERT_at [of h t e c] t assms(2) by (auto simp: rb_ok_def)
  have "rb_tree h' (inord (fst (tree_insert c e t)))" unfolding rb_tree_def using h'(2) tree_insert_ok [OF t(2)] by blast
  moreover have "set (inord (fst (tree_insert c e t))) \<subseteq> insert e (set xs)"
  proof (cases "descend c [] t")
    case (Inr J)
    then show ?thesis using descend_plug [OF Inr] t(3) inord_plug [of J Lf] by (auto simp: tree_insert_def inord_ins_fix inord_plug)
  qed (auto simp: tree_insert_def t(3))
  ultimately show thesis using that h'(1) by blast
qed

section \<open>The transports\<close>

text \<open>TCP: the tree of the connections is a tree, of allocated control blocks.\<close>

definition tcp_ok :: "tcp_table \<Rightarrow> bool" where
  "tcp_ok st \<longleftrightarrow> (\<exists>xs. rb_tree (tcp_conn_map st) xs \<and> set xs \<subseteq> {..<tcb_count st})"

lemma tcp_ok_tcb [simp]: "tcp_ok (st\<lparr>tcb := b\<rparr>) = tcp_ok st"
  by (simp add: tcp_ok_def)

lemma tcp_lookup_safe:
  assumes "tcp_ok st"
  obtains r st' where "tcp_lookup loc rem tcp st = Some (r, st')" "tcp_ok st'"
proof -
  obtain xs where xs: "rb_tree (tcp_conn_map st) xs" "set xs \<subseteq> {..<tcb_count st}" using assms by (auto simp: tcp_ok_def)
  define blocks where "blocks = (tcb st)(tcb_count st := tcp_calloc loc rem)"
  obtain c where c: "tcp_find_connection loc rem st = Some c" unfolding tcp_find_connection_def using rb_tree_find_any [OF xs(1)] .
  have "tcb_count st \<notin> set xs" using xs(2) by auto
  then obtain h p ys where h: "RB_INSERT (\<lambda>x. tcp_conn_cmp (blocks (tcb_count st)) (blocks x)) (tcp_conn_map st) (tcb_count st) = Some (h, p)"
    "rb_tree h ys" "set ys \<subseteq> insert (tcb_count st) (set xs)"
    using rb_tree_insert_any [OF xs(1)] by blast
  have "set ys \<subseteq> {..<Suc (tcb_count st)}" using h(3) xs(2) by auto
  then have new: "tcp_new_connection loc rem st = Some (tcb_count st, st\<lparr>tcb := blocks, tcb_count := tcb_count st + 1, tcp_conn_map := h\<rparr>)"
    "tcp_ok (st\<lparr>tcb := blocks, tcb_count := tcb_count st + 1, tcp_conn_map := h\<rparr>)"
    using h(1,2) by (auto simp: tcp_new_connection_def blocks_def tcp_ok_def Let_def)
  show thesis
  proof (cases c)
    case None
    let ?st = "st\<lparr>tcb := blocks, tcb_count := tcb_count st + 1, tcp_conn_map := h\<rparr>"
    have "tcp_ok (?st\<lparr>tcb := (tcb ?st)(tcb_count st := (tcb ?st (tcb_count st))\<lparr>state := TCP_LISTEN\<rparr>)\<rparr>)"
      using new(2) by (simp only: tcp_ok_tcb)
    then show ?thesis using that c None new(1) assms by (cases "has_flag tcp TCP_SYN") (simp_all add: tcp_lookup_def)
  next
    case (Some x)
    then show ?thesis using that c assms by (cases "has_flag tcp TCP_SYN \<or> tcp_hdr_size tcp < 0") (simp_all add: tcp_lookup_def)
  qed
qed

lemma tcp_input_safe:
  assumes "tcp_ok st" "60 \<le> length payload"
  obtains r payload' st' where "tcp_input ip payload bsize st = Some (r, payload', st')" "length payload' = length payload"
    "r \<le> 60" "tcp_ok st'"
proof (cases "bsize < 20")
  case True
  then show ?thesis using that assms(1) by (simp add: tcp_input_def EBADMSG_def)
next
  case False
  obtain net where net: "tcp_load payload = Some net" using assms(2) by (simp add: tcp_load_def)
  let ?loc = "\<lparr>inet4_addr = ip_dst ip, port = uint (ntohs (tcp_dport net))\<rparr>"
  let ?rem = "\<lparr>inet4_addr = ip_src ip, port = uint (ntohs (tcp_sport net))\<rparr>"
  let ?pl = "tcp_store (tcp_ntoh net) @ drop 20 payload"
  have w: "mem_write payload 0 (tcp_store (tcp_ntoh net)) = Some ?pl" using assms(2) by (simp add: mem_write_def)
  obtain c st1 where c: "tcp_lookup ?loc ?rem (tcp_ntoh net) st = Some (c, st1)" "tcp_ok st1" using tcp_lookup_safe [OF assms(1)] .
  show ?thesis
  proof (cases c)
    case None
    then show ?thesis using that [of "- EINVAL" ?pl st1] False net w c assms(2) by (simp add: tcp_input_def EINVAL_def)
  next
    case (Some x)
    obtain r conn rs where f: "tcp_fsm (tcb st1 x) (tcp_ntoh net) = (r, conn, rs)" by (metis prod_cases3)
    let ?st = "st1\<lparr>tcb := (tcb st1)(x := conn)\<rparr>"
    have ok: "tcp_ok ?st" using c(2) by simp
    have r: "r > 0 \<Longrightarrow> 20 \<le> r \<and> r \<le> 60" using tcp_fsm_reply [OF f] tcp_hdr_size_range [of rs] by simp
    obtain pl where pl: "(if r > 0 then tcp_hton ?loc ?rem (rs\<lparr>tcp_sport := word_of_int (port ?loc), tcp_dport := word_of_int (port ?rem)\<rparr>) ?pl (nat r)
        else mem_write ?pl 0 (tcp_store rs)) = Some pl" "length pl = length payload"
    proof (cases "r > 0")
      case True
      then have n: "20 \<le> nat r" "nat r \<le> length ?pl" using r assms(2) by auto
      obtain pl where "tcp_hton ?loc ?rem (rs\<lparr>tcp_sport := word_of_int (port ?loc), tcp_dport := word_of_int (port ?rem)\<rparr>) ?pl (nat r) = Some pl"
        "length pl = length payload"
        by (rule tcp_hton_ok [OF n, of ?loc ?rem "rs\<lparr>tcp_sport := word_of_int (port ?loc), tcp_dport := word_of_int (port ?rem)\<rparr>"])
          (use assms(2) in simp)
      then show ?thesis using that True by simp
    qed (use that assms(2) in \<open>simp add: mem_write_def\<close>)
    have "tcp_input ip payload bsize st = Some (r, pl, ?st)"
      using False net w c(1) Some f pl(1) by (simp add: tcp_input_def Let_def)
    moreover have "r \<le> 60" using r by linarith
    ultimately show ?thesis using that pl(2) ok by blast
  qed
qed

text \<open>UDP: the queue of every bound socket has room for \<open>n\<close> more datagrams.\<close>

definition udp_room :: "nat \<Rightarrow> udp_table \<Rightarrow> bool" where
  "udp_room n st \<longleftrightarrow> (\<exists>S. udp_inv st S \<and> (\<forall>s \<in> S. \<exists>msgs. pending (sock_shmem (sockets st s)) msgs \<and> length msgs + n \<le> 3))"

lemma udp_room_less: "udp_room (Suc n) st \<Longrightarrow> udp_room n st"
  unfolding udp_room_def by (metis add_Suc_right Suc_leD)

lemma udp_input_safe:
  assumes "udp_room (Suc n) st" "bsize \<le> length payload" "bsize \<le> 1500"
  obtains r payload' st' where "udp_input ip payload bsize st = Some (r, payload', st')" "length payload' = length payload"
    "r \<le> 0" "udp_room n st'"
proof (cases "bsize < 8")
  case True
  then show ?thesis using that udp_room_less [OF assms(1)] by (simp add: udp_input_def EBADMSG_def)
next
  case False
  obtain S msgs where S: "udp_inv st S" "\<forall>s \<in> S. pending (sock_shmem (sockets st s)) (msgs s) \<and> length (msgs s) + Suc n \<le> 3"
    using assms(1) unfolding udp_room_def by metis
  obtain net where net: "udp_load payload = Some net" using False assms(2) by (simp add: udp_load_def)
  let ?dst = "\<lparr>inet4_addr = ip_dst ip, port = uint (ntohs (udp_dport net))\<rparr>"
  let ?src = "\<lparr>inet4_addr = ip_src ip, port = uint (ntohs (udp_sport net))\<rparr>"
  have "8 \<le> bsize" "bsize \<le> 4080" "\<forall>s \<in> S. pending (sock_shmem (sockets st s)) (msgs s) \<and> length (msgs s) < 3" using False assms(3) S(2) by auto
  note u = udp_input_ok [where ip = ip, OF S(1) net this(1) assms(2) this(2) refl refl this(3), THEN conjunct2]
  show ?thesis
  proof (cases "\<exists>s \<in> S. sock_addr (sockets st s) = ?dst")
    case True
    then obtain s pl st' where s: "s \<in> S" "udp_input ip payload bsize st = Some (0, pl, st')" "udp_inv st' S"
      "pending (sock_shmem (sockets st' s)) (msgs s @ [(?src, ?dst, take (bsize - 8) (drop 8 payload))])"
      "\<forall>t. t = s \<or> sockets st' t = sockets st t" using u by auto
    have "\<exists>ms. pending (sock_shmem (sockets st' t)) ms \<and> length ms + n \<le> 3" if "t \<in> S" for t
    proof (cases "t = s")
      case True
      then show ?thesis using s(1,4) S(2) by (intro exI [of _ "msgs s @ [(?src, ?dst, take (bsize - 8) (drop 8 payload))]"]) auto
    next
      case False
      then have "sockets st' t = sockets st t" using s(5) by blast
      then show ?thesis using S(2) that by (intro exI [of _ "msgs t"]) auto
    qed
    then have "udp_room n st'" using s(3) by (auto simp: udp_room_def)
    then show ?thesis using that s(2) udp_input_length [OF s(2)] by simp
  next
    case False
    then obtain pl where "udp_input ip payload bsize st = Some (- ENOTSOCK, pl, st)" using u by auto
    then show ?thesis using that udp_input_length udp_room_less [OF assms(1)] by (simp add: ENOTSOCK_def)
  qed
qed

lemma icmp_input_safe:
  assumes "8 \<le> length payload" "bsize \<le> length payload"
  obtains r payload' where "icmp_input hdr0 ip payload bsize = Some (r, payload')" "length payload' = length payload" "r \<le> int bsize"
proof -
  obtain m where m: "icmp_load payload = Some m" using assms(1) by (simp add: icmp_load_def)
  consider "bsize < 8" | "8 \<le> bsize" "icmp_type m \<noteq> ICMP_TYPE_ECHO_REQUEST" | "8 \<le> bsize" "icmp_type m = ICMP_TYPE_ECHO_REQUEST" by linarith
  then show ?thesis
  proof cases
    case 3
    then show ?thesis using icmp_echo_ok [OF m 3(2,1) assms(2)] assms(1) that by fastforce
  qed (use icmp_input_errors [of bsize] m that in \<open>auto simp: EBADMSG_def ENOMSG_def\<close>)
qed

section \<open>The ARP cache\<close>

text \<open>All entries are for the senders \<open>P\<close>, and none is older than \<open>T\<close>.\<close>

definition arp_peers :: "u32 set \<Rightarrow> int \<Rightarrow> arp_state \<Rightarrow> bool" where
  "arp_peers P T st \<longleftrightarrow> (\<forall>ip mac a. arp_map st ip = Some (mac, a) \<longrightarrow> ip \<in> P \<and> a \<le> T)"

definition peers_ok :: "u32 \<Rightarrow> u32 set \<Rightarrow> bool" where
  "peers_ok lo P \<longleftrightarrow> finite P \<and> card P \<le> XSTACK_ARP_CACHE_SIZE \<and> (\<forall>ip \<in> P. in_window lo ip \<and> ip \<noteq> 0)"

lemma arp_peers_live:
  assumes "arp_inv lo st"
  shows "arp_peers P T st \<longleftrightarrow> (\<forall>i. arp_live st i \<longrightarrow> ip_addr (arp_cache st i) \<in> P \<and> age (arp_cache st i) \<le> T)"
  unfolding arp_peers_def arp_map_def map_option_eq_Some arp_slot_Some [OF assms] by blast

text \<open>With no more senders than entries there is an entry for each of them.\<close>

lemma arp_peers_room:
  assumes I: "arp_inv lo st" and P: "arp_peers P T st" "peers_ok lo P" "ip \<in> P"
  shows "arp_room st ip"
proof (rule ccontr)
  let ?C = "{..<XSTACK_ARP_CACHE_SIZE}" and ?a = "\<lambda>i. ip_addr (arp_cache st i)"
  assume "\<not> arp_room st ip"
  then have n: "\<forall>i \<in> ?C. ?a i \<noteq> ip \<and> arp_live st i" using P(2,3) by (auto simp: arp_room_def arp_live_def peers_ok_def)
  then have "?a ` ?C \<subseteq> P - {ip}" using P(1) by (auto simp: arp_peers_live [OF I])
  moreover have "inj_on ?a ?C" using n I by (auto simp: inj_on_def arp_inv_def)
  ultimately have "card ?C \<le> card (P - {ip})" using P(2) by (metis card_image card_mono finite_Diff peers_ok_def)
  moreover have "card (P - {ip}) < card P" using P(2,3) by (intro psubset_card_mono) (auto simp: peers_ok_def)
  ultimately show False using P(2) by (simp add: peers_ok_def)
qed

text \<open>The periodic update ages the entries. It frees the ones above the limit without taking them out of the tree,
  so nothing may reach the limit.\<close>

lemma arp_update_safe:
  assumes I: "arp_inv lo st" and P: "arp_peers P T st" "T \<le> ARP_CACHE_AGE_MAX" "0 \<le> delta"
  shows "arp_inv lo (arp_cache_update_fn delta st)" "arp_peers P (T + delta) (arp_cache_update_fn delta st)"
proof -
  let ?st = "arp_cache_update_fn delta st"
  have le: "arp_live st i \<Longrightarrow> age (arp_cache st i) \<le> ARP_CACHE_AGE_MAX \<and> age (arp_cache st i) \<le> T" for i
    using P(1,2) arp_peers_live [OF I] by fastforce
  have ip: "ip_addr (arp_cache ?st i) = ip_addr (arp_cache st i)" for i by (simp add: arp_cache_update_fn_def Let_def)
  have a: "age (arp_cache ?st i) = (if arp_live st i \<and> age (arp_cache st i) \<ge> 0 then age (arp_cache st i) + delta else age (arp_cache st i))" for i
    using le [of i] by (auto simp: arp_cache_update_fn_def Let_def arp_live_def arp_consts)
  have live: "arp_live ?st i = arp_live st i" for i using P(3) by (auto simp: arp_live_def a arp_consts)
  have head: "arp_cache_head ?st = arp_cache_head st" by (simp add: arp_cache_update_fn_def)
  show J: "arp_inv lo ?st" using I P(3) unfolding arp_inv_def rb_set_def live ip head a by (auto simp: arp_consts)
  have "ip_addr (arp_cache st i) \<in> P \<and> age (arp_cache ?st i) \<le> T + delta" if "arp_live st i" for i
    using that P(1,3) le [OF that] by (auto simp: arp_peers_live [OF I] a)
  then show "arp_peers P (T + delta) ?st" unfolding arp_peers_live [OF J] live ip by blast
qed

section \<open>The state of the stack\<close>

definition net_safe :: "u32 \<Rightarrow> ip_route set \<Rightarrow> u32 set \<Rightarrow> ether_linux \<Rightarrow> int \<Rightarrow> (udp_table \<Rightarrow> bool) \<Rightarrow> net_state \<Rightarrow> bool" where
  "net_safe lo R P E T U st \<longleftrightarrow> net_ok lo R st \<and> deferred_ok lo (n_defer st) \<and> tcp_ok (n_tcp st) \<and> U (n_udp st) \<and>
     ether_if (n_eth st) = E \<and> peers_ok lo P \<and> 0 \<le> T \<and> arp_peers P T (n_arp st)"

lemma net_safe_errno [simp]: "net_safe lo R P E T U (set_errno e st) = net_safe lo R P E T U st"
  by (simp add: net_safe_def) (simp add: set_errno_def)

lemma net_safe_eth: "net_safe lo R P E T U st \<Longrightarrow> ether_if est = ether_if (n_eth st) \<Longrightarrow> net_safe lo R P E T U (st\<lparr>n_eth := est\<rparr>)"
  by (simp add: net_safe_def net_ok_eth)

lemma net_safe_mono: "net_safe lo R P E T U st \<Longrightarrow> U \<le> U' \<Longrightarrow> net_safe lo R P E T U' st"
  by (auto simp: net_safe_def)

lemma arp_learn_safe:
  assumes "net_safe lo R P E T U st" "ip \<in> insert 0 P"
  obtains st' where "arp_learn ip mac st = Some st'" "net_safe lo R P E T U st'"
proof (cases "ip = 0")
  case True
  then show ?thesis using that [of st] assms(1) by (simp add: arp_learn_def arp_cache_insert_def)
next
  case False
  then have ip: "ip \<in> P" "in_window lo ip" using assms by (auto simp: net_safe_def peers_ok_def)
  have "arp_room (n_arp st) ip" using assms(1) ip(1) by (auto simp: net_safe_def net_ok_def intro: arp_peers_room)
  from arp_learn_ok [OF _ ip(2) this, of R mac] obtain arp where
    "arp_learn ip mac st = Some (st\<lparr>n_arp := arp\<rparr>)" "net_ok lo R (st\<lparr>n_arp := arp\<rparr>)"
    "arp_map arp = (arp_map (n_arp st))(ip \<mapsto> (mac, ARP_CACHE_DYN))"
    using assms(1) by (auto simp: net_safe_def)
  then show ?thesis using that assms(1) ip(1) by (auto simp: net_safe_def arp_peers_def ARP_CACHE_DYN_def split: if_splits)
qed

lemma find_by_iface_any:
  assumes "net_ok lo R st"
  obtains r where "ip_route_find_by_iface addr (n_rib st) = Some r" "\<forall>q. r = Inr q \<longrightarrow> q \<in> R \<and> r_iface q = addr"
    "isl r \<longrightarrow> addr \<notin> r_iface ` R"
proof (cases "addr \<in> r_iface ` R")
  case True
  then show ?thesis using that iface_found [OF assms] by (metis imageE isl_def sum.inject(2) sum.distinct(1))
next
  case False
  obtain S xs where S: "R = rib_route (n_rib st) ` S" "rb_tree (rib_sourcetree (n_rib st)) xs" "set xs = S"
    using assms by (auto simp: net_ok_def rib_holds_def rib_inv_def rb_set_def)
  let ?c = "\<lambda>x. route_iface_cmp (ip_route_zero\<lparr>r_iface := addr\<rparr>) (rib_route (n_rib st) x)"
  obtain e where e: "RB_FIND ?c (rib_sourcetree (n_rib st)) = Some e" "\<forall>x. e = Some x \<longrightarrow> x \<in> set xs \<and> ?c x = 0"
    using rb_tree_find_any [OF S(2)] .
  have "?c x = 0 \<Longrightarrow> r_iface (rib_route (n_rib st) x) = addr" for x by (simp add: route_iface_cmp_def signed_eq_0_iff)
  then have "e = None" using e(2) S(1,3) False by (cases e) auto
  then show ?thesis using that [of "Inl ENOENT"] e(1) False by (simp add: ip_route_find_by_iface_def)
qed

lemma defer_handler_safe:
  assumes "net_safe lo R P E T U st" "sendto_ok sendto"
  obtains st' where "ip_defer_handler sendto st = Some st'" "net_safe lo R P E T U st'"
  using defer_handler_ok [of lo R st sendto] assms unfolding net_safe_def same_net_def by metis

section \<open>Packets\<close>

text \<open>What a UDP datagram \<open>d\<close> does to the sockets: \<open>udp_input\<close> takes it, and leads from \<open>U\<close> to \<open>U'\<close>.\<close>

definition udp_step :: "ip_hdr \<Rightarrow> bytes \<Rightarrow> (udp_table \<Rightarrow> bool) \<Rightarrow> (udp_table \<Rightarrow> bool) \<Rightarrow> bool" where
  "udp_step h d U U' \<longleftrightarrow> (\<forall>u rest. U u \<longrightarrow> (\<exists>r pl u'. udp_input h (d @ rest) (length d) u = Some (r, pl, u') \<and> r \<le> 0 \<and> U' u'))"

text \<open>The datagram in a packet that \<open>ip_input\<close> hands to UDP, and its effect; without one the sockets stay
  as they are.\<close>

definition ip_dgram :: "ip_route set \<Rightarrow> ip_hdr \<Rightarrow> bytes \<Rightarrow> (ip_hdr \<times> bytes) option" where
  "ip_dgram R h packet =
     (if acceptable h (length packet) \<and> ip_dst h \<in> r_iface ` R \<and> ip_proto h = IP_PROTO_UDP then Some (h, drop (ip_hdr_hlen h) packet)
      else None)"

definition dgram_step :: "(ip_hdr \<times> bytes) option \<Rightarrow> (udp_table \<Rightarrow> bool) \<Rightarrow> (udp_table \<Rightarrow> bool) \<Rightarrow> bool" where
  "dgram_step x U U' = (case x of None \<Rightarrow> U \<le> U' | Some (h, d) \<Rightarrow> udp_step h d U U')"

lemma find_proto:
  "find_handler ip_proto_handlers (ucast (ip_proto h)) = Some Udp_input \<Longrightarrow> ip_proto h = IP_PROTO_UDP"
proof -
  assume "find_handler ip_proto_handlers (ucast (ip_proto h)) = Some Udp_input"
  then have "ucast (ip_proto h) = (ucast IP_PROTO_UDP :: u16)"
    by (auto simp: find_handler_def ip_proto_handlers_def split: if_splits)
  moreover have "ucast (ucast x :: u16) = x" for x :: u8 by (rule bit_word_eqI) (simp add: bit_simps)
  ultimately show ?thesis by metis
qed

lemma find_udp: "ip_proto h = IP_PROTO_UDP \<Longrightarrow> find_handler ip_proto_handlers (ucast (ip_proto h)) = Some Udp_input"
  by simp

lemma proto_safe:
  assumes st: "net_safe lo R P E T U st" and p: "find_handler ip_proto_handlers (ucast (ip_proto h)) = Some p"
    and l: "60 \<le> length msg" "bsize \<le> length msg" "bsize \<le> 1500"
    and U: "if ip_proto h = IP_PROTO_UDP then udp_step h (take bsize msg) U U' else U \<le> U'"
  obtains r msg' st' where "ip_proto_fn p h msg bsize st = Some (r, msg', st')" "length msg' = length msg" "r \<le> 1500"
    "net_safe lo R P E T U' st'"
proof -
  have U': "net_safe lo R P E T U' st" if "p \<noteq> Udp_input"
  proof -
    have "ip_proto h \<noteq> IP_PROTO_UDP" using that p find_udp [of h] by auto
    then show ?thesis using net_safe_mono [OF st] U by simp
  qed
  show thesis
  proof (cases p)
    case Icmp_input
    have "8 \<le> length msg" using l(1) by simp
    then obtain r msg' where "icmp_input icmp_zero h msg bsize = Some (r, msg')" "length msg' = length msg" "r \<le> int bsize"
      using icmp_input_safe [OF _ l(2)] by metis
    then show ?thesis using that Icmp_input U' l(3) by simp
  next
    case Tcp_input
    have "tcp_ok (n_tcp st)" using st by (simp add: net_safe_def)
    then obtain r msg' t where "tcp_input h msg bsize (n_tcp st) = Some (r, msg', t)" "length msg' = length msg" "r \<le> 60" "tcp_ok t"
      using tcp_input_safe [OF _ l(1)] by metis
    then show ?thesis using that Tcp_input U' by (simp add: net_safe_def)
  next
    case Udp_input
    then have "udp_step h (take bsize msg) U U'" "U (n_udp st)" using st U find_proto [of h] p by (simp_all add: net_safe_def)
    moreover have "msg = take bsize msg @ drop bsize msg" "length (take bsize msg) = bsize" using l(2) by simp_all
    ultimately obtain r pl u where u: "udp_input h msg bsize (n_udp st) = Some (r, pl, u)" "r \<le> 0" "U' u" unfolding udp_step_def by metis
    then show ?thesis using that Udp_input st udp_input_length [OF u(1)] by (simp add: net_safe_def)
  qed
qed

lemma unreachable_safe:
  assumes "20 \<le> ip_hdr_hlen h" "108 \<le> length rest"
  obtains r mem' where "ip_unreachable code (ip_store h @ rest) (ip_hdr_hlen h) bsize st = Some (r, mem', st)"
    "length mem' = 20 + length rest" "r \<le> 1560"
proof -
  let ?w = "of_nat bsize - of_nat (ip_hdr_hlen h) :: size_t"
  have "unat (umin 8 x) \<le> 8" for x by (simp add: umin_def word_le_nat_alt word_less_nat_alt)
  then have n: "int (unat (umin 8 (ucast ?w))) \<le> 8" by (metis of_nat_le_iff of_nat_numeral)
  have l: "128 \<le> length (ip_store h @ rest)" using assms(2) by simp
  obtain mem' where "icmp_generate_dest_unreachable code (ip_hdr_hlen h) ?w (ip_store h @ rest) = Some (2 * (36 + int (unat (umin 8 (ucast ?w)))) + 20, mem')"
    "length mem' = length (ip_store h @ rest)"
    using icmp_unreachable_ok [OF ip_load_store refl assms(1) l refl, of code ?w] by blast
  then show thesis using that n by (simp add: ip_unreachable_def del: of_nat_unat int_nat_eq)
qed

lemma reply_length:
  assumes "0 < r" "r \<le> 1500"
  shows "int_of_size (word_of_int r + of_nat (ip_hdr_hlen h)) = r + int (ip_hdr_hlen h)"
    "ucast (word_of_int r + of_nat (ip_hdr_hlen h) :: size_t) = (of_nat (nat r + ip_hdr_hlen h) :: u16)"
proof -
  define k where "k = nat r + ip_hdr_hlen h"
  have k: "k \<le> 1560" using assms(2) ip_hdr_hlen_le [of h] by (simp add: k_def)
  have "(word_of_int r + of_nat (ip_hdr_hlen h) :: size_t) = word_of_int (int k)" using assms(1) by (simp add: k_def)
  then have w: "(word_of_int r + of_nat (ip_hdr_hlen h) :: size_t) = of_nat k" by simp
  have "int_of_size (of_nat k) = int k" using k by (subst int_of_size_small) (simp_all add: unat_of_nat)
  then show "int_of_size (word_of_int r + of_nat (ip_hdr_hlen h)) = r + int (ip_hdr_hlen h)" unfolding w using assms(1) by (simp add: k_def)
  show "ucast (word_of_int r + of_nat (ip_hdr_hlen h) :: size_t) = (of_nat (nat r + ip_hdr_hlen h) :: u16)"
    unfolding w k_def [symmetric] by (rule ucast_of_nat16)
qed

lemma reply_safe:
  assumes "20 \<le> ip_hdr_hlen h" "ip_hdr_hlen h \<le> 20 + length rest" "0 < r" "r \<le> 1500"
  obtains len mem where "ip_reply_header (ip_store h @ rest) (word_of_int r) = Some (len, mem)" "length mem = 20 + length rest"
    "0 \<le> int_of_size len" "int_of_size len \<le> 1560"
proof -
  have "ip_hdr_hlen h \<le> length (ip_store h @ rest)" using assms(2) by simp
  from reply_header_ok [OF ip_load_store assms(1) this, of "word_of_int r"] obtain mem m where
    m: "ip_reply_header (ip_store h @ rest) (word_of_int r) = Some (word_of_int r + of_nat (ip_hdr_hlen h), mem)"
    "ip_load mem = Some m" "drop 20 mem = drop 20 (ip_store h @ rest)" by blast
  have "20 \<le> length mem" using m(2) by (auto simp: ip_load_def split: if_splits)
  then have l: "length mem = 20 + length rest" using arg_cong [OF m(3), of length] by simp
  show thesis using that [OF m(1) l] reply_length(1) [OF assms(3,4), of h] assms(3,4) ip_hdr_hlen_le [of h] by simp
qed

lemma ip_deliver_safe:
  assumes st: "net_safe lo R P E T U st" and h: "acceptable h bsize" "ip_hdr_hlen h \<le> bsize"
    and l: "bsize \<le> 1500" "length rest = 1494"
    and U: "if ip_proto h = IP_PROTO_UDP then udp_step h (drop (ip_hdr_hlen h) (take bsize (ip_store h @ rest))) U U' else U \<le> U'"
  obtains r mem' st' where "ip_deliver (ip_store h @ rest) bsize st = Some (r, mem', st')" "length mem' = 1514" "r \<le> 1560"
    "net_safe lo R P E T U' st'"
proof -
  let ?hl = "ip_hdr_hlen h"
  have hl: "20 \<le> ?hl" "?hl \<le> 60" using h(1) ip_hdr_hlen_le [of h] by (simp_all add: acceptable_def)
  define opts msg where "opts = take (?hl - 20) rest" and "msg = drop (?hl - 20) rest"
  have om: "rest = opts @ msg" "length opts = ?hl - 20" "1454 \<le> length msg" using hl l(2) by (simp_all add: opts_def msg_def)
  show thesis
  proof (cases "find_handler ip_proto_handlers (ucast (ip_proto h))")
    case None
    have "108 \<le> length rest" using l(2) by simp
    then obtain r mem' where "ip_unreachable ICMP_CODE_PROTOUNREAC (ip_store h @ rest) ?hl bsize st = Some (r, mem', st)"
      "length mem' = 20 + length rest" "r \<le> 1560" using unreachable_safe [OF hl(1)] by metis
    moreover have "ip_proto h \<noteq> IP_PROTO_UDP" using None find_udp [of h] by auto
    ultimately show ?thesis using that None l(2) net_safe_mono [OF st, of U'] U by (simp add: ip_deliver_def Let_def)
  next
    case (Some p)
    have b: "60 \<le> length msg" "bsize - ?hl \<le> length msg" "bsize - ?hl \<le> 1500" using om l h(2) hl(1) by auto
    have dg: "take (bsize - ?hl) msg = drop ?hl (take bsize (ip_store h @ rest))" using hl(1) h(2) by (simp add: msg_def drop_take min_def)
    obtain r msg' st' where p: "ip_proto_fn p h msg (bsize - ?hl) st = Some (r, msg', st')" "length msg' = length msg" "r \<le> 1500"
      "net_safe lo R P E T U' st'" using proto_safe [OF st Some b U [folded dg]] .
    note d = ip_deliver_to [OF Some h om(2) p(1), folded om(1)]
    have len: "length (opts @ msg') = 1494" using l(2) om(1) p(2) by simp
    consider "r = - ENOTSOCK" | "r \<le> 0" "r \<noteq> - ENOTSOCK" | "r > 0" by linarith
    then show ?thesis
    proof cases
      case 1
      have "108 \<le> length (opts @ msg')" unfolding len by simp
      then obtain k mem' where "ip_unreachable ICMP_CODE_PORTUNREAC (ip_store h @ opts @ msg') ?hl bsize st' = Some (k, mem', st')"
        "length mem' = 20 + length (opts @ msg')" "k \<le> 1560" using unreachable_safe [OF hl(1)] by metis
      then show ?thesis using that d(2) 1 p(4) unfolding len by simp
    next
      case 2
      then show ?thesis using that d(1) p(4) len by simp
    next
      case 3
      have "?hl \<le> 20 + length (opts @ msg')" unfolding len using hl by simp
      then obtain len' mem where r: "ip_reply_header (ip_store h @ opts @ msg') (word_of_int r) = Some (len', mem)"
        "length mem = 20 + length (opts @ msg')" "0 \<le> int_of_size len'" "int_of_size len' \<le> 1560"
        using reply_safe [OF hl(1) _ 3 p(3)] by metis
      then show ?thesis using that [OF d(3) [OF 3 r(1,3)]] p(4) len by simp
    qed
  qed
qed

lemma ip_input_safe:
  assumes st: "net_safe lo R P E T U st" and l: "bsize \<le> 1500" "length rest = 1494"
    and h: "acceptable h bsize \<longrightarrow> ip_hdr_hlen h \<le> bsize \<and> \<not> ip_fragment_is_frag h \<and> ip_src h \<in> insert 0 P"
    and U: "dgram_step (ip_dgram R h (take bsize (ip_store (ip_swap h) @ rest))) U U'"
  obtains r mem' st' where "ip_input 2 sendto (Some e) (ip_store (ip_swap h) @ rest) bsize st = Some (r, mem', st')"
    "length mem' = 1514" "r \<le> 1560" "net_safe lo R P E T U' st'"
proof -
  have b: "length (take bsize (ip_store (ip_swap h) @ rest)) = bsize" using l by simp
  have no: "U \<le> U'" if "\<not> (acceptable h bsize \<and> ip_dst h \<in> r_iface ` R \<and> ip_proto h = IP_PROTO_UDP)"
    using U that unfolding ip_dgram_def dgram_step_def b by auto
  show thesis
  proof (cases "acceptable h bsize")
    case False
    then show ?thesis using that l(2) net_safe_mono [OF st no] by (simp add: numeral_2_eq_2 ip_input_link)
  next
    case True
    then have hl: "20 \<le> ip_hdr_hlen h" "ip_hdr_hlen h \<le> bsize" using h by (simp_all add: acceptable_def)
    obtain s1 where s1: "arp_learn (ip_src h) (h_src e) st = Some s1" "net_safe lo R P E T U s1"
      using arp_learn_safe [OF st] True h by metis
    have "net_ok lo R s1" using s1(2) by (simp add: net_safe_def)
    then obtain q where q: "ip_route_find_by_iface (ip_dst h) (n_rib s1) = Some q" "\<forall>x. q = Inr x \<longrightarrow> x \<in> R \<and> r_iface x = ip_dst h"
      "isl q \<longrightarrow> ip_dst h \<notin> r_iface ` R" by (rule find_by_iface_any)
    show ?thesis
    proof (cases q)
      case (Inl x)
      have "108 \<le> length rest" using l(2) by simp
      then obtain r mem' where "ip_unreachable ICMP_CODE_HOSTUNREAC (ip_store h @ rest) (ip_hdr_hlen h) bsize (set_errno x s1) = Some (r, mem', set_errno x s1)"
        "length mem' = 20 + length rest" "r \<le> 1560" using unreachable_safe [OF hl(1)] by metis
      moreover have "U \<le> U'" using no q(3) Inl by simp
      ultimately show ?thesis using that True s1 q(1) Inl l(2) net_safe_mono [OF s1(2)] by (simp add: numeral_2_eq_2 ip_input_link)
    next
      case (Inr x)
      have "drop (ip_hdr_hlen h) (take bsize (ip_store g @ rest)) = drop (ip_hdr_hlen h - 20) (take (bsize - 20) rest)" for g
        using hl by (simp add: drop_take)
      moreover have "ip_dst h \<in> r_iface ` R" using q(2) Inr by force
      ultimately have "if ip_proto h = IP_PROTO_UDP then udp_step h (drop (ip_hdr_hlen h) (take bsize (ip_store h @ rest))) U U' else U \<le> U'"
        using U True unfolding ip_dgram_def dgram_step_def b by auto
      then obtain r mem' st' where "ip_deliver (ip_store h @ rest) bsize s1 = Some (r, mem', st')" "length mem' = 1514" "r \<le> 1560"
        "net_safe lo R P E T U' st'" using ip_deliver_safe [OF s1(2) True hl(2) l] by metis
      then show ?thesis using that True h s1(1) q(1) Inr by (simp add: numeral_2_eq_2 ip_input_link)
    qed
  qed
qed

lemma arp_answer_safe:
  assumes "length (el_mac (ether_if est)) = 6" "r_iface_handle route = 0" "arp_load payload = Some m"
  obtains payload' where "arp_answer payload m route est = Some (payload', est)" "length payload' = length payload"
proof -
  have l: "28 \<le> length payload" and m: "length (arp_sha m) = 6" using assms(3) by (auto simp: arp_load_def split: if_splits)
  let ?reply = "m\<lparr>arp_oper := htons ARP_OPER_REPLY, arp_sha := el_mac (ether_if est), arp_tha := arp_sha m, arp_tpa := arp_spa m,
    arp_spa := htonl (r_iface route)\<rparr>"
  have "length (arp_store ?reply) = 28" using assms(1) m by (intro length_arp_store) simp_all
  then show thesis using that assms(2) l mem_write_some [of 0 "arp_store ?reply" payload]
    by (auto simp: arp_answer_def ether_handle2addr_def ether_handle2eth_def)
qed

lemma arp_input_safe:
  assumes st: "net_safe lo R P E T U st" "sendto_ok sendto" and m: "arp_load payload = Some m"
    and p: "arp_htype (arp_ntoh m) = ARP_HTYPE_ETHER \<and> arp_ptype (arp_ntoh m) = ETHER_PROTO_IPV4 \<longrightarrow> arp_spa (arp_ntoh m) \<in> insert 0 P"
  obtains r payload' st' where "arp_input sendto payload bsize st = Some (r, payload', st')" "length payload' = length payload"
    "r \<le> int bsize" "net_safe lo R P E T U st'"
proof (cases "arp_htype (arp_ntoh m) = ARP_HTYPE_ETHER \<and> arp_ptype (arp_ntoh m) = ETHER_PROTO_IPV4")
  case False
  then have "arp_input sendto payload bsize st = Some (- EPROTOTYPE, payload, st)" using m by (auto simp: arp_input_def Let_def)
  then show ?thesis using that st(1) by (simp add: EPROTOTYPE_def)
next
  case True
  let ?arp = "arp_ntoh m"
  obtain s1 where s1: "arp_learn (arp_spa ?arp) (arp_sha ?arp) st = Some s1" "net_safe lo R P E T U s1" using arp_learn_safe [OF st(1)] p True by metis
  obtain s2 where s2: "ip_defer_handler sendto s1 = Some s2" "net_safe lo R P E T U s2" using defer_handler_safe [OF s1(2) st(2)] .
  have ok: "net_ok lo R s2" using s2(2) by (simp add: net_safe_def)
  obtain q where q: "ip_route_find_by_iface (arp_tpa ?arp) (n_rib s2) = Some q" "\<forall>x. q = Inr x \<longrightarrow> x \<in> R \<and> r_iface x = arp_tpa ?arp" using find_by_iface_any [OF ok] .
  show ?thesis
  proof (cases "arp_oper ?arp = ARP_OPER_REQUEST")
    case False
    then show ?thesis using that [of 0 payload s2] True m s1 s2 by (simp add: arp_input_def)
  next
    case req: True
    show ?thesis
    proof (cases q)
      case (Inl e)
      then show ?thesis using that [of 0 payload "set_errno e s2"] True m s1 s2 req q(1) by (simp add: arp_input_def)
    next
      case (Inr x)
      then have "r_iface_handle x = 0" "length (el_mac (ether_if (n_eth s2))) = 6" using q(2) ok by (auto simp: net_ok_def)
      then obtain payload' where "arp_answer payload m x (n_eth s2) = Some (payload', n_eth s2)" "length payload' = length payload"
        using arp_answer_safe [OF _ _ m] by metis
      then show ?thesis using that [of "int bsize" payload' s2] True m s1 s2 req q(1) Inr by (simp add: arp_input_def)
    qed
  qed
qed

section \<open>Frames\<close>

text \<open>The parts of a frame as it is received: the kernel cuts it to the size of the buffer.\<close>

definition frame_proto :: "bytes \<Rightarrow> u16" where
  "frame_proto f = ntohs (load16 (f ! 12) (f ! 13))"

definition frame_payload :: "bytes \<Rightarrow> bytes" where
  "frame_payload f = drop ETHER_HEADER_LEN (take ETHER_MAXLEN f)"

definition frame_hdr :: "bytes \<Rightarrow> ip_hdr" where
  "frame_hdr f = ip_swap (the (ip_load (frame_payload f)))"

text \<open>The datagram a frame brings.\<close>

definition frame_dgram :: "ip_route set \<Rightarrow> bytes \<Rightarrow> (ip_hdr \<times> bytes) option" where
  "frame_dgram R f = (if frame_proto f = ETHER_PROTO_IPV4 then ip_dgram R (frame_hdr f) (frame_payload f) else None)"

text \<open>A frame that the code can take: it has the least size of a frame, an IP packet is not a fragment and its
  header is not longer than itself, and its sender, as that of an ARP message, is one of \<open>P\<close>, or zero.\<close>

definition ip_benign :: "u32 set \<Rightarrow> ip_hdr \<Rightarrow> nat \<Rightarrow> bool" where
  "ip_benign P h bsize \<longleftrightarrow> (acceptable h bsize \<longrightarrow> ip_hdr_hlen h \<le> bsize \<and> \<not> ip_fragment_is_frag h \<and> ip_src h \<in> insert 0 P)"

definition arp_benign :: "u32 set \<Rightarrow> arp_ip \<Rightarrow> bool" where
  "arp_benign P arp \<longleftrightarrow> (arp_htype arp = ARP_HTYPE_ETHER \<and> arp_ptype arp = ETHER_PROTO_IPV4 \<longrightarrow> arp_spa arp \<in> insert 0 P)"

definition benign :: "u32 set \<Rightarrow> bytes \<Rightarrow> bool" where
  "benign P f \<longleftrightarrow> ETHER_MINLEN \<le> length f \<and>
     (frame_proto f = ETHER_PROTO_IPV4 \<longrightarrow> ip_benign P (frame_hdr f) (length (frame_payload f))) \<and>
     (frame_proto f = ETHER_PROTO_ARP \<longrightarrow> arp_benign P (arp_ntoh (the (arp_load (frame_payload f)))))"

lemma ip_load_append: "20 \<le> length a \<Longrightarrow> ip_load (a @ rest) = ip_load a"
  by (auto simp: ip_load_def nth_append)

lemma arp_load_append: "28 \<le> length a \<Longrightarrow> arp_load (a @ rest) = arp_load a"
  by (auto simp: arp_load_def nth_append)

lemma ip_store_load: "ip_load b = Some h \<Longrightarrow> b = ip_store h @ drop 20 b"
proof -
  assume a: "ip_load b = Some h"
  then have l: "20 \<le> length b" by (auto simp: ip_load_def split: if_splits)
  have "take 20 b = ip_store h"
  proof (rule nth_equalityI)
    fix i
    assume "i < length (take 20 b)"
    then have "i \<in> {0, 1, 2, 3, 4, 5, 6, 7, 8, 9, 10, 11, 12, 13, 14, 15, 16, 17, 18, 19}" by simp presburger
    then show "take 20 b ! i = ip_store h ! i" using a l by (auto simp: ip_store_def ip_load_def)
  qed (use l in simp)
  then show ?thesis by (metis append_take_drop_id)
qed

lemma reply_out_safe:
  assumes "length buf = 1514" "k \<le> 1560"
  obtains r est' where "ether_output_reply sendto est 0 hdr buf k = Some (r, est')" "ether_if est' = ether_if est"
proof (cases "k \<le> 1500")
  case True
  have m: "mem_read buf 0 k = Some (take k buf)" using assms(1) True by (simp add: mem_read_def)
  have "length (take k buf) \<le> 1500" using True by simp
  then obtain r est' where s: "ether_send sendto est 0 (h_src hdr) (h_proto hdr) (take k buf) = Some (r, est')" "ether_if est' = ether_if est"
    using ether_send_total by metis
  have "\<not> 1500 < max k 56" using True by simp
  then have "ether_output_reply sendto est 0 hdr buf k = Some (if r < 0 then (-1, est'\<lparr>errno := - r\<rparr>) else (r, est'))"
    using m s(1) True by (simp add: ether_output_reply_def frame_size_small ether_consts)
  then show ?thesis using that s(2) by (auto split: if_splits)
next
  case False
  then show ?thesis using that assms(2) by (simp add: ether_output_reply_def frame_size_large ether_consts)
qed

lemma ether_handlers:
  "find_handler ether_proto_handlers p = (if p = ETHER_PROTO_ARP then Some Arp_input else if p = ETHER_PROTO_IPV4 then Some Ip_input else None)"
  by (auto simp: find_handler_def ether_proto_handlers_def ether_consts)

lemma handler_safe:
  assumes st: "net_safe lo R P E T U st" "sendto_ok sendto" and f: "benign P f" "h_proto hdr = frame_proto f" "dgram_step (frame_dgram R f) U U'"
    and l: "length buf = 1514" "take (length (frame_payload f)) buf = frame_payload f"
    and p: "find_handler ether_proto_handlers (frame_proto f) = Some p"
  obtains r buf' st' where "ether_proto_fn sendto p hdr buf (length (frame_payload f)) st = Some (r, buf', st')" "length buf' = 1514"
    "r \<le> 1560" "net_safe lo R P E T U' st'"
proof -
  let ?p = "frame_payload f"
  have len: "46 \<le> length ?p" "length ?p \<le> 1500" using f(1) by (auto simp: benign_def frame_payload_def ether_consts)
  define rest where "rest = drop (length ?p) buf"
  have buf: "buf = ?p @ rest" using l(2) unfolding rest_def by (metis append_take_drop_id)
  consider "p = Arp_input" "frame_proto f = ETHER_PROTO_ARP" | "p = Ip_input" "frame_proto f = ETHER_PROTO_IPV4"
    using p by (auto simp: ether_handlers split: if_splits)
  then show thesis
  proof cases
    case 1
    obtain m where "arp_load ?p = Some m" using len(1) by (simp add: arp_load_def)
    then have m: "arp_load buf = Some m" "arp_benign P (arp_ntoh m)" using f(1) 1(2) len(1) unfolding buf by (simp_all add: arp_load_append benign_def)
    obtain r buf' st' where r: "arp_input sendto buf (length ?p) st = Some (r, buf', st')" "length buf' = length buf" "r \<le> int (length ?p)"
      "net_safe lo R P E T U st'" using arp_input_safe [OF st m [unfolded arp_benign_def]] .
    have "U \<le> U'" using f(3) 1(2) by (simp add: frame_dgram_def dgram_step_def ether_consts)
    then have "net_safe lo R P E T U' st'" using net_safe_mono [OF r(4)] by simp
    then show ?thesis using that [of r buf' st'] r len(2) l(1) 1(1) by simp
  next
    case 2
    obtain m where m: "ip_load ?p = Some m" using len(1) by (simp add: ip_load_def)
    then have "ip_load buf = Some m" using len(1) unfolding buf by (simp add: ip_load_append)
    then have b: "buf = ip_store (ip_swap (frame_hdr f)) @ drop 20 buf" using ip_store_load m by (simp add: frame_hdr_def)
    have d: "length (drop 20 buf) = 1494" using l(1) by simp
    have u: "dgram_step (ip_dgram R (frame_hdr f) (take (length ?p) (ip_store (ip_swap (frame_hdr f)) @ drop 20 buf))) U U'"
      using f(3) 2(2) l(2) unfolding b [symmetric] by (simp add: frame_dgram_def)
    have "ip_benign P (frame_hdr f) (length ?p)" using f(1) 2(2) by (simp add: benign_def)
    then obtain r buf' st' where "ip_input 2 sendto (Some hdr) (ip_store (ip_swap (frame_hdr f)) @ drop 20 buf) (length ?p) st = Some (r, buf', st')"
      "length buf' = 1514" "r \<le> 1560" "net_safe lo R P E T U' st'" using ip_input_safe [OF st(1) len(2) d _ u] unfolding ip_benign_def by metis
    then show ?thesis using that 2(1) unfolding b [symmetric] by simp
  qed
qed

lemma ingress_frame_safe:
  assumes st: "net_safe lo R P E T U (net st)" "sendto_ok sendto" "ether_handle st = 0"
    and f: "benign P f" "h_proto hdr = frame_proto f" "dgram_step (frame_dgram R f) U U'"
    and l: "length (rx_buffer st) = 1514" "take (length (frame_payload f)) (rx_buffer st) = frame_payload f"
  obtains buf' n' where "ingress_frame sendto hdr (length (frame_payload f)) st = Some (st\<lparr>rx_buffer := buf', net := n'\<rparr>)"
    "length buf' = 1514" "net_safe lo R P E T U' n'"
proof -
  let ?k = "length (frame_payload f)"
  obtain r buf' n1 where r: "ether_input ether_proto_handlers (ether_proto_fn sendto) set_errno hdr (rx_buffer st) ?k (net st) = Some (r, buf', n1)"
    "length buf' = 1514" "r \<le> 1560" "net_safe lo R P E T U' n1"
  proof (cases "find_handler ether_proto_handlers (frame_proto f)")
    case None
    then have "frame_proto f \<noteq> ETHER_PROTO_IPV4" by (auto simp: ether_handlers split: if_splits)
    then have "U \<le> U'" using f(3) by (simp add: frame_dgram_def dgram_step_def)
    then show thesis using that None l(1) f(2) net_safe_mono [OF st(1)] by (simp add: ether_input_def)
  next
    case (Some p)
    obtain r buf' s where "ether_proto_fn sendto p hdr (rx_buffer st) ?k (net st) = Some (r, buf', s)" "length buf' = 1514"
      "r \<le> 1560" "net_safe lo R P E T U' s" using handler_safe [OF st(1,2) f l Some] .
    then show thesis using that [of "if r < 0 then -1 else r" buf' "if r < 0 then set_errno (- r) s else s"] Some f(2)
      by (simp add: ether_input_def)
  qed
  have "nat r \<le> 1560" using r(3) by simp
  then obtain k est where k: "ether_output_reply sendto (n_eth n1) 0 hdr buf' (nat r) = Some (k, est)" "ether_if est = ether_if (n_eth n1)"
    using reply_out_safe [OF r(2)] by metis
  show thesis
  proof (cases "r > 0")
    case True
    then show ?thesis using that [of "n1\<lparr>n_eth := est\<rparr>" buf'] r k st(3) net_safe_eth [OF r(4) k(2)] by (simp add: ingress_frame_def)
  next
    case False
    then show ?thesis using that [of n1 buf'] r by (simp add: ingress_frame_def)
  qed
qed

section \<open>The thread\<close>

text \<open>What the link delivers: errors and frames. The frames of our own address are skipped.\<close>

definition from_others :: "ether_linux \<Rightarrow> int + bytes \<Rightarrow> bool" where
  "from_others E ev = (case ev of Inl _ \<Rightarrow> True | Inr f \<Rightarrow> take 6 (drop 6 f) \<noteq> el_mac E)"

definition event_ok :: "u32 set \<Rightarrow> int + bytes \<Rightarrow> bool" where
  "event_ok P ev = (case ev of Inl _ \<Rightarrow> True | Inr f \<Rightarrow> benign P f)"

text \<open>The datagram an event brings.\<close>

definition event_dgram :: "ip_route set \<Rightarrow> int + bytes \<Rightarrow> (ip_hdr \<times> bytes) option" where
  "event_dgram R ev = (case ev of Inl _ \<Rightarrow> None | Inr f \<Rightarrow> frame_dgram R f)"

text \<open>The stack: \<open>t0\<close> is the time from which the ages of the entries count.\<close>

definition stack_safe :: "u32 \<Rightarrow> ip_route set \<Rightarrow> u32 set \<Rightarrow> ether_linux \<Rightarrow> int \<Rightarrow> (udp_table \<Rightarrow> bool) \<Rightarrow> stack \<Rightarrow> bool" where
  "stack_safe lo R P E t0 U st \<longleftrightarrow> net_safe lo R P E (timer_start st - t0) U (net st) \<and> ether_handle st = 0 \<and> length (rx_buffer st) = 1514"

lemma recv_next:
  assumes "\<forall>ev \<in> set evs. event_ok P ev" "filter (from_others E) evs = e # es"
  obtains evs' where "ether_recv_loop (el_mac E) evs = Some (map_sum id (take 1514) e, evs')" "filter (from_others E) evs' = es"
    "set evs' \<subseteq> set evs" "event_ok P e"
proof -
  have "\<exists>evs'. ether_recv_loop (el_mac E) evs = Some (map_sum id (take 1514) e, evs') \<and> filter (from_others E) evs' = es \<and>
      set evs' \<subseteq> set evs \<and> event_ok P e"
    using assms
  proof (induction evs)
    case (Cons ev evs)
    show ?case
    proof (cases ev)
      case (Inl x)
      then show ?thesis using Cons.prems by (auto simp: from_others_def)
    next
      case (Inr f)
      have l: "60 \<le> length f" using Cons.prems(1) Inr by (auto simp: event_ok_def benign_def ether_consts)
      have t: "take 6 (drop 6 (take 1514 f)) = take 6 (drop 6 f)" using l by (simp add: drop_take min_def)
      show ?thesis
      proof (cases "take 6 (drop 6 f) = el_mac E")
        case True
        moreover have "\<not> length (take 1514 f) < 14" using l by simp
        ultimately have "ether_recv_loop (el_mac E) (ev # evs) = ether_recv_loop (el_mac E) evs" using t Inr by (simp add: ether_consts Let_def del: length_take)
        moreover have "filter (from_others E) evs = e # es" using Cons.prems(2) Inr True by (simp add: from_others_def [of E "Inr f"])
        then obtain evs' where "ether_recv_loop (el_mac E) evs = Some (map_sum id (take 1514) e, evs')" "filter (from_others E) evs' = es"
          "set evs' \<subseteq> set evs" "event_ok P e" using Cons.IH Cons.prems(1) by (auto simp: id_def)
        ultimately show ?thesis by (auto simp: id_def)
      next
        case False
        have "14 \<le> length f" using l by simp
        from ether_recv_one [OF this False, of evs] show ?thesis using Cons.prems Inr False by (auto simp: from_others_def)
      qed
    qed
  qed simp
  then show thesis using that by blast
qed

lemma receive_any:
  assumes h: "ether_handle st = 0" "length (rx_buffer st) = 1514" "ether_if (n_eth (net st)) = E" and e: "\<forall>ev \<in> set evs. event_ok P ev" "filter (from_others E) evs = e # es"
  obtains r hdr buf evs' est where "ether_receive evs (n_eth (net st)) (ether_handle st) (rx_buffer st) = Some (r, hdr, buf, evs', est)"
    "filter (from_others E) evs' = es" "set evs' \<subseteq> set evs" "length buf = 1514" "ether_if est = ether_if (n_eth (net st))"
    "case e of Inl _ \<Rightarrow> r \<le> 0 | Inr f \<Rightarrow> benign P f \<and> r = int (length (frame_payload f)) \<and>
       take (length (frame_payload f)) buf = frame_payload f \<and> (\<exists>h. hdr = Some h \<and> h_proto h = frame_proto f)"
proof -
  obtain evs' where ev: "ether_recv_loop (el_mac E) evs = Some (map_sum id (take 1514) e, evs')" "filter (from_others E) evs' = es"
    "set evs' \<subseteq> set evs" "event_ok P e" using recv_next [OF e] .
  show thesis
  proof (cases e)
    case (Inl x)
    then show ?thesis using that [OF _ ev(2,3) h(2)] ev(1) h by (simp add: ether_receive_def ether_handle2eth_def)
  next
    case (Inr f)
    let ?p = "frame_payload f"
    have b: "benign P f" "60 \<le> length f" using ev(4) Inr by (auto simp: event_ok_def benign_def ether_consts)
    have p: "drop 14 (take 1514 f) = ?p" "length ?p \<le> 1500" "length (take 1514 f) - 14 = length ?p"
      by (simp_all add: frame_payload_def ether_consts)
    have "unat (umin (of_nat (length ?p)) (of_nat 1514)) = length ?p"
      using p(2) by (simp add: umin_def word_less_nat_alt unat_of_nat)
    moreover have "mem_write (rx_buffer st) 0 ?p = Some (?p @ drop (length ?p) (rx_buffer st))" using p(2) h(2) by (simp add: mem_write_def)
    moreover have "ntohs (load16 (take 1514 f ! 12) (take 1514 f ! 13)) = frame_proto f" using b(2) by (simp add: frame_proto_def)
    ultimately have "ether_receive evs (n_eth (net st)) (ether_handle st) (rx_buffer st) = Some (int (length ?p),
        Some \<lparr>h_dst = take 6 (take 1514 f), h_src = take 6 (drop 6 (take 1514 f)), h_proto = frame_proto f\<rparr>,
        ?p @ drop (length ?p) (rx_buffer st), evs', n_eth (net st))"
      using ev(1) h Inr p by (simp add: ether_receive_def ether_handle2eth_def ether_consts Let_def del: length_take drop_take take_take)
    then show ?thesis using that ev(2,3) h(2) b(1) p(2) Inr by simp
  qed
qed

lemma receive_safe:
  assumes st: "stack_safe lo R P E t0 U st" and e: "\<forall>ev \<in> set evs. event_ok P ev" "filter (from_others E) evs = e # es"
  obtains r hdr buf evs' est where "ether_receive evs (n_eth (net st)) (ether_handle st) (rx_buffer st) = Some (r, hdr, buf, evs', est)"
    "filter (from_others E) evs' = es" "set evs' \<subseteq> set evs" "length buf = 1514" "ether_if est = ether_if (n_eth (net st))"
    "case e of Inl _ \<Rightarrow> r \<le> 0 | Inr f \<Rightarrow> benign P f \<and> r = int (length (frame_payload f)) \<and>
       take (length (frame_payload f)) buf = frame_payload f \<and> (\<exists>h. hdr = Some h \<and> h_proto h = frame_proto f)"
proof -
  have "ether_handle st = 0" "length (rx_buffer st) = 1514" "ether_if (n_eth (net st)) = E" using st by (simp_all add: stack_safe_def net_safe_def)
  then show thesis using receive_any [OF _ _ _ e] that by blast
qed

lemma tasks_safe:
  assumes "net_safe lo R P E T U st" "sendto_ok sendto" "T \<le> ARP_CACHE_AGE_MAX" "0 \<le> delta"
  obtains st' where "run_periodic_tasks sendto delta st = Some st'" "net_safe lo R P E (T + delta) U st'"
proof -
  let ?st = "st\<lparr>n_arp := arp_cache_update_fn delta (n_arp st)\<rparr>"
  have a: "arp_inv lo (n_arp st)" "arp_peers P T (n_arp st)" using assms(1) by (simp_all add: net_safe_def net_ok_def)
  have s: "net_safe lo R P E (T + delta) U ?st"
    using assms(1,4) arp_update_safe [OF a assms(3,4)] by (auto simp: net_safe_def net_ok_def)
  obtain st' where "ip_defer_handler sendto ?st = Some st'" "net_safe lo R P E (T + delta) U st'"
    using defer_handler_safe [OF s assms(2)] .
  then show thesis using that by (simp add: run_periodic_tasks_def xstack_periodic_tasks_def)
qed

lemma timer_safe:
  assumes st: "stack_safe lo R P E t0 U st" "sendto_ok sendto" "timer_start st - t0 \<le> ARP_CACHE_AGE_MAX"
    and e: "eval_timer now st = (tick, st1)"
  obtains st' where "(if tick then do { n \<leftarrow> run_periodic_tasks sendto (delta_time st1) (net st1); Some (st1\<lparr>net := n\<rparr>) } else Some st1) = Some st'"
    "stack_safe lo R P E t0 U st'" "timer_start st' \<in> {timer_start st, now}"
proof (cases tick)
  case True
  then have st1: "st1 = st\<lparr>delta_time := now - timer_start st, timer_start := now\<rparr>" "0 \<le> now - timer_start st"
    using e by (auto simp: eval_timer_def Let_def XSTACK_PERIODIC_EVENT_SEC_def split: if_splits)
  have "net_safe lo R P E (timer_start st - t0) U (net st)" using st(1) by (simp add: stack_safe_def)
  then obtain s where "run_periodic_tasks sendto (now - timer_start st) (net st) = Some s"
    "net_safe lo R P E (timer_start st - t0 + (now - timer_start st)) U s" using tasks_safe [OF _ st(2,3) st1(2)] by metis
  then show ?thesis using that [of "st1\<lparr>net := s\<rparr>"] True st(1) st1(1) by (simp add: stack_safe_def)
next
  case False
  then show ?thesis using that [of st1] st(1) e by (auto simp: eval_timer_def Let_def stack_safe_def split: if_splits)
qed

lemma ingress_turn_safe:
  assumes st: "stack_safe lo R P E t0 U st" "sendto_ok sendto" "timer_start st - t0 \<le> ARP_CACHE_AGE_MAX"
    and e: "\<forall>ev \<in> set evs. event_ok P ev" "filter (from_others E) evs = e # es" "dgram_step (event_dgram R e) U U'"
  obtains evs' st' where "ingress_turn sendto now evs st = Some (evs', st')" "filter (from_others E) evs' = es" "set evs' \<subseteq> set evs"
    "stack_safe lo R P E t0 U' st'" "timer_start st' \<in> {timer_start st, now}"
proof -
  obtain r hdr buf evs' est where r: "ether_receive evs (n_eth (net st)) (ether_handle st) (rx_buffer st) = Some (r, hdr, buf, evs', est)"
    "filter (from_others E) evs' = es" "set evs' \<subseteq> set evs" "length buf = 1514" "ether_if est = ether_if (n_eth (net st))"
    "case e of Inl _ \<Rightarrow> r \<le> 0 | Inr f \<Rightarrow> benign P f \<and> r = int (length (frame_payload f)) \<and>
       take (length (frame_payload f)) buf = frame_payload f \<and> (\<exists>h. hdr = Some h \<and> h_proto h = frame_proto f)"
    using receive_safe [OF st(1) e(1,2)] .
  let ?st = "st\<lparr>rx_buffer := buf, net := (net st)\<lparr>n_eth := est\<rparr>\<rparr>"
  have s: "net_safe lo R P E (timer_start st - t0) U (net ?st)" "ether_handle ?st = 0"
    using st(1) r(5) net_safe_eth by (auto simp: stack_safe_def)
  obtain st1 where st1: "(if r > 0 then do { hdr \<leftarrow> hdr; ingress_frame sendto hdr (nat r) ?st } else Some ?st) = Some st1"
    "stack_safe lo R P E t0 U' st1" "timer_start st1 = timer_start st"
  proof (cases e)
    case (Inl x)
    then have "U \<le> U'" using e(3) by (simp add: event_dgram_def dgram_step_def)
    then show thesis using that [of ?st] Inl r(4,6) s net_safe_mono [OF s(1)] by (simp add: stack_safe_def)
  next
    case (Inr f)
    then obtain h where f: "benign P f" "r = int (length (frame_payload f))" "take (length (frame_payload f)) (rx_buffer ?st) = frame_payload f"
      "hdr = Some h" "h_proto h = frame_proto f" using r(6) by auto
    have c: "dgram_step (frame_dgram R f) U U'" "length (rx_buffer ?st) = 1514" using r(4) e(3) Inr by (simp_all add: event_dgram_def)
    obtain buf' n' where "ingress_frame sendto h (length (frame_payload f)) ?st = Some (?st\<lparr>rx_buffer := buf', net := n'\<rparr>)"
      "length buf' = 1514" "net_safe lo R P E (timer_start st - t0) U' n'"
      using ingress_frame_safe [OF s(1) st(2) s(2) f(1,5) c f(3)] .
    moreover have "r > 0" using f(1,2) by (auto simp: benign_def frame_payload_def ether_consts)
    ultimately show thesis using that [of "?st\<lparr>rx_buffer := buf', net := n'\<rparr>"] f(2,4) s(2) by (simp add: stack_safe_def)
  qed
  obtain tick st2 where tick: "eval_timer now st1 = (tick, st2)" by fastforce
  have "timer_start st1 - t0 \<le> ARP_CACHE_AGE_MAX" using st(3) st1(3) by simp
  then obtain st' where "(if tick then do { n \<leftarrow> run_periodic_tasks sendto (delta_time st2) (net st2); Some (st2\<lparr>net := n\<rparr>) } else Some st2) = Some st'"
    "stack_safe lo R P E t0 U' st'" "timer_start st' \<in> {timer_start st1, now}"
    using timer_safe [OF st1(2) st(2) _ tick] by metis
  then show thesis using that r(1-3) st1(1,3) tick by (simp add: ingress_turn_def Let_def)
qed

text \<open>The datagrams among the events, in order.\<close>

definition dgrams :: "ip_route set \<Rightarrow> (int + bytes) list \<Rightarrow> (ip_hdr \<times> bytes) list" where
  "dgrams R evs = List.map_filter (event_dgram R) evs"

lemma dgrams_simps [simp]:
  "dgrams R [] = []" "dgrams R (e # es) = (case event_dgram R e of None \<Rightarrow> [] | Some x \<Rightarrow> [x]) @ dgrams R es"
  "dgrams R (es @ es') = dgrams R es @ dgrams R es'"
  by (simp_all add: dgrams_def List.map_filter_simps List.map_filter_def split: option.splits)

lemma event_dgram_length: "event_dgram R e = Some (h, d) \<Longrightarrow> length d \<le> 1500"
  by (auto simp: event_dgram_def frame_dgram_def ip_dgram_def frame_payload_def ether_consts split: sum.splits if_splits)

lemma room_step: "dgram_step (event_dgram R e) (udp_room (length (dgrams R (e # es)))) (udp_room (length (dgrams R es)))"
proof (cases "event_dgram R e")
  case (Some x)
  obtain h d where x: "x = (h, d)" by (cases x)
  then have d: "length d \<le> 1500" using Some event_dgram_length by blast
  have "udp_step h d (udp_room (Suc n)) (udp_room n)" for n
    unfolding udp_step_def using udp_input_safe [of n _ "length d" "d @ _" h] d by (metis le_add1 length_append)
  then show ?thesis using Some x by (simp add: dgram_step_def)
qed (simp add: dgram_step_def)

lemma ingress_thread_safe:
  assumes "stack_safe lo R P E t0 (udp_room (length (dgrams R (filter (from_others E) evs)))) st" "sendto_ok sendto"
    "timer_start st - t0 \<le> ARP_CACHE_AGE_MAX" "\<forall>ev \<in> set evs. event_ok P ev"
    "length turns \<le> length (filter (from_others E) evs)" "\<forall>turn \<in> set turns. fst turn - t0 \<le> ARP_CACHE_AGE_MAX"
  shows "\<exists>ended evs' st' k. xstack_ingress_thread sendto turns evs st = Some (ended, evs', st') \<and>
    ended = (XSTACK_DYING \<in> set (seen_states (get_state st) (map snd turns))) \<and> filter (from_others E) evs' = drop k (filter (from_others E) evs) \<and>
    stack_safe lo R P E t0 (udp_room (length (dgrams R (filter (from_others E) evs')))) st'"
  using assms
proof (induction turns arbitrary: evs st)
  case Nil
  then show ?case by (auto intro: exI [of _ 0])
next
  case (Cons turn turns)
  obtain now other where turn: "turn = (now, other)" by (cases turn)
  obtain e es where e: "filter (from_others E) evs = e # es" using Cons.prems(5) by (cases "filter (from_others E) evs") auto
  have s: "stack_safe lo R P E t0 (udp_room (length (dgrams R (e # es)))) st" using Cons.prems(1) e by simp
  obtain evs' st' where t: "ingress_turn sendto now evs st = Some (evs', st')" "filter (from_others E) evs' = es"
    "set evs' \<subseteq> set evs" "stack_safe lo R P E t0 (udp_room (length (dgrams R es))) st'" "timer_start st' \<in> {timer_start st, now}"
    using ingress_turn_safe [OF s Cons.prems(2) _ Cons.prems(4) e room_step] Cons.prems(3) by metis
  let ?st = "other_writes other st'" and ?s = "case other of None \<Rightarrow> get_state st | Some s \<Rightarrow> s"
  have o: "stack_safe lo R P E t0 U ?st = stack_safe lo R P E t0 U st'" "timer_start ?st = timer_start st'" for U
    by (simp_all add: other_writes_def stack_safe_def set_state_def split: option.splits)
  have seen: "get_state ?st = ?s"
    using ingress_turn_state [OF t(1)] by (simp add: other_writes_def get_state_def set_state_def split: option.splits)
  show ?case
  proof (cases "?s = XSTACK_DYING")
    case True
    then show ?thesis using t turn seen e o(1) by (auto intro!: exI [of _ 1])
  next
    case False
    have "timer_start ?st - t0 \<le> ARP_CACHE_AGE_MAX" using t(5) o(2) Cons.prems(3,6) turn by auto
    moreover have ev: "\<forall>ev \<in> set evs'. event_ok P ev" using t(3) Cons.prems(4) by blast
    moreover have "length turns \<le> length es" using Cons.prems(5) e by simp
    ultimately obtain ended evs2 st2 k where "xstack_ingress_thread sendto turns evs' ?st = Some (ended, evs2, st2)"
      "ended = (XSTACK_DYING \<in> set (seen_states (get_state ?st) (map snd turns)))" "filter (from_others E) evs2 = drop k es"
      "stack_safe lo R P E t0 (udp_room (length (dgrams R (filter (from_others E) evs2)))) st2"
      using Cons.IH [of evs' ?st] ev t(2,4) Cons.prems(2,6) o(1) by auto
    then show ?thesis using t(1) turn seen e False by (auto simp: Let_def intro!: exI [of _ "Suc k"])
  qed
qed

text \<open>C7: The ingress thread does not run into undefined behaviour, and keeps the whole stack consistent: the
  routing trees, the ARP cache and its tree, the ring of deferred packets, the connections and the
  queues of the sockets. This holds for any number of turns, any frames from the senders \<open>P\<close> that are not fragments and whose
  header is not longer than the packet, with any other bytes in them, any errors of the link and any readings of the clock before the first
  entry of the cache gets too old, as long as the queues have room for the datagrams among the frames. The
  thread ends in the turn that reads \<^verbatim>\<open>XSTACK_DYING\<close>, whether it was the state before or another thread has
  written it, and not before.\<close>

theorem ingress_thread_never_stuck:
  assumes "stack_safe lo R P E t0 (udp_room (length (dgrams R (filter (from_others E) evs)))) st" "sendto_ok sendto"
    "timer_start st - t0 \<le> ARP_CACHE_AGE_MAX" "\<forall>ev \<in> set evs. event_ok P ev"
    "length turns \<le> length (filter (from_others E) evs)" "\<forall>turn \<in> set turns. fst turn - t0 \<le> ARP_CACHE_AGE_MAX"
  shows "\<exists>ended evs' st' k. xstack_ingress_thread sendto turns evs st = Some (ended, evs', st') \<and>
    ended = (XSTACK_DYING \<in> set (seen_states (get_state st) (map snd turns))) \<and> filter (from_others E) evs' = drop k (filter (from_others E) evs) \<and>
    stack_safe lo R P E t0 (udp_room (length (dgrams R (filter (from_others E) evs')))) st'"
  by (rule ingress_thread_safe [OF assms])

definition example_if :: ether_linux where
  "example_if = \<lparr>el_fd = 3, el_mac = replicate 6 2, el_if_idx = \<lparr>ifr_name = ''eth0'', ifr_ifindex = 2\<rparr>\<rparr>"

definition example_frame :: "u8 \<Rightarrow> bytes \<Rightarrow> bytes" where
  "example_frame proto data = replicate 6 2 @ replicate 6 8 @ store16 (htons ETHER_PROTO_IPV4) @
     ip_store (ip_swap (example_ping\<lparr>ip_proto := proto, ip_len := 46\<rparr>)) @ data @ replicate (26 - length data) 1"

definition example_events :: "(int + bytes) list" where
  "example_events = [Inl EAGAIN, Inr (example_frame IP_PROTO_ICMP [8, 0]), Inr (example_frame IP_PROTO_UDP [0, 9, 0, 10]),
     Inr (example_frame IP_PROTO_TCP [1, 2, 3])]"

lemma example_frame_parts:
  assumes "length data \<le> 26"
  shows "frame_payload (example_frame proto data) = ip_store (ip_swap (example_ping\<lparr>ip_proto := proto, ip_len := 46\<rparr>)) @ data @ replicate (26 - length data) 1"
    "frame_hdr (example_frame proto data) = example_ping\<lparr>ip_proto := proto, ip_len := 46\<rparr>"
    "frame_proto (example_frame proto data) = ETHER_PROTO_IPV4" "length (example_frame proto data) = 60"
proof -
  show l: "length (example_frame proto data) = 60" using assms by (simp add: example_frame_def)
  show p: "frame_payload (example_frame proto data) = ip_store (ip_swap (example_ping\<lparr>ip_proto := proto, ip_len := 46\<rparr>)) @ data @ replicate (26 - length data) 1"
    using l unfolding frame_payload_def by (simp add: ether_consts) (simp add: example_frame_def)
  show "frame_hdr (example_frame proto data) = example_ping\<lparr>ip_proto := proto, ip_len := 46\<rparr>" unfolding frame_hdr_def p by simp
  show "frame_proto (example_frame proto data) = ETHER_PROTO_IPV4"
    by (simp add: frame_proto_def example_frame_def nth_append store16_def load16_parts)
qed

lemma example_frame_ok:
  assumes "length data \<le> 26"
  shows "event_ok {0x0a000000} (Inr (example_frame proto data))" "from_others example_if (Inr (example_frame proto data))"
    "event_dgram {example_route} (Inr (example_frame proto data)) =
      (if proto = IP_PROTO_UDP then Some (example_ping\<lparr>ip_proto := proto, ip_len := 46\<rparr>, data @ replicate (26 - length data) 1) else None)"
  using example_frame_parts [OF assms, of proto] assms
  by (simp_all add: event_ok_def benign_def ip_benign_def from_others_def event_dgram_def frame_dgram_def ip_dgram_def acceptable_def
      example_route_def ether_consts ip_hdr_hlen_def ip_fragment_is_frag_def IP_FLAGS_MF_def example_ping_def)
    (simp_all add: example_frame_def example_if_def)

lemma example_events_ok:
  "\<forall>ev \<in> set example_events. event_ok {0x0a000000} ev" "filter (from_others example_if) example_events = example_events"
  "length (dgrams {example_route} example_events) = 1"
proof -
  have "event_dgram R (Inl x) = None" for R x by (simp add: event_dgram_def)
  then show "length (dgrams {example_route} example_events) = 1"
    unfolding example_events_def by (simp add: example_frame_ok ip_consts)
qed (simp_all add: example_events_def example_frame_ok event_ok_def [of _ "Inl _"] from_others_def [of _ "Inl _"] ip_consts)

lemma example_safe:
  assumes "U ud"
  obtains st where "stack_safe 0 {example_route} {0x0a000000} example_if 0 U st" "timer_start st = 0"
proof -
  obtain rib arp where n: "net_ok 0 {example_route} (net_boot\<lparr>n_rib := rib, n_arp := arp\<rparr>)" by (rule example_net)
  let ?n = "net_boot\<lparr>n_rib := rib, n_udp := ud\<rparr>"
  have "tcp_ok tcp_boot" using rb_tree_init [of "tcp_conn_map tcp_boot"] by (auto simp: tcp_ok_def tcp_boot_def RB_INIT_def)
  moreover have "arp_map arp_fresh ip = None" for ip by (simp add: arp_map_def arp_slot_None arp_live_def arp_fresh_def)
  moreover have "net_ok 0 {example_route} ?n" using n arp_fresh_inv by (simp add: net_ok_def net_boot_def)
  moreover have "deferred_ok 0 (n_defer ?n)" 
    by (simp add: deferred_ok_def net_boot_def defer_wf_def defer_slots_def defer_count_def XSTACK_IP_DEFER_MAX_def)
  ultimately have "net_safe 0 {example_route} {0x0a000000} example_if 0 U ?n" using assms
    by (simp add: net_safe_def net_boot_def example_if_def arp_peers_def peers_ok_def in_window_def XSTACK_ARP_CACHE_SIZE_def)
  then show thesis using that [of "stack_boot\<lparr>net := ?n\<rparr>"] by (simp add: stack_safe_def stack_boot_def)
qed

lemma example_room:
  obtains ud where "udp_room 1 ud"
proof -
  have "sock_proto (sockets udp_boot 0) = XIP_PROTO_UDP" by (simp add: udp_boot_def example_sock_def)
  then obtain ud where ud: "udp_inv ud {0}" "pending (sock_shmem (sockets ud 0)) []"
    by (rule xstack_init_ok [OF udp_inv_boot, of "\<lambda>_. True" 1]) (use example_port in \<open>simp_all add: sock_consts\<close>)
  show thesis by (rule that [of ud]) (use ud in \<open>auto simp: udp_room_def intro!: exI [of _ "{0}"]\<close>)
qed

lemma ingress_thread_never_stuck_witness:
  "\<exists>st evs' st'. stack_safe 0 {example_route} {0x0a000000} example_if 0 (udp_room 1) st \<and>
     xstack_ingress_thread (\<lambda>w f. Inr 0) [(5, None), (20, Some XSTACK_RUNNING), (25, None), (70000, Some XSTACK_DYING)] example_events st =
       Some (True, evs', st')"
proof -
  let ?turns = "[(5, None), (20, Some XSTACK_RUNNING), (25, None), (70000 :: int, Some XSTACK_DYING)]"
  let ?sendto = "\<lambda>(w :: bytes list) (f :: bytes). Inr 0 :: int + int"
  obtain st where st: "stack_safe 0 {example_route} {0x0a000000} example_if 0 (udp_room 1) st" "timer_start st = 0"
    by (rule example_room) (rule example_safe)
  have "stack_safe 0 {example_route} {0x0a000000} example_if 0
      (udp_room (length (dgrams {example_route} (filter (from_others example_if) example_events)))) st"
    using st(1) unfolding example_events_ok by simp
  moreover have "sendto_ok ?sendto" by (simp add: sendto_ok_def)
  moreover have "timer_start st - 0 \<le> ARP_CACHE_AGE_MAX" "\<forall>turn \<in> set ?turns. fst turn - 0 \<le> ARP_CACHE_AGE_MAX"
    using st(2) by (simp_all add: ARP_CACHE_AGE_MAX_def)
  moreover have "length ?turns \<le> length (filter (from_others example_if) example_events)"
    unfolding example_events_ok by (simp add: example_events_def)
  ultimately have "\<exists>evs' st'. xstack_ingress_thread ?sendto ?turns example_events st = Some (True, evs', st')"
    using ingress_thread_never_stuck [of 0 "{example_route}" "{0x0a000000}" example_if 0 example_events st ?sendto ?turns]
      example_events_ok(1) by auto
  then show ?thesis using st(1) by blast
qed

text \<open>What is excluded does happen: \<^verbatim>\<open>ip_input\<close> does not compare the header length with the length of the packet, so
  the size of the message is nearly \<open>2 ^ 64\<close>, and an echo request makes the code read far outside the buffer.\<close>

lemma long_header_leaves_buffer:
  assumes "acceptable h bsize" "bsize < ip_hdr_hlen h" "ip_proto h = IP_PROTO_ICMP" "20 + length rest < 2 ^ 63"
    "icmp_load (drop (ip_hdr_hlen h) (ip_store h @ rest)) = Some m" "icmp_type m = ICMP_TYPE_ECHO_REQUEST"
  shows "ip_deliver (ip_store h @ rest) bsize st = None"
proof -
  let ?w = "of_nat bsize - of_nat (ip_hdr_hlen h) :: size_t"
  define k where "k = ip_hdr_hlen h - bsize"
  have k: "0 < k" "k \<le> 60" using assms(2) ip_hdr_hlen_le [of h] by (simp_all add: k_def)
  have "?w = - of_nat k" using assms(2) by (simp add: k_def)
  moreover have "uint (- of_nat k :: size_t) = 2 ^ 64 - int k" using k
    by (simp add: word_uint_eq_iff uint_word_ariths unsigned_of_nat take_bit_nat_eq_self zmod_zminus1_eq_if)
  ultimately have "2 ^ 63 \<le> unat ?w" using k by (simp add: unat_eq_nat_uint)
  then have big: "\<not> unat ?w < 8" "length (drop (ip_hdr_hlen h) (ip_store h @ rest)) < unat ?w" using assms(4) by simp_all
  have "mem_read b 0 n = None" if "mem_write a 0 x = Some b" "length a < n" for a b n x
    using length_mem_write [OF that(1)] that(2) by (simp add: mem_read_def)
  then have "icmp_input icmp_zero h (drop (ip_hdr_hlen h) (ip_store h @ rest)) (unat ?w) = None"
    using big assms(5,6) by (auto simp: icmp_input_def icmp_ntoh_def Let_def simp del: drop_append split: Option.bind_splits)
  moreover have "find_handler ip_proto_handlers (ucast (ip_proto h)) = Some Icmp_input" unfolding assms(3) by simp
  ultimately show ?thesis by (simp add: ip_deliver_def Let_def del: drop_append)
qed

end
