(* ===== verification/Turn.thy ===== *)
theory Turn
  imports Ingress
begin

text \<open>
  A turn of the ingress thread on one IPv4 frame, from what \<open>ip_input\<close> does with the packet: the frame is
  received, the packet is handed over in place, and a reply goes back to the sender. The properties from link to link rest
  on these lemmas.
\<close>

lemma receive_raw:
  assumes "length dst = 6" "length src = 6" "length packet \<le> 1500" "el_mac (ether_if est) \<noteq> src" "length rx = 1514"
  shows "ether_receive [Inr (dst @ src @ store16 (htons proto) @ packet)] est 0 rx =
    Some (int (length packet), Some \<lparr>h_dst = dst, h_src = src, h_proto = proto\<rparr>, packet @ drop (length packet) rx, [], est)"
proof -
  define f where "f = dst @ src @ store16 (htons proto) @ packet"
  have f: "take 1514 f = f" "length f - 14 = length packet" "take 6 f = dst" "take 6 (drop 6 f) = src" "drop 14 f = packet"
    "ntohs (load16 (f ! 12) (f ! 13)) = proto" "14 \<le> length f"
    using assms(1-3) by (simp_all add: f_def nth_append store16_def load16_parts)
  have loop: "ether_recv_loop (el_mac (ether_if est)) [Inr f] = Some (Inr f, [])"
    using ether_recv_one [OF f(7), of "el_mac (ether_if est)" "[]"] f(1,4) assms(4) by simp
  have un: "unat (umin (of_nat (length packet)) (of_nat (length rx))) = length packet"
    using assms(3,5) by (simp add: umin_def word_less_nat_alt unat_of_nat)
  have w: "mem_write rx 0 packet = Some (packet @ drop (length packet) rx)" using assms(3,5) by (simp add: mem_write_def)
  show ?thesis
    unfolding ether_receive_def ether_handle2eth_def f_def [symmetric]
    by (simp add: loop Let_def ETHER_HEADER_LEN_def f un w del: ether_recv_loop.simps)
qed

lemma ip_handler [simp]: "find_handler ether_proto_handlers ETHER_PROTO_IPV4 = Some Ip_input"
  by (simp add: find_handler_def ether_proto_handlers_def ETHER_PROTO_IPV4_def ETHER_PROTO_ARP_def)

lemma reply_goes_out:
  assumes "sendto (wire est) (ether_frame (h_src hdr) (el_mac (ether_if est)) (h_proto hdr) (take n payload)) = Inr k" "k \<ge> 0"
    "n \<le> 1500" "n \<le> length payload"
  shows "ether_output_reply sendto est 0 hdr payload n =
    Some (k, est\<lparr>wire := wire est @ [ether_frame (h_src hdr) (el_mac (ether_if est)) (h_proto hdr) (take n payload)]\<rparr>)"
proof -
  have l: "length (take n payload) \<le> 1500" using assms(3) by simp
  have "\<not> 1500 < max n 56" using assms(3) by simp
  then show ?thesis using assms ether_send_cases [OF l, of sendto est "h_src hdr" "h_proto hdr"] frame_size_small [OF assms(3)]
    by (simp add: ether_output_reply_def ether_consts mem_read_def Let_def)
qed

text \<open>What the link delivers: one frame with a packet.\<close>

definition ipv4_frame :: "mac_addr \<Rightarrow> mac_addr \<Rightarrow> bytes \<Rightarrow> bytes" where
  "ipv4_frame dst src packet = dst @ src @ store16 (htons ETHER_PROTO_IPV4) @ packet"

lemma turn_receives:
  assumes st: "ether_handle st = 0" "length (rx_buffer st) = 1514" "now - timer_start st < 10"
    and addr: "length dst = 6" "length src = 6" "el_mac (ether_if (n_eth (net st))) \<noteq> src"
    and p: "0 < length packet" "length packet \<le> 1500"
    and r: "ip_input 2 sendto (Some \<lparr>h_dst = dst, h_src = src, h_proto = ETHER_PROTO_IPV4\<rparr>) (packet @ drop (length packet) (rx_buffer st))
      (length packet) (net st) = Some (r, payload', n)"
  shows "r = 0 \<Longrightarrow> ingress_turn sendto now [Inr (ipv4_frame dst src packet)] st =
      Some ([], st\<lparr>rx_buffer := payload', delta_time := now - timer_start st, net := n\<rparr>)"
    "r = int k \<Longrightarrow> 0 < k \<Longrightarrow> k \<le> 1500 \<Longrightarrow> k \<le> length payload' \<Longrightarrow> n_eth n = n_eth (net st) \<Longrightarrow>
      sendto (wire (n_eth n)) (ether_frame src (el_mac (ether_if (n_eth n))) ETHER_PROTO_IPV4 (take k payload')) = Inr j \<Longrightarrow> j \<ge> 0 \<Longrightarrow>
      ingress_turn sendto now [Inr (ipv4_frame dst src packet)] st =
      Some ([], st\<lparr>rx_buffer := payload', delta_time := now - timer_start st, net := n\<lparr>n_eth := (n_eth n)\<lparr>wire := wire (n_eth n) @
        [ether_frame src (el_mac (ether_if (n_eth n))) ETHER_PROTO_IPV4 (take k payload')]\<rparr>\<rparr>\<rparr>)"
proof -
  let ?eh = "\<lparr>h_dst = dst, h_src = src, h_proto = ETHER_PROTO_IPV4\<rparr>"
  have rx: "ether_receive [Inr (ipv4_frame dst src packet)] (n_eth (net st)) 0 (rx_buffer st) =
      Some (int (length packet), Some ?eh, packet @ drop (length packet) (rx_buffer st), [], n_eth (net st))"
    using receive_raw [OF addr(1,2) p(2) addr(3) st(2)] by (simp only: ipv4_frame_def)
  show "ingress_turn sendto now [Inr (ipv4_frame dst src packet)] st =
      Some ([], st\<lparr>rx_buffer := payload', delta_time := now - timer_start st, net := n\<rparr>)" if "r = 0"
    using rx r that p(1) st(1,3)
    by (simp add: ingress_turn_def ingress_frame_def ether_input_def eval_timer_def XSTACK_PERIODIC_EVENT_SEC_def Let_def)
  show "ingress_turn sendto now [Inr (ipv4_frame dst src packet)] st =
      Some ([], st\<lparr>rx_buffer := payload', delta_time := now - timer_start st, net := n\<lparr>n_eth := (n_eth n)\<lparr>wire := wire (n_eth n) @
        [ether_frame src (el_mac (ether_if (n_eth n))) ETHER_PROTO_IPV4 (take k payload')]\<rparr>\<rparr>\<rparr>)"
    if "r = int k" "0 < k" "k \<le> 1500" "k \<le> length payload'" "n_eth n = n_eth (net st)"
      "sendto (wire (n_eth n)) (ether_frame src (el_mac (ether_if (n_eth n))) ETHER_PROTO_IPV4 (take k payload')) = Inr j" "j \<ge> 0"
    using rx r that(1,2,5) p(1) st(1,3) reply_goes_out [of sendto "n_eth n" ?eh k payload' j] that(3,4,6,7)
    by (simp add: ingress_turn_def ingress_frame_def ether_input_def eval_timer_def XSTACK_PERIODIC_EVENT_SEC_def Let_def)
qed

text \<open>A packet that is handled without an answer, because of an error.\<close>

lemma turn_dropped:
  assumes st: "ether_handle st = 0" "length (rx_buffer st) = 1514" "now - timer_start st < 10"
    and addr: "length dst = 6" "length src = 6" "el_mac (ether_if (n_eth (net st))) \<noteq> src"
    and p: "0 < length packet" "length packet \<le> 1500"
    and r: "ip_input 2 sendto (Some \<lparr>h_dst = dst, h_src = src, h_proto = ETHER_PROTO_IPV4\<rparr>) (packet @ drop (length packet) (rx_buffer st))
      (length packet) (net st) = Some (r, payload', n)" "r < 0"
  shows "ingress_turn sendto now [Inr (ipv4_frame dst src packet)] st =
      Some ([], st\<lparr>rx_buffer := payload', delta_time := now - timer_start st, net := set_errno (- r) n\<rparr>)"
proof -
  let ?eh = "\<lparr>h_dst = dst, h_src = src, h_proto = ETHER_PROTO_IPV4\<rparr>"
  have "ether_receive [Inr (ipv4_frame dst src packet)] (n_eth (net st)) 0 (rx_buffer st) =
      Some (int (length packet), Some ?eh, packet @ drop (length packet) (rx_buffer st), [], n_eth (net st))"
    using receive_raw [OF addr(1,2) p(2) addr(3) st(2)] by (simp only: ipv4_frame_def)
  then show ?thesis using r p(1) st(1,3)
    by (simp add: ingress_turn_def ingress_frame_def ether_input_def eval_timer_def XSTACK_PERIODIC_EVENT_SEC_def Let_def)
qed

definition example_stack :: "rib \<Rightarrow> arp_state \<Rightarrow> udp_table \<Rightarrow> stack" where
  "example_stack rib arp u = \<lparr>xs_state = XSTACK_RUNNING, ether_handle = 0, delta_time = 0, timer_start = 100,
     rx_buffer = replicate 1514 0, net = net_boot\<lparr>n_rib := rib, n_arp := arp, n_udp := u\<rparr>, os_calls = [], debug_msgs = []\<rparr>"

lemma example_stack_ok:
  obtains rib arp where "\<forall>u. net_ok 0 {example_route} (net (example_stack rib arp u))" "arp_room arp 0x0a000000"
proof -
  obtain rib arp where n: "net_ok 0 {example_route} (net_boot\<lparr>n_rib := rib, n_arp := arp\<rparr>)"
    "\<exists>i < XSTACK_ARP_CACHE_SIZE. ip_addr (arp_cache arp i) = 0x0a000000 \<or> age (arp_cache arp i) = ARP_CACHE_FREE"
    by (rule example_net)
  have "net_ok 0 {example_route} (net (example_stack rib arp u))" for u
    using n(1) by (simp add: net_ok_def example_stack_def)
  moreover have "arp_room arp 0x0a000000" using n(2) by (simp add: arp_room_def)
  ultimately show thesis using that by blast
qed

lemma example_addr:
  "length (replicate 6 (2 :: byte)) = 6" "length (replicate 6 (8 :: byte)) = 6" "example_route \<in> {example_route}"
  "ip_dst (example_ping\<lparr>ip_proto := x\<rparr>) = r_iface example_route" "in_window 0 (ip_src (example_ping\<lparr>ip_proto := x\<rparr>))"
  "ip_src (example_ping\<lparr>ip_proto := x\<rparr>) = 0x0a000000"
  by (simp_all add: example_ping_def example_route_def in_window_def)

lemma example_stack_simps:
  "ether_handle (example_stack rib arp u) = 0" "length (rx_buffer (example_stack rib arp u)) = 1514"
  "105 - timer_start (example_stack rib arp u) < 10" "el_mac (ether_if (n_eth (net (example_stack rib arp u)))) \<noteq> replicate 6 8"
  "wire (n_eth (net (example_stack rib arp u))) = []" "n_arp (net (example_stack rib arp u)) = arp"
  "n_udp (net (example_stack rib arp u)) = u"
  by (simp_all add: example_stack_def net_boot_def)

lemma example_udp_hdr:
  "acceptable (example_ping\<lparr>ip_proto := x\<rparr>) 30" "ip_hdr_hlen (example_ping\<lparr>ip_proto := x\<rparr>) = 20"
  "\<not> ip_fragment_is_frag (example_ping\<lparr>ip_proto := x\<rparr>)"
  using example_hdr by (simp_all add: acceptable_def ip_fragment_is_frag_def)

end
