(* ===== verification/Tcp_Link.thy ===== *)
theory Tcp_Link
  imports Turn
begin

text \<open>
  TCP from the link and back: a segment in a packet reaches its connection, and the header the state
  machine makes goes back in a packet; the three-way handshake over two frames, and the end of a connection.
\<close>

lemma tcp_hdr_size_ack [simp]: "tcp_hdr_size (h\<lparr>tcp_flags := tcp_flags h OR TCP_ACK\<rparr>) = tcp_hdr_size h"
  by (simp add: tcp_hdr_size_def tcp_consts bit.conj_disj_distrib2)

lemma tcp_hdr_size_flags: "tcp_flags h' = tcp_flags h \<Longrightarrow> tcp_hdr_size h' = tcp_hdr_size h"
  by (simp add: tcp_hdr_size_def)

text \<open>A segment from the link. The reply has the addresses of the packet exchanged, and both its checksums verify.\<close>

text \<open>The header of a reply in place of the one that was received.\<close>

lemma reply_in_place:
  assumes "20 \<le> ip_hdr_hlen h" "length opts = ip_hdr_hlen h - 20" "0 < r" "r \<le> 1500"
  obtains buf n c where "ip_reply_header (ip_store h @ opts @ msg) (word_of_int r) = Some (word_of_int r + of_nat (ip_hdr_hlen h), buf)"
    "ip_load buf = Some n"
    "fst (ip_ntoh n) = h\<lparr>ip_src := ip_dst h, ip_dst := ip_src h, ip_ttl := 64, ip_len := of_nat (nat r + ip_hdr_hlen h), ip_csum := c\<rparr>"
    "ip_checksum (take (ip_hdr_hlen h) buf) = 0" "drop (ip_hdr_hlen h) buf = msg" "length buf = ip_hdr_hlen h + length msg"
proof -
  let ?hl = "ip_hdr_hlen h" and ?buf = "ip_store h @ opts @ msg"
  have "?hl \<le> length ?buf" using assms(1,2) by simp
  from reply_header_ok [OF ip_load_store assms(1) this, of "word_of_int r"] obtain buf n c where
    b: "ip_reply_header ?buf (word_of_int r) = Some (word_of_int r + of_nat ?hl, buf)" "ip_load buf = Some n"
      "fst (ip_ntoh n) = h\<lparr>ip_src := ip_dst h, ip_dst := ip_src h, ip_ttl := 64, ip_len := of_nat (nat r + ?hl), ip_csum := c\<rparr>"
      "drop 20 buf = drop 20 ?buf" "ip_checksum (take ?hl buf) = 0"
    unfolding reply_length(2) [OF assms(3,4), of h] by blast
  have d: "drop 20 buf = opts @ msg" unfolding b(4) by simp
  have "drop (?hl - 20) (drop 20 buf) = msg" unfolding d using assms(2) by simp
  then have m: "drop ?hl buf = msg" using assms(1) by simp
  have "20 \<le> length buf" using b(2) by (auto simp: ip_load_def split: if_splits)
  then have "length buf = ?hl + length msg" using arg_cong [OF d, of length] assms(1,2) by simp
  then show thesis using that b(1-3,5) m by blast
qed

lemma tcp_from_link:
  assumes ok: "net_ok lo R st" "q \<in> R" "ip_dst h = r_iface q" "in_window lo (ip_src h)" "arp_room (n_arp st) (ip_src h)"
    and h: "acceptable h bsize" "\<not> ip_fragment_is_frag h" "ip_proto h = IP_PROTO_TCP"
    and m: "tcp_load msg = Some seg" "length opts = ip_hdr_hlen h - 20" "ip_hdr_hlen h + 20 \<le> bsize" "60 \<le> length msg"
    and t: "tcp_inv K (n_tcp st)" "(loc, rem) \<in> K" "loc = \<lparr>inet4_addr = ip_dst h, port = uint (ntohs (tcp_dport seg))\<rparr>"
      "rem = \<lparr>inet4_addr = ip_src h, port = uint (ntohs (tcp_sport seg))\<rparr>" "tcp_accepts (tcp_abs (n_tcp st) (loc, rem)) (tcp_ntoh seg)"
    and f: "tcp_fsm (case tcp_abs (n_tcp st) (loc, rem) of None \<Rightarrow> tcp_listener loc rem | Some conn \<Rightarrow> conn) (tcp_ntoh seg) = (retval, conn, rs)"
      "0 \<le> retval"
  obtains payload' arp tcp where
    "ip_input 2 sendto (Some e) (ip_store (ip_swap h) @ opts @ msg) bsize st =
       Some (if retval = 0 then 0 else retval + int (ip_hdr_hlen h), payload', st\<lparr>n_arp := arp, n_tcp := tcp\<rparr>)"
    "net_ok lo R (st\<lparr>n_arp := arp\<rparr>)" "arp_map arp = (arp_map (n_arp st))(ip_src h \<mapsto> (h_src e, ARP_CACHE_DYN))"
    "tcp_inv K tcp" "tcp_abs tcp = (tcp_abs (n_tcp st))((loc, rem) \<mapsto> conn)" "length payload' = ip_hdr_hlen h + length msg"
    "retval = 0 \<or> (\<exists>n c c'. ip_load payload' = Some n \<and> fst (ip_ntoh n) = h\<lparr>ip_src := ip_dst h, ip_dst := ip_src h, ip_ttl := 64,
         ip_len := of_nat (nat retval + ip_hdr_hlen h), ip_csum := c\<rparr> \<and> ip_checksum (take (ip_hdr_hlen h) payload') = 0 \<and>
       tcp_load (drop (ip_hdr_hlen h) payload') = Some ((tcp_swap (rs\<lparr>tcp_sport := tcp_dport (tcp_ntoh seg),
         tcp_dport := tcp_sport (tcp_ntoh seg)\<rparr>))\<lparr>tcp_csum := c'\<rparr>) \<and>
       tcp_checksum (ip_dst h) (ip_src h) (take (nat retval) (drop (ip_hdr_hlen h) payload')) = 0)"
proof -
  let ?hl = "ip_hdr_hlen h" and ?n = "bsize - ip_hdr_hlen h"
  have hl: "20 \<le> ?hl" "?hl \<le> bsize" "20 \<le> ?n" using h(1) m(3) by (auto simp: acceptable_def)
  obtain arp where arp: "ip_input (Suc 1) sendto (Some e) (ip_store (ip_swap h) @ opts @ msg) bsize st =
      ip_deliver (ip_store h @ opts @ msg) bsize (st\<lparr>n_arp := arp\<rparr>)" "net_ok lo R (st\<lparr>n_arp := arp\<rparr>)"
    "arp_map arp = (arp_map (n_arp st))(ip_src h \<mapsto> (h_src e, ARP_CACHE_DYN))"
    using ip_input_own [OF ok h(1,2)] .
  obtain msg' tcp where tcp: "tcp_input h msg ?n (n_tcp st) = Some (retval, msg', tcp)" "tcp_inv K tcp"
    "tcp_abs tcp = (tcp_abs (n_tcp st))((loc, rem) \<mapsto> conn)" "drop 20 msg' = drop 20 msg"
    "retval > 0 \<longrightarrow> (\<exists>c. tcp_load msg' = Some ((tcp_swap (rs\<lparr>tcp_sport := tcp_dport (tcp_ntoh seg),
       tcp_dport := tcp_sport (tcp_ntoh seg)\<rparr>))\<lparr>tcp_csum := c\<rparr>)) \<and>
     tcp_checksum (inet4_addr loc) (inet4_addr rem) (take (nat retval) msg') = 0"
    using tcp_input_accepted [OF t(1,2) hl(3) m(4,1) t(3-5) f(1)] by metis
  have "length msg' - 20 = length msg - 20" using arg_cong [OF tcp(4), of length] by simp
  then have lm: "length msg' = length msg" using m(4) by simp
  have p: "ip_proto_fn Tcp_input h msg ?n (st\<lparr>n_arp := arp\<rparr>) = Some (retval, msg', st\<lparr>n_arp := arp, n_tcp := tcp\<rparr>)" using tcp(1) by simp
  have fh: "find_handler ip_proto_handlers (ucast (ip_proto h)) = Some Tcp_input" unfolding h(3) by simp
  note d = ip_deliver_to [OF fh h(1) hl(2) m(2) p]
  show thesis
  proof (cases "retval = 0")
    case True
    then show ?thesis using that [of "ip_store h @ opts @ msg'" tcp arp] d(1) arp tcp(2,3) lm m(2) hl(1)
      by (simp add: ENOTSOCK_def flip: Suc_1)
  next
    case False
    then have r: "0 < retval" "retval \<le> 1500" using f tcp_fsm_reply [OF f(1)] tcp_hdr_size_range [of rs] by auto
    obtain buf' n c where b: "ip_reply_header (ip_store h @ opts @ msg') (word_of_int retval) = Some (word_of_int retval + of_nat ?hl, buf')"
      "ip_load buf' = Some n"
      "fst (ip_ntoh n) = h\<lparr>ip_src := ip_dst h, ip_dst := ip_src h, ip_ttl := 64, ip_len := of_nat (nat retval + ?hl), ip_csum := c\<rparr>"
      "ip_checksum (take ?hl buf') = 0" "drop ?hl buf' = msg'" "length buf' = ?hl + length msg'"
      by (rule reply_in_place [OF hl(1) m(2) r])
    have "ip_deliver (ip_store h @ opts @ msg) bsize (st\<lparr>n_arp := arp\<rparr>) = Some (retval + int ?hl, buf', st\<lparr>n_arp := arp, n_tcp := tcp\<rparr>)"
      using d(3) [OF r(1) b(1)] reply_length(1) [OF r, of h] r(1) by simp
    then have i: "ip_input 2 sendto (Some e) (ip_store (ip_swap h) @ opts @ msg) bsize st =
        Some (if retval = 0 then 0 else retval + int ?hl, buf', st\<lparr>n_arp := arp, n_tcp := tcp\<rparr>)"
      using arp(1) False by (simp flip: Suc_1)
    obtain c' where c': "tcp_load msg' = Some ((tcp_swap (rs\<lparr>tcp_sport := tcp_dport (tcp_ntoh seg),
        tcp_dport := tcp_sport (tcp_ntoh seg)\<rparr>))\<lparr>tcp_csum := c'\<rparr>)" "tcp_checksum (ip_dst h) (ip_src h) (take (nat retval) msg') = 0"
      using tcp(5) r(1) t(3,4) by auto
    show ?thesis by (rule that [OF i arp(2,3) tcp(2,3) b(6) [unfolded lm]], intro disjI2 exI conjI, rule b(2), rule b(3), rule b(4))
        (simp_all only: b(5) c')
  qed
qed

text \<open>The handshake, on the state machine.\<close>

lemma syn_answer:
  assumes "has_flag syn TCP_SYN"
  shows "tcp_fsm (tcp_listener loc rem) syn = (tcp_hdr_size syn,
    \<lparr>local = loc, remote = rem, state = TCP_SYN_RCVD, recv_next = tcp_seqno syn + 1, send_next = 1\<rparr>,
    syn\<lparr>tcp_flags := tcp_flags syn OR TCP_ACK, tcp_ack_num := tcp_seqno syn + 1, tcp_seqno := 0\<rparr>)"
proof -
  have "tcp_hdr_size (syn\<lparr>tcp_flags := tcp_flags syn OR TCP_ACK, tcp_ack_num := tcp_seqno syn + 1, tcp_seqno := 0\<rparr>) = tcp_hdr_size syn"
    using tcp_hdr_size_ack [of syn] by (simp add: tcp_hdr_size_def)
  then show ?thesis using assms by (simp add: tcp_fsm_def tcp_listener_def tcp_calloc_def Let_def)
qed

lemma ack_establishes:
  assumes "has_flag seg TCP_ACK" "tcp_seqno seg = recv_next conn" "tcp_ack_num seg = send_next conn" "state conn = TCP_SYN_RCVD"
  shows "tcp_fsm conn seg = (0, conn\<lparr>state := TCP_ESTABLISHED\<rparr>, seg)"
  using assms by (simp add: tcp_fsm_def)

lemma fin_answer:
  assumes "has_flag fin TCP_FIN" "state conn = TCP_ESTABLISHED"
  shows "tcp_fsm conn fin = (tcp_hdr_size fin, conn\<lparr>state := TCP_LAST_ACK, recv_next := tcp_seqno fin + 1, send_next := send_next conn + 1\<rparr>,
    fin\<lparr>tcp_flags := tcp_flags fin OR TCP_ACK, tcp_ack_num := tcp_seqno fin + 1, tcp_seqno := send_next conn\<rparr>)"
proof -
  have "tcp_hdr_size (fin\<lparr>tcp_flags := tcp_flags fin OR TCP_ACK, tcp_ack_num := tcp_seqno fin + 1, tcp_seqno := send_next conn\<rparr>) = tcp_hdr_size fin"
    using tcp_hdr_size_ack [of fin] by (simp add: tcp_hdr_size_def)
  then show ?thesis using assms by (simp add: tcp_fsm_def Let_def)
qed

lemma arp_map_room: "arp_map st ip = Some e \<Longrightarrow> ip \<noteq> 0 \<Longrightarrow> arp_room st ip"
  by (auto simp: arp_map_def arp_slot_def arp_room_def find_Some_iff)

text \<open>A packet with a segment: no IP options, anything behind the header.\<close>

definition tcp_packet :: "ip_hdr \<Rightarrow> tcp_hdr \<Rightarrow> bytes \<Rightarrow> bytes" where
  "tcp_packet h seg data = ip_store (ip_swap h) @ tcp_store (tcp_swap seg) @ data"

text \<open>A packet to an address of ours, from a sender the stack has room for.\<close>

definition tcp_receivable :: "u32 \<Rightarrow> ip_route set \<Rightarrow> ip_hdr \<Rightarrow> bytes \<Rightarrow> bool" where
  "tcp_receivable lo R h data \<longleftrightarrow> ip_dst h \<in> r_iface ` R \<and> in_window lo (ip_src h) \<and> ip_hdr_hlen h = 20 \<and> acceptable h (40 + length data) \<and>
     \<not> ip_fragment_is_frag h \<and> ip_proto h = IP_PROTO_TCP \<and> length data \<le> 1460"

lemma segment_from_link:
  assumes st: "net_ok lo R (net st)" "length (rx_buffer st) = 1514" "arp_room (n_arp (net st)) (ip_src h)"
    and h: "tcp_receivable lo R h data" and t: "tcp_inv K (n_tcp (net st))" "(loc, rem) \<in> K" "loc = \<lparr>inet4_addr = ip_dst h, port = uint (tcp_dport seg)\<rparr>"
      "rem = \<lparr>inet4_addr = ip_src h, port = uint (tcp_sport seg)\<rparr>" "tcp_accepts (tcp_abs (n_tcp (net st)) (loc, rem)) seg"
    and f: "tcp_fsm (case tcp_abs (n_tcp (net st)) (loc, rem) of None \<Rightarrow> tcp_listener loc rem | Some conn \<Rightarrow> conn) seg = (retval, conn, rs)" "0 \<le> retval"
  obtains payload' arp tcp where
    "ip_input 2 sendto (Some e) (tcp_packet h seg data @ drop (length (tcp_packet h seg data)) (rx_buffer st)) (length (tcp_packet h seg data)) (net st) =
       Some (if retval = 0 then 0 else retval + 20, payload', (net st)\<lparr>n_arp := arp, n_tcp := tcp\<rparr>)"
    "net_ok lo R ((net st)\<lparr>n_arp := arp\<rparr>)" "arp_map arp = (arp_map (n_arp (net st)))(ip_src h \<mapsto> (h_src e, ARP_CACHE_DYN))"
    "tcp_inv K tcp" "tcp_abs tcp = (tcp_abs (n_tcp (net st)))((loc, rem) \<mapsto> conn)" "length payload' = 1514"
    "retval = 0 \<or> (\<exists>n c c'. ip_load payload' = Some n \<and> fst (ip_ntoh n) = h\<lparr>ip_src := ip_dst h, ip_dst := ip_src h, ip_ttl := 64,
         ip_len := of_nat (nat retval + 20), ip_csum := c\<rparr> \<and> ip_checksum (take 20 payload') = 0 \<and>
       tcp_load (drop 20 payload') = Some ((tcp_swap (rs\<lparr>tcp_sport := tcp_dport seg, tcp_dport := tcp_sport seg\<rparr>))\<lparr>tcp_csum := c'\<rparr>) \<and>
       tcp_checksum (ip_dst h) (ip_src h) (take (nat retval) (drop 20 payload')) = 0)"
proof -
  obtain q where q: "q \<in> R" "ip_dst h = r_iface q" using h by (auto simp: tcp_receivable_def)
  have h': "in_window lo (ip_src h)" "ip_hdr_hlen h = 20" "acceptable h (40 + length data)" "\<not> ip_fragment_is_frag h" "ip_proto h = IP_PROTO_TCP"
    "length data \<le> 1460" using h by (simp_all add: tcp_receivable_def)
  define msg where "msg = tcp_store (tcp_swap seg) @ data @ drop (40 + length data) (rx_buffer st)"
  have p: "tcp_packet h seg data @ drop (40 + length data) (rx_buffer st) = ip_store (ip_swap h) @ [] @ msg"
    "length (tcp_packet h seg data) = 40 + length data" by (simp_all add: tcp_packet_def msg_def)
  have m: "tcp_load msg = Some (tcp_swap seg)" "length ([] :: bytes) = ip_hdr_hlen h - 20" "ip_hdr_hlen h + 20 \<le> 40 + length data" "60 \<le> length msg"
    using h'(2,6) st(2) by (simp_all add: msg_def)
  have lm: "ip_hdr_hlen h + length msg = 1514" using h'(2,6) st(2) by (simp add: msg_def)
  have n: "tcp_ntoh (tcp_swap seg) = seg" "ntohs (tcp_dport (tcp_swap seg)) = tcp_dport seg" "ntohs (tcp_sport (tcp_swap seg)) = tcp_sport seg"
    by (simp_all add: tcp_ntoh_swap) (simp_all add: tcp_swap_def ntohs_def)
  note r = tcp_from_link [OF st(1) q h'(1) st(3) h'(3-5) m t(1,2) _ _ _ _ f(2), unfolded n lm, OF t(3-5) f(1), where sendto = sendto and e = e]
  show thesis by (rule r, rule that) (simp_all add: p h'(2))
qed

section \<open>Turns of the ingress thread\<close>

text \<open>What a turn leaves for the next one.\<close>

definition next_turn :: "u32 \<Rightarrow> ip_route set \<Rightarrow> u32 \<Rightarrow> stack \<Rightarrow> stack \<Rightarrow> bool" where
  "next_turn lo R ip st st1 \<longleftrightarrow> net_ok lo R (net st1) \<and> ether_handle st1 = 0 \<and> length (rx_buffer st1) = 1514 \<and> timer_start st1 = timer_start st \<and>
     ether_if (n_eth (net st1)) = ether_if (n_eth (net st)) \<and> arp_room (n_arp (net st1)) ip"

text \<open>The frame with the answer to a segment: an IP packet without options, sent back to where the segment came from, with a TCP
  header and both checksums right.\<close>

definition answers :: "mac_addr \<Rightarrow> mac_addr \<Rightarrow> ip_hdr \<Rightarrow> tcp_hdr \<Rightarrow> bytes \<Rightarrow> bool" where
  "answers mac src h rs frame \<longleftrightarrow> (\<exists>reply n c t c'. frame = ether_frame src mac ETHER_PROTO_IPV4 reply \<and>
     int (length reply) = 20 + tcp_hdr_size rs \<and> ip_load reply = Some n \<and>
     fst (ip_ntoh n) = h\<lparr>ip_src := ip_dst h, ip_dst := ip_src h, ip_ttl := 64, ip_len := of_nat (length reply), ip_csum := c\<rparr> \<and>
     ip_checksum (take 20 reply) = 0 \<and> tcp_load (drop 20 reply) = Some t \<and> tcp_ntoh t = rs\<lparr>tcp_csum := c'\<rparr> \<and>
     tcp_checksum (ip_dst h) (ip_src h) (drop 20 reply) = 0)"

text \<open>A segment the state machine answers.\<close>

lemma answered_turn:
  assumes st: "net_ok lo R (net st)" "ether_handle st = 0" "length (rx_buffer st) = 1514" "now - timer_start st < 10"
    and link: "\<forall>w f. \<exists>k \<ge> 0. sendto w f = Inr k"
    and addr: "length dst = 6" "length src = 6" "el_mac (ether_if (n_eth (net st))) \<noteq> src" "arp_room (n_arp (net st)) (ip_src h)"
    and h: "tcp_receivable lo R h data"
    and t: "tcp_inv K (n_tcp (net st))" "(loc, rem) \<in> K" "loc = \<lparr>inet4_addr = ip_dst h, port = uint (tcp_dport seg)\<rparr>"
      "rem = \<lparr>inet4_addr = ip_src h, port = uint (tcp_sport seg)\<rparr>" "tcp_accepts (tcp_abs (n_tcp (net st)) (loc, rem)) seg"
    and f: "tcp_fsm (case tcp_abs (n_tcp (net st)) (loc, rem) of None \<Rightarrow> tcp_listener loc rem | Some conn \<Rightarrow> conn) seg = (k, conn, rs)" "k > 0"
  obtains st1 frame where "ingress_turn sendto now [Inr (ipv4_frame dst src (tcp_packet h seg data))] st = Some ([], st1)"
    "wire (n_eth (net st1)) = wire (n_eth (net st)) @ [frame]"
    "answers (el_mac (ether_if (n_eth (net st)))) src h (rs\<lparr>tcp_sport := tcp_dport seg, tcp_dport := tcp_sport seg\<rparr>) frame"
    "next_turn lo R (ip_src h) st st1"
    "tcp_inv K (n_tcp (net st1))" "tcp_abs (n_tcp (net st1)) = (tcp_abs (n_tcp (net st)))((loc, rem) \<mapsto> conn)"
proof -
  let ?mac = "el_mac (ether_if (n_eth (net st)))"
  let ?eh = "\<lparr>h_dst = dst, h_src = src, h_proto = ETHER_PROTO_IPV4\<rparr>" and ?rs = "rs\<lparr>tcp_sport := tcp_dport seg, tcp_dport := tcp_sport seg\<rparr>"
  have ks: "k = tcp_hdr_size rs" "tcp_hdr_size ?rs = k" using tcp_fsm_reply [OF f] by (simp_all add: tcp_hdr_size_def)
  then have k: "20 \<le> k" "k \<le> 60" "0 \<le> k" using tcp_hdr_size_range [of rs] f(2) by simp_all
  obtain payload arp tcp n c c' where r:
    "ip_input 2 sendto (Some ?eh) (tcp_packet h seg data @ drop (length (tcp_packet h seg data)) (rx_buffer st)) (length (tcp_packet h seg data)) (net st) =
       Some (k + 20, payload, (net st)\<lparr>n_arp := arp, n_tcp := tcp\<rparr>)"
    "net_ok lo R ((net st)\<lparr>n_arp := arp\<rparr>)" "arp_map arp = (arp_map (n_arp (net st)))(ip_src h \<mapsto> (src, ARP_CACHE_DYN))"
    "tcp_inv K tcp" "tcp_abs tcp = (tcp_abs (n_tcp (net st)))((loc, rem) \<mapsto> conn)" "length payload = 1514" "ip_load payload = Some n"
    "fst (ip_ntoh n) = h\<lparr>ip_src := ip_dst h, ip_dst := ip_src h, ip_ttl := 64, ip_len := of_nat (nat k + 20), ip_csum := c\<rparr>"
    "ip_checksum (take 20 payload) = 0"
    "tcp_load (drop 20 payload) = Some ((tcp_swap ?rs)\<lparr>tcp_csum := c'\<rparr>)"
    "tcp_checksum (ip_dst h) (ip_src h) (take (nat k) (drop 20 payload)) = 0"
    by (rule segment_from_link [OF st(1,3) addr(4) h t f(1) k(3), of sendto ?eh]) (use f(2) in auto)
  define reply where "reply = take (nat k + 20) payload"
  have l: "length reply = nat k + 20" using k r(6) by (simp add: reply_def)
  have rp: "ip_load reply = Some n" "take 20 reply = take 20 payload" "drop 20 reply = take (nat k) (drop 20 payload)"
    using ip_load_read [OF r(7), of reply] k r(6) by (simp_all add: reply_def mem_read_def drop_take)
  have tl: "tcp_load (drop 20 reply) = tcp_load (drop 20 payload)" unfolding rp(3) using k r(6) by (simp add: tcp_load_def)
  have p: "0 < length (tcp_packet h seg data)" "length (tcp_packet h seg data) \<le> 1500" using h by (simp_all add: tcp_packet_def tcp_receivable_def)
  obtain j where j: "j \<ge> 0" "sendto (wire (n_eth (net st))) (ether_frame src ?mac ETHER_PROTO_IPV4 reply) = Inr j" using link by blast
  define st1 where "st1 = st\<lparr>rx_buffer := payload, delta_time := now - timer_start st, net := (net st)\<lparr>n_arp := arp, n_tcp := tcp,
    n_eth := (n_eth (net st))\<lparr>wire := wire (n_eth (net st)) @ [ether_frame src ?mac ETHER_PROTO_IPV4 reply]\<rparr>\<rparr>\<rparr>"
  have turn: "ingress_turn sendto now [Inr (ipv4_frame dst src (tcp_packet h seg data))] st = Some ([], st1)"
    using turn_receives(2) [OF st(2-4) addr(1-3) p r(1), of "nat k + 20" j] k r(6) j by (simp add: st1_def reply_def)
  have "arp_map arp (ip_src h) = Some (src, ARP_CACHE_DYN)" "ip_src h \<noteq> 0" using r(3) addr(4) by (simp_all add: arp_room_def)
  then have nt: "next_turn lo R (ip_src h) st st1" using r(2,6) st(2) by (simp add: next_turn_def st1_def net_ok_def arp_map_room)
  have "tcp_ntoh ((tcp_swap ?rs)\<lparr>tcp_csum := c'\<rparr>) = ?rs\<lparr>tcp_csum := c'\<rparr>" by (simp add: tcp_ntoh_swap)
  then have an: "answers ?mac src h ?rs (ether_frame src ?mac ETHER_PROTO_IPV4 reply)"
    unfolding answers_def using l k(1) ks rp r(8-11) tl
    by (intro exI [of _ reply] exI [of _ n] exI [of _ c] exI [of _ "(tcp_swap ?rs)\<lparr>tcp_csum := c'\<rparr>"] exI [of _ c']) simp
  show thesis by (rule that [OF turn _ an nt]) (use r(4,5) in \<open>simp_all add: st1_def\<close>)
qed

text \<open>A segment the state machine takes without an answer.\<close>

lemma silent_turn:
  assumes st: "net_ok lo R (net st)" "ether_handle st = 0" "length (rx_buffer st) = 1514" "now - timer_start st < 10"
    and addr: "length dst = 6" "length src = 6" "el_mac (ether_if (n_eth (net st))) \<noteq> src" "arp_room (n_arp (net st)) (ip_src h)"
    and h: "tcp_receivable lo R h data"
    and t: "tcp_inv K (n_tcp (net st))" "(loc, rem) \<in> K" "loc = \<lparr>inet4_addr = ip_dst h, port = uint (tcp_dport seg)\<rparr>"
      "rem = \<lparr>inet4_addr = ip_src h, port = uint (tcp_sport seg)\<rparr>" "tcp_accepts (tcp_abs (n_tcp (net st)) (loc, rem)) seg"
    and f: "tcp_fsm (case tcp_abs (n_tcp (net st)) (loc, rem) of None \<Rightarrow> tcp_listener loc rem | Some conn \<Rightarrow> conn) seg = (0, conn, rs)"
  obtains st1 where "ingress_turn sendto now [Inr (ipv4_frame dst src (tcp_packet h seg data))] st = Some ([], st1)"
    "wire (n_eth (net st1)) = wire (n_eth (net st))" "next_turn lo R (ip_src h) st st1"
    "tcp_inv K (n_tcp (net st1))" "tcp_abs (n_tcp (net st1)) = (tcp_abs (n_tcp (net st)))((loc, rem) \<mapsto> conn)"
proof -
  let ?eh = "\<lparr>h_dst = dst, h_src = src, h_proto = ETHER_PROTO_IPV4\<rparr>"
  obtain payload arp tcp where r:
    "ip_input 2 sendto (Some ?eh) (tcp_packet h seg data @ drop (length (tcp_packet h seg data)) (rx_buffer st)) (length (tcp_packet h seg data)) (net st) =
       Some (0, payload, (net st)\<lparr>n_arp := arp, n_tcp := tcp\<rparr>)" "net_ok lo R ((net st)\<lparr>n_arp := arp\<rparr>)"
    "arp_map arp = (arp_map (n_arp (net st)))(ip_src h \<mapsto> (src, ARP_CACHE_DYN))" "tcp_inv K tcp"
    "tcp_abs tcp = (tcp_abs (n_tcp (net st)))((loc, rem) \<mapsto> conn)" "length payload = 1514"
    by (rule segment_from_link [OF st(1,3) addr(4) h t f order_refl, of sendto ?eh]) auto
  have p: "0 < length (tcp_packet h seg data)" "length (tcp_packet h seg data) \<le> 1500" using h by (simp_all add: tcp_packet_def tcp_receivable_def)
  have "arp_map arp (ip_src h) = Some (src, ARP_CACHE_DYN)" "ip_src h \<noteq> 0" using r(3) addr(4) by (simp_all add: arp_room_def)
  then show thesis
    by (intro that [OF turn_receives(1) [OF st(2-4) addr(1-3) p r(1) refl]]) (use r(2,4-6) st(2) in \<open>simp_all add: next_turn_def net_ok_def arp_map_room\<close>)
qed

text \<open>A segment that is refused: no answer, and the connections stay as they are.\<close>

lemma refused_turn:
  assumes st: "net_ok lo R (net st)" "ether_handle st = 0" "length (rx_buffer st) = 1514" "now - timer_start st < 10"
    and addr: "length dst = 6" "length src = 6" "el_mac (ether_if (n_eth (net st))) \<noteq> src" "arp_room (n_arp (net st)) (ip_src h)"
    and h: "tcp_receivable lo R h data"
    and t: "tcp_inv K (n_tcp (net st))" "(loc, rem) \<in> K" "loc = \<lparr>inet4_addr = ip_dst h, port = uint (tcp_dport seg)\<rparr>"
      "rem = \<lparr>inet4_addr = ip_src h, port = uint (tcp_sport seg)\<rparr>" "\<not> tcp_accepts (tcp_abs (n_tcp (net st)) (loc, rem)) seg"
  obtains st1 where "ingress_turn sendto now [Inr (ipv4_frame dst src (tcp_packet h seg data))] st = Some ([], st1)"
    "wire (n_eth (net st1)) = wire (n_eth (net st))" "n_tcp (net st1) = n_tcp (net st)"
proof -
  let ?eh = "\<lparr>h_dst = dst, h_src = src, h_proto = ETHER_PROTO_IPV4\<rparr>"
  obtain q where q: "q \<in> R" "ip_dst h = r_iface q" using h by (auto simp: tcp_receivable_def)
  have h': "in_window lo (ip_src h)" "ip_hdr_hlen h = 20" "acceptable h (40 + length data)" "\<not> ip_fragment_is_frag h" "ip_proto h = IP_PROTO_TCP"
    "length data \<le> 1460" using h by (simp_all add: tcp_receivable_def)
  define msg where "msg = tcp_store (tcp_swap seg) @ data @ drop (40 + length data) (rx_buffer st)"
  let ?msg = "tcp_store seg @ data @ drop (40 + length data) (rx_buffer st)"
  have p: "tcp_packet h seg data @ drop (length (tcp_packet h seg data)) (rx_buffer st) = ip_store (ip_swap h) @ [] @ msg"
    "length (tcp_packet h seg data) = 40 + length data" by (simp_all add: tcp_packet_def msg_def)
  obtain arp where arp: "ip_input (Suc 1) sendto (Some ?eh) (ip_store (ip_swap h) @ [] @ msg) (40 + length data) (net st) =
      ip_deliver (ip_store h @ [] @ msg) (40 + length data) ((net st)\<lparr>n_arp := arp\<rparr>)"
    using ip_input_own [OF st(1) q h'(1) addr(4) h'(3,4)] .
  have "tcp_lookup loc rem seg (n_tcp (net st)) = Some (None, n_tcp (net st))" using tcp_lookup_refused [OF t(1,2,5)] .
  moreover have "tcp_ntoh (tcp_swap seg) = seg" "ntohs (tcp_dport (tcp_swap seg)) = tcp_dport seg" "ntohs (tcp_sport (tcp_swap seg)) = tcp_sport seg"
    by (simp_all add: tcp_ntoh_swap) (simp_all add: tcp_swap_def ntohs_def)
  ultimately have i: "tcp_input h msg (40 + length data - 20) (n_tcp (net st)) = Some (- EINVAL, ?msg, n_tcp (net st))"
    using t(3,4) by (simp add: tcp_input_def msg_def mem_write_def Let_def)
  then have pf: "ip_proto_fn Tcp_input h msg (40 + length data - ip_hdr_hlen h) ((net st)\<lparr>n_arp := arp\<rparr>) = Some (- EINVAL, ?msg, (net st)\<lparr>n_arp := arp\<rparr>)"
    using h'(2) by simp
  have fh: "find_handler ip_proto_handlers (ucast (ip_proto h)) = Some Tcp_input" unfolding h'(5) by simp
  have o: "length ([] :: bytes) = ip_hdr_hlen h - 20" "ip_hdr_hlen h \<le> 40 + length data" using h'(2) by simp_all
  have "ip_deliver (ip_store h @ [] @ msg) (40 + length data) ((net st)\<lparr>n_arp := arp\<rparr>) = Some (- EINVAL, ip_store h @ [] @ ?msg, (net st)\<lparr>n_arp := arp\<rparr>)"
    by (rule ip_deliver_to(1) [OF fh h'(3) o(2,1) pf]) (simp_all add: errno_defs)
  then have r: "ip_input 2 sendto (Some ?eh) (tcp_packet h seg data @ drop (length (tcp_packet h seg data)) (rx_buffer st))
      (length (tcp_packet h seg data)) (net st) = Some (- EINVAL, ip_store h @ [] @ ?msg, (net st)\<lparr>n_arp := arp\<rparr>)"
    using arp unfolding p(2) p(1) [unfolded p(2)] by (simp flip: Suc_1)
  have l: "0 < length (tcp_packet h seg data)" "length (tcp_packet h seg data) \<le> 1500" using h'(6) p(2) by simp_all
  show thesis by (rule that [OF turn_dropped [OF st(2-4) addr(1-3) l r]]) (simp_all add: errno_defs set_errno_def)
qed

text \<open>C6: The three-way handshake. A SYN from a sender without a connection is answered with one frame: the addresses
  and ports exchanged, sequence number zero, the sequence number plus one acknowledged, SYN and ACK set, and
  checksums of header and segment that verify; a half-open connection is entered. The acknowledgement of
  that answer establishes the connection, no frame goes out for it, and no other connection is touched. The connections in the table and the
  new one have addresses that the comparison can order (\<open>addr_chain\<close>, as in \<open>tcp_input_correct\<close>).\<close>

theorem tcp_handshake:
  assumes st: "net_ok lo R (net st)" "ether_handle st = 0" "length (rx_buffer st) = 1514" "now - timer_start st < 10" "now' - timer_start st < 10"
    and link: "\<forall>w f. \<exists>k \<ge> 0. sendto w f = Inr k"
    and addr: "length dst = 6" "length src = 6" "el_mac (ether_if (n_eth (net st))) \<noteq> src" "arp_room (n_arp (net st)) (ip_src h)"
    and h: "tcp_receivable lo R h data" "tcp_receivable lo R h' data'" "ip_src h' = ip_src h" "ip_dst h' = ip_dst h"
    and t: "tcp_inv K (n_tcp (net st))" "(loc, rem) \<in> K" "loc = \<lparr>inet4_addr = ip_dst h, port = uint (tcp_dport syn)\<rparr>"
      "rem = \<lparr>inet4_addr = ip_src h, port = uint (tcp_sport syn)\<rparr>" "tcp_abs (n_tcp (net st)) (loc, rem) = None"
    and syn: "has_flag syn TCP_SYN" "tcp_hdr_size syn > 0"
    and ack: "has_flag ack TCP_ACK" "\<not> has_flag ack TCP_SYN" "tcp_hdr_size ack \<ge> 0" "tcp_seqno ack = tcp_seqno syn + 1" "tcp_ack_num ack = 1"
      "tcp_sport ack = tcp_sport syn" "tcp_dport ack = tcp_dport syn"
  shows "\<exists>st1 st2 reply n c t c'. ingress_turn sendto now [Inr (ipv4_frame dst src (tcp_packet h syn data))] st = Some ([], st1) \<and>
    wire (n_eth (net st1)) = wire (n_eth (net st)) @ [ether_frame src (el_mac (ether_if (n_eth (net st)))) ETHER_PROTO_IPV4 reply] \<and>
    int (length reply) = 20 + tcp_hdr_size syn \<and> ip_load reply = Some n \<and>
    fst (ip_ntoh n) = h\<lparr>ip_src := ip_dst h, ip_dst := ip_src h, ip_ttl := 64, ip_len := of_nat (length reply), ip_csum := c\<rparr> \<and>
    ip_checksum (take 20 reply) = 0 \<and> tcp_load (drop 20 reply) = Some t \<and>
    tcp_ntoh t = syn\<lparr>tcp_sport := tcp_dport syn, tcp_dport := tcp_sport syn, tcp_seqno := 0, tcp_ack_num := tcp_seqno syn + 1,
      tcp_flags := tcp_flags syn OR TCP_ACK, tcp_csum := c'\<rparr> \<and> tcp_checksum (ip_dst h) (ip_src h) (drop 20 reply) = 0 \<and>
    map_option state (tcp_abs (n_tcp (net st1)) (loc, rem)) = Some TCP_SYN_RCVD \<and>
    ingress_turn sendto now' [Inr (ipv4_frame dst src (tcp_packet h' ack data'))] st1 = Some ([], st2) \<and>
    wire (n_eth (net st2)) = wire (n_eth (net st1)) \<and>
    tcp_abs (n_tcp (net st2)) = (tcp_abs (n_tcp (net st)))((loc, rem) \<mapsto>
      \<lparr>local = loc, remote = rem, state = TCP_ESTABLISHED, recv_next = tcp_seqno syn + 1, send_next = 1\<rparr>)"
proof -
  let ?conn = "\<lparr>local = loc, remote = rem, state = TCP_SYN_RCVD, recv_next = tcp_seqno syn + 1, send_next = 1\<rparr>"
  let ?rs = "syn\<lparr>tcp_flags := tcp_flags syn OR TCP_ACK, tcp_ack_num := tcp_seqno syn + 1, tcp_seqno := 0\<rparr>"
  have acc: "tcp_accepts (tcp_abs (n_tcp (net st)) (loc, rem)) syn" using syn(1) t(5) by (simp add: tcp_accepts_def)
  have fsm: "tcp_fsm (case tcp_abs (n_tcp (net st)) (loc, rem) of None \<Rightarrow> tcp_listener loc rem | Some conn \<Rightarrow> conn) syn = (tcp_hdr_size syn, ?conn, ?rs)"
    using syn_answer [OF syn(1), of loc rem] t(5) by simp
  obtain st1 frame where s: "ingress_turn sendto now [Inr (ipv4_frame dst src (tcp_packet h syn data))] st = Some ([], st1)"
    "wire (n_eth (net st1)) = wire (n_eth (net st)) @ [frame]"
    "answers (el_mac (ether_if (n_eth (net st)))) src h (?rs\<lparr>tcp_sport := tcp_dport syn, tcp_dport := tcp_sport syn\<rparr>) frame"
    "next_turn lo R (ip_src h) st st1"
    "tcp_inv K (n_tcp (net st1))" "tcp_abs (n_tcp (net st1)) = (tcp_abs (n_tcp (net st)))((loc, rem) \<mapsto> ?conn)"
    by (rule answered_turn [OF st(1-4) link addr h(1) t(1-4) acc fsm syn(2)])
  have sz: "tcp_hdr_size (?rs\<lparr>tcp_sport := tcp_dport syn, tcp_dport := tcp_sport syn\<rparr>) = tcp_hdr_size syn"
    using tcp_hdr_size_ack [of syn] by (simp add: tcp_hdr_size_def)
  have n: "net_ok lo R (net st1)" "ether_handle st1 = 0" "length (rx_buffer st1) = 1514" "now' - timer_start st1 < 10"
    "el_mac (ether_if (n_eth (net st1))) \<noteq> src" "arp_room (n_arp (net st1)) (ip_src h')"
    using s(4) st(5) addr(3) h(3) by (simp_all add: next_turn_def)
  have a: "loc = \<lparr>inet4_addr = ip_dst h', port = uint (tcp_dport ack)\<rparr>" "rem = \<lparr>inet4_addr = ip_src h', port = uint (tcp_sport ack)\<rparr>"
    "tcp_accepts (tcp_abs (n_tcp (net st1)) (loc, rem)) ack"
    "tcp_fsm (case tcp_abs (n_tcp (net st1)) (loc, rem) of None \<Rightarrow> tcp_listener loc rem | Some conn \<Rightarrow> conn) ack = (0, ?conn\<lparr>state := TCP_ESTABLISHED\<rparr>, ack)"
    using s(6) h(3,4) t(3,4) ack ack_establishes [of ack ?conn] by (simp_all add: tcp_accepts_def)
  obtain st2 where s2: "ingress_turn sendto now' [Inr (ipv4_frame dst src (tcp_packet h' ack data'))] st1 = Some ([], st2)"
    "wire (n_eth (net st2)) = wire (n_eth (net st1))"
    "tcp_abs (n_tcp (net st2)) = (tcp_abs (n_tcp (net st1)))((loc, rem) \<mapsto> ?conn\<lparr>state := TCP_ESTABLISHED\<rparr>)"
    by (rule silent_turn [OF n(1-4) addr(1,2) n(5,6) h(2) s(5) t(2) a])
  obtain reply n c t c' where r: "frame = ether_frame src (el_mac (ether_if (n_eth (net st)))) ETHER_PROTO_IPV4 reply"
    "int (length reply) = 20 + tcp_hdr_size syn" "ip_load reply = Some n"
    "fst (ip_ntoh n) = h\<lparr>ip_src := ip_dst h, ip_dst := ip_src h, ip_ttl := 64, ip_len := of_nat (length reply), ip_csum := c\<rparr>"
    "ip_checksum (take 20 reply) = 0" "tcp_load (drop 20 reply) = Some t"
    "tcp_ntoh t = ?rs\<lparr>tcp_sport := tcp_dport syn, tcp_dport := tcp_sport syn, tcp_csum := c'\<rparr>"
    "tcp_checksum (ip_dst h) (ip_src h) (drop 20 reply) = 0"
    using s(3) unfolding answers_def sz by blast
  have "tcp_ntoh t = syn\<lparr>tcp_sport := tcp_dport syn, tcp_dport := tcp_sport syn, tcp_seqno := 0, tcp_ack_num := tcp_seqno syn + 1,
      tcp_flags := tcp_flags syn OR TCP_ACK, tcp_csum := c'\<rparr>" unfolding r(7) by simp
  then show ?thesis using s(1,2) r(1-6,8) s(6) s2
    by (intro exI [of _ st1] exI [of _ st2] exI [of _ reply] exI [of _ n] exI [of _ c] exI [of _ t] exI [of _ c']) simp
qed

text \<open>C14: The end of a connection. A FIN from the peer of an established connection is answered with one frame that carries FIN and ACK, our
  sequence number and the acknowledgement of the FIN; the acknowledgement of that closes the connection without an answer. The
  control block of a closed connection is never given back: a later SYN of the same peer to the same port finds it and is
  refused, so nothing is sent and the table stays as it is; the peer cannot connect again. No other connection is touched.\<close>

theorem tcp_teardown:
  fixes h :: "nat \<Rightarrow> ip_hdr" and seg :: "nat \<Rightarrow> tcp_hdr" and data :: "nat \<Rightarrow> bytes" and now :: "nat \<Rightarrow> int"
  assumes st: "net_ok lo R (net st)" "ether_handle st = 0" "length (rx_buffer st) = 1514" "\<forall>i < 3. now i - timer_start st < 10"
    and link: "\<forall>w f. \<exists>k \<ge> 0. sendto w f = Inr k"
    and addr: "length dst = 6" "length src = 6" "el_mac (ether_if (n_eth (net st))) \<noteq> src" "arp_room (n_arp (net st)) ip"
    and h: "\<forall>i < 3. tcp_receivable lo R (h i) (data i) \<and> ip_src (h i) = ip \<and> ip_dst (h i) = inet4_addr loc"
    and seg: "\<forall>i < 3. uint (tcp_dport (seg i)) = port loc \<and> uint (tcp_sport (seg i)) = port rem" "inet4_addr rem = ip"
    and t: "tcp_inv K (n_tcp (net st))" "tcp_abs (n_tcp (net st)) (loc, rem) = Some conn" "state conn = TCP_ESTABLISHED"
    and flags: "has_flag (seg 0) TCP_FIN" "\<not> has_flag (seg 0) TCP_SYN" "tcp_hdr_size (seg 0) > 0"
      "has_flag (seg 1) TCP_ACK" "\<not> has_flag (seg 1) TCP_SYN" "tcp_hdr_size (seg 1) \<ge> 0" "has_flag (seg 2) TCP_SYN"
  shows "\<exists>st1 st2 st3 frame. ingress_turn sendto (now 0) [Inr (ipv4_frame dst src (tcp_packet (h 0) (seg 0) (data 0)))] st = Some ([], st1) \<and>
    wire (n_eth (net st1)) = wire (n_eth (net st)) @ [frame] \<and>
    answers (el_mac (ether_if (n_eth (net st)))) src (h 0) ((seg 0)\<lparr>tcp_sport := tcp_dport (seg 0), tcp_dport := tcp_sport (seg 0),
      tcp_seqno := send_next conn, tcp_ack_num := tcp_seqno (seg 0) + 1, tcp_flags := tcp_flags (seg 0) OR TCP_ACK\<rparr>) frame \<and>
    map_option state (tcp_abs (n_tcp (net st1)) (loc, rem)) = Some TCP_LAST_ACK \<and>
    ingress_turn sendto (now 1) [Inr (ipv4_frame dst src (tcp_packet (h 1) (seg 1) (data 1)))] st1 = Some ([], st2) \<and>
    wire (n_eth (net st2)) = wire (n_eth (net st1)) \<and>
    tcp_abs (n_tcp (net st2)) = (tcp_abs (n_tcp (net st)))((loc, rem) \<mapsto>
      conn\<lparr>state := TCP_CLOSED, recv_next := tcp_seqno (seg 0) + 1, send_next := send_next conn + 1\<rparr>) \<and>
    ingress_turn sendto (now 2) [Inr (ipv4_frame dst src (tcp_packet (h 2) (seg 2) (data 2)))] st2 = Some ([], st3) \<and>
    wire (n_eth (net st3)) = wire (n_eth (net st2)) \<and> n_tcp (net st3) = n_tcp (net st2)"
proof -
  let ?c1 = "conn\<lparr>state := TCP_LAST_ACK, recv_next := tcp_seqno (seg 0) + 1, send_next := send_next conn + 1\<rparr>"
  let ?rs = "(seg 0)\<lparr>tcp_flags := tcp_flags (seg 0) OR TCP_ACK, tcp_ack_num := tcp_seqno (seg 0) + 1, tcp_seqno := send_next conn\<rparr>"
  have la: "loc = \<lparr>inet4_addr = ip_dst (h i), port = uint (tcp_dport (seg i))\<rparr>" "rem = \<lparr>inet4_addr = ip_src (h i), port = uint (tcp_sport (seg i))\<rparr>"
    "tcp_receivable lo R (h i) (data i)" "now i - timer_start st < 10" "ip_src (h i) = ip" if "i < 3" for i
    using h seg st(4) that by simp_all
  have lt: "(0 :: nat) < 3" "(1 :: nat) < 3" "(2 :: nat) < 3" by simp_all
  note l0 = la [OF lt(1)] and l1 = la [OF lt(2)] and l2 = la [OF lt(3)]
  have k: "(loc, rem) \<in> K" using t(1) tcp_abs_Some [OF t(1), of "(loc, rem)" conn] t(2) by (auto simp: tcp_inv_def)
  have r0: "arp_room (n_arp (net st)) (ip_src (h 0))" using addr(4) l0(5) by simp
  have acc: "tcp_accepts (tcp_abs (n_tcp (net st)) (loc, rem)) (seg 0)" using flags(2,3) t(2) by (simp add: tcp_accepts_def)
  have fsm: "tcp_fsm (case tcp_abs (n_tcp (net st)) (loc, rem) of None \<Rightarrow> tcp_listener loc rem | Some conn \<Rightarrow> conn) (seg 0) = (tcp_hdr_size (seg 0), ?c1, ?rs)"
    using fin_answer [OF flags(1) t(3)] t(2) by simp
  obtain st1 frame where s1: "ingress_turn sendto (now 0) [Inr (ipv4_frame dst src (tcp_packet (h 0) (seg 0) (data 0)))] st = Some ([], st1)"
    "wire (n_eth (net st1)) = wire (n_eth (net st)) @ [frame]"
    "answers (el_mac (ether_if (n_eth (net st)))) src (h 0) (?rs\<lparr>tcp_sport := tcp_dport (seg 0), tcp_dport := tcp_sport (seg 0)\<rparr>) frame"
    "next_turn lo R (ip_src (h 0)) st st1"
    "tcp_inv K (n_tcp (net st1))" "tcp_abs (n_tcp (net st1)) = (tcp_abs (n_tcp (net st)))((loc, rem) \<mapsto> ?c1)"
    by (rule answered_turn [OF st(1-3) l0(4) link addr(1-3) r0 l0(3) t(1) k l0(1,2) acc fsm flags(3)])
  have n1: "net_ok lo R (net st1)" "ether_handle st1 = 0" "length (rx_buffer st1) = 1514" "now 1 - timer_start st1 < 10"
    "el_mac (ether_if (n_eth (net st1))) \<noteq> src" "arp_room (n_arp (net st1)) (ip_src (h 1))"
    using s1(4) l1(4) l0(5) l1(5) addr(3) by (simp_all add: next_turn_def)
  have a: "tcp_accepts (tcp_abs (n_tcp (net st1)) (loc, rem)) (seg 1)"
    "tcp_fsm (case tcp_abs (n_tcp (net st1)) (loc, rem) of None \<Rightarrow> tcp_listener loc rem | Some conn \<Rightarrow> conn) (seg 1) = (0, ?c1\<lparr>state := TCP_CLOSED\<rparr>, seg 1)"
    using s1(6) flags(4-6) by (simp_all add: tcp_accepts_def tcp_fsm_def)
  obtain st2 where s2: "ingress_turn sendto (now 1) [Inr (ipv4_frame dst src (tcp_packet (h 1) (seg 1) (data 1)))] st1 = Some ([], st2)"
    "wire (n_eth (net st2)) = wire (n_eth (net st1))" "next_turn lo R (ip_src (h 1)) st1 st2"
    "tcp_inv K (n_tcp (net st2))" "tcp_abs (n_tcp (net st2)) = (tcp_abs (n_tcp (net st1)))((loc, rem) \<mapsto> ?c1\<lparr>state := TCP_CLOSED\<rparr>)"
    by (rule silent_turn [OF n1(1-4) addr(1,2) n1(5,6) l1(3) s1(5) k l1(1,2) a])
  have n2: "net_ok lo R (net st2)" "ether_handle st2 = 0" "length (rx_buffer st2) = 1514" "now 2 - timer_start st2 < 10"
    "el_mac (ether_if (n_eth (net st2))) \<noteq> src" "arp_room (n_arp (net st2)) (ip_src (h 2))"
    using s1(4) s2(3) l2(4) l1(5) l2(5) addr(3) by (simp_all add: next_turn_def)
  have ref: "\<not> tcp_accepts (tcp_abs (n_tcp (net st2)) (loc, rem)) (seg 2)" using s2(5) flags(7) by (simp add: tcp_accepts_def)
  obtain st3 where s3: "ingress_turn sendto (now 2) [Inr (ipv4_frame dst src (tcp_packet (h 2) (seg 2) (data 2)))] st2 = Some ([], st3)"
    "wire (n_eth (net st3)) = wire (n_eth (net st2))" "n_tcp (net st3) = n_tcp (net st2)"
    by (rule refused_turn [OF n2(1-4) addr(1,2) n2(5,6) l2(3) s2(4) k l2(1,2) ref])
  have "?rs\<lparr>tcp_sport := tcp_dport (seg 0), tcp_dport := tcp_sport (seg 0)\<rparr> = (seg 0)\<lparr>tcp_sport := tcp_dport (seg 0), tcp_dport := tcp_sport (seg 0),
      tcp_seqno := send_next conn, tcp_ack_num := tcp_seqno (seg 0) + 1, tcp_flags := tcp_flags (seg 0) OR TCP_ACK\<rparr>"
    "?c1\<lparr>state := TCP_CLOSED\<rparr> = conn\<lparr>state := TCP_CLOSED, recv_next := tcp_seqno (seg 0) + 1, send_next := send_next conn + 1\<rparr>" by simp_all
  then show ?thesis using s1(1-3) s1(6) s2(1,2,5) s3
    by (intro exI [of _ st1] exI [of _ st2] exI [of _ st3] exI [of _ frame] conjI)
      (simp_all only: fun_upd_upd fun_upd_same option.map tcp_conn_tcb.select_convs tcp_conn_tcb.update_convs, simp_all)
qed

definition example_syn :: ip_hdr where
  "example_syn = example_ping\<lparr>ip_proto := IP_PROTO_TCP, ip_len := 40\<rparr>"

lemma example_syn_ok: "tcp_receivable 0 {example_route} example_syn []" "ip_src example_syn = 0x0a000000" "ip_dst example_syn = 0x0a000002"
  by (simp_all add: tcp_receivable_def example_syn_def example_ping_def example_route_def in_window_def acceptable_def ip_hdr_hlen_def
      ip_fragment_is_frag_def IP_FLAGS_MF_def)

lemma example_seg_ok:
  "has_flag (example_seg 2 100 0) TCP_SYN" "tcp_hdr_size (example_seg 2 100 0) = 20" "has_flag (example_seg 16 101 1) TCP_ACK"
  "\<not> has_flag (example_seg 16 101 1) TCP_SYN" "tcp_hdr_size (example_seg 16 101 1) = 20" "tcp_seqno (example_seg f x y) = x"
  "tcp_ack_num (example_seg f x y) = y" "tcp_sport (example_seg f x y) = 9" "tcp_dport (example_seg f x y) = 80"
  by (code_simp, code_simp, code_simp, code_simp, code_simp) (simp_all add: example_seg_def)

lemma tcp_handshake_witness:
  "\<exists>rib arp u st1 st2. net_ok 0 {example_route} (net (example_stack rib arp u)) \<and>
     ingress_turn (\<lambda>w f. Inr 0) 105 [Inr (ipv4_frame (replicate 6 2) (replicate 6 8) (tcp_packet example_syn (example_seg 2 100 0) []))]
       (example_stack rib arp u) = Some ([], st1) \<and> length (wire (n_eth (net st1))) = 1 \<and>
     ingress_turn (\<lambda>w f. Inr 0) 105 [Inr (ipv4_frame (replicate 6 2) (replicate 6 8) (tcp_packet example_syn (example_seg 16 101 1) []))]
       st1 = Some ([], st2) \<and> map_option state (tcp_abs (n_tcp (net st2)) (\<lparr>inet4_addr = 0x0a000002, port = 80\<rparr>, \<lparr>inet4_addr = 0x0a000000, port = 9\<rparr>)) = Some TCP_ESTABLISHED"
proof -
  let ?syn = "example_seg 2 100 0" and ?ack = "example_seg 16 101 1"
  obtain rib arp where n: "\<forall>u. net_ok 0 {example_route} (net (example_stack rib arp u))" "arp_room arp 0x0a000000"
    by (rule example_stack_ok)
  let ?st = "example_stack rib arp udp_boot"
  have tb: "n_tcp (net ?st) = tcp_boot" by (simp add: example_stack_def net_boot_def)
  have e: "tcp_abs tcp_boot rem = None" for rem by (simp add: tcp_abs_def tcp_boot_def)
  have link: "\<forall>w f. \<exists>k \<ge> 0. (\<lambda>w f. Inr 0) w f = (Inr k :: int + int)" for w :: "bytes list" and f :: bytes by auto
  have r: "arp_room (n_arp (net ?st)) (ip_src example_syn)" using n(2) by (simp add: example_stack_simps example_syn_ok)
  let ?K = "{\<lparr>inet4_addr = 0x0a000002, port = 80\<rparr>} \<times> {rem. port_ok rem}"
  have t: "tcp_inv ?K (n_tcp (net ?st))" "(\<lparr>inet4_addr = 0x0a000002, port = 80\<rparr>, \<lparr>inet4_addr = 0x0a000000, port = 9\<rparr>) \<in> ?K"
    "tcp_abs (n_tcp (net ?st)) (\<lparr>inet4_addr = 0x0a000002, port = 80\<rparr>, \<lparr>inet4_addr = 0x0a000000, port = 9\<rparr>) = None"
    unfolding tb by (rule tcp_inv_boot [OF addr_chain_service(1)], simp add: port_ok_def, simp add: port_ok_def, rule e)
  have a: "\<lparr>inet4_addr = 0x0a000002, port = 80\<rparr> = \<lparr>inet4_addr = ip_dst example_syn, port = uint (tcp_dport ?syn)\<rparr>"
    "\<lparr>inet4_addr = 0x0a000000, port = 9\<rparr> = \<lparr>inet4_addr = ip_src example_syn, port = uint (tcp_sport ?syn)\<rparr>"
    by (simp_all add: example_syn_ok example_seg_ok)
  have b: "tcp_hdr_size ?syn > 0" "tcp_hdr_size ?ack \<ge> 0" "tcp_seqno ?ack = tcp_seqno ?syn + 1" "tcp_ack_num ?ack = 1"
    "tcp_sport ?ack = tcp_sport ?syn" "tcp_dport ?ack = tcp_dport ?syn" by (simp_all add: example_seg_ok)
  from tcp_handshake [OF n(1) [rule_format, of udp_boot] example_stack_simps(1-3,3) link example_addr(1,2) example_stack_simps(4) r
      example_syn_ok(1) example_syn_ok(1) refl refl t(1,2) a t(3) example_seg_ok(1) b(1) example_seg_ok(3,4) b(2-6)]
  show ?thesis using n(1) [rule_format, of udp_boot] by (fastforce simp: example_stack_simps(5))
qed

text \<open>An established connection.\<close>

definition example_table :: tcp_table where
  "example_table = \<lparr>tcb = (\<lambda>_. \<lparr>local = \<lparr>inet4_addr = 0x0a000002, port = 80\<rparr>, remote = \<lparr>inet4_addr = 0x0a000000, port = 9\<rparr>,
     state = TCP_ESTABLISHED, recv_next = 101, send_next = 1\<rparr>), tcb_count = 1, tcp_conn_map = \<lparr>rbh_root = Some 0, links = \<lambda>_. rb_entry_zero\<rparr>\<rparr>"

lemma example_table_ok:
  "tcp_inv ({\<lparr>inet4_addr = 0x0a000002, port = 80\<rparr>} \<times> {rem. port_ok rem}) example_table"
  "tcp_abs example_table (\<lparr>inet4_addr = 0x0a000002, port = 80\<rparr>, \<lparr>inet4_addr = 0x0a000000, port = 9\<rparr>) = Some (tcb example_table 0)"
proof -
  have "rb_tree \<lparr>rbh_root = Some 0, links = \<lambda>_. rb_entry_zero\<rparr> [0]"
    unfolding rb_tree_def by (rule exI [of _ "Nd RB_BLACK Lf 0 Lf"]) (simp add: at_def rb_ok_def rb_entry_zero_def)
  then have "rb_set tcp_rank (tcb example_table) (tcp_conn_map example_table) {..<tcb_count example_table}"
    unfolding rb_set_def by (intro exI [of _ "[0]"]) (simp add: example_table_def lessThan_Suc)
  then show "tcp_inv ({\<lparr>inet4_addr = 0x0a000002, port = 80\<rparr>} \<times> {rem. port_ok rem}) example_table"
    using addr_chain_service(1) [of "\<lparr>inet4_addr = 0x0a000002, port = 80\<rparr>"] by (simp add: tcp_inv_def example_table_def conn_key_def port_ok_def)
  show "tcp_abs example_table (\<lparr>inet4_addr = 0x0a000002, port = 80\<rparr>, \<lparr>inet4_addr = 0x0a000000, port = 9\<rparr>) = Some (tcb example_table 0)"
    by (simp add: tcp_abs_def example_table_def conn_key_def)
qed

lemma tcp_teardown_witness:
  "\<exists>rib arp st st1 st2 st3. st = (example_stack rib arp udp_boot)\<lparr>net := (net (example_stack rib arp udp_boot))\<lparr>n_tcp := example_table\<rparr>\<rparr> \<and>
     ingress_turn (\<lambda>w f. Inr 0) 105 [Inr (ipv4_frame (replicate 6 2) (replicate 6 8) (tcp_packet example_syn (example_seg 0x11 101 1) []))] st = Some ([], st1) \<and>
     length (wire (n_eth (net st1))) = 1 \<and>
     ingress_turn (\<lambda>w f. Inr 0) 105 [Inr (ipv4_frame (replicate 6 2) (replicate 6 8) (tcp_packet example_syn (example_seg 16 102 2) []))] st1 = Some ([], st2) \<and>
     map_option state (tcp_abs (n_tcp (net st2)) (\<lparr>inet4_addr = 0x0a000002, port = 80\<rparr>, \<lparr>inet4_addr = 0x0a000000, port = 9\<rparr>)) = Some TCP_CLOSED \<and>
     ingress_turn (\<lambda>w f. Inr 0) 105 [Inr (ipv4_frame (replicate 6 2) (replicate 6 8) (tcp_packet example_syn (example_seg 2 200 0) []))] st2 = Some ([], st3) \<and>
     n_tcp (net st3) = n_tcp (net st2)"
proof -
  let ?seg = "\<lambda>i :: nat. if i = 0 then example_seg 0x11 101 1 else if i = 1 then example_seg 16 102 2 else example_seg 2 200 0"
  let ?loc = "\<lparr>inet4_addr = 0x0a000002, port = 80\<rparr>" and ?rem = "\<lparr>inet4_addr = 0x0a000000, port = 9\<rparr>"
  obtain rib arp where n: "\<forall>u. net_ok 0 {example_route} (net (example_stack rib arp u))" "arp_room arp 0x0a000000"
    by (rule example_stack_ok)
  let ?st = "(example_stack rib arp udp_boot)\<lparr>net := (net (example_stack rib arp udp_boot))\<lparr>n_tcp := example_table\<rparr>\<rparr>"
  have link: "\<forall>w f. \<exists>k \<ge> 0. (\<lambda>w f. Inr 0) w f = (Inr k :: int + int)" for w :: "bytes list" and f :: bytes by auto
  have s: "net_ok 0 {example_route} (net ?st)" "ether_handle ?st = 0" "length (rx_buffer ?st) = 1514" "\<forall>i < (3 :: nat). 105 - timer_start ?st < 10"
    "el_mac (ether_if (n_eth (net ?st))) \<noteq> replicate 6 8" "arp_room (n_arp (net ?st)) 0x0a000000" "wire (n_eth (net ?st)) = []"
    using n(1) [rule_format, of udp_boot] n(2) by (simp_all add: example_stack_simps net_ok_def)
  have h: "\<forall>i < (3 :: nat). tcp_receivable 0 {example_route} example_syn [] \<and> ip_src example_syn = 0x0a000000 \<and> ip_dst example_syn = inet4_addr ?loc"
    using example_syn_ok by simp
  have g: "\<forall>i < (3 :: nat). uint (tcp_dport (?seg i)) = port ?loc \<and> uint (tcp_sport (?seg i)) = port ?rem" by (simp add: example_seg_ok)
  have t: "tcp_inv ({?loc} \<times> {rem. port_ok rem}) (n_tcp (net ?st))" "tcp_abs (n_tcp (net ?st)) (?loc, ?rem) = Some (tcb example_table 0)"
    "state (tcb example_table 0) = TCP_ESTABLISHED" using example_table_ok by (simp_all add: example_table_def)
  have f: "has_flag (?seg 0) TCP_FIN" "\<not> has_flag (?seg 0) TCP_SYN" "tcp_hdr_size (?seg 0) > 0"
    "has_flag (?seg 1) TCP_ACK" "\<not> has_flag (?seg 1) TCP_SYN" "tcp_hdr_size (?seg 1) \<ge> 0" "has_flag (?seg 2) TCP_SYN" by code_simp+
  from tcp_teardown [where now = "\<lambda>_. 105" and h = "\<lambda>_. example_syn" and data = "\<lambda>_. []" and seg = ?seg and sendto = "\<lambda>w f. Inr 0",
      OF s(1-4) link example_addr(1,2) s(5,6) h g _ t f] s(7)
  show ?thesis by fastforce
qed

end
