(* ===== verification/Unetcat.thy ===== *)
theory Unetcat
  imports Socket
begin

text \<open>
  The client \<^verbatim>\<open>examples/unetcat.c\<close>: it opens the socket and copies what it receives to its output. Its loop has no end; \<open>n\<close> is the
  number of turns looked at. The output is the list of bytes written.
\<close>

definition unetcat_turn :: "xstack_shmem \<Rightarrow> (bytes \<times> xstack_shmem) option" where
  "unetcat_turn sock = do {
     (r, buf, addr, sock) \<leftarrow> xstack_recvfrom (2048 - 1) 0 sock;
     Some (if r > 0 then take r buf else [], sock)
   }"

fun unetcat_loop :: "nat \<Rightarrow> xstack_shmem \<Rightarrow> (bytes \<times> xstack_shmem) option" where
  "unetcat_loop 0 sock = Some ([], sock)"
| "unetcat_loop (Suc n) sock = do {
     (out, sock) \<leftarrow> unetcat_turn sock;
     (outs, sock) \<leftarrow> unetcat_loop n sock;
     Some (out @ outs, sock)
   }"

text \<open>\<open>Inl\<close> is the status the program exits with.\<close>

definition unetcat_main :: "bool \<Rightarrow> bool \<Rightarrow> int \<Rightarrow> nat \<Rightarrow> xstack_shmem \<Rightarrow> (int + bytes \<times> xstack_shmem) option" where
  "unetcat_main opened mapped mypid n m =
     (case xstack_listen opened mapped mypid m of
        None \<Rightarrow> Some (Inl 1)
      | Some sock \<Rightarrow> map_option Inr (unetcat_loop n sock))"

text \<open>The client prints of every datagram that waits for it the first 2047 bytes, in order, and then waits.\<close>

lemma unetcat_loop_prints:
  "pending m msgs \<Longrightarrow> \<exists>m'. unetcat_loop (length msgs) m = Some (concat (map (\<lambda>(src, dst, buf). take 2047 buf) msgs), m') \<and> pending m' []"
proof (induction msgs arbitrary: m)
  case (Cons x msgs)
  obtain src dst data where x: "x = (src, dst, data)" by (cases x) auto
  obtain m1 where m1: "xstack_recvfrom 2047 0 m = Some (min (unat (2047 :: size_t)) (length data), take (unat (2047 :: size_t)) data, src, m1)"
    "pending m1 msgs" using recvfrom_ok [of m src dst data msgs 2047 0] Cons.prems x by (auto simp: XSTACK_MSG_PEEK_def)
  have "unetcat_turn m = Some (take 2047 data, m1)" using m1(1) by (auto simp: unetcat_turn_def min_def)
  then show ?case using Cons.IH [OF m1(2)] x by auto
qed simp

lemma unetcat_main_prints:
  assumes "pending m msgs"
  shows "\<exists>m'. unetcat_main True True mypid (length msgs) m = Some (Inr (concat (map (\<lambda>(src, dst, buf). take 2047 buf) msgs), m')) \<and> pending m' []"
  using unetcat_loop_prints [of "m\<lparr>pid_end := mypid\<rparr>" msgs] assms by (auto simp: unetcat_main_def xstack_listen_def pending_def)

lemma unetcat_no_socket: "\<not> (opened \<and> mapped) \<Longrightarrow> unetcat_main opened mapped mypid n m = Some (Inl 1)"
  by (auto simp: unetcat_main_def xstack_listen_def)

end
