(* ===== verification/System.thy ===== *)
theory System
  imports Ingress Unetcat
begin

text \<open>
  The running system: the ingress thread, the egress thread and the clients of the sockets, interleaved turn by turn
  and call by call. The interleaving of single memory accesses on the rings that they share is the subject of
  \<open>Queue_R\<close>; here a turn and a call are one step.

  A turn waits for a client when it brings a datagram for a full queue: \<^verbatim>\<open>xstack_sock_dgram_input\<close> loops on
  \<^verbatim>\<open>queue_alloc\<close>. In the model it has no result then, and is not a step before the client has read.
\<close>

section \<open>Waiting for a client\<close>

definition udp_waits :: "ip_hdr \<Rightarrow> bytes \<Rightarrow> (udp_table \<Rightarrow> bool) \<Rightarrow> bool" where
  "udp_waits h d U \<longleftrightarrow> (\<forall>u rest. U u \<longrightarrow> udp_input h (d @ rest) (length d) u = None)"

lemma deliver_waits:
  assumes st: "net_safe lo R P E T U st" and h: "acceptable h bsize" "ip_hdr_hlen h \<le> bsize" "ip_proto h = IP_PROTO_UDP"
    and l: "bsize \<le> 1500" "length rest = 1494" and U: "udp_waits h (drop (ip_hdr_hlen h) (take bsize (ip_store h @ rest))) U"
  shows "ip_deliver (ip_store h @ rest) bsize st = None"
proof -
  define mem where "mem = ip_store h @ rest"
  have "drop (ip_hdr_hlen h) mem = drop (ip_hdr_hlen h) (take bsize mem) @ drop bsize mem"
    using h(2) append_take_drop_id [of "bsize - ip_hdr_hlen h" "drop (ip_hdr_hlen h) mem"] by (simp add: drop_take)
  moreover have "length (drop (ip_hdr_hlen h) (take bsize mem)) = bsize - ip_hdr_hlen h" using l by (simp add: mem_def)
  moreover have "U (n_udp st)" using st by (simp add: net_safe_def)
  ultimately have "udp_input h (drop (ip_hdr_hlen h) mem) (bsize - ip_hdr_hlen h) (n_udp st) = None"
    using U unfolding udp_waits_def mem_def [symmetric] by metis
  then show ?thesis using find_udp [OF h(3)] header_length_diff [OF h(1,2)]
    unfolding mem_def by (simp add: ip_deliver_def Let_def del: drop_append)
qed

lemma ip_input_waits:
  assumes st: "net_safe lo R P E T U st" and l: "bsize \<le> 1500" "length rest = 1494"
    and h: "acceptable h bsize \<longrightarrow> ip_hdr_hlen h \<le> bsize \<and> \<not> ip_fragment_is_frag h \<and> ip_src h \<in> insert 0 P"
    and U: "ip_dgram R h (take bsize (ip_store (ip_swap h) @ rest)) = Some (h', d)" "udp_waits h' d U"
  shows "ip_input 2 sendto (Some e) (ip_store (ip_swap h) @ rest) bsize st = None"
proof -
  have b: "length (take bsize (ip_store (ip_swap h) @ rest)) = bsize" using l by simp
  have a: "acceptable h bsize" "ip_dst h \<in> r_iface ` R" "ip_proto h = IP_PROTO_UDP" "h' = h"
    "d = drop (ip_hdr_hlen h) (take bsize (ip_store (ip_swap h) @ rest))"
    using U(1) unfolding ip_dgram_def b by (auto split: if_splits)
  have hl: "20 \<le> ip_hdr_hlen h" "ip_hdr_hlen h \<le> bsize" using h a(1) by (simp_all add: acceptable_def)
  obtain s1 where s1: "arp_learn (ip_src h) (h_src e) st = Some s1" "net_safe lo R P E T U s1"
    using arp_learn_safe [OF st] a(1) h by metis
  have "net_ok lo R s1" using s1(2) by (simp add: net_safe_def)
  then obtain q where q: "ip_route_find_by_iface (ip_dst h) (n_rib s1) = Some q" "isl q \<longrightarrow> ip_dst h \<notin> r_iface ` R"
    using find_by_iface_any by metis
  have "drop (ip_hdr_hlen h) (take bsize (ip_store g @ rest)) = drop (ip_hdr_hlen h - 20) (take (bsize - 20) rest)" for g
    using hl by (simp add: drop_take)
  then have "ip_deliver (ip_store h @ rest) bsize s1 = None" using deliver_waits [OF s1(2) a(1) hl(2) a(3) l] U(2) a(4,5) by simp
  then show ?thesis using a(1,2) h s1(1) q by (cases q) (simp_all add: numeral_2_eq_2 ip_input_link)
qed

lemma frame_waits:
  assumes st: "net_safe lo R P E T U (net st)" and f: "benign P f" "h_proto hdr = frame_proto f" "frame_dgram R f = Some (h, d)" "udp_waits h d U"
    and l: "length (rx_buffer st) = 1514" "take (length (frame_payload f)) (rx_buffer st) = frame_payload f"
  shows "ingress_frame sendto hdr (length (frame_payload f)) st = None"
proof -
  let ?p = "frame_payload f" and ?buf = "rx_buffer st"
  have len: "46 \<le> length ?p" "length ?p \<le> 1500" using f(1) by (auto simp: benign_def frame_payload_def ether_consts)
  have ip: "frame_proto f = ETHER_PROTO_IPV4" "ip_dgram R (frame_hdr f) ?p = Some (h, d)" using f(3) by (auto simp: frame_dgram_def split: if_splits)
  have buf: "?buf = ?p @ drop (length ?p) ?buf" using l(2) by (metis append_take_drop_id)
  obtain m where m: "ip_load ?p = Some m" using len(1) by (simp add: ip_load_def)
  then have "ip_load ?buf = Some m" using len(1) buf ip_load_append [of ?p "drop (length ?p) ?buf"] by simp
  then have b: "?buf = ip_store (ip_swap (frame_hdr f)) @ drop 20 ?buf" using ip_store_load m by (simp add: frame_hdr_def)
  have d: "length (drop 20 ?buf) = 1494" using l(1) by simp
  have "ip_benign P (frame_hdr f) (length ?p)" using f(1) ip(1) by (simp add: benign_def)
  moreover have "ip_dgram R (frame_hdr f) (take (length ?p) (ip_store (ip_swap (frame_hdr f)) @ drop 20 ?buf)) = Some (h, d)"
    using ip(2) l(2) unfolding b [symmetric] by simp
  ultimately have "ip_input 2 sendto (Some hdr) (ip_store (ip_swap (frame_hdr f)) @ drop 20 ?buf) (length ?p) (net st) = None"
    unfolding ip_benign_def by (rule ip_input_waits [OF st len(2) d _ _ f(4)])
  then show ?thesis using ip(1) f(2) unfolding b [symmetric] by (simp add: ingress_frame_def ether_input_def ether_handlers ether_consts)
qed

lemma turn_waits:
  assumes st: "stack_safe lo R P E t0 U st"
    and e: "\<forall>ev \<in> set evs. event_ok P ev" "filter (from_others E) evs = e # es" "event_dgram R e = Some (h, d)" "udp_waits h d U"
  shows "ingress_turn sendto now evs st = None"
proof -
  obtain f where f: "e = Inr f" "frame_dgram R f = Some (h, d)" using e(3) by (auto simp: event_dgram_def split: sum.splits)
  obtain r hdr buf evs' est where r: "ether_receive evs (n_eth (net st)) (ether_handle st) (rx_buffer st) = Some (r, hdr, buf, evs', est)"
    "filter (from_others E) evs' = es" "set evs' \<subseteq> set evs" "length buf = 1514" "ether_if est = ether_if (n_eth (net st))"
    "case e of Inl _ \<Rightarrow> r \<le> 0 | Inr f \<Rightarrow> benign P f \<and> r = int (length (frame_payload f)) \<and>
       take (length (frame_payload f)) buf = frame_payload f \<and> (\<exists>h. hdr = Some h \<and> h_proto h = frame_proto f)"
    using receive_safe [OF st e(1,2)] .
  obtain eh where eh: "benign P f" "r = int (length (frame_payload f))" "take (length (frame_payload f)) buf = frame_payload f"
    "hdr = Some eh" "h_proto eh = frame_proto f" using r(6) f(1) by auto
  let ?st = "st\<lparr>rx_buffer := buf, net := (net st)\<lparr>n_eth := est\<rparr>\<rparr>"
  have "net_safe lo R P E (timer_start st - t0) U (net ?st)" using st r(5) net_safe_eth by (auto simp: stack_safe_def)
  then have "ingress_frame sendto eh (length (frame_payload f)) ?st = None"
    by (rule frame_waits [OF _ eh(1,5) f(2) e(4)]) (use r(4) eh(3) in simp_all)
  moreover have "r > 0" using eh(1,2) by (auto simp: benign_def frame_payload_def ether_consts)
  ultimately show ?thesis using r(1) eh(2,4) by (simp add: ingress_turn_def Let_def)
qed

section \<open>The sockets\<close>

type_synonym message = "xstack_sockaddr \<times> xstack_sockaddr \<times> bytes"

text \<open>A bound socket with the address \<open>a\<close>, the datagrams \<open>q\<close> waiting for the client, none longer than a frame, and an egress area in which
  all sizes are zero, as the client library leaves it.\<close>

definition socket_ok :: "xstack_sockaddr \<Rightarrow> message list \<Rightarrow> xstack_sock \<Rightarrow> bool" where
  "socket_ok a q sock \<longleftrightarrow> sock_addr sock = a \<and> sock_proto sock = XIP_PROTO_UDP \<and> pending (sock_shmem sock) q \<and>
     list_all (\<lambda>(src, dst, data). length data \<le> 1500) q \<and>
     sock_queue (egress_q (sock_shmem sock)) (egress_data (sock_shmem sock)) \<and> sizes_zero (egress_data (sock_shmem sock))"

definition sockets_ok :: "(nat \<Rightarrow> xstack_sockaddr) \<Rightarrow> (nat \<Rightarrow> message list) \<Rightarrow> udp_table \<Rightarrow> bool" where
  "sockets_ok A Q u \<longleftrightarrow> udp_inv u {..<NUM_SOCKETS} \<and> (\<forall>s < NUM_SOCKETS. socket_ok (A s) (Q s) (sockets u s))"

lemma socket_ok_length: "socket_ok a q sock \<Longrightarrow> length q \<le> 3"
  using queue_count_less [of "ingress_q (sock_shmem sock)"] pending_length [of "sock_shmem sock" q]
  by (auto simp: socket_ok_def pending_def sock_queue_def)

lemma sockets_ok_set:
  assumes "sockets_ok A Q u" "s < NUM_SOCKETS" "socket_ok (A s) q sock"
  shows "sockets_ok A (Q(s := q)) (u\<lparr>sockets := (sockets u)(s := sock)\<rparr>)"
proof -
  have "sock_addr sock = sock_addr (sockets u s)" using assms by (auto simp: sockets_ok_def socket_ok_def)
  then show ?thesis using assms udp_inv_set [of u "{..<NUM_SOCKETS}" sock s] by (simp add: sockets_ok_def)
qed

text \<open>The message in a datagram, and what an arriving datagram adds to the queues.\<close>

definition dgram_msg :: "ip_hdr \<times> bytes \<Rightarrow> message option" where
  "dgram_msg = (\<lambda>(h, d). map_option (\<lambda>uh. (\<lparr>inet4_addr = ip_src h, port = uint (ntohs (udp_sport uh))\<rparr>,
     \<lparr>inet4_addr = ip_dst h, port = uint (ntohs (udp_dport uh))\<rparr>, drop 8 d)) (udp_load d))"

definition msgs_for :: "xstack_sockaddr \<Rightarrow> (ip_hdr \<times> bytes) list \<Rightarrow> message list" where
  "msgs_for a ds = filter (\<lambda>(src, dst, data). dst = a) (List.map_filter dgram_msg ds)"

lemma msgs_for_simps [simp]:
  "msgs_for a [] = []" "msgs_for a (ds @ ds') = msgs_for a ds @ msgs_for a ds'"
  by (simp_all add: msgs_for_def List.map_filter_simps List.map_filter_def)

definition arrive :: "(nat \<Rightarrow> xstack_sockaddr) \<Rightarrow> (ip_hdr \<times> bytes) list \<Rightarrow> (nat \<Rightarrow> message list) \<Rightarrow> nat \<Rightarrow> message list" where
  "arrive A ds Q s = Q s @ msgs_for (A s) ds"

definition room_for :: "(nat \<Rightarrow> xstack_sockaddr) \<Rightarrow> (ip_hdr \<times> bytes) list \<Rightarrow> (nat \<Rightarrow> message list) \<Rightarrow> bool" where
  "room_for A ds Q \<longleftrightarrow> (\<forall>s < NUM_SOCKETS. length (arrive A ds Q s) \<le> 3)"

lemma udp_input_found:
  assumes "udp_load d = Some uh" "find_udp_socket \<lparr>inet4_addr = ip_dst h, port = uint (ntohs (udp_dport uh))\<rparr> u = Some (Some s)"
  shows "xstack_sock_dgram_input \<lparr>inet4_addr = ip_src h, port = uint (ntohs (udp_sport uh))\<rparr> (drop 8 d) (sockets u s) = None \<Longrightarrow>
      udp_input h (d @ rest) (length d) u = None"
    "xstack_sock_dgram_input \<lparr>inet4_addr = ip_src h, port = uint (ntohs (udp_sport uh))\<rparr> (drop 8 d) (sockets u s) = Some (0, sock) \<Longrightarrow>
      \<exists>pl. udp_input h (d @ rest) (length d) u = Some (0, pl, u\<lparr>sockets := (sockets u)(s := sock)\<rparr>)"
proof -
  have l: "8 \<le> length d" using assms(1) by (auto simp: udp_load_def split: if_splits)
  have n: "udp_load (d @ rest) = Some uh" using assms(1) l by (auto simp: udp_load_def nth_append)
  let ?pl = "udp_store (udp_ntoh uh) @ drop 8 (d @ rest)"
  have w: "mem_write (d @ rest) 0 (udp_store (udp_ntoh uh)) = Some ?pl" using l by (simp add: mem_write_def)
  have r: "mem_read ?pl 8 (length d - 8) = Some (drop 8 d)" using l by (simp add: mem_read_def)
  show "udp_input h (d @ rest) (length d) u = None"
    if "xstack_sock_dgram_input \<lparr>inet4_addr = ip_src h, port = uint (ntohs (udp_sport uh))\<rparr> (drop 8 d) (sockets u s) = None"
    using that n w r l assms(2) by (simp add: udp_input_def udp_ntoh_def Let_def)
  show "\<exists>pl. udp_input h (d @ rest) (length d) u = Some (0, pl, u\<lparr>sockets := (sockets u)(s := sock)\<rparr>)"
    if "xstack_sock_dgram_input \<lparr>inet4_addr = ip_src h, port = uint (ntohs (udp_sport uh))\<rparr> (drop 8 d) (sockets u s) = Some (0, sock)"
    using that n w r l assms(2) by (simp add: udp_input_def udp_ntoh_def Let_def)
qed

lemma udp_input_missed:
  assumes "sockets_ok A Q u" "\<forall>s < NUM_SOCKETS. \<forall>src data. dgram_msg (h, d) \<noteq> Some (src, A s, data)"
  obtains r pl where "udp_input h (d @ rest) (length d) u = Some (r, pl, u)" "r \<le> 0"
proof (cases "udp_load d")
  case None
  then have "length d < 8" by (auto simp: udp_load_def split: if_splits)
  then show ?thesis using that by (simp add: udp_input_def EBADMSG_def)
next
  case (Some uh)
  let ?dst = "\<lparr>inet4_addr = ip_dst h, port = uint (ntohs (udp_dport uh))\<rparr>"
  have l: "8 \<le> length d" using Some by (auto simp: udp_load_def split: if_splits)
  have n: "udp_load (d @ rest) = Some uh" using Some l by (auto simp: udp_load_def nth_append)
  have "port_ok ?dst" using unsigned_less [of "ntohs (udp_dport uh)", where ?'a = int] by (simp add: port_ok_def)
  moreover have "\<forall>s \<in> {..<NUM_SOCKETS}. sock_addr (sockets u s) \<noteq> ?dst"
    using assms Some by (auto simp: sockets_ok_def socket_ok_def dgram_msg_def)
  ultimately have "find_udp_socket ?dst u = Some None" using find_udp_miss [of u "{..<NUM_SOCKETS}"] assms(1) by (simp add: sockets_ok_def)
  moreover have "mem_write (d @ rest) 0 (udp_store (udp_ntoh uh)) = Some (udp_store (udp_ntoh uh) @ drop 8 (d @ rest))"
    using l by (simp add: mem_write_def)
  ultimately show ?thesis using that n l by (simp add: udp_input_def udp_ntoh_def ENOTSOCK_def Let_def)
qed

lemma find_socket:
  assumes "sockets_ok A Q u" "s < NUM_SOCKETS"
  shows "find_udp_socket (A s) u = Some (Some s)"
  using assms find_udp_hit [of u "{..<NUM_SOCKETS}" s "A s"] by (auto simp: sockets_ok_def socket_ok_def)

lemma addresses_differ: "sockets_ok A Q u \<Longrightarrow> s < NUM_SOCKETS \<Longrightarrow> t < NUM_SOCKETS \<Longrightarrow> A s = A t \<longleftrightarrow> s = t"
  using find_socket [of A Q u] by (metis option.inject)

lemma msgs_for_one:
  "msgs_for a [x] = (case dgram_msg x of None \<Rightarrow> [] | Some (src, dst, data) \<Rightarrow> if dst = a then [(src, dst, data)] else [])"
  by (auto simp: msgs_for_def List.map_filter_simps split: option.splits)

text \<open>A datagram goes to the one socket with its destination, when there is room in its queue; it waits
  when there is none, and leaves the sockets as they are when there is no such socket.\<close>

lemma dgram_arrives:
  assumes d: "length d \<le> 1500" and r: "room_for A [(h, d)] Q"
  shows "udp_step h d (sockets_ok A Q) (sockets_ok A (arrive A [(h, d)] Q))"
  unfolding udp_step_def
proof (intro allI impI)
  fix u rest
  assume u: "sockets_ok A Q u"
  show "\<exists>r pl u'. udp_input h (d @ rest) (length d) u = Some (r, pl, u') \<and> r \<le> 0 \<and> sockets_ok A (arrive A [(h, d)] Q) u'"
  proof (cases "\<exists>s < NUM_SOCKETS. \<exists>src data. dgram_msg (h, d) = Some (src, A s, data)")
    case True
    then obtain s src data where s: "s < NUM_SOCKETS" "dgram_msg (h, d) = Some (src, A s, data)" by blast
    then obtain uh where uh: "udp_load d = Some uh" "src = \<lparr>inet4_addr = ip_src h, port = uint (ntohs (udp_sport uh))\<rparr>"
      "A s = \<lparr>inet4_addr = ip_dst h, port = uint (ntohs (udp_dport uh))\<rparr>" "data = drop 8 d" by (auto simp: dgram_msg_def)
    let ?sock = "sockets u s"
    have ok: "socket_ok (A s) (Q s) ?sock" "port_ok (sock_addr ?sock)" using u s(1) by (auto simp: sockets_ok_def udp_inv_def)
    have p: "pending (sock_shmem ?sock) (Q s)" "length (Q s) < 3" "length data \<le> 4072" "port_ok src"
      using ok(1) r s d uh(2,4) unsigned_less [of "ntohs (udp_sport uh)", where ?'a = int]
      by (auto simp: socket_ok_def room_for_def arrive_def msgs_for_one port_ok_def)
    obtain sock where sock: "xstack_sock_dgram_input src data ?sock = Some (0, sock)" "pending (sock_shmem sock) (Q s @ [(src, sock_addr ?sock, data)])"
      "sock_addr sock = sock_addr ?sock" "sigusr2 sock = sigusr2 ?sock @ [pid_end (sock_shmem ?sock)]"
      "egress_q (sock_shmem sock) = egress_q (sock_shmem ?sock)" "egress_data (sock_shmem sock) = egress_data (sock_shmem ?sock)"
      using dgram_input_ok [OF p ok(2)] .
    have "sock_proto sock = sock_proto ?sock" using sock(1) by (auto simp: xstack_sock_dgram_input_def Let_def split: Option.bind_splits if_splits)
    then have "socket_ok (A s) (Q s @ [(src, A s, data)]) sock" using ok(1) sock d uh(4) by (auto simp: socket_ok_def)
    from sockets_ok_set [OF u s(1) this] have u': "sockets_ok A (Q(s := Q s @ [(src, A s, data)])) (u\<lparr>sockets := (sockets u)(s := sock)\<rparr>)" .
    have "t < NUM_SOCKETS \<Longrightarrow> (Q(s := Q s @ [(src, A s, data)])) t = arrive A [(h, d)] Q t" for t
      using s addresses_differ [OF u s(1), of t] by (auto simp: arrive_def msgs_for_one)
    then have "sockets_ok A (arrive A [(h, d)] Q) (u\<lparr>sockets := (sockets u)(s := sock)\<rparr>)" using u' by (auto simp: sockets_ok_def)
    moreover obtain pl where "udp_input h (d @ rest) (length d) u = Some (0, pl, u\<lparr>sockets := (sockets u)(s := sock)\<rparr>)"
      using udp_input_found(2) [OF uh(1)] find_socket [OF u s(1)] sock(1) uh by metis
    ultimately show ?thesis by (metis order_refl)
  next
    case False
    then have no: "\<forall>s < NUM_SOCKETS. \<forall>src data. dgram_msg (h, d) \<noteq> Some (src, A s, data)" by blast
    then have "s < NUM_SOCKETS \<Longrightarrow> arrive A [(h, d)] Q s = Q s" for s by (auto simp: arrive_def msgs_for_one split: option.splits)
    then have "sockets_ok A (arrive A [(h, d)] Q) u" using u by (simp add: sockets_ok_def)
    then show ?thesis using udp_input_missed [OF u no, of rest] by metis
  qed
qed

lemma dgram_waits:
  assumes "\<not> room_for A [(h, d)] Q"
  shows "udp_waits h d (sockets_ok A Q)"
  unfolding udp_waits_def
proof (intro allI impI)
  fix u rest
  assume u: "sockets_ok A Q u"
  obtain s where s: "s < NUM_SOCKETS" "3 < length (arrive A [(h, d)] Q s)" using assms by (auto simp: room_for_def)
  have ok: "socket_ok (A s) (Q s) (sockets u s)" using u s(1) by (simp add: sockets_ok_def)
  obtain src data where m: "dgram_msg (h, d) = Some (src, A s, data)" "length (Q s) = 3"
    using s(2) socket_ok_length [OF ok] by (auto simp: arrive_def msgs_for_one split: option.splits if_splits)
  then obtain uh where uh: "udp_load d = Some uh" "A s = \<lparr>inet4_addr = ip_dst h, port = uint (ntohs (udp_dport uh))\<rparr>" by (auto simp: dgram_msg_def)
  have "xstack_sock_dgram_input \<lparr>inet4_addr = ip_src h, port = uint (ntohs (udp_sport uh))\<rparr> (drop 8 d) (sockets u s) = None"
    using dgram_input_full [of "sockets u s" "Q s"] ok m(2) by (simp add: socket_ok_def)
  then show "udp_input h (d @ rest) (length d) u = None" using udp_input_found(1) [OF uh(1)] find_socket [OF u s(1)] uh(2) by simp
qed

section \<open>Steps\<close>

text \<open>A turn of the ingress thread, with the events of the link that it takes; a turn of the egress thread; a call of
  \<^verbatim>\<open>xstack_recvfrom\<close> that returns \<open>buf\<close> from \<open>src\<close>; and a call of \<^verbatim>\<open>xstack_sendto\<close>.\<close>

datatype action =
    Ingress_turn int "(int + bytes) list"
  | Egress_turn
  | Recv nat size_t u32 bytes xstack_sockaddr
  | Send nat bytes xstack_sockaddr

inductive sys_step :: "sendto_fn \<Rightarrow> stack \<Rightarrow> action \<Rightarrow> stack \<Rightarrow> bool" for sendto where
  ingress: "ingress_turn sendto now evs st = Some ([], st') \<Longrightarrow> sys_step sendto st (Ingress_turn now evs) st'"
| egress: "egress_sockets sendto [0..<NUM_SOCKETS] (net st) = Some n \<Longrightarrow> sys_step sendto st Egress_turn (st\<lparr>net := n\<rparr>)"
| recv: "s < NUM_SOCKETS \<Longrightarrow> xstack_recvfrom len flags (sock_mem s (net st)) = Some (k, buf, src, m) \<Longrightarrow>
    sys_step sendto st (Recv s len flags buf src) (st\<lparr>net := put_shmem s m (net st)\<rparr>)"
| send: "s < NUM_SOCKETS \<Longrightarrow> xstack_sendto buf dest (sock_mem s (net st)) = Some (r, m) \<Longrightarrow>
    sys_step sendto st (Send s buf dest) (st\<lparr>net := put_shmem s m (net st)\<rparr>)"

inductive_cases ingressE: "sys_step sendto st (Ingress_turn now evs) st'"
inductive_cases egressE: "sys_step sendto st Egress_turn st'"
inductive_cases recvE: "sys_step sendto st (Recv s len flags buf src) st'"
inductive_cases sendE: "sys_step sendto st (Send s buf dest) st'"

inductive sys_run :: "sendto_fn \<Rightarrow> stack \<Rightarrow> action list \<Rightarrow> stack \<Rightarrow> bool" for sendto where
  run_nil: "sys_run sendto st [] st"
| run_cons: "sys_step sendto st a st1 \<Longrightarrow> sys_run sendto st1 as st' \<Longrightarrow> sys_run sendto st (a # as) st'"

text \<open>What is asked of a step: benign events, before the cache gets too old; a client that gives a
  buffer for the data of a frame, and sends none that runs over the end of its block.\<close>

fun action_ok :: "u32 set \<Rightarrow> int \<Rightarrow> action \<Rightarrow> bool" where
  "action_ok P t0 (Ingress_turn now evs) = ((\<forall>ev \<in> set evs. event_ok P ev) \<and> now - t0 \<le> ARP_CACHE_AGE_MAX)"
| "action_ok P t0 Egress_turn = True"
| "action_ok P t0 (Recv s len flags buf src) = (1500 \<le> unat len)"
| "action_ok P t0 (Send s buf dest) = (length buf \<le> 4072 \<or> 4096 < length buf)"

text \<open>What goes into the sockets in a step, and what a client takes out; a call with \<^verbatim>\<open>XSTACK_MSG_PEEK\<close> only looks.\<close>

fun brought :: "ip_route set \<Rightarrow> ether_linux \<Rightarrow> action \<Rightarrow> (ip_hdr \<times> bytes) list" where
  "brought R E (Ingress_turn now evs) = dgrams R (filter (from_others E) evs)"
| "brought R E a = []"

fun taken :: "nat \<Rightarrow> action \<Rightarrow> (xstack_sockaddr \<times> bytes) list" where
  "taken s (Recv t len flags buf src) = (if t = s \<and> flags AND XSTACK_MSG_PEEK = 0 then [(src, buf)] else [])"
| "taken s a = []"

definition arrivals :: "ip_route set \<Rightarrow> ether_linux \<Rightarrow> action list \<Rightarrow> (ip_hdr \<times> bytes) list" where
  "arrivals R E as = concat (map (brought R E) as)"

definition received :: "nat \<Rightarrow> action list \<Rightarrow> (xstack_sockaddr \<times> bytes) list" where
  "received s as = concat (map (taken s) as)"

definition contents :: "message \<Rightarrow> xstack_sockaddr \<times> bytes" where
  "contents = (\<lambda>(src, dst, data). (src, data))"

text \<open>The state of the system: that of the stack, and the datagrams \<open>Q\<close> in the queues of the sockets.\<close>

definition sys_ok :: "u32 \<Rightarrow> ip_route set \<Rightarrow> u32 set \<Rightarrow> ether_linux \<Rightarrow> int \<Rightarrow> (nat \<Rightarrow> xstack_sockaddr) \<Rightarrow> (nat \<Rightarrow> message list) \<Rightarrow> stack \<Rightarrow> bool" where
  "sys_ok lo R P E t0 A Q st \<longleftrightarrow> stack_safe lo R P E t0 (sockets_ok A Q) st \<and> timer_start st - t0 \<le> ARP_CACHE_AGE_MAX"

lemma sys_ok_socket: "sys_ok lo R P E t0 A Q st \<Longrightarrow> s < NUM_SOCKETS \<Longrightarrow> socket_ok (A s) (Q s) (sockets (n_udp (net st)) s)"
  by (simp add: sys_ok_def stack_safe_def net_safe_def sockets_ok_def)

lemma net_safe_udp: "net_safe lo R P E T U st \<Longrightarrow> U' u \<Longrightarrow> net_safe lo R P E T U' (st\<lparr>n_udp := u\<rparr>)"
  by (auto simp: net_safe_def net_ok_def)

lemma net_safe_put:
  assumes "net_safe lo R P E T (sockets_ok A Q) st" "s < NUM_SOCKETS" "socket_ok (A s) q ((sockets (n_udp st) s)\<lparr>sock_shmem := m\<rparr>)"
  shows "net_safe lo R P E T (sockets_ok A (Q(s := q))) (put_shmem s m st)"
  unfolding put_shmem_def
  by (rule net_safe_udp [OF assms(1)], rule sockets_ok_set) (use assms in \<open>auto simp: net_safe_def\<close>)

lemma sys_ok_put:
  assumes "sys_ok lo R P E t0 A Q st" "s < NUM_SOCKETS" "socket_ok (A s) q ((sockets (n_udp (net st)) s)\<lparr>sock_shmem := m\<rparr>)"
  shows "sys_ok lo R P E t0 A (Q(s := q)) (st\<lparr>net := put_shmem s m (net st)\<rparr>)"
  using assms net_safe_put by (auto simp: sys_ok_def stack_safe_def)

lemma egress_one:
  assumes "net_safe lo R P E T (sockets_ok A Q) st" "s < NUM_SOCKETS"
  obtains st' where "egress_socket sendto s st = Some st'" "net_safe lo R P E T (sockets_ok A Q) st'"
    "queue_count (egress_q (sock_mem s st')) = queue_count (egress_q (sock_mem s st)) - 1" "\<forall>t. t \<noteq> s \<longrightarrow> sock_mem t st' = sock_mem t st"
proof -
  have ok: "socket_ok (A s) (Q s) (sockets (n_udp st) s)" using assms by (simp add: net_safe_def sockets_ok_def)
  then have q: "sock_proto (sockets (n_udp st) s) = XIP_PROTO_UDP" "sock_queue (egress_q (sock_mem s st)) (egress_data (sock_mem s st))"
    "sizes_zero (egress_data (sock_mem s st))" by (simp_all add: socket_ok_def sock_mem_def)
  show thesis
  proof (cases "queue_count (egress_q (sock_mem s st)) = 0")
    case True
    then show ?thesis using that [of st] egress_empty [of st s] q(2) assms(1) by (simp add: sock_mem_def)
  next
    case False
    obtain q' where q': "egress_socket sendto s st = Some (put_shmem s ((sock_mem s st)\<lparr>egress_q := q'\<rparr>) st)"
      "sock_queue q' (egress_data (sock_mem s st))" "Suc (queue_count q') = queue_count (egress_q (sock_mem s st))"
      using egress_refused [OF q False] .
    have "socket_ok (A s) (Q s) ((sockets (n_udp st) s)\<lparr>sock_shmem := (sock_mem s st)\<lparr>egress_q := q'\<rparr>\<rparr>)"
      using ok q'(2) by (simp add: socket_ok_def sock_mem_def pending_def)
    from net_safe_put [OF assms this] show ?thesis using that [OF q'(1)] q'(3) by (simp add: put_shmem_def sock_mem_def)
  qed
qed

lemma egress_all:
  assumes "net_safe lo R P E T (sockets_ok A Q) st" "set ss \<subseteq> {..<NUM_SOCKETS}" "distinct ss"
  obtains st' where "egress_sockets sendto ss st = Some st'" "net_safe lo R P E T (sockets_ok A Q) st'"
    "\<forall>s. queue_count (egress_q (sock_mem s st')) = queue_count (egress_q (sock_mem s st)) - of_bool (s \<in> set ss)"
  using assms
proof (induction ss arbitrary: st thesis)
  case (Cons s ss)
  have "s < NUM_SOCKETS" using Cons.prems(3) by simp
  from egress_one [OF Cons.prems(2) this] obtain st1 where st1: "egress_socket sendto s st = Some st1" "net_safe lo R P E T (sockets_ok A Q) st1"
    "queue_count (egress_q (sock_mem s st1)) = queue_count (egress_q (sock_mem s st)) - 1" "\<forall>t. t \<noteq> s \<longrightarrow> sock_mem t st1 = sock_mem t st" by metis
  have "set ss \<subseteq> {..<NUM_SOCKETS}" "distinct ss" using Cons.prems(3,4) by auto
  from Cons.IH [OF _ st1(2) this] obtain st' where st': "egress_sockets sendto ss st1 = Some st'" "net_safe lo R P E T (sockets_ok A Q) st'"
    "\<forall>t. queue_count (egress_q (sock_mem t st')) = queue_count (egress_q (sock_mem t st1)) - of_bool (t \<in> set ss)" by metis
  have "queue_count (egress_q (sock_mem t st')) = queue_count (egress_q (sock_mem t st)) - of_bool (t \<in> set (s # ss))" for t
    using st'(3) st1(3,4) Cons.prems(4) by (cases "t = s") auto
  then show ?case using Cons.prems(1) st1(1) st'(1,2) by simp
qed simp

text \<open>The calls of a client. \<^verbatim>\<open>xstack_recvfrom\<close> waits for the signal of a datagram as long as the queue is empty, and
  \<^verbatim>\<open>xstack_sendto\<close> loops while it is full.\<close>

lemma recv_some:
  assumes "socket_ok a ((src, dst, data) # q) sock"
  obtains m k where "xstack_recvfrom len flags (sock_shmem sock) = Some (k, take (unat len) data, src, m)"
    "socket_ok a (if flags AND XSTACK_MSG_PEEK = 0 then q else (src, dst, data) # q) (sock\<lparr>sock_shmem := m\<rparr>)" "length data \<le> 1500"
proof -
  have p: "pending (sock_shmem sock) ((src, dst, data) # q)" using assms by (simp add: socket_ok_def)
  obtain m where "xstack_recvfrom len flags (sock_shmem sock) = Some (min (unat len) (length data), take (unat len) data, src, m)"
    "pending m (if flags AND XSTACK_MSG_PEEK = 0 then q else (src, dst, data) # q)" "egress_q m = egress_q (sock_shmem sock)"
    "egress_data m = egress_data (sock_shmem sock)" by (rule recvfrom_ok [OF p])
  moreover have "length data \<le> 1500" using assms by (simp add: socket_ok_def)
  ultimately show thesis using that assms by (simp add: socket_ok_def)
qed

lemma recv_empty: "socket_ok a [] sock \<Longrightarrow> xstack_recvfrom len flags (sock_shmem sock) = None"
  using queue_empty_iff [of "ingress_q (sock_shmem sock)"] pending_length [of "sock_shmem sock" "[]"]
  by (auto simp: socket_ok_def pending_def sock_queue_def xstack_recvfrom_def queue_peek_def Let_def)

lemma send_keeps_ingress:
  "xstack_sendto buf dest m = Some (r, m') \<Longrightarrow> ingress_q m' = ingress_q m \<and> ingress_data m' = ingress_data m"
  by (auto simp: xstack_sendto_def Let_def split: Option.bind_splits if_splits)

lemma send_call:
  assumes ok: "socket_ok a q sock" and b: "length buf \<le> 4072 \<or> 4096 < length buf"
  shows "(\<exists>r m. xstack_sendto buf dest (sock_shmem sock) = Some (r, m)) \<longleftrightarrow> 4096 < length buf \<or> queue_count (egress_q (sock_shmem sock)) < 3"
    "xstack_sendto buf dest (sock_shmem sock) = Some (r, m) \<Longrightarrow> socket_ok a q (sock\<lparr>sock_shmem := m\<rparr>)"
proof -
  let ?m = "sock_shmem sock"
  have e: "sock_queue (egress_q ?m) (egress_data ?m)" "sizes_zero (egress_data ?m)" using ok by (simp_all add: socket_ok_def)
  have full: "xstack_sendto buf dest ?m = None" if "length buf \<le> 4072" "\<not> queue_count (egress_q ?m) < 3"
  proof -
    have wf: "queue_wf (egress_q ?m)" "unat (a_len (egress_q ?m)) = 4" using e(1) by (simp_all add: sock_queue_def)
    then have "queue_alloc (egress_q ?m) = Some (- 1)"
      using queue_alloc_room [OF wf(1)] queue_count_less [OF wf(1)] that(2) by simp
    then show ?thesis using that(1) by (simp add: xstack_sendto_def sock_consts)
  qed
  have long: "xstack_sendto buf dest ?m = Some (Inl ENOBUFS, ?m)" if "4096 < length buf" using that by (simp add: xstack_sendto_def sock_consts)
  show "(\<exists>r m. xstack_sendto buf dest ?m = Some (r, m)) \<longleftrightarrow> 4096 < length buf \<or> queue_count (egress_q ?m) < 3"
    using b full long sendto_ok [OF e, of buf dest] by (metis not_le option.distinct(1))
  show "socket_ok a q (sock\<lparr>sock_shmem := m\<rparr>)" if s: "xstack_sendto buf dest ?m = Some (r, m)"
  proof (cases "4096 < length buf")
    case True
    then show ?thesis using long s ok by simp
  next
    case False
    then have "length buf \<le> 4072" "queue_count (egress_q ?m) < 3" using b full s by fastforce+
    then have "sock_queue (egress_q m) (egress_data m)" "sizes_zero (egress_data m)" using sendto_ok [OF e, of buf dest] s by auto
    then show ?thesis using ok send_keeps_ingress [OF s] by (simp add: socket_ok_def pending_def)
  qed
qed

section \<open>Each step\<close>

lemma recv_loop_own: "\<forall>ev \<in> set evs. event_ok P ev \<Longrightarrow> filter (from_others E) evs = [] \<Longrightarrow> ether_recv_loop (el_mac E) evs = None"
proof (induction evs)
  case (Cons ev evs)
  then obtain f where f: "ev = Inr f" "take 6 (drop 6 f) = el_mac E" "60 \<le> length f"
    by (auto simp: from_others_def event_ok_def benign_def ether_consts split: sum.splits if_splits)
  then have "take 6 (drop 6 (take 1514 f)) = el_mac E" by (simp add: drop_take min_def)
  then show ?case using Cons f by (simp add: ether_consts Let_def split: if_splits)
qed simp

text \<open>A turn takes one event of others, at the end of the list, and is possible exactly when the datagram in it, if
  there is one, has room.\<close>

lemma turn_takes_one:
  assumes ok: "sys_ok lo R P E t0 A Q st" and e: "\<forall>ev \<in> set evs. event_ok P ev" "ingress_turn sendto now evs st = Some (evs', st')"
  obtains e where "filter (from_others E) evs = e # filter (from_others E) evs'"
proof -
  have st: "stack_safe lo R P E t0 (sockets_ok A Q) st" using ok by (simp add: sys_ok_def)
  then have "ether_handle st = 0" "ether_if (n_eth (net st)) = E" by (simp_all add: stack_safe_def net_safe_def)
  then have "ether_recv_loop (el_mac E) evs \<noteq> None"
    using e(2) by (cases "ether_recv_loop (el_mac E) evs") (simp_all add: ingress_turn_def ether_receive_def ether_handle2eth_def)
  then obtain x xs where x: "filter (from_others E) evs = x # xs" using recv_loop_own [OF e(1)] by (cases "filter (from_others E) evs") auto
  obtain r hdr buf evs2 est where "ether_receive evs (n_eth (net st)) (ether_handle st) (rx_buffer st) = Some (r, hdr, buf, evs2, est)"
    "filter (from_others E) evs2 = xs" using receive_safe [OF st e(1) x] .
  then show thesis using that x e(2) by (auto simp: ingress_turn_def Let_def split: Option.bind_splits prod.splits if_splits)
qed

lemma turn_possible:
  assumes ok: "sys_ok lo R P E t0 A Q st" "sendto_ok sendto" and e: "\<forall>ev \<in> set evs. event_ok P ev" "filter (from_others E) evs = e # es"
    and n: "now - t0 \<le> ARP_CACHE_AGE_MAX"
  shows "\<not> room_for A (dgrams R [e]) Q \<Longrightarrow> ingress_turn sendto now evs st = None"
    "room_for A (dgrams R [e]) Q \<Longrightarrow> \<exists>evs' st'. ingress_turn sendto now evs st = Some (evs', st') \<and> filter (from_others E) evs' = es \<and>
      set evs' \<subseteq> set evs \<and> sys_ok lo R P E t0 A (arrive A (dgrams R [e]) Q) st'"
proof -
  have st: "stack_safe lo R P E t0 (sockets_ok A Q) st" "timer_start st - t0 \<le> ARP_CACHE_AGE_MAX" using ok(1) by (simp_all add: sys_ok_def)
  have l: "\<forall>s < NUM_SOCKETS. length (Q s) \<le> 3" using sys_ok_socket [OF ok(1)] socket_ok_length by blast
  show "ingress_turn sendto now evs st = None" if r: "\<not> room_for A (dgrams R [e]) Q"
  proof (cases "event_dgram R e")
    case None
    then show ?thesis using r l by (simp add: room_for_def arrive_def)
  next
    case (Some x)
    then show ?thesis using r turn_waits [OF st(1) e(1,2), of "fst x" "snd x"] dgram_waits [of A "fst x" "snd x" Q] by simp
  qed
  show "\<exists>evs' st'. ingress_turn sendto now evs st = Some (evs', st') \<and> filter (from_others E) evs' = es \<and>
      set evs' \<subseteq> set evs \<and> sys_ok lo R P E t0 A (arrive A (dgrams R [e]) Q) st'" if r: "room_for A (dgrams R [e]) Q"
  proof -
    have "dgram_step (event_dgram R e) (sockets_ok A Q) (sockets_ok A (arrive A (dgrams R [e]) Q))"
    proof (cases "event_dgram R e")
      case None
      moreover have "arrive A [] Q = Q" by (simp add: arrive_def fun_eq_iff)
      ultimately show ?thesis by (simp add: dgram_step_def)
    next
      case (Some x)
      then show ?thesis using r event_dgram_length [of R e "fst x" "snd x"] dgram_arrives [of "snd x" A "fst x" Q] by (simp add: dgram_step_def split_beta)
    qed
    from ingress_turn_safe [OF st(1) ok(2) st(2) e this] obtain evs' st' where "ingress_turn sendto now evs st = Some (evs', st')"
      "filter (from_others E) evs' = es" "set evs' \<subseteq> set evs" "stack_safe lo R P E t0 (sockets_ok A (arrive A (dgrams R [e]) Q)) st'"
      "timer_start st' \<in> {timer_start st, now}" by metis
    then show ?thesis using st(2) n by (auto simp: sys_ok_def)
  qed
qed

lemma sys_step_ok:
  assumes "sys_step sendto st a st'" "sys_ok lo R P E t0 A Q st" "sendto_ok sendto" "action_ok P t0 a"
  shows "\<exists>Q'. sys_ok lo R P E t0 A Q' st' \<and>
    (\<forall>s < NUM_SOCKETS. map contents (arrive A (brought R E a) Q s) = taken s a @ map contents (Q' s))"
  using assms
proof (induction rule: sys_step.induct)
  case (ingress now evs st st')
  then have ev: "\<forall>ev \<in> set evs. event_ok P ev" "now - t0 \<le> ARP_CACHE_AGE_MAX" by simp_all
  obtain e where e: "filter (from_others E) evs = [e]" using turn_takes_one [OF ingress(2) ev(1) ingress(1)] by auto
  have "room_for A (dgrams R [e]) Q" using turn_possible(1) [OF ingress(2,3) ev(1) e ev(2)] ingress(1) by fastforce
  then have "sys_ok lo R P E t0 A (arrive A (dgrams R [e]) Q) st'"
    using turn_possible(2) [OF ingress(2,3) ev(1) e ev(2)] ingress(1) by fastforce
  then show ?case using e by auto
next
  case (egress st n)
  have "net_safe lo R P E (timer_start st - t0) (sockets_ok A Q) (net st)" using egress(2) by (simp add: sys_ok_def stack_safe_def)
  then obtain n' where "egress_sockets sendto [0..<NUM_SOCKETS] (net st) = Some n'" "net_safe lo R P E (timer_start st - t0) (sockets_ok A Q) n'"
    by (rule egress_all [where ss = "[0..<NUM_SOCKETS]"]) auto
  then have "sys_ok lo R P E t0 A Q (st\<lparr>net := n\<rparr>)" using egress(1,2) by (simp add: sys_ok_def stack_safe_def)
  then show ?case by (auto simp: arrive_def)
next
  case (recv s len flags st k buf src m)
  have ok: "socket_ok (A s) (Q s) (sockets (n_udp (net st)) s)" using sys_ok_socket [OF recv(3,1)] .
  then obtain src' dst data q where q: "Q s = (src', dst, data) # q" using recv(2) recv_empty [of "A s" _ len flags] by (cases "Q s") (auto simp: sock_mem_def)
  from recv_some [OF ok [unfolded q]] have m: "buf = take (unat len) data" "src = src'" "length data \<le> 1500"
    "socket_ok (A s) (if flags AND XSTACK_MSG_PEEK = 0 then q else (src', dst, data) # q) ((sockets (n_udp (net st)) s)\<lparr>sock_shmem := m\<rparr>)"
    using recv(2) unfolding sock_mem_def by (metis option.inject prod.inject)+
  have "buf = data" using m(1,3) recv(5) by simp
  then show ?case using sys_ok_put [OF recv(3,1) m(4)] q m(2) by (intro exI conjI) (assumption, auto simp: arrive_def contents_def)
next
  case (send s buf dest st r m)
  have ok: "socket_ok (A s) (Q s) (sockets (n_udp (net st)) s)" using sys_ok_socket [OF send(3,1)] .
  have "socket_ok (A s) (Q s) ((sockets (n_udp (net st)) s)\<lparr>sock_shmem := m\<rparr>)"
    using send_call(2) [OF ok] send(2,5) by (simp add: sock_mem_def)
  from sys_ok_put [OF send(3,1) this] show ?case by (auto simp: arrive_def)
qed

lemma sys_run_ok:
  assumes "sys_run sendto st as st'" "sys_ok lo R P E t0 A Q st" "sendto_ok sendto" "list_all (action_ok P t0) as"
  shows "\<exists>Q'. sys_ok lo R P E t0 A Q' st' \<and>
    (\<forall>s < NUM_SOCKETS. map contents (Q s @ msgs_for (A s) (arrivals R E as)) = received s as @ map contents (Q' s))"
  using assms
proof (induction arbitrary: Q rule: sys_run.induct)
  case (run_nil st)
  then show ?case by (auto simp: arrivals_def received_def)
next
  case (run_cons st a st1 as st')
  have "action_ok P t0 a" using run_cons.prems by simp
  from sys_step_ok [OF run_cons.hyps(1) run_cons.prems(1,2) this] obtain Q1 where Q1: "sys_ok lo R P E t0 A Q1 st1"
    "\<forall>s < NUM_SOCKETS. map contents (arrive A (brought R E a) Q s) = taken s a @ map contents (Q1 s)" by blast
  obtain Q' where Q': "sys_ok lo R P E t0 A Q' st'"
    "\<forall>s < NUM_SOCKETS. map contents (Q1 s @ msgs_for (A s) (arrivals R E as)) = received s as @ map contents (Q' s)"
    using run_cons.IH [OF Q1(1)] run_cons.prems by auto
  have "map contents (Q s @ msgs_for (A s) (arrivals R E (a # as))) = received s (a # as) @ map contents (Q' s)" if "s < NUM_SOCKETS" for s
  proof -
    have "map contents (Q s @ msgs_for (A s) (arrivals R E (a # as))) = map contents (arrive A (brought R E a) Q s) @ map contents (msgs_for (A s) (arrivals R E as))"
      by (simp add: arrivals_def arrive_def)
    also have "\<dots> = taken s a @ map contents (Q1 s @ msgs_for (A s) (arrivals R E as))" using Q1(2) that by simp
    also have "\<dots> = received s (a # as) @ map contents (Q' s)" using Q'(2) that by (simp add: received_def)
    finally show ?thesis .
  qed
  then show ?case using Q'(1) by blast
qed

section \<open>Waiting ends\<close>

lemma recv_loop_skips:
  "\<forall>ev \<in> set own. event_ok P ev \<and> \<not> from_others E ev \<Longrightarrow> ether_recv_loop (el_mac E) (own @ evs) = ether_recv_loop (el_mac E) evs"
proof (induction own)
  case (Cons ev own)
  then obtain f where f: "ev = Inr f" "take 6 (drop 6 f) = el_mac E" "60 \<le> length f"
    by (auto simp: from_others_def event_ok_def benign_def ether_consts split: sum.splits if_splits)
  then have "take 6 (drop 6 (take 1514 f)) = el_mac E" by (simp add: drop_take min_def)
  moreover have "\<not> min (length f) 1514 < 14" using f(3) by simp
  ultimately show ?case using Cons f by (simp add: ether_consts Let_def)
qed simp

lemma turn_takes_last:
  assumes "ingress_turn sendto now (own @ [e]) st = Some (evs', st')" "\<forall>ev \<in> set own. event_ok P ev \<and> \<not> from_others E ev" "from_others E e"
    "sys_ok lo R P E t0 A Q st"
  shows "evs' = []"
proof -
  have h: "ether_handle st = 0" "ether_if (n_eth (net st)) = E" using assms(4) by (simp_all add: sys_ok_def stack_safe_def net_safe_def)
  have "snd x = []" if "ether_recv_loop (el_mac E) (own @ [e]) = Some x" for x
    using that recv_loop_skips [OF assms(2), of "[e]"] assms(3) by (cases e) (auto simp: Let_def split: if_splits)
  then show ?thesis using assms(1) h
    by (auto simp: ingress_turn_def ether_receive_def ether_handle2eth_def Let_def split: Option.bind_splits prod.splits if_splits sum.splits)
qed

text \<open>The events of one turn: frames of our own, and one event of others.\<close>

definition turn_events :: "u32 set \<Rightarrow> ether_linux \<Rightarrow> (int + bytes) list \<Rightarrow> bool" where
  "turn_events P E evs \<longleftrightarrow> evs \<noteq> [] \<and> from_others E (last evs) \<and> (\<forall>ev \<in> set (butlast evs). \<not> from_others E ev) \<and> (\<forall>ev \<in> set evs. event_ok P ev)"

lemma turn_eventsE:
  assumes "turn_events P E evs"
  obtains own e where "evs = own @ [e]" "\<forall>ev \<in> set own. event_ok P ev \<and> \<not> from_others E ev" "from_others E e" "event_ok P e"
    "filter (from_others E) evs = [e]"
proof -
  have e: "evs = butlast evs @ [last evs]" using assms by (simp add: turn_events_def)
  moreover have "\<forall>ev \<in> set (butlast evs). event_ok P ev \<and> \<not> from_others E ev" using assms by (auto simp: turn_events_def dest: in_set_butlastD)
  moreover have "filter (from_others E) (butlast evs @ [last evs]) = [last evs]"
    using assms unfolding turn_events_def filter_append by (simp add: filter_empty_conv)
  ultimately show thesis using that [of "butlast evs" "last evs"] assms by (simp add: turn_events_def)
qed

lemma ingress_enabled:
  assumes ok: "sys_ok lo R P E t0 A Q st" "sendto_ok sendto" and e: "turn_events P E evs" "now - t0 \<le> ARP_CACHE_AGE_MAX"
  shows "(\<exists>st'. sys_step sendto st (Ingress_turn now evs) st') \<longleftrightarrow> room_for A (dgrams R (filter (from_others E) evs)) Q"
proof -
  obtain own x where x: "evs = own @ [x]" "\<forall>ev \<in> set own. event_ok P ev \<and> \<not> from_others E ev" "from_others E x" "event_ok P x"
    "filter (from_others E) evs = [x]" by (rule turn_eventsE [OF e(1)])
  have ev: "\<forall>ev \<in> set evs. event_ok P ev" using x(1,2,4) by auto
  have "ingress_turn sendto now evs st = Some (evs', st') \<Longrightarrow> evs' = []" for evs' st'
    using turn_takes_last [OF _ x(2,3) ok(1)] x(1) by metis
  then show ?thesis unfolding x(5) using turn_possible [OF ok ev x(5) e(2)]
    by (metis ingressE option.distinct(1) sys_step.ingress)
qed

lemma waiting_turn:
  assumes ok: "sys_ok lo R P E t0 A Q st" "sendto_ok sendto" and e: "turn_events P E evs" "now - t0 \<le> ARP_CACHE_AGE_MAX"
    and no: "\<nexists>st'. sys_step sendto st (Ingress_turn now evs) st'"
  shows "\<exists>s < NUM_SOCKETS. length (Q s) = 3 \<and> (\<exists>buf src st1. sys_step sendto st (Recv s len 0 buf src) st1 \<and>
    (\<exists>st'. sys_step sendto st1 (Ingress_turn now evs) st'))"
proof -
  obtain own x where x: "filter (from_others E) evs = [x]" by (rule turn_eventsE [OF e(1)])
  have u: "sockets_ok A Q (n_udp (net st))" using ok(1) by (simp add: sys_ok_def stack_safe_def net_safe_def)
  have l: "\<forall>t < NUM_SOCKETS. length (Q t) \<le> 3" using sys_ok_socket [OF ok(1)] socket_ok_length by blast
  have "\<not> room_for A (dgrams R [x]) Q" using ingress_enabled [OF ok e] no x by simp
  then obtain s where s: "s < NUM_SOCKETS" "3 < length (arrive A (dgrams R [x]) Q s)" by (auto simp: room_for_def)
  then obtain g m where g: "event_dgram R x = Some g" "dgram_msg g = Some m" "fst (snd m) = A s" "length (Q s) = 3"
    using l by (auto simp: arrive_def msgs_for_one split: option.splits if_splits) 
  then obtain src dst data q where q: "Q s = (src, dst, data) # q" "length q = 2" by (cases "Q s") auto
  obtain m' k where "xstack_recvfrom len 0 (sock_shmem (sockets (n_udp (net st)) s)) = Some (k, take (unat len) data, src, m')"
    "socket_ok (A s) (if 0 AND XSTACK_MSG_PEEK = 0 then q else (src, dst, data) # q) ((sockets (n_udp (net st)) s)\<lparr>sock_shmem := m'\<rparr>)"
    using recv_some [OF sys_ok_socket [OF ok(1) s(1), unfolded q(1)]] .
  then have m': "xstack_recvfrom len 0 (sock_mem s (net st)) = Some (k, take (unat len) data, src, m')"
    "socket_ok (A s) q ((sockets (n_udp (net st)) s)\<lparr>sock_shmem := m'\<rparr>)" by (simp_all add: sock_mem_def)
  have "sys_ok lo R P E t0 A (Q(s := q)) (st\<lparr>net := put_shmem s m' (net st)\<rparr>)" by (rule sys_ok_put [OF ok(1) s(1) m'(2)])
  moreover have "msgs_for a [g] = (if a = A s then [m] else [])" for a using g(2,3) by (cases m) (auto simp: msgs_for_one)
  then have "room_for A (dgrams R [x]) (Q(s := q))" using l g(1) q(2) addresses_differ [OF u _ s(1)] by (simp add: room_for_def arrive_def)
  ultimately have "\<exists>st'. sys_step sendto (st\<lparr>net := put_shmem s m' (net st)\<rparr>) (Ingress_turn now evs) st'"
    using ingress_enabled [OF _ ok(2) e] x by simp
  then show ?thesis using s(1) g(4) sys_step.recv [OF s(1) m'(1)] by blast
qed

lemma egress_makes_room:
  assumes "sys_ok lo R P E t0 A Q st"
  shows "\<exists>st'. sys_step sendto st Egress_turn st' \<and> (\<forall>s < NUM_SOCKETS. \<forall>buf dest. length buf \<le> 4072 \<longrightarrow>
    queue_count (egress_q (sock_mem s (net st'))) = queue_count (egress_q (sock_mem s (net st))) - 1 \<and>
    (\<exists>st''. sys_step sendto st' (Send s buf dest) st''))"
proof -
  have "net_safe lo R P E (timer_start st - t0) (sockets_ok A Q) (net st)" using assms by (simp add: sys_ok_def stack_safe_def)
  then obtain n where n: "egress_sockets sendto [0..<NUM_SOCKETS] (net st) = Some n" "net_safe lo R P E (timer_start st - t0) (sockets_ok A Q) n"
    "\<forall>s. queue_count (egress_q (sock_mem s n)) = queue_count (egress_q (sock_mem s (net st))) - of_bool (s \<in> set [0..<NUM_SOCKETS])"
    by (rule egress_all [where ss = "[0..<NUM_SOCKETS]"]) auto
  have "\<exists>st''. sys_step sendto (st\<lparr>net := n\<rparr>) (Send s buf dest) st''" if s: "s < NUM_SOCKETS" and b: "length buf \<le> 4072" for s and buf :: bytes and dest
  proof -
    have ok: "socket_ok (A s) (Q s) (sockets (n_udp n) s)" using n(2) s by (simp add: net_safe_def sockets_ok_def)
    have "socket_ok (A s) (Q s) (sockets (n_udp (net st)) s)" by (rule sys_ok_socket [OF assms s])
    then have "queue_count (egress_q (sock_mem s (net st))) < 4"
      using queue_count_less [of "egress_q (sock_mem s (net st))"] by (simp add: socket_ok_def sock_queue_def sock_mem_def)
    then have "queue_count (egress_q (sock_shmem (sockets (n_udp n) s))) < 3" using n(3) s by (simp add: sock_mem_def)
    then obtain r m where "xstack_sendto buf dest (sock_mem s n) = Some (r, m)" using send_call(1) [OF ok, of buf dest] b by (auto simp: sock_mem_def)
    then show ?thesis using sys_step.send [OF s, of buf dest "st\<lparr>net := n\<rparr>"] by auto
  qed
  then show ?thesis using sys_step.egress [OF n(1)] n(3) by (intro exI [of _ "st\<lparr>net := n\<rparr>"]) simp
qed

text \<open>A turn of the example client is such a call.\<close>

lemma unetcat_is_recv: "unetcat_turn m = Some (out, m') \<longleftrightarrow> (\<exists>k src. xstack_recvfrom 2047 0 m = Some (k, out, src, m'))"
proof -
  have "take k buf = buf" "k = 0 \<longrightarrow> buf = []" if "xstack_recvfrom 2047 0 m = Some (k, buf, src, m1)" for k buf src m1
    using that by (auto simp: xstack_recvfrom_def Let_def mem_read_def split: Option.bind_splits if_splits)
  then show ?thesis by (auto simp: unetcat_turn_def split: Option.bind_splits if_splits)
qed

text \<open>C1: Datagrams from the link to the clients, for the whole system. In every run of the two threads and the clients, in any order,
  the datagrams that a client of a socket receives, with those that still wait in its queue, are exactly those
  addressed to the socket in the frames taken from the link, with their senders and in the order of
  the frames: none is lost, doubled, changed or delivered elsewhere, whatever other packets, link errors and
  outgoing datagrams come between. The state of the stack stays consistent. A client has to give buffers for
  the data of a frame, and must not send datagrams that run over their block; packets are as in
  \<open>ingress_thread_never_stuck\<close>, but without a bound on their number.\<close>

theorem udp_service_fifo:
  assumes "sys_run sendto st as st'" "sys_ok lo R P E t0 A Q st" "sendto_ok sendto" "list_all (action_ok P t0) as"
  shows "\<exists>Q'. sys_ok lo R P E t0 A Q' st' \<and>
    (\<forall>s < NUM_SOCKETS. map contents (Q s @ msgs_for (A s) (arrivals R E as)) = received s as @ map contents (Q' s))"
  by (rule sys_run_ok [OF assms])

text \<open>C4: The system does not come to a standstill. In every consistent state a turn of the ingress thread either is possible or
  waits for a socket whose queue is full; then the client of that socket can receive, and as soon as it
  has, the turn is possible. A turn of the egress thread is always possible, and takes one datagram out of every egress
  queue, so that a client waiting in \<^verbatim>\<open>xstack_sendto\<close> can go on.\<close>

theorem system_progress:
  assumes "sys_ok lo R P E t0 A Q st" "sendto_ok sendto" "turn_events P E evs" "now - t0 \<le> ARP_CACHE_AGE_MAX"
  shows "((\<exists>st'. sys_step sendto st (Ingress_turn now evs) st') \<or>
     (\<exists>s < NUM_SOCKETS. length (Q s) = 3 \<and> (\<exists>buf src st1. sys_step sendto st (Recv s len 0 buf src) st1 \<and>
        (\<exists>st'. sys_step sendto st1 (Ingress_turn now evs) st')))) \<and>
    (\<exists>st'. sys_step sendto st Egress_turn st' \<and> (\<forall>s < NUM_SOCKETS. \<forall>buf dest. length buf \<le> 4072 \<longrightarrow>
       queue_count (egress_q (sock_mem s (net st'))) = queue_count (egress_q (sock_mem s (net st))) - 1 \<and>
       (\<exists>st''. sys_step sendto st' (Send s buf dest) st'')))"
proof (intro conjI)
  show "(\<exists>st'. sys_step sendto st (Ingress_turn now evs) st') \<or>
     (\<exists>s < NUM_SOCKETS. length (Q s) = 3 \<and> (\<exists>buf src st1. sys_step sendto st (Recv s len 0 buf src) st1 \<and>
        (\<exists>st'. sys_step sendto st1 (Ingress_turn now evs) st')))"
    using waiting_turn [OF assms] by blast
  show "\<exists>st'. sys_step sendto st Egress_turn st' \<and> (\<forall>s < NUM_SOCKETS. \<forall>buf dest. length buf \<le> 4072 \<longrightarrow>
       queue_count (egress_q (sock_mem s (net st'))) = queue_count (egress_q (sock_mem s (net st))) - 1 \<and>
       (\<exists>st''. sys_step sendto st' (Send s buf dest) st''))"
    by (rule egress_makes_room [OF assms(1)])
qed

lemma example_sys:
  obtains st where "sys_ok 0 {example_route} {0x0a000000} example_if 0 (\<lambda>_. \<lparr>inet4_addr = 0x0a000002, port = 10\<rparr>) (\<lambda>_. []) st"
proof -
  let ?A = "\<lambda>_ :: nat. \<lparr>inet4_addr = 0x0a000002, port = 10\<rparr>"
  have "sock_proto (sockets udp_boot 0) = XIP_PROTO_UDP" by (simp add: udp_boot_def example_sock_def)
  then obtain u where u: "udp_inv u {0}" "pending (sock_shmem (sockets u 0)) []" "sock_addr (sockets u 0) = sock_addr (sockets udp_boot 0)"
    "sock_queue (egress_q (sock_shmem (sockets u 0))) (egress_data (sock_shmem (sockets u 0)))" "sizes_zero (egress_data (sock_shmem (sockets u 0)))"
    "sock_proto (sockets u 0) = XIP_PROTO_UDP"
    by (rule xstack_init_ok [OF udp_inv_boot, of "\<lambda>_. True" 1]) (use example_port in \<open>simp_all add: sock_consts\<close>)
  have "{..<NUM_SOCKETS} = {0}" by (auto simp: NUM_SOCKETS_def)
  then have "sockets_ok ?A (\<lambda>_. []) u" using u by (simp add: sockets_ok_def socket_ok_def NUM_SOCKETS_def udp_boot_def example_sock_def)
  then obtain st where "stack_safe 0 {example_route} {0x0a000000} example_if 0 (sockets_ok ?A (\<lambda>_. [])) st" "timer_start st = 0"
    by (rule example_safe [where U = "sockets_ok ?A (\<lambda>_. [])"])
  then show thesis by (intro that [of st]) (simp add: sys_ok_def ARP_CACHE_AGE_MAX_def)
qed

definition example_run :: "bytes \<Rightarrow> xstack_sockaddr \<Rightarrow> action list" where
  "example_run buf src = [Ingress_turn 5 [Inr (example_frame IP_PROTO_UDP [0, 9, 0, 10])], Egress_turn, Recv 0 4096 0 buf src]"

lemma example_frame_dgram:
  "dgrams {example_route} [Inr (example_frame IP_PROTO_UDP [0, 9, 0, 10])] =
     [(example_ping\<lparr>ip_proto := IP_PROTO_UDP, ip_len := 46\<rparr>, [0, 9, 0, 10] @ replicate 22 1)]"
  using example_frame_ok(3) [of "[0, 9, 0, 10]" IP_PROTO_UDP] by simp

lemma example_msg:
  "msgs_for \<lparr>inet4_addr = 0x0a000002, port = 10\<rparr> (dgrams {example_route} [Inr (example_frame IP_PROTO_UDP [0, 9, 0, 10])]) =
     [(\<lparr>inet4_addr = 0x0a000000, port = 9\<rparr>, \<lparr>inet4_addr = 0x0a000002, port = 10\<rparr>, replicate 18 1)]"
proof -
  have "ntohs (load16 0 10) = 10" "ntohs (load16 0 9) = 9" by code_simp+
  then show ?thesis unfolding example_frame_dgram by (simp add: msgs_for_one dgram_msg_def udp_load_def example_ping_def)
qed

lemma recv_enabled:
  assumes "sys_ok lo R P E t0 A Q st" "s < NUM_SOCKETS" "Q s \<noteq> []"
  obtains buf src st' where "sys_step sendto st (Recv s len flags buf src) st'"
proof -
  obtain src dst data q where q: "Q s = (src, dst, data) # q" using assms(3) by (cases "Q s") auto
  obtain k m where "xstack_recvfrom len flags (sock_shmem (sockets (n_udp (net st)) s)) = Some (k, take (unat len) data, src, m)"
    using recv_some [OF sys_ok_socket [OF assms(1,2), unfolded q]] .
  then have "xstack_recvfrom len flags (sock_mem s (net st)) = Some (k, take (unat len) data, src, m)" by (simp add: sock_mem_def)
  then show thesis by (intro that) (rule sys_step.recv [OF assms(2)])
qed

lemma example_turn: "turn_events {0x0a000000} example_if [Inr (example_frame IP_PROTO_UDP [0, 9, 0, 10])]"
  "filter (from_others example_if) [Inr (example_frame IP_PROTO_UDP [0, 9, 0, 10])] = [Inr (example_frame IP_PROTO_UDP [0, 9, 0, 10])]"
  using example_frame_ok [of "[0, 9, 0, 10]" IP_PROTO_UDP] by (simp_all add: turn_events_def)

lemma example_run_exists:
  fixes A :: "nat \<Rightarrow> xstack_sockaddr"
  assumes "sys_ok 0 {example_route} {0x0a000000} example_if 0 A (\<lambda>_. []) st" "A = (\<lambda>_. \<lparr>inet4_addr = 0x0a000002, port = 10\<rparr>)" "sendto_ok sendto"
  obtains buf src st' where "sys_run sendto st (example_run buf src) st'"
proof -
  let ?evs = "[Inr (example_frame IP_PROTO_UDP [0, 9, 0, 10])]" and ?M = example_if
  have m: "length (arrive A (brought {example_route} ?M (Ingress_turn 5 ?evs)) (\<lambda>_. []) s) = 1" for s
    unfolding brought.simps example_turn(2) arrive_def assms(2) example_msg by simp
  then have "room_for A (dgrams {example_route} (filter (from_others ?M) ?evs)) (\<lambda>_. [])" by (simp add: room_for_def)
  then obtain st1 where st1: "sys_step sendto st (Ingress_turn 5 ?evs) st1"
    using ingress_enabled [OF assms(1,3) example_turn(1), of 5] by (auto simp: ARP_CACHE_AGE_MAX_def)
  have "action_ok {0x0a000000} 0 (Ingress_turn 5 ?evs)" using example_turn(1) by (simp add: turn_events_def ARP_CACHE_AGE_MAX_def)
  from sys_step_ok [OF st1 assms(1,3) this] obtain Q1 where Q1: "sys_ok 0 {example_route} {0x0a000000} ?M 0 A Q1 st1"
    "\<forall>s < NUM_SOCKETS. map contents (arrive A (brought {example_route} ?M (Ingress_turn 5 ?evs)) (\<lambda>_. []) s) = map contents (Q1 s)" by auto
  obtain st2 where st2: "sys_step sendto st1 Egress_turn st2" using egress_makes_room [OF Q1(1)] by blast
  from sys_step_ok [OF st2 Q1(1) assms(3)] obtain Q2 where Q2: "sys_ok 0 {example_route} {0x0a000000} ?M 0 A Q2 st2"
    "\<forall>s < NUM_SOCKETS. map contents (Q1 s) = map contents (Q2 s)" by (auto simp: arrive_def)
  have s: "0 < NUM_SOCKETS" by (simp add: NUM_SOCKETS_def)
  then have "length (Q2 0) = 1" using m [of 0] Q1(2) Q2(2) by (metis length_map)
  then have "Q2 0 \<noteq> []" by auto
  then obtain buf src st' where "sys_step sendto st2 (Recv 0 4096 0 buf src) st'" using recv_enabled [OF Q2(1) s] by metis
  then show thesis using that [of buf src st'] st1 st2 unfolding example_run_def by (blast intro: sys_run.intros)
qed

lemma udp_service_fifo_witness:
  "\<exists>st st'. sys_ok 0 {example_route} {0x0a000000} example_if 0 (\<lambda>_. \<lparr>inet4_addr = 0x0a000002, port = 10\<rparr>) (\<lambda>_. []) st \<and>
     sys_run (\<lambda>w f. Inr 0) st (example_run (replicate 18 1) \<lparr>inet4_addr = 0x0a000000, port = 9\<rparr>) st'"
proof -
  let ?A = "\<lambda>_ :: nat. \<lparr>inet4_addr = 0x0a000002, port = 10\<rparr>"
  let ?evs = "[Inr (example_frame IP_PROTO_UDP [0, 9, 0, 10])]"
  have so: "sendto_ok (\<lambda>w f. Inr 0)" by (simp add: sendto_ok_def)
  obtain st where st: "sys_ok 0 {example_route} {0x0a000000} example_if 0 ?A (\<lambda>_. []) st" by (rule example_sys)
  obtain buf src st' where r: "sys_run (\<lambda>w f. Inr 0) st (example_run buf src) st'" by (rule example_run_exists [OF st refl so])
  have a: "list_all (action_ok {0x0a000000} 0) (example_run buf src)"
    using example_turn(1) by (simp add: example_run_def turn_events_def ARP_CACHE_AGE_MAX_def)
  have "arrivals {example_route} example_if (example_run buf src) = dgrams {example_route} ?evs"
    unfolding arrivals_def example_run_def by (simp del: dgrams_simps filter.simps add: example_turn(2))
  moreover have "received 0 (example_run buf src) = [(src, buf)]" by (simp add: received_def example_run_def)
  moreover have "\<exists>Q'. \<forall>s < NUM_SOCKETS. map contents (msgs_for (?A s) (arrivals {example_route} example_if (example_run buf src))) =
      received s (example_run buf src) @ map contents (Q' s)"
    using udp_service_fifo [OF r st so a] by auto
  ultimately have "src = \<lparr>inet4_addr = 0x0a000000, port = 9\<rparr> \<and> buf = replicate 18 1"
    unfolding NUM_SOCKETS_def by (auto simp: example_msg contents_def simp del: dgrams_simps)
  then show ?thesis using st r by blast
qed

lemma system_progress_witness:
  "\<exists>st st' st''. sys_ok 0 {example_route} {0x0a000000} example_if 0 (\<lambda>_. \<lparr>inet4_addr = 0x0a000002, port = 10\<rparr>) (\<lambda>_. []) st \<and>
     sys_step (\<lambda>w f. Inr 0) st (Ingress_turn 5 [Inr (example_frame IP_PROTO_UDP [0, 9, 0, 10])]) st' \<and> sys_step (\<lambda>w f. Inr 0) st Egress_turn st''"
proof -
  have so: "sendto_ok (\<lambda>w f. Inr 0)" by (simp add: sendto_ok_def)
  obtain st where st: "sys_ok 0 {example_route} {0x0a000000} example_if 0 (\<lambda>_. \<lparr>inet4_addr = 0x0a000002, port = 10\<rparr>) (\<lambda>_. []) st" by (rule example_sys)
  have "5 - 0 \<le> ARP_CACHE_AGE_MAX" by (simp add: ARP_CACHE_AGE_MAX_def)
  from system_progress [OF st so example_turn(1) this] show ?thesis using st by auto
qed

end
