(* ===== verification/Boot.thy ===== *)
theory Boot
  imports System
begin

text \<open>
  The daemon after its start. The ARP cache is in static storage: all its entries have the age 0 and the address 0, so that
  every one counts as learned although none is in the tree. The periodic update ages them, and frees them when they are older than the
  limit. Until then the cache works as long as no address is entered besides our own: here that phase is followed, up to
  the state in which the invariant of the whole system holds.
\<close>

section \<open>The cache\<close>

text \<open>The first entry is our own, which \<^verbatim>\<open>ip_config\<close> has entered, and in the tree; the others are unused, of the age \<open>a\<close>.\<close>

definition cache_warm :: "u32 \<Rightarrow> mac_addr \<Rightarrow> int \<Rightarrow> arp_state \<Rightarrow> bool" where
  "cache_warm ip mac a st \<longleftrightarrow> arp_cache st 0 = \<lparr>ip_addr = ip, haddr = mac, age = ARP_CACHE_STATIC\<rparr> \<and>
     (\<forall>i < XSTACK_ARP_CACHE_SIZE. i \<noteq> 0 \<longrightarrow> ip_addr (arp_cache st i) = 0 \<and> age (arp_cache st i) = a) \<and>
     rb_set (\<lambda>e. unat (ip_addr e - 0)) (arp_cache st) (arp_cache_head st) {0}"

lemma arp_pick_equal:
  assumes "ip \<noteq> 0" "\<forall>i. ip_addr (cache i) = 0 \<and> age (cache i) = 0"
  shows "arp_pick cache ip is (Some e) = Some e"
  using assms by (induction "is") (simp_all add: ARP_CACHE_FREE_def)

lemma boot_insert:
  assumes "ip \<noteq> 0" "in_window 0 ip"
  obtains st where "arp_cache_insert ip mac ARP_CACHE_STATIC arp_boot = Some (Inr (), st)" "cache_warm ip mac 0 st"
proof -
  let ?cache = "(arp_cache arp_boot)(0 := \<lparr>ip_addr = ip, haddr = mac, age = ARP_CACHE_STATIC\<rparr>)"
  have z: "\<forall>i. ip_addr (arp_cache arp_boot i) = 0 \<and> age (arp_cache arp_boot i) = 0" by (simp add: arp_boot_def)
  have "[0..<XSTACK_ARP_CACHE_SIZE] = 0 # [1..<XSTACK_ARP_CACHE_SIZE]" by (simp add: upt_conv_Cons XSTACK_ARP_CACHE_SIZE_def)
  then have pick: "arp_pick (arp_cache arp_boot) ip [0..<XSTACK_ARP_CACHE_SIZE] None = Some 0"
    using arp_pick_equal [OF assms(1) z] z assms(1) by (simp add: ARP_CACHE_FREE_def)
  have "map_option rbh_root (RB_REMOVE (arp_cache_head arp_boot) (Some 0)) = Some None" by code_simp
  then obtain h where h: "RB_REMOVE (arp_cache_head arp_boot) (Some 0) = Some h" "rbh_root h = None" by auto
  have "h = RB_INIT h" using h(2) by (simp add: RB_INIT_def)
  then have e: "rb_set (\<lambda>e. unat (ip_addr e - 0)) ?cache h {}" by (metis rb_set_init)
  have v: "in_window 0 (ip_addr (?cache 0))" using assms(2) by simp
  obtain h' where h': "RB_INSERT (\<lambda>x. arp_cache_cmp (?cache 0) (?cache x)) h 0 = Some (h', None)"
    "rb_set (\<lambda>e. unat (ip_addr e - 0)) ?cache h' (insert 0 {})"
    by (rule by_ip.insert_new [OF e _ v]) blast+
  have "arp_cache_insert ip mac ARP_CACHE_STATIC arp_boot = Some (Inr (), arp_boot\<lparr>arp_cache := ?cache, arp_cache_head := h'\<rparr>)"
    using pick h(1) h'(1) z assms(1) by (simp add: arp_cache_insert_def Let_def)
  moreover have "cache_warm ip mac 0 (arp_boot\<lparr>arp_cache := ?cache, arp_cache_head := h'\<rparr>)" using h'(2) z by (simp add: cache_warm_def)
  ultimately show thesis using that by blast
qed

lemma cache_warm_update:
  assumes "cache_warm ip mac a st"
  shows "cache_warm ip mac (if a > ARP_CACHE_AGE_MAX then ARP_CACHE_FREE else if a \<ge> 0 then a + delta else a) (arp_cache_update_fn delta st)"
proof -
  let ?st = "arp_cache_update_fn delta st"
  have "ip_addr (arp_cache ?st i) = ip_addr (arp_cache st i)" "arp_cache_head ?st = arp_cache_head st" for i by (simp_all add: arp_cache_update_fn_def Let_def)
  then have "rb_set (\<lambda>e. unat (ip_addr e - 0)) (arp_cache ?st) (arp_cache_head ?st) {0}"
    using assms rb_set_cong [of "\<lambda>e. unat (ip_addr e - 0)" "arp_cache st" _ _ "arp_cache ?st"] by (simp add: cache_warm_def)
  then show ?thesis using assms by (auto simp: cache_warm_def arp_cache_update_fn_def Let_def arp_consts)
qed

text \<open>With the unused entries freed the cache is consistent.\<close>

lemma cache_warm_ready:
  assumes "cache_warm ip mac ARP_CACHE_FREE st" "ip \<noteq> 0" "in_window 0 ip"
  shows "arp_inv 0 st" "arp_map st = [ip \<mapsto> (mac, ARP_CACHE_STATIC)]"
proof -
  have live: "arp_live st i \<longleftrightarrow> i = 0" for i
    using assms(1) by (auto simp: arp_live_def cache_warm_def arp_consts)
  have ip: "ip_addr (arp_cache st i) = (if i = 0 then ip else 0)" if "i < XSTACK_ARP_CACHE_SIZE" for i
    using assms(1) that by (simp add: cache_warm_def)
  show I: "arp_inv 0 st" using assms ip unfolding arp_inv_def live by (auto simp: cache_warm_def arp_consts)
  have "arp_slot st x = (if x = ip then Some 0 else None)" for x
    using arp_slot_Some [OF I, of ip 0] arp_slot_None [of st x] live ip by (simp add: XSTACK_ARP_CACHE_SIZE_def)
  then show "arp_map st = [ip \<mapsto> (mac, ARP_CACHE_STATIC)]" using assms(1) by (auto simp: arp_map_def cache_warm_def)
qed

section \<open>Turns\<close>

text \<open>What the link may deliver meanwhile: errors, and frames of any protocol but ARP and IP.\<close>

definition quiet :: "int + bytes \<Rightarrow> bool" where
  "quiet ev = (case ev of Inl _ \<Rightarrow> True | Inr f \<Rightarrow> frame_proto f \<noteq> ETHER_PROTO_IPV4 \<and> frame_proto f \<noteq> ETHER_PROTO_ARP)"

lemma quiet_dgrams: "\<forall>ev \<in> set evs. quiet ev \<Longrightarrow> dgrams R evs = []"
  by (induction evs) (auto simp: quiet_def event_dgram_def frame_dgram_def split: sum.splits)

text \<open>The clock: the time of the last periodic update, and whether the unused entries are free, after a reading. The first update
  adds the time since the machine was started; an update that finds them older than 20 hours frees them.\<close>

definition warm_tick :: "int \<Rightarrow> int \<times> bool \<Rightarrow> int \<times> bool" where
  "warm_tick now = (\<lambda>(t, freed). if now - t \<ge> XSTACK_PERIODIC_EVENT_SEC then (now, freed \<or> t > ARP_CACHE_AGE_MAX) else (t, freed))"

text \<open>The rest of the stack is as it will be, with \<open>U\<close> for the sockets; nothing is deferred.\<close>

definition warming :: "ip_route set \<Rightarrow> u32 set \<Rightarrow> ether_linux \<Rightarrow> u32 \<Rightarrow> (udp_table \<Rightarrow> bool) \<Rightarrow> int \<times> bool \<Rightarrow> stack \<Rightarrow> bool" where
  "warming R P E ip U c st \<longleftrightarrow> fst c = timer_start st \<and> 0 \<le> timer_start st \<and>
     cache_warm ip (el_mac E) (if snd c then ARP_CACHE_FREE else timer_start st) (n_arp (net st)) \<and>
     net_safe 0 R P E 0 U ((net st)\<lparr>n_arp := arp_fresh\<rparr>) \<and> ether_handle st = 0 \<and> length (rx_buffer st) = 1514 \<and>
     q_rd (n_defer (net st)) = q_wr (n_defer (net st))"

lemma warming_state [simp]: "warming R P E ip U c (set_state x st) = warming R P E ip U c st"
  by (simp add: warming_def set_state_def)

text \<open>The sockets before and after \<^verbatim>\<open>xstack_init\<close>: not bound, and bound with empty queues.\<close>

definition unbound :: "(nat \<Rightarrow> xstack_sockaddr) \<Rightarrow> udp_table \<Rightarrow> bool" where
  "unbound A u \<longleftrightarrow> udp_inv u {} \<and> sock_proto (sockets u 0) = XIP_PROTO_UDP \<and> sock_addr (sockets u 0) = A 0 \<and> port_ok (A 0) \<and>
     port (A 0) \<le> XSTACK_SOCK_PORT_MAX"

definition idle :: "(nat \<Rightarrow> xstack_sockaddr) \<Rightarrow> udp_table \<Rightarrow> bool" where
  "idle A u \<longleftrightarrow> sockets_ok A (\<lambda>_. []) u \<and> (\<forall>s < NUM_SOCKETS. queue_count (egress_q (sock_shmem (sockets u s))) = 0)"

lemma warm_tasks:
  assumes "q_rd (n_defer st) = q_wr (n_defer st)"
  shows "run_periodic_tasks sendto delta st =
    Some (st\<lparr>n_arp := arp_cache_update_fn delta (n_arp st), n_defer := (n_defer st)\<lparr>defer_inhibit := True\<rparr>\<rparr>)"
proof -
  have "ip_defer_peek (n_defer (x\<lparr>n_defer := (n_defer st)\<lparr>defer_inhibit := True\<rparr>\<rparr>)) = None" for x :: net_state using assms by (simp add: ip_defer_peek_def)
  then show ?thesis
    by (simp add: run_periodic_tasks_def xstack_periodic_tasks_def ip_defer_handler_def) (subst defer_loop.simps, simp)
qed

lemma inhibit_ok: "deferred_ok lo (d\<lparr>defer_inhibit := x\<rparr>) = deferred_ok lo d"
  by (simp add: deferred_ok_def defer_wf_def defer_slots_def defer_count_def)

lemma warm_timer:
  assumes st: "warming R P E ip U c st" and e: "eval_timer now st = (tick, st1)"
  obtains st' where "(if tick then do { n \<leftarrow> run_periodic_tasks sendto (delta_time st1) (net st1); Some (st1\<lparr>net := n\<rparr>) } else Some st1) = Some st'"
    "warming R P E ip U (warm_tick now c) st'"
proof (cases "now - timer_start st \<ge> XSTACK_PERIODIC_EVENT_SEC")
  case True
  let ?d = "now - timer_start st" and ?n = "net st"
  have t: "tick" "st1 = st\<lparr>delta_time := ?d, timer_start := now\<rparr>" using e True by (auto simp: eval_timer_def Let_def)
  let ?n' = "?n\<lparr>n_arp := arp_cache_update_fn ?d (n_arp ?n), n_defer := (n_defer ?n)\<lparr>defer_inhibit := True\<rparr>\<rparr>"
  have r: "run_periodic_tasks sendto ?d ?n = Some ?n'" using st by (intro warm_tasks) (simp add: warming_def)
  have w: "0 \<le> now" "0 \<le> timer_start st" "0 \<le> ?d" using True st by (simp_all add: warming_def XSTACK_PERIODIC_EVENT_SEC_def)
  have "cache_warm ip (el_mac E) (if snd c then ARP_CACHE_FREE else timer_start st) (n_arp ?n)" using st by (simp add: warming_def)
  from cache_warm_update [OF this, of ?d] have
    "cache_warm ip (el_mac E) (if snd c \<or> timer_start st > ARP_CACHE_AGE_MAX then ARP_CACHE_FREE else now) (arp_cache_update_fn ?d (n_arp ?n))"
    using w by (auto simp: arp_consts split: if_splits)
  moreover have "warm_tick now c = (now, snd c \<or> timer_start st > ARP_CACHE_AGE_MAX)" using True st by (simp add: warm_tick_def warming_def split_beta)
  moreover have "net_safe 0 R P E 0 U (?n'\<lparr>n_arp := arp_fresh\<rparr>)"
    using st by (auto simp: warming_def net_safe_def net_ok_def inhibit_ok)
  ultimately have "warming R P E ip U (warm_tick now c) (st1\<lparr>net := ?n'\<rparr>)" using st w t(2) by (simp add: warming_def split: if_splits)
  then show ?thesis using that r t by simp
next
  case False
  then have "warm_tick now c = c" "\<not> tick" "st1 = st\<lparr>delta_time := now - timer_start st\<rparr>"
    using e st by (cases c, auto simp: eval_timer_def Let_def warm_tick_def warming_def)
  moreover have "warming R P E ip U c (st\<lparr>delta_time := d\<rparr>) = warming R P E ip U c st" for d by (simp add: warming_def)
  ultimately show ?thesis using that [of st1] st by simp
qed

lemma warming_eth: "warming R P E ip U c st \<Longrightarrow> length buf = 1514 \<Longrightarrow> ether_if est = ether_if (n_eth (net st)) \<Longrightarrow>
  warming R P E ip U c (st\<lparr>rx_buffer := buf, net := (net st)\<lparr>n_eth := est\<rparr>\<rparr>)"
  by (auto simp: warming_def net_safe_def net_ok_def)

lemma warming_turn:
  assumes st: "warming R P E ip U c st" and e: "\<forall>ev \<in> set evs. event_ok P ev" "filter (from_others E) evs = e # es" "quiet e"
  obtains evs' st' where "ingress_turn sendto now evs st = Some (evs', st')" "filter (from_others E) evs' = es" "set evs' \<subseteq> set evs"
    "warming R P E ip U (warm_tick now c) st'"
proof -
  have h: "ether_handle st = 0" "length (rx_buffer st) = 1514" "ether_if (n_eth (net st)) = E" using st by (simp_all add: warming_def net_safe_def)
  obtain r hdr buf evs' est where r: "ether_receive evs (n_eth (net st)) (ether_handle st) (rx_buffer st) = Some (r, hdr, buf, evs', est)"
    "filter (from_others E) evs' = es" "set evs' \<subseteq> set evs" "length buf = 1514" "ether_if est = ether_if (n_eth (net st))"
    "case e of Inl _ \<Rightarrow> r \<le> 0 | Inr f \<Rightarrow> benign P f \<and> r = int (length (frame_payload f)) \<and>
       take (length (frame_payload f)) buf = frame_payload f \<and> (\<exists>h. hdr = Some h \<and> h_proto h = frame_proto f)"
    using receive_any [OF h e(1,2)] .
  let ?st = "st\<lparr>rx_buffer := buf, net := (net st)\<lparr>n_eth := est\<rparr>\<rparr>"
  have s: "warming R P E ip U c ?st" using warming_eth [OF st r(4,5)] .
  obtain st1 where st1: "(if r > 0 then do { hdr \<leftarrow> hdr; ingress_frame sendto hdr (nat r) ?st } else Some ?st) = Some st1" "warming R P E ip U c st1"
  proof (cases e)
    case (Inl x)
    then show thesis using that r(6) s by simp
  next
    case (Inr f)
    then obtain hd where hd: "hdr = Some hd" "h_proto hd = frame_proto f" "r > 0"
      using r(6) by (auto simp: benign_def frame_payload_def ether_consts)
    have "find_handler ether_proto_handlers (h_proto hd) = None" using e(3) Inr hd(2) by (simp add: quiet_def ether_handlers)
    then have "ingress_frame sendto hd (nat r) ?st = Some (?st\<lparr>net := set_errno EPROTONOSUPPORT (net ?st)\<rparr>)"
      by (simp add: ingress_frame_def ether_input_def)
    moreover have "warming R P E ip U c (?st\<lparr>net := set_errno EPROTONOSUPPORT (net ?st)\<rparr>)"
      using warming_eth [OF s, of buf "est\<lparr>errno := EPROTONOSUPPORT\<rparr>"] r(4) by (simp add: set_errno_def)
    ultimately show thesis using that hd by simp
  qed
  obtain tick st2 where tick: "eval_timer now st1 = (tick, st2)" by fastforce
  obtain st' where "(if tick then do { n \<leftarrow> run_periodic_tasks sendto (delta_time st2) (net st2); Some (st2\<lparr>net := n\<rparr>) } else Some st2) = Some st'"
    "warming R P E ip U (warm_tick now c) st'" using warm_timer [OF st1(2) tick] .
  then show thesis using that r(1-3) st1(1) tick by (simp add: ingress_turn_def Let_def)
qed

lemma warming_egress:
  assumes "warming R P E ip (idle A) c st"
  shows "egress_sockets sendto [0..<NUM_SOCKETS] (net st) = Some (net st)"
proof -
  have "sock_queue (egress_q (sock_shmem (sockets (n_udp (net st)) s))) (egress_data (sock_shmem (sockets (n_udp (net st)) s)))"
    "queue_count (egress_q (sock_shmem (sockets (n_udp (net st)) s))) = 0" if "s < NUM_SOCKETS" for s
    using assms that by (simp_all add: warming_def net_safe_def idle_def sockets_ok_def socket_ok_def)
  then have "egress_socket sendto s (net st) = Some (net st)" if "s < NUM_SOCKETS" for s using egress_empty that by blast
  then have "\<forall>s \<in> set ss. s < NUM_SOCKETS \<Longrightarrow> egress_sockets sendto ss (net st) = Some (net st)" for ss by (induction ss) simp_all
  then show ?thesis by simp
qed

text \<open>The readings of the clock in a list of turns.\<close>

definition readings :: "thread_turn list \<Rightarrow> int list" where
  "readings ts = [now. Ingress now \<leftarrow> ts]"

lemma readings_simps [simp]:
  "readings [] = []" "readings (Ingress now # ts) = now # readings ts" "readings (Egress # ts) = readings ts"
  by (simp_all add: readings_def)

lemma warming_run:
  assumes "warming R P E ip (idle A) c st" "\<forall>ev \<in> set evs. event_ok P ev" "length (readings ts) \<le> length (filter (from_others E) evs)"
    "\<forall>ev \<in> set (take (length (readings ts)) (filter (from_others E) evs)). quiet ev"
  shows "\<exists>evs' st'. run_threads sendto ts evs st = Some (evs', st') \<and> set evs' \<subseteq> set evs \<and>
    filter (from_others E) evs' = drop (length (readings ts)) (filter (from_others E) evs) \<and>
    warming R P E ip (idle A) (fold warm_tick (readings ts) c) st'"
  using assms
proof (induction ts arbitrary: evs st c)
  case (Cons t ts)
  show ?case
  proof (cases t)
    case (Ingress now)
    obtain e es where e: "filter (from_others E) evs = e # es" using Cons.prems(3) Ingress by (cases "filter (from_others E) evs") auto
    have q: "quiet e" using Cons.prems(4) Ingress e by simp
    obtain evs1 st1 where t1: "ingress_turn sendto now evs st = Some (evs1, st1)" "filter (from_others E) evs1 = es" "set evs1 \<subseteq> set evs"
      "warming R P E ip (idle A) (warm_tick now c) st1" using warming_turn [OF Cons.prems(1,2) e q] .
    have "\<forall>ev \<in> set evs1. event_ok P ev" using t1(3) Cons.prems(2) by blast
    from Cons.IH [OF t1(4) this] show ?thesis using t1(1-3) Cons.prems(3,4) Ingress e by fastforce
  next
    case Egress
    then show ?thesis using Cons.IH [OF Cons.prems(1,2)] Cons.prems(3,4) warming_egress [OF Cons.prems(1)] by simp
  qed
qed simp

text \<open>Once the unused entries are free, the state is one of the running system.\<close>

lemma warmed:
  assumes "warming R P E ip (idle A) (t0, True) st" "ip \<noteq> 0" "in_window 0 ip" "ip \<in> P"
  shows "sys_ok 0 R P E t0 A (\<lambda>_. []) st"
proof -
  have w: "cache_warm ip (el_mac E) ARP_CACHE_FREE (n_arp (net st))" "t0 = timer_start st"
    "net_safe 0 R P E 0 (idle A) ((net st)\<lparr>n_arp := arp_fresh\<rparr>)" "ether_handle st = 0" "length (rx_buffer st) = 1514"
    using assms(1) by (simp_all add: warming_def)
  have "arp_peers P 0 (n_arp (net st))" using cache_warm_ready(2) [OF w(1) assms(2,3)] assms(4) by (simp add: arp_peers_def ARP_CACHE_STATIC_def)
  then have "net_safe 0 R P E 0 (sockets_ok A (\<lambda>_. [])) (net st)"
    using w(3) cache_warm_ready(1) [OF w(1) assms(2,3)] by (auto simp: net_safe_def net_ok_def idle_def)
  then show ?thesis using w(2,4,5) by (simp add: sys_ok_def stack_safe_def ARP_CACHE_AGE_MAX_def)
qed

section \<open>Starting and stopping\<close>

lemma start_ok:
  assumes st: "warming R P E ip (unbound A) c st" "get_state st = XSTACK_STOPPED" "shm 0"
  obtains st' where "xstack_start mypid shm True True 0 st = Some (Inr 0, st')" "get_state st' = XSTACK_RUNNING"
    "warming R P E ip (idle A) c st'" "os_calls st' = os_calls st"
proof -
  let ?u = "n_udp (net st)"
  have a: "udp_inv ?u {}" "sock_proto (sockets ?u 0) = XIP_PROTO_UDP" "sock_addr (sockets ?u 0) = A 0" "port_ok (A 0)"
    "port (A 0) \<le> XSTACK_SOCK_PORT_MAX" using st(1) by (simp_all add: warming_def net_safe_def unbound_def)
  obtain u where u: "xstack_init mypid shm ?u = Some (Inr (), u)" "udp_inv u {0}" "pending (sock_shmem (sockets u 0)) []"
    "sock_addr (sockets u 0) = sock_addr (sockets ?u 0)"
    "sock_queue (egress_q (sock_shmem (sockets u 0))) (egress_data (sock_shmem (sockets u 0)))"
    "queue_count (egress_q (sock_shmem (sockets u 0))) = 0" "sizes_zero (egress_data (sock_shmem (sockets u 0)))"
    "sock_proto (sockets u 0) = XIP_PROTO_UDP"
    by (rule xstack_init_ok [OF a(1,2), of shm mypid]) (use a(3-5) st(3) in simp_all)
  let ?st = "st\<lparr>ether_handle := 0, net := (net st)\<lparr>n_udp := u\<rparr>, xs_state := XSTACK_RUNNING\<rparr>"
  have start: "xstack_start mypid shm True True 0 st = Some (Inr 0, ?st)"
    using u(1) st(2) by (simp add: xstack_start_def get_state_def set_state_def Let_def)
  have "{..<NUM_SOCKETS} = {0}" by (auto simp: NUM_SOCKETS_def)
  then have "idle A u" using u a(3) by (simp add: idle_def sockets_ok_def socket_ok_def NUM_SOCKETS_def)
  then have "warming R P E ip (idle A) c ?st" using st(1) by (auto simp: warming_def net_safe_def net_ok_def)
  then show thesis using that [OF start] by (simp add: get_state_def)
qed

lemma dying_threads:
  assumes "ingress_turn sendto now evs (set_state XSTACK_DYING st) = Some (evs', st1)" "egress_sockets sendto [0..<NUM_SOCKETS] (net st1) = Some n"
  shows "xstack_stop sendto (now # nows) (Suc k) evs st = Some (set_state XSTACK_STOPPED (st1\<lparr>net := n\<rparr>))"
proof -
  have "xs_state st1 = XSTACK_DYING" using ingress_turn_state [OF assms(1)] by (simp add: set_state_def)
  then show ?thesis using assms by (simp add: xstack_stop_def other_writes_def get_state_def Let_def)
qed

text \<open>Starting again: the socket is still bound.\<close>

lemma restart_refused:
  assumes "warming R P E ip (idle A) c st" "get_state st = XSTACK_STOPPED" "shm 0" "port (A 0) \<le> XSTACK_SOCK_PORT_MAX"
  obtains st' where "xstack_start mypid shm True True 0 st = Some (Inl 1, st')"
proof -
  let ?u = "n_udp (net st)"
  have "{..<NUM_SOCKETS} = {0}" by (auto simp: NUM_SOCKETS_def)
  then have u: "udp_inv ?u {0}" "sock_addr (sockets ?u 0) = A 0" "sock_proto (sockets ?u 0) = XIP_PROTO_UDP"
    using assms(1) by (simp_all add: warming_def net_safe_def idle_def sockets_ok_def socket_ok_def NUM_SOCKETS_def)
  obtain sock where c: "sock_create mypid (sockets ?u 0) = Some sock" "sock_addr sock = sock_addr (sockets ?u 0)"
    using sock_create_pending [of mypid "sockets ?u 0"] by metis
  have pr: "sock_proto sock = XIP_PROTO_UDP" using c(1) u(3) by (auto simp: sock_create_def queue_create_def split: if_splits)
  let ?v = "?u\<lparr>sockets := (sockets ?u)(0 := sock)\<rparr>"
  have "udp_inv ?v {0}" using udp_inv_set [OF u(1), of sock 0] c(2) by simp
  then have "find_udp_socket (A 0) ?v = Some (Some 0)" using find_udp_hit [of ?v "{0}" 0 "A 0"] c(2) u(2) by simp
  then have "xstack_bind 0 ?v = Some (Inl EADDRINUSE, ?v)"
    using pr c(2) u(2) assms(4) by (simp add: xstack_bind_def xstack_udp_bind_def)
  then have "xstack_init mypid shm ?u = Some (Inl 1, ?v)" using c(1) assms(3) by (simp add: xstack_init_def NUM_SOCKETS_def)
  then show thesis using that assms(2) by (simp add: xstack_start_def get_state_def Let_def)
qed

end
