(* ===== verification/Daemon.thy ===== *)
theory Daemon
  imports Boot
begin

text \<open>
  The life of the daemon, \<^verbatim>\<open>main\<close> of \<^verbatim>\<open>src/xstack.c\<close>: the interface is opened and configured, the threads run turn by turn, in any
  order, and the program is stopped. It starts with the ARP cache as static storage has it, all zero; the theory \<open>Boot\<close> leads from
  there to the invariant of the running system.
\<close>

section \<open>Configuration\<close>

text \<open>The announcement of an address, as a frame.\<close>

definition announcement :: "mac_addr \<Rightarrow> u32 \<Rightarrow> bytes" where
  "announcement mac ip = ether_frame mac_broadcast_addr mac ETHER_PROTO_ARP (arp_store (arp_hton (arp_message mac ip ip)))"

lemma announce_ok:
  assumes "length (el_mac (ether_if est)) = 6"
  obtains est' where "announce n sendto 0 ip est = Some est'" "ether_if est' = ether_if est" "ether_next_handle est' = ether_next_handle est"
    "(\<forall>w. \<exists>k. sendto w (announcement (el_mac (ether_if est)) ip) = Inr k) \<longrightarrow>
       wire est' = wire est @ replicate n (announcement (el_mac (ether_if est)) ip)"
  using assms
proof (induction n arbitrary: est thesis)
  case (Suc n)
  let ?mac = "el_mac (ether_if est)"
  have l: "length (arp_store (arp_hton (arp_message ?mac ip ip))) \<le> 1500"
    using Suc.prems(2) length_arp_store [of "arp_hton (arp_message ?mac ip ip)"] by (simp add: arp_hton_def arp_message_def)
  obtain r est1 where e: "ether_send sendto est 0 mac_broadcast_addr ETHER_PROTO_ARP (arp_store (arp_hton (arp_message ?mac ip ip))) = Some (r, est1)"
    "ether_if est1 = ether_if est" "ether_next_handle est1 = ether_next_handle est"
    "(\<exists>k. sendto (wire est) (announcement ?mac ip) = Inr k) \<longrightarrow> wire est1 = wire est @ [announcement ?mac ip]"
    using ether_send_cases [OF l, of sendto est mac_broadcast_addr ETHER_PROTO_ARP] by (auto simp: Let_def announcement_def split: sum.splits)
  obtain est' where est': "announce n sendto 0 ip est1 = Some est'" "ether_if est' = ether_if est1" "ether_next_handle est' = ether_next_handle est1"
    "(\<forall>w. \<exists>k. sendto w (announcement (el_mac (ether_if est1)) ip) = Inr k) \<longrightarrow>
       wire est' = wire est1 @ replicate n (announcement (el_mac (ether_if est1)) ip)"
    using Suc.IH [of est1] e(2) Suc.prems(2) by metis
  have "announce (Suc n) sendto 0 ip est = Some est'"
    using e(1) est'(1) by (simp add: arp_gratuitous_def ether_handle2addr_def ether_handle2eth_def Let_def)
  moreover have "replicate (Suc n) x = x # replicate n x" for x :: bytes by simp
  ultimately show ?case using Suc.prems(1) [of est'] est'(2-4) e(2-4) by auto
qed simp

lemma ip_config_ok:
  assumes rib: "rib_holds lo (n_rib st) R" "in_window lo (ip AND netmask)" "in_window lo ip" "\<forall>q \<in> R. r_network q \<noteq> ip AND netmask \<longrightarrow> r_iface q \<noteq> ip"
      "(\<exists>q \<in> R. r_network q = ip AND netmask) \<or> card R < XSTACK_IP_RIB_SIZE"
    and arp: "arp_cache_insert ip (el_mac (ether_if (n_eth st))) ARP_CACHE_STATIC (n_arp st) = Some (Inr (), arp')"
    and mac: "length (el_mac (ether_if (n_eth st))) = 6"
  defines "route \<equiv> \<lparr>r_network = ip AND netmask, r_netmask = netmask, r_gw = 0, r_iface = ip, r_iface_handle = 0\<rparr>"
  obtains est' rib' where "ip_config sendto 0 ip netmask st = Some (0, st\<lparr>n_eth := est', n_arp := arp', n_rib := rib'\<rparr>)"
    "rib_holds lo rib' (insert route {q \<in> R. r_network q \<noteq> ip AND netmask})"
    "ether_if est' = ether_if (n_eth st)"
    "(\<forall>w. \<exists>k. sendto w (announcement (el_mac (ether_if (n_eth st))) ip) = Inr k) \<longrightarrow>
       wire est' = wire (n_eth st) @ replicate 3 (announcement (el_mac (ether_if (n_eth st))) ip)"
proof -
  let ?mac = "el_mac (ether_if (n_eth st))"
  have n: "r_network route = ip AND netmask" "r_iface route = ip" by (simp_all add: route_def)
  obtain rib' where rib': "ip_route_update route (n_rib st) = Some rib'" "rib_holds lo rib' (insert route {q \<in> R. r_network q \<noteq> ip AND netmask})"
    using rib_update_ok [OF rib(1), of route] rib(2-5) unfolding n by blast
  obtain est' where est': "announce 3 sendto 0 ip (n_eth st) = Some est'" "ether_if est' = ether_if (n_eth st)"
    "(\<forall>w. \<exists>k. sendto w (announcement ?mac ip) = Inr k) \<longrightarrow> wire est' = wire (n_eth st) @ replicate 3 (announcement ?mac ip)"
    using announce_ok [OF mac] by metis
  have "ip_config sendto 0 ip netmask st = Some (0, st\<lparr>n_eth := est', n_arp := arp', n_rib := rib'\<rparr>)"
    using rib'(1) arp est'(1) by (simp add: ip_config_def ether_handle2addr_def ether_handle2eth_def route_def Let_def del: announce.simps)
  then show thesis using that rib'(2) est'(2,3) by blast
qed

section \<open>The threads\<close>

lemma sys_ok_state [simp]: "sys_ok lo R P E t0 A Q (set_state x st) = sys_ok lo R P E t0 A Q st"
  by (simp add: sys_ok_def stack_safe_def set_state_def)







definition ingress_turns :: "thread_turn list \<Rightarrow> nat" where
  "ingress_turns ts = length (readings ts)"

lemma ingress_turns_simps [simp]:
  "ingress_turns [] = 0" "ingress_turns (Ingress now # ts) = Suc (ingress_turns ts)" "ingress_turns (Egress # ts) = ingress_turns ts"
  by (simp_all add: ingress_turns_def)


lemma arrive_append [simp]: "arrive A ds' (arrive A ds Q) = arrive A (ds @ ds') Q" "arrive A [] Q = Q"
  by (simp_all add: arrive_def fun_eq_iff)



section \<open>The program\<close>

definition own_ip :: u32 where "own_ip = 167772162"

abbreviation own_addr :: "nat \<Rightarrow> xstack_sockaddr" where
  "own_addr \<equiv> \<lambda>_. \<lparr>inet4_addr = own_ip, port = 10\<rparr>"

abbreviation own_route :: ip_route where
  "own_route \<equiv> \<lparr>r_network = 167772160, r_netmask = 4294967040, r_gw = 0, r_iface = own_ip, r_iface_handle = 0\<rparr>"

text \<open>The state when \<^verbatim>\<open>main\<close> begins: static storage is zero, also that of the ARP cache, and the constructor
  of the routing table has run.\<close>

definition boot_ok :: "stack \<Rightarrow> bool" where
  "boot_ok st \<longleftrightarrow> get_state st = XSTACK_STOPPED \<and> ether_handle st = 0 \<and> timer_start st = 0 \<and> length (rx_buffer st) = 1514 \<and>
     n_arp (net st) = arp_boot \<and> rib_holds 0 (n_rib (net st)) {} \<and> q_rd (n_defer (net st)) = 0 \<and> q_wr (n_defer (net st)) = 0 \<and>
     tcp_ok (n_tcp (net st)) \<and> unbound own_addr (n_udp (net st))"





lemma config_ok:
  assumes st: "boot_ok st" and mac: "length (el_mac (ether_if (n_eth (net st)))) = 6" and P: "peers_ok 0 P"
  obtains n where "ip_config sendto 0 own_ip 4294967040 (net st) = Some (0, n)"
    "warming {own_route} P (ether_if (n_eth (net st))) own_ip (unbound own_addr) (0, False) (st\<lparr>net := n\<rparr>)"
proof -
  let ?E = "ether_if (n_eth (net st))"
  have w: "in_window 0 (own_ip AND 4294967040)" "in_window 0 own_ip" "own_ip \<noteq> 0" "own_ip AND 4294967040 = 167772160"
    by (simp_all add: own_ip_def in_window_def)
  have r: "rib_holds 0 (n_rib (net st)) {}" "\<forall>q \<in> {}. r_network q \<noteq> own_ip AND 4294967040 \<longrightarrow> r_iface q \<noteq> own_ip"
    "(\<exists>q \<in> {}. r_network q = own_ip AND 4294967040) \<or> card ({} :: ip_route set) < XSTACK_IP_RIB_SIZE"
    using st by (simp_all add: boot_ok_def XSTACK_IP_RIB_SIZE_def)
  obtain arp where arp: "arp_cache_insert own_ip (el_mac ?E) ARP_CACHE_STATIC (n_arp (net st)) = Some (Inr (), arp)" "cache_warm own_ip (el_mac ?E) 0 arp"
    using boot_insert [OF w(3,2), of "el_mac ?E"] st by (auto simp: boot_ok_def)
  obtain est' rib' where c: "ip_config sendto 0 own_ip 4294967040 (net st) = Some (0, (net st)\<lparr>n_eth := est', n_arp := arp, n_rib := rib'\<rparr>)"
    "rib_holds 0 rib' (insert \<lparr>r_network = own_ip AND 4294967040, r_netmask = 4294967040, r_gw = 0, r_iface = own_ip, r_iface_handle = 0\<rparr>
       {q \<in> {}. r_network q \<noteq> own_ip AND 4294967040})" "ether_if est' = ?E"
    by (rule ip_config_ok [OF r(1) w(1,2) r(2,3) arp(1) mac])
  have "arp_map arp_fresh = Map.empty" by (auto simp: arp_map_def arp_slot_None arp_live_def arp_fresh_def)
  then have "arp_peers P 0 arp_fresh" by (simp add: arp_peers_def)
  moreover have "deferred_ok 0 (n_defer (net st))" using st
    by (simp add: boot_ok_def deferred_ok_def defer_wf_def defer_slots_def defer_count_def XSTACK_IP_DEFER_MAX_def)
  ultimately have "warming {own_route} P ?E own_ip (unbound own_addr) (0, False) (st\<lparr>net := (net st)\<lparr>n_eth := est', n_arp := arp, n_rib := rib'\<rparr>\<rparr>)"
    using st c(2,3) arp(2) mac P arp_fresh_inv by (simp add: warming_def boot_ok_def net_safe_def net_ok_def in_window_def w(4))
  then show thesis using that [OF c(1)] by simp
qed





text \<open>C38: The states of the program. \<^verbatim>\<open>xstack_start\<close> in a stopped program binds the socket, with empty queues, and the state
  becomes \<^verbatim>\<open>XSTACK_RUNNING\<close>. A second start is refused with \<^verbatim>\<open>EALREADY\<close>, but has then already replaced the handle of the interface.
  While the program runs, a turn of either thread does not end it; \<^verbatim>\<open>xstack_stop\<close> ends both, in the next turn
  of each, and the state is \<^verbatim>\<open>XSTACK_STOPPED\<close>. The socket stays bound: the next start finds its address in use, and the
  program exits with 1. The frame of the turn is none of ARP or IP, and the ARP cache may be the zeroed one
  of the start or a consistent one.\<close>

theorem xstack_start_stop:
  assumes st: "warming R P E ip (unbound A) c st" "get_state st = XSTACK_STOPPED" "shm 0"
    and ev: "\<forall>ev \<in> set evs. event_ok P ev" "filter (from_others E) evs = e # es" "quiet e"
  shows "\<exists>st1 st2. xstack_start mypid shm True True 0 st = Some (Inr 0, st1) \<and> get_state st1 = XSTACK_RUNNING \<and> warming R P E ip (idle A) c st1 \<and>
    (\<forall>handle. xstack_start mypid shm True True handle st1 =
       Some (Inr (-1), st1\<lparr>ether_handle := handle, net := set_errno EALREADY (net st1)\<rparr>)) \<and>
    (\<exists>evs' st'. xstack_ingress_thread sendto [(now, None)] evs st1 = Some (False, evs', st')) \<and>
    (\<exists>st'. xstack_egress_thread sendto [None] st1 = Some (False, st')) \<and>
    xstack_stop sendto (now # nows) (Suc m) evs st1 = Some st2 \<and> get_state st2 = XSTACK_STOPPED \<and> warming R P E ip (idle A) (warm_tick now c) st2 \<and>
    (\<exists>st3. xstack_start mypid shm True True 0 st2 = Some (Inl 1, st3))"
proof -
  have p: "port (A 0) \<le> XSTACK_SOCK_PORT_MAX" using st(1) by (simp add: warming_def net_safe_def unbound_def)
  have g: "get_state (set_state x y) = x" for x y by (simp add: get_state_def set_state_def)
  obtain st1 where s1: "xstack_start mypid shm True True 0 st = Some (Inr 0, st1)" "get_state st1 = XSTACK_RUNNING" "warming R P E ip (idle A) c st1"
    using start_ok [where shm = shm, OF st] by metis
  have again: "xstack_start mypid shm True True handle st1 = Some (Inr (-1), st1\<lparr>ether_handle := handle, net := set_errno EALREADY (net st1)\<rparr>)" for handle
    using s1(2) by (simp add: xstack_start_def get_state_def Let_def)
  obtain evs' t1 where t: "ingress_turn sendto now evs st1 = Some (evs', t1)" using warming_turn [OF s1(3) ev] by metis
  then have "get_state t1 = XSTACK_RUNNING" using ingress_turn_state [OF t] s1(2) by (simp add: get_state_def)
  then have on: "xstack_ingress_thread sendto [(now, None)] evs st1 = Some (False, evs', t1)" using t by (simp add: other_writes_def Let_def)
  have on': "xstack_egress_thread sendto [None] st1 = Some (False, st1)"
    using warming_egress [OF s1(3)] s1(2) by (simp add: other_writes_def get_state_def Let_def)
  have "warming R P E ip (idle A) c (set_state XSTACK_DYING st1)" using s1(3) by simp
  then obtain evs2 t2 where t2: "ingress_turn sendto now evs (set_state XSTACK_DYING st1) = Some (evs2, t2)" "warming R P E ip (idle A) (warm_tick now c) t2"
    using warming_turn [OF _ ev] by metis
  let ?st2 = "set_state XSTACK_STOPPED t2"
  have stop: "xstack_stop sendto (now # nows) (Suc m) evs st1 = Some ?st2" using dying_threads [OF t2(1) warming_egress [OF t2(2)]] by simp
  have w2: "warming R P E ip (idle A) (warm_tick now c) ?st2" using t2(2) by simp
  obtain st3 where "xstack_start mypid shm True True 0 ?st2 = Some (Inl 1, st3)" using restart_refused [where shm = shm, OF w2 g st(3) p] .
  then show ?thesis using s1 again on on' stop w2 g by blast
qed

definition example_boot :: stack where
  "example_boot = stack_boot\<lparr>net := net_boot\<lparr>n_arp := arp_boot, n_eth := (n_eth net_boot)\<lparr>ether_next_handle := 0\<rparr>\<rparr>\<rparr>"



lemma example_boot_ok: "boot_ok example_boot" "ether_next_handle (n_eth (net example_boot)) = 0" "os_calls example_boot = []"
  "peers_ok 0 {own_ip, 0x0a000000}"
proof -
  have "rib_holds 0 (n_rib net_boot) {}" using rib_init_inv by (auto simp: rib_holds_def net_boot_def)
  moreover have "tcp_ok tcp_boot" using rb_tree_init [of "tcp_conn_map tcp_boot"] by (auto simp: tcp_ok_def tcp_boot_def RB_INIT_def)
  moreover have "unbound own_addr udp_boot"
    using udp_inv_boot by (simp add: unbound_def udp_boot_def example_sock_def own_ip_def port_ok_def XSTACK_SOCK_PORT_MAX_def)
  ultimately show "boot_ok example_boot"
    by (simp add: boot_ok_def example_boot_def stack_boot_def get_state_def net_boot_def)
  show "peers_ok 0 {own_ip, 0x0a000000}" by (simp add: peers_ok_def own_ip_def in_window_def XSTACK_ARP_CACHE_SIZE_def card_insert_if)
qed (simp_all add: example_boot_def stack_boot_def)



lemma xstack_start_stop_witness:
  "\<exists>st st1 st2. warming {own_route} {own_ip, 0x0a000000} example_if own_ip (unbound own_addr) (0, False) st \<and>
     xstack_start 1 (\<lambda>_. True) True True 0 st = Some (Inr 0, st1) \<and> get_state st1 = XSTACK_RUNNING \<and>
     xstack_stop (\<lambda>w f. Inr 0) [80000] 1 [Inl EAGAIN] st1 = Some st2 \<and> get_state st2 = XSTACK_STOPPED"
proof -
  have e: "ether_if (n_eth (net example_boot)) = example_if" by (simp add: example_boot_def net_boot_def example_if_def)
  then have "length (el_mac (ether_if (n_eth (net example_boot)))) = 6" by (simp add: example_if_def)
  from config_ok [OF example_boot_ok(1) this example_boot_ok(4)] obtain n where
    w: "warming {own_route} {own_ip, 0x0a000000} example_if own_ip (unbound own_addr) (0, False) (example_boot\<lparr>net := n\<rparr>)" unfolding e by metis
  have s: "get_state (example_boot\<lparr>net := n\<rparr>) = XSTACK_STOPPED" by (simp add: example_boot_def stack_boot_def get_state_def)
  have "\<forall>ev \<in> set [Inl EAGAIN]. event_ok {own_ip, 0x0a000000} ev" "filter (from_others example_if) [Inl EAGAIN] = Inl EAGAIN # []" "quiet (Inl EAGAIN)"
    by (simp_all add: event_ok_def from_others_def quiet_def)
  from xstack_start_stop [OF w s _ this, of "\<lambda>_. True" 1 "\<lambda>w f. Inr 0" 80000 "[]" 0] show ?thesis using w by auto
qed

end
