(* ===== verification/Perf_Udp.thy ===== *)
theory Perf_Udp
  imports Socket
begin

text \<open>
  The load generator \<^verbatim>\<open>test/perf/udp.c\<close>, which runs on the host and sends datagrams to the stack without end. What the C library and the
  kernel answer is given: \<open>aton\<close> is \<^verbatim>\<open>inet_aton\<close>, \<open>s\<close> the result of \<^verbatim>\<open>socket\<close>, and \<open>results\<close> those of \<^verbatim>\<open>sendto\<close>, as far as the loop is
  looked at. The result is the status the program exits with, if it does, and the datagrams sent, with address and port as they stand in
  \<^verbatim>\<open>struct sockaddr_in\<close>, in network order.
\<close>

definition perf_buf :: bytes where
  "perf_buf = replicate 1400 0"

fun perf_loop :: "u32 \<times> u16 \<Rightarrow> int list \<Rightarrow> int option \<times> ((u32 \<times> u16) \<times> bytes) list" where
  "perf_loop dst [] = (None, [])"
| "perf_loop dst (r # results) =
     (if r = -1 then (Some 1, [])
      else let (status, out) = perf_loop dst results in (status, (dst, perf_buf) # out))"

definition perf_main :: "(string \<Rightarrow> u32 option) \<Rightarrow> int \<Rightarrow> int list \<Rightarrow> int option \<times> ((u32 \<times> u16) \<times> bytes) list" where
  "perf_main aton s results =
     (case aton ''10.0.0.2'' of
        None \<Rightarrow> (Some 1, [])
      | Some addr \<Rightarrow> if s = -1 then (Some 1, []) else perf_loop (addr, htons 10) results)"

lemma perf_loop_sends:
  "perf_loop dst results =
     (if -1 \<in> set results then Some 1 else None, replicate (length (takeWhile (\<lambda>r. r \<noteq> -1) results)) (dst, perf_buf))"
  by (induction results) auto

text \<open>It sends until a call fails, and all it sends is for the socket of the daemon.\<close>

lemma perf_main_sends:
  assumes "aton ''10.0.0.2'' = Some (htonl 0x0a000002)" "s \<noteq> -1" "perf_main aton s results = (status, out)"
  shows "status = (if -1 \<in> set results then Some 1 else None) \<and> length out = length (takeWhile (\<lambda>r. r \<noteq> -1) results) \<and>
    (\<forall>((a, p), data) \<in> set out. \<lparr>inet4_addr = ntohl a, port = uint (ntohs p)\<rparr> = sock_addr example_sock \<and> length data = 1400)"
  using assms by (auto simp: perf_main_def perf_loop_sends perf_buf_def example_sock_def)

lemma perf_main_fails: "aton ''10.0.0.2'' = None \<or> s = -1 \<Longrightarrow> perf_main aton s results = (Some 1, [])"
  by (auto simp: perf_main_def split: option.split)

end
