(* ===== verification/Spec2Isabelle.thy ===== *)
theory Spec2Isabelle
  imports Queue_R Queue_H Tree_H Linker_Set Tcp_Link Daemon Perf_Udp
begin

text \<open>
  Verification development for xstack.io, an IP stack that runs as a user process: a daemon with an ingress
  and an egress thread over a raw socket, and a client library that reaches the daemon through shared
  memory. File names are those of the repository's directory \<^verbatim>\<open>src/\<close>.

  \<^bold>\<open>The parts and how they interact.\<close> \<^verbatim>\<open>src/xstack.c\<close> starts two threads. The ingress thread takes a frame from
  \<^verbatim>\<open>src/linux/linux_ether.c\<close>, hands it through \<^verbatim>\<open>src/ether.c\<close> to \<^verbatim>\<open>arp_input\<close> (\<^verbatim>\<open>src/arp.c\<close>) or \<^verbatim>\<open>ip_input\<close>
  (\<^verbatim>\<open>src/ip.c\<close>), sends the reply a handler leaves in the buffer, and runs the periodic tasks. \<^verbatim>\<open>ip_input\<close> learns
  the sender's hardware address, looks the destination up in \<^verbatim>\<open>src/ip_route.c\<close>, collects fragments in
  \<^verbatim>\<open>src/ip_fragment.c\<close> and calls the handlers of \<^verbatim>\<open>src/icmp.c\<close>, \<^verbatim>\<open>src/tcp.c\<close> and \<^verbatim>\<open>src/udp.c\<close>; the last one puts a
  datagram into the socket of the client. The egress thread takes datagrams from the sockets and calls
  \<^verbatim>\<open>xstack_udp_send\<close>, which calls \<^verbatim>\<open>ip_send\<close>; that resolves the address through the ARP cache, leaves the packet
  in \<^verbatim>\<open>src/ip_defer.c\<close> while it is unknown, and fragments what does not fit a frame. The client calls
  \<^verbatim>\<open>xstack_recvfrom\<close> and \<^verbatim>\<open>xstack_sendto\<close> of \<^verbatim>\<open>lib/xstack.c\<close>. The tables are red-black trees of \<^verbatim>\<open>src/tree.h\<close>, the
  free routes a linked list of \<^verbatim>\<open>src/queue.h\<close>, the sockets use the lock-free rings of \<^verbatim>\<open>util/queue_r.c\<close>, and the handlers and tasks are
  collected in linker sets (\<^verbatim>\<open>include/linker_set.h\<close>).

  \<^bold>\<open>Conventions.\<close> A C function is a function on explicit state, a record for each component. Its result is an
  option where the function may fail to return: \<open>None\<close> is undefined behaviour (a NULL pointer, an access outside an
  object, a division by zero) or waiting for ever; error codes and \<^verbatim>\<open>errno\<close> are ordinary values. Integers have
  their width, addresses of elements are indices, buffers are lists of bytes on a little-endian host.
  Loops are structural recursion or \<open>partial_function (option)\<close>; that a loop ends is part of every theorem that
  states a result \<open>Some\<close>.

  \<^bold>\<open>The theories.\<close>
  \<^item> \<open>Xs_Prelude\<close>, \<open>Wire\<close>, \<open>Memcmp\<close>, \<open>Sockaddr\<close>: C integers, byte order, access to buffers, \<^verbatim>\<open>memcmp\<close>, the helpers of
    \<^verbatim>\<open>include/xstack_util.h\<close>, socket addresses.
  \<^item> \<open>Fifo_Spec\<close>: the contracts of the two rings, the locales \<open>fifo_ring\<close>, \<open>bounded_fifo\<close>, which extends it, and \<open>bounded_store\<close>, for a
    ring that answers every push and keeps the data.
  \<^item> \<open>Queue_R\<close>: every function of \<^verbatim>\<open>util/queue_r.c\<close>. The ring is a bounded FIFO; with one producer and one consumer
    in any interleaving nothing is lost, reordered or overwritten while it may be read.
  \<^item> \<open>Tree_RB\<close>, \<open>Tree_Refine\<close>, \<open>Tree_Balance\<close>, \<open>Tree_Remove\<close>, \<open>Tree_Traverse\<close>, \<open>Tree_Order\<close>: the \<open>RB_\<close> macros of \<^verbatim>\<open>src/tree.h\<close> on
    pointers; a heap represents a tree with a context (a zipper); insertion and removal refine those of the
    ordered sequence, keep the red-black conditions and end; lookups and traversal. The
    locale \<open>key_order\<close> gives a user of the trees the operations of a set of elements with distinct keys; it is
    interpreted for the comparison function of every user.
  \<^item> \<open>Splay_Tree\<close>, \<open>Splay_Refine\<close>, \<open>Splay_Spec\<close>, \<open>Tree_H\<close>: the \<open>SPLAY_\<close> macros on pointers; the splay loop is a function on trees that
    keeps the order. The locale \<open>ordered_tree\<close> is the contract of both kinds of trees, interpreted for both: they answer as a
    finite map does. The height bound, after any operations on a red-black tree.
  \<^item> \<open>Slots\<close>, \<open>Slist\<close>, \<open>Stailq\<close>, \<open>Tailq\<close>, \<open>Queue_H\<close>: the four kinds of lists of \<^verbatim>\<open>src/queue.h\<close> on next, back and tail pointers. The locale
    \<open>linked_list\<close> is their contract, interpreted for all four: any sequence of operations does what it does on lists. The
    locales \<open>list_checks\<close> and \<open>tailq_checks\<close> say what is asked of the consistency checks in the macros.
  \<^item> \<open>Linker_Set\<close>: the loops over linker sets, which are the searches and iterations in lists the other theories have.
  \<^item> \<open>Checksum\<close>, \<open>Ether_Fcs\<close>: the Internet checksum and the frame check sequence, equal to their reference
    definitions.
  \<^item> \<open>Ether\<close>, \<open>Linux_Ether\<close>: \<^verbatim>\<open>src/ether.c\<close> and \<^verbatim>\<open>src/linux/linux_ether.c\<close>; the frame that is sent is the frame that is received, and
    opening an interface makes the calls it should and closes the socket on failure.
  \<^item> \<open>Ip_Hdr\<close>, \<open>Ip_Route\<close>, \<open>Arp\<close>, \<open>Ip_Defer\<close>, \<open>Ip_Fragment\<close>: headers, the routing table (a set of routes), the ARP cache (a
    map), the ring of deferred packets (a bounded FIFO with the data) and reassembly (safety for any order of fragments,
    completion, buffers, timer).
  \<^item> \<open>Socket\<close>, \<open>Udp\<close>, \<open>Tcp\<close>, \<open>Icmp\<close>: sockets in shared memory with both ends, datagram delivery and binding, the
    connection table of TCP as a map from pairs of addresses, its state machine with the order in which states are reached, echo and
    unreachable messages.
  \<^item> \<open>Ip_Send\<close>, \<open>Ip_Output\<close>: \<^verbatim>\<open>ip_send\<close>, fragmentation and the handler of deferred packets; every branch of
    \<^verbatim>\<open>ip_send\<close> and the fragments on the wire.
  \<^item> \<open>Ip_Net\<close>: \<^verbatim>\<open>ip_input\<close>, \<^verbatim>\<open>ip_fragment_input\<close> and \<^verbatim>\<open>arp_input\<close>; the packets of the fragments, given to \<^verbatim>\<open>ip_input\<close> of another stack,
    are put together to what was sent.
  \<^item> \<open>Xstack\<close>: the threads, tasks, start and stop of the daemon, and \<^verbatim>\<open>main\<close>.
  \<^item> \<open>Dyndebug\<close>, \<open>Unetcat\<close>, \<open>Perf_Udp\<close>: \<^verbatim>\<open>src/dyndebug.c\<close>, \<^verbatim>\<open>src/logger.h\<close> and \<^verbatim>\<open>util/ip_util.c\<close>; the client \<^verbatim>\<open>examples/unetcat.c\<close>; the load generator
    \<^verbatim>\<open>test/perf/udp.c\<close>.
  \<^item> \<open>Ingress\<close>: the ingress thread never gets stuck, and the invariant of the whole state that it keeps.
  \<^item> \<open>Turn\<close>, \<open>Tcp_Link\<close>: what a turn of the ingress thread does with an IP packet in a frame; the handshake and the end of a TCP connection from
    frame to frame.
  \<^item> \<open>System\<close>: the two threads and the clients as one step relation. In any run the datagrams of the link reach the clients in order, none
    is lost, and nothing stands still.
  \<^item> \<open>Boot\<close>: the first turns, with the ARP cache as static storage has it, until its unused entries are free and the invariant of \<open>System\<close> holds.
  \<^item> \<open>Daemon\<close>: \<^verbatim>\<open>main\<close> from static storage and the opening of the interface to its closing, with the configuration of the address, both threads
    in any order, and the stop; starting and stopping.
  \<^item> This theory: a ping that arrives in a frame is answered in a frame, and a datagram in a frame reaches the
    client.

  \<^bold>\<open>Bounds.\<close> \<open>ip_input\<close> has the depth of its calls through \<^verbatim>\<open>ip_fragment_input\<close> as an argument, and two are enough
  (\<open>ip_input_depth\<close>: any third call, with or without a result, leaves the result as it is). The comparison functions of routes and ARP entries subtract unsigned addresses, which orders
  them only within half of the address space: the theorems ask for a window of addresses that starts at
  \<open>lo\<close> (\<open>in_window\<close>), and \<open>network_cmp_cyclic\<close> shows that some bound is needed. The comparison of TCP connections adds two results of \<^verbatim>\<open>memcmp\<close>, which orders them only when local and remote addresses
  have the same order: the theorems about connections ask for a set of address pairs with that property (\<open>addr_chain\<close>, for example
  all clients of one local port), and \<open>tcp_conn_cmp_confuses\<close> shows that some restriction is needed. Reassembly is proved for
  packets of up to 16384 bytes, because the bitmap is cleared only that far. The theorems about sending and receiving
  start from a consistent ARP cache (for example \<open>arp_fresh\<close>, all entries free); the zeroed cache the program starts with is
  not consistent (\<open>arp_boot_loses_first\<close>). It becomes so when the periodic update frees the zeroed entries, if no address is entered
  before: \<open>daemon_runs_and_stops\<close> begins with the zeroed cache and goes through that phase. \<open>fragmentation_roundtrip\<close> hands the packets
  of the frames to \<^verbatim>\<open>ip_input\<close>; the frames themselves are dropped, because with padding and check sequence they are longer than their packets
  (\<open>own_frames_dropped\<close>). The theorems of \<open>Ingress\<close>, \<open>System\<close> and \<open>Daemon\<close> hold for readings of the clock up to \<^verbatim>\<open>ARP_CACHE_AGE_MAX\<close>
  seconds after the start, or in \<open>Daemon\<close> after the zeroed entries are free, because an older entry is freed without being taken out of its
  tree. What a client sends has at most 4072 bytes: \<^verbatim>\<open>xstack_sendto\<close> accepts up to 4096, which overrun their block (\<open>sendto_overruns\<close>).

  \<^bold>\<open>Parameters.\<close> The kernel's \<^verbatim>\<open>sendto\<close> is a function of the frames sent so far and the new one, with the hypothesis
  that error numbers are positive and counts are not negative (\<open>sendto_ok\<close>); the frames \<^verbatim>\<open>recvfrom\<close> returns, the
  readings of the clock, and the results of opening and mapping files and of creating threads are arguments. The threads read the state that
  \<^verbatim>\<open>set_state\<close> has written; what another thread writes during a turn is an argument of the thread.

  The checks \<^verbatim>\<open>QMD_LIST_CHECK_NEXT\<close> and so on and \<^verbatim>\<open>__containerof\<close>, which \<^verbatim>\<open>src/queue.h\<close> uses and the repository does not define, are the
  parameters \<open>qmd\<close> and \<open>containerof\<close>: a check that finds nothing wrong has no effect. The answers of the kernel in \<^verbatim>\<open>ether_init\<close> are the
  record \<open>ether_os\<close>. The address of the local variable of the splay operation is the parameter \<open>node\<close>, the address of no element.

  \<^bold>\<open>Simplifications.\<close> \<^verbatim>\<open>memcmp\<close> is the difference of the first bytes that differ, of which C fixes only the sign; only \<open>tcp_conn_cmp_confuses\<close>
  depends on more. The structure with the address of the link that \<^verbatim>\<open>ether_send\<close> builds for \<^verbatim>\<open>sendto\<close> (\<^verbatim>\<open>src/linux/linux_ether.c\<close>, lines 243 to 254)
  is not part of the model, which has the bytes of the frame. \<^verbatim>\<open>delta_time\<close> is an integer without bound. The padding of the keys of
  \<^verbatim>\<open>packet_buf_cmp\<close> is zero, as the \<^verbatim>\<open>memset\<close> before leaves it. \<open>rb_erase_op\<close> returns the element it was given, as \<^verbatim>\<open>RB_REMOVE\<close> does.

  \<^bold>\<open>Not modelled.\<close> The arguments of log messages at the places that print them, which change no state; the debugging variant of \<^verbatim>\<open>src/queue.h\<close>, which nothing enables; memory
  reordering between the threads, and in \<open>System\<close> the interleaving of their single accesses (on the rings it is in \<open>Queue_R\<close>; the
  egress thread shares nothing else, because it refuses every datagram, \<open>sendto_not_transmitted\<close>). \<open>ingress_thread_never_stuck\<close> leaves out
  the inputs on which the code does fail, which its hypotheses name: fragments, whose place in the buffer the code does not bound,
  headers longer than their packet, senders outside the window of addresses, and more senders than the cache holds.
\<close>

section \<open>From the link and back\<close>

text \<open>C2: A ping is answered on the wire. When the ingress thread receives a frame with an ICMP echo request to
  an address of ours, with or without options, one frame goes out, to the sender's hardware address. It
  holds the packet with source and destination exchanged, the same identification, length and data, and
  checksums of header and message that verify.\<close>

theorem ping_is_answered:
  assumes st: "net_ok lo R (net st)" "ether_handle st = 0" "length (rx_buffer st) = 1514" "now - timer_start st < 10"
    and link: "\<forall>w f. \<exists>k \<ge> 0. sendto w f = Inr k"
    and addr: "length dst = 6" "length src = 6" "el_mac (ether_if (n_eth (net st))) \<noteq> src"
    and h: "q \<in> R" "ip_dst h = r_iface q" "in_window lo (ip_src h)" "arp_room (n_arp (net st)) (ip_src h)"
      "acceptable h bsize" "\<not> ip_fragment_is_frag h" "ip_proto h = IP_PROTO_ICMP"
    and m: "icmp_load msg = Some m" "icmp_type m = ICMP_TYPE_ECHO_REQUEST" "length opts = ip_hdr_hlen h - 20"
      "bsize = ip_hdr_hlen h + length msg" "bsize \<le> 1500"
  shows "\<exists>reply st' n c c'.
    ingress_turn sendto now [Inr (dst @ src @ store16 (htons ETHER_PROTO_IPV4) @ ip_store (ip_swap h) @ opts @ msg)] st = Some ([], st') \<and>
    wire (n_eth (net st')) = wire (n_eth (net st)) @
      [ether_frame src (el_mac (ether_if (n_eth (net st)))) ETHER_PROTO_IPV4 reply] \<and>
    length reply = bsize \<and> ip_load reply = Some n \<and>
    fst (ip_ntoh n) = h\<lparr>ip_src := ip_dst h, ip_dst := ip_src h, ip_ttl := 64, ip_csum := c\<rparr> \<and>
    drop 20 reply = opts @ icmp_store (m\<lparr>icmp_type := ICMP_TYPE_ECHO_REPLY, icmp_csum := c'\<rparr>) @ drop 8 msg \<and>
    ip_checksum (take (ip_hdr_hlen h) reply) = 0 \<and> ip_checksum (drop (ip_hdr_hlen h) reply) = 0"
proof -
  let ?hl = "ip_hdr_hlen h" and ?eh = "\<lparr>h_dst = dst, h_src = src, h_proto = ETHER_PROTO_IPV4\<rparr>"
  let ?packet = "ip_store (ip_swap h) @ opts @ msg" and ?mac = "el_mac (ether_if (n_eth (net st)))"
  have hl: "20 \<le> ?hl" using h(5) by (simp add: acceptable_def)
  have m8: "8 \<le> length msg" using m(1) by (auto simp: icmp_load_def split: if_splits)
  have lp: "length ?packet = bsize" using m(3,4) hl by simp
  define rest where "rest = drop bsize (rx_buffer st)"
  have ml: "icmp_load (msg @ rest) = Some m" using m(1) m8 by (auto simp: icmp_load_def nth_append)
  have b: "?hl + 8 \<le> bsize" "bsize \<le> ?hl + length (msg @ rest)" using m(4) m8 by simp_all
  obtain payload' n arp c c' where r: "ip_input 2 sendto (Some ?eh) (ip_store (ip_swap h) @ opts @ msg @ rest) bsize (net st) =
      Some (int bsize, payload', (net st)\<lparr>n_arp := arp\<rparr>)" "ip_load payload' = Some n"
    "fst (ip_ntoh n) = h\<lparr>ip_src := ip_dst h, ip_dst := ip_src h, ip_ttl := 64, ip_csum := c\<rparr>"
    "drop 20 payload' = opts @ icmp_store (m\<lparr>icmp_type := ICMP_TYPE_ECHO_REPLY, icmp_csum := c'\<rparr>) @ drop 8 (msg @ rest)"
    "ip_checksum (take ?hl payload') = 0" "ip_checksum (take (bsize - ?hl) (drop ?hl payload')) = 0"
    using ip_input_ping [OF st(1) h ml m(2,3) b, of sendto ?eh] by blast
  have l20: "20 \<le> length payload'" using r(2) by (auto simp: ip_load_def split: if_splits)
  moreover have "length (drop 20 payload') = ?hl - 20 + (length msg + length rest)" unfolding r(4) using m(3) m8 by simp
  ultimately have lp': "length payload' = bsize + length rest" using m(4) hl by simp
  define reply where "reply = take bsize payload'"
  have "ip_load reply = Some n" using ip_load_read [OF r(2), of reply] b(1) hl lp' by (simp add: reply_def mem_read_def)
  moreover have "length reply = bsize" using lp' by (simp add: reply_def)
  moreover have "drop 20 reply = opts @ icmp_store (m\<lparr>icmp_type := ICMP_TYPE_ECHO_REPLY, icmp_csum := c'\<rparr>) @ drop 8 msg"
  proof -
    have "drop 20 reply = take (bsize - 20) (drop 20 payload')" by (simp add: reply_def drop_take)
    moreover have "bsize - 20 = length (opts @ icmp_store (m\<lparr>icmp_type := ICMP_TYPE_ECHO_REPLY, icmp_csum := c'\<rparr>) @ drop 8 msg)"
      using m(3,4) hl m8 by simp
    ultimately show ?thesis unfolding r(4) using m8 by simp
  qed
  moreover have "ip_checksum (take ?hl reply) = 0" using r(5) b(1) by (simp add: reply_def min_def)
  moreover have "ip_checksum (drop ?hl reply) = 0" using r(6) by (simp add: reply_def drop_take)
  moreover
  obtain k where "k \<ge> 0" "sendto (wire (n_eth (net st))) (ether_frame src ?mac ETHER_PROTO_IPV4 reply) = Inr k" using link by blast
  note turn = turn_receives(2) [where st = st and k = bsize and packet = ?packet and j = k, OF st(2-4) addr _ _ _ refl, unfolded lp]
  have "\<exists>st'. ingress_turn sendto now [Inr (dst @ src @ store16 (htons ETHER_PROTO_IPV4) @ ?packet)] st = Some ([], st') \<and>
      wire (n_eth (net st')) = wire (n_eth (net st)) @ [ether_frame src ?mac ETHER_PROTO_IPV4 reply]"
    unfolding ipv4_frame_def [symmetric] using turn [OF _ m(5)] r(1) b(1) m(5) lp' \<open>k \<ge> 0\<close>
      \<open>sendto (wire (n_eth (net st))) (ether_frame src ?mac ETHER_PROTO_IPV4 reply) = Inr k\<close> by (simp add: reply_def rest_def)
  ultimately show ?thesis using r(3) by blast
qed

lemma ping_is_answered_witness:
  "\<exists>rib arp u reply st'. net_ok 0 {example_route} (net (example_stack rib arp u)) \<and>
     ingress_turn (\<lambda>w f. Inr 0) 105 [Inr (replicate 6 2 @ replicate 6 8 @ store16 (htons ETHER_PROTO_IPV4) @
       ip_store (ip_swap example_ping) @ icmp_store \<lparr>icmp_type = 8, icmp_code = 0, icmp_csum = 0, icmp_rest = 1\<rparr> @ [5, 6])]
       (example_stack rib arp u) = Some ([], st') \<and>
     length (wire (n_eth (net st'))) = 1 \<and> length reply = 30 \<and> ip_checksum (take 20 reply) = 0 \<and> ip_checksum (drop 20 reply) = 0"
proof -
  let ?m = "\<lparr>icmp_type = 8, icmp_code = 0, icmp_csum = 0, icmp_rest = 1\<rparr>"
  obtain rib arp where n: "\<forall>u. net_ok 0 {example_route} (net (example_stack rib arp u))" "arp_room arp 0x0a000000"
    by (rule example_stack_ok)
  let ?st = "example_stack rib arp udp_boot"
  have p: "example_ping\<lparr>ip_proto := IP_PROTO_ICMP\<rparr> = example_ping" "ip_proto example_ping = IP_PROTO_ICMP" by (simp_all add: example_ping_def)
  have r: "ip_dst example_ping = r_iface example_route" "in_window 0 (ip_src example_ping)" "arp_room (n_arp (net ?st)) (ip_src example_ping)"
    using n(2) example_addr(4-6) [of IP_PROTO_ICMP] by (simp_all add: p example_stack_simps)
  have m: "icmp_load (icmp_store ?m @ [5, 6]) = Some ?m" "icmp_type ?m = ICMP_TYPE_ECHO_REQUEST"
    "length ([] :: bytes) = ip_hdr_hlen example_ping - 20" "30 = ip_hdr_hlen example_ping + length (icmp_store ?m @ [5, 6])" "30 \<le> (1500 :: nat)"
    by (simp_all add: icmp_consts example_hdr)
  have link: "\<forall>w f. \<exists>k \<ge> 0. (\<lambda>w f. Inr 0) w f = (Inr k :: int + int)" for w :: "bytes list" and f :: bytes by auto
  from ping_is_answered [OF n(1) [rule_format, of udp_boot] example_stack_simps(1-3) link example_addr(1,2) example_stack_simps(4) example_addr(3) r
      example_hdr(1,3) p(2) m]
  show ?thesis using n(1) [rule_format, of udp_boot] unfolding example_hdr(2) by (fastforce simp: example_stack_simps(5))
qed

text \<open>C5: A datagram from the link reaches the client. When the ingress thread receives a UDP datagram to the
  address and port of a bound socket whose queue is empty, no frame goes out, and \<^verbatim>\<open>xstack_recvfrom\<close> of the
  process that listens on the socket returns the data and the sender's address and port; no other socket
  is touched.\<close>

theorem udp_reaches_client:
  assumes st: "net_ok lo R (net st)" "ether_handle st = 0" "length (rx_buffer st) = 1514" "now - timer_start st < 10"
    and addr: "length dst = 6" "length src = 6" "el_mac (ether_if (n_eth (net st))) \<noteq> src"
    and h: "q \<in> R" "ip_dst h = r_iface q" "in_window lo (ip_src h)" "arp_room (n_arp (net st)) (ip_src h)"
      "acceptable h bsize" "\<not> ip_fragment_is_frag h" "ip_proto h = IP_PROTO_UDP"
    and m: "length opts = ip_hdr_hlen h - 20" "bsize = ip_hdr_hlen h + 8 + length data" "bsize \<le> 1500"
    and u: "udp_inv (n_udp (net st)) S" "\<forall>t \<in> S. pending (sock_shmem (sockets (n_udp (net st)) t)) []" "s \<in> S"
      "sock_addr (sockets (n_udp (net st)) s) = \<lparr>inet4_addr = ip_dst h, port = uint (ntohs (udp_dport u))\<rparr>"
  shows "\<exists>st' m'. ingress_turn sendto now
      [Inr (dst @ src @ store16 (htons ETHER_PROTO_IPV4) @ ip_store (ip_swap h) @ opts @ udp_store u @ data)] st = Some ([], st') \<and>
    wire (n_eth (net st')) = wire (n_eth (net st)) \<and>
    (\<forall>t. t = s \<or> sockets (n_udp (net st')) t = sockets (n_udp (net st)) t) \<and>
    xstack_recvfrom len 0 (sock_shmem (sockets (n_udp (net st')) s)) =
      Some (min (unat len) (length data), take (unat len) data,
        \<lparr>inet4_addr = ip_src h, port = uint (ntohs (udp_sport u))\<rparr>, m') \<and> pending m' []"
proof -
  let ?hl = "ip_hdr_hlen h" and ?eh = "\<lparr>h_dst = dst, h_src = src, h_proto = ETHER_PROTO_IPV4\<rparr>"
  let ?packet = "ip_store (ip_swap h) @ opts @ udp_store u @ data"
  let ?dst = "\<lparr>inet4_addr = ip_dst h, port = uint (ntohs (udp_dport u))\<rparr>"
  let ?src = "\<lparr>inet4_addr = ip_src h, port = uint (ntohs (udp_sport u))\<rparr>"
  have hl: "20 \<le> ?hl" using h(5) by (simp add: acceptable_def)
  have lp: "length ?packet = bsize" using m hl by simp
  define rest where "rest = drop bsize (rx_buffer st)"
  define msg where "msg = udp_store u @ data @ rest"
  have k: "udp_load msg = Some u" "?hl + 8 \<le> bsize" "bsize \<le> ?hl + length msg" "128 \<le> length msg"
    using m(2) ip_hdr_hlen_le [of h] st(3) by (simp_all add: msg_def rest_def)
  have p: "\<forall>t \<in> S. pending (sock_shmem (sockets (n_udp (net st)) t)) ((\<lambda>_. []) t) \<and> length ((\<lambda>_. []) t) < 3" using u(2) by simp
  have ex: "\<exists>t \<in> S. sock_addr (sockets (n_udp (net st)) t) = ?dst" using u(3,4) by blast
  have d: "take (bsize - ?hl - 8) (drop 8 msg) = data" using m(2) by (simp add: msg_def)
  obtain payload' arp ud t where r: "ip_input 2 sendto (Some ?eh) (ip_store (ip_swap h) @ opts @ msg) bsize (net st) =
      Some (0, payload', (net st)\<lparr>n_arp := arp, n_udp := ud\<rparr>)" "t \<in> S" "sock_addr (sockets (n_udp (net st)) t) = ?dst"
    "pending (sock_shmem (sockets ud t)) ([] @ [(?src, ?dst, data)])" "\<forall>t'. t' = t \<or> sockets ud t' = sockets (n_udp (net st)) t'"
    using udp_from_link [OF st(1) h k(1) m(1) k(2,3) m(3) k(4) u(1) p refl refl, of ?eh sendto] ex unfolding d by auto
  have "t = s" using find_udp_hit [OF u(1) r(2,3)] find_udp_hit [OF u(1,3,4)] by simp
  with r(4) have "pending (sock_shmem (sockets ud s)) [(?src, ?dst, data)]" by simp
  from recvfrom_ok [OF this, of len 0] obtain m' where m': "xstack_recvfrom len 0 (sock_shmem (sockets ud s)) =
      Some (min (unat len) (length data), take (unat len) data, ?src, m')" "pending m' []" by auto
  define st' where "st' = st\<lparr>rx_buffer := payload', delta_time := now - timer_start st, net := (net st)\<lparr>n_arp := arp, n_udp := ud\<rparr>\<rparr>"
  have "ingress_turn sendto now [Inr (dst @ src @ store16 (htons ETHER_PROTO_IPV4) @ ?packet)] st = Some ([], st')"
    unfolding ipv4_frame_def [symmetric] st'_def
    using turn_receives(1) [OF st(2-4) addr, of ?packet sendto 0 payload'] lp r(1) k(2) m(3) by (simp add: msg_def rest_def)
  moreover have "wire (n_eth (net st')) = wire (n_eth (net st))" "n_udp (net st') = ud" by (simp_all add: st'_def)
  ultimately show ?thesis using m' r(5) \<open>t = s\<close> by auto
qed

lemma udp_reaches_client_witness:
  "\<exists>rib arp u st' m'. net_ok 0 {example_route} (net (example_stack rib arp u)) \<and>
     ingress_turn (\<lambda>w f. Inr 0) 105 [Inr (replicate 6 2 @ replicate 6 8 @ store16 (htons ETHER_PROTO_IPV4) @
       ip_store (ip_swap (example_ping\<lparr>ip_proto := IP_PROTO_UDP\<rparr>)) @
       udp_store (udp_hton \<lparr>udp_sport = 9, udp_dport = 10, udp_len = 10, udp_csum = 0\<rparr>) @ [1, 2])]
       (example_stack rib arp u) = Some ([], st') \<and>
     xstack_recvfrom 100 0 (sock_shmem (sockets (n_udp (net st')) 0)) = Some (2, [1, 2], \<lparr>inet4_addr = 0x0a000000, port = 9\<rparr>, m')"
proof -
  let ?h = "example_ping\<lparr>ip_proto := IP_PROTO_UDP\<rparr>"
  let ?u = "udp_hton \<lparr>udp_sport = 9, udp_dport = 10, udp_len = 10, udp_csum = 0\<rparr>"
  obtain rib arp where n: "\<forall>u. net_ok 0 {example_route} (net (example_stack rib arp u))" "arp_room arp 0x0a000000"
    by (rule example_stack_ok)
  have "sock_proto (sockets udp_boot 0) = XIP_PROTO_UDP" by (simp add: udp_boot_def example_sock_def)
  then obtain ud where ud: "udp_inv ud {0}" "pending (sock_shmem (sockets ud 0)) []" "sock_addr (sockets ud 0) = sock_addr (sockets udp_boot 0)"
    by (rule xstack_init_ok [OF udp_inv_boot, of "\<lambda>_. True" 1]) (use example_port in \<open>simp_all add: sock_consts\<close>)
  let ?st = "example_stack rib arp ud"
  have r: "arp_room (n_arp (net ?st)) (ip_src ?h)" "ip_proto ?h = IP_PROTO_UDP" using n(2) by (simp_all add: example_addr example_stack_simps)
  have m: "length ([] :: bytes) = ip_hdr_hlen ?h - 20" "30 = ip_hdr_hlen ?h + 8 + length [1, 2 :: byte]" "30 \<le> (1500 :: nat)"
    by (simp_all add: example_hdr)
  have u: "udp_inv (n_udp (net ?st)) {0}" "\<forall>t \<in> {0}. pending (sock_shmem (sockets (n_udp (net ?st)) t)) []" "0 \<in> {0 :: nat}"
    "sock_addr (sockets (n_udp (net ?st)) 0) = \<lparr>inet4_addr = ip_dst ?h, port = uint (ntohs (udp_dport ?u))\<rparr>"
    using ud by (simp_all add: example_stack_simps example_ping_def udp_hton_def udp_boot_def example_sock_def)
  have t: "min (unat (100 :: size_t)) (length [1, 2 :: byte]) = 2" "take (unat (100 :: size_t)) [1, 2 :: byte] = [1, 2]" by simp_all
  have a: "\<lparr>inet4_addr = ip_src ?h, port = uint (ntohs (udp_sport ?u))\<rparr> = \<lparr>inet4_addr = 0x0a000000, port = 9\<rparr>"
    by (simp add: example_ping_def udp_hton_def)
  from udp_reaches_client [OF n(1) [rule_format, of ud] example_stack_simps(1-3) example_addr(1,2) example_stack_simps(4) example_addr(3)
      example_addr(4,5) r(1) example_udp_hdr(1,3) r(2) m u, of "\<lambda>w f. Inr 0" 100]
  show ?thesis unfolding a t append_Nil using n(1) by blast
qed

end
